(* ===== verification/Prelude.thy ===== *)
theory Prelude
  imports Main "HOL-Library.Word" "HOL-Library.Monad_Syntax"
begin

text \<open>
  The vocabulary shared by every component theory.

  \<^item> Machine integers.  \<open>u8\<close>, \<open>u32\<close> and \<open>u64\<close> are words of their width, so
    that \<open>+\<close>, \<open>-\<close> and \<open>*\<close> wrap exactly as release-profile Rust arithmetic does;
    a \<open>usize\<close> that indexes a slice is a natural number.
  \<^item> Panics.  A function that can panic returns an \<open>option\<close>; \<open>None\<close> is the
    panic (a failed \<open>assert!\<close>, \<open>debug_assert!\<close>, \<open>expect\<close>, an out-of-range
    index).  A Rust \<open>Option\<close> result inside such a function is a nested
    \<open>option\<close>.
  \<^item> Errors.  A Rust \<open>Result\<close> is a sum type: \<open>Inr\<close> is \<open>Ok\<close>, \<open>Inl\<close> is \<open>Err\<close>.
  \<^item> Reachability of a step relation, used by the theories that model
    interleavings.
\<close>

unbundle bit_operations_syntax

section \<open>Types\<close>

type_synonym u8 = "8 word"
type_synonym u32 = "32 word"
type_synonym u64 = "64 word"

abbreviation Ok :: "'a \<Rightarrow> 'e + 'a" where "Ok \<equiv> Inr"
abbreviation Err :: "'e \<Rightarrow> 'e + 'a" where "Err \<equiv> Inl"

named_theorems rust_arith \<open>characterisations of the checked and saturating integer operations\<close>
named_theorems panic_simps \<open>how a panicking program proceeds past a guard\<close>

section \<open>Panics\<close>

definition assert :: "bool \<Rightarrow> unit option" where
  "assert b = (if b then Some () else None)"

lemma assert_simps [simp, panic_simps]:
  "assert True = Some ()" "assert False = None"
  by (simp_all add: assert_def)

lemma assert_eq_Some [simp, panic_simps]: "assert b = Some u \<longleftrightarrow> b"
  by (simp add: assert_def)

lemma assert_bind [panic_simps]: "Option.bind (assert b) f = (if b then f () else None)"
  by simp

lemma assert_bind_Some [simp, panic_simps]:
  "Option.bind (assert b) f = Some x \<longleftrightarrow> b \<and> f () = Some x"
  by (cases b) simp_all

lemma assert_bind_holds [simp, panic_simps]: "b \<Longrightarrow> Option.bind (assert b) f = f ()"
  by simp

text \<open>Slice indexing panics out of range.\<close>

definition nth_opt :: "'a list \<Rightarrow> nat \<Rightarrow> 'a option" where
  "nth_opt xs i = (if i < length xs then Some (xs ! i) else None)"

definition upd_opt :: "'a list \<Rightarrow> nat \<Rightarrow> 'a \<Rightarrow> 'a list option" where
  "upd_opt xs i v = (if i < length xs then Some (xs[i := v]) else None)"

lemma nth_opt_Some [simp, panic_simps]: "nth_opt xs i = Some x \<longleftrightarrow> i < length xs \<and> xs ! i = x"
  by (simp add: nth_opt_def)

lemma nth_opt_in [simp, panic_simps]: "i < length xs \<Longrightarrow> nth_opt xs i = Some (xs ! i)"
  by simp

lemma upd_opt_Some [simp, panic_simps]: "upd_opt xs i v = Some ys \<longleftrightarrow> i < length xs \<and> ys = xs[i := v]"
  by (auto simp: upd_opt_def)

lemma upd_opt_in [simp, panic_simps]: "i < length xs \<Longrightarrow> upd_opt xs i v = Some (xs[i := v])"
  by simp

lemma bind_Some_iff: "Option.bind m f = Some y \<longleftrightarrow> (\<exists>x. m = Some x \<and> f x = Some y)"
  by (cases m) simp_all

lemma map_eq_by_Some: "(\<And>k v. f k = Some v \<longleftrightarrow> g k = Some v) \<Longrightarrow> f = g"
  by (rule ext) (metis not_None_eq)

section \<open>Integer operations of the standard library\<close>

definition checked_add :: "'a::len word \<Rightarrow> 'a word \<Rightarrow> 'a word option" where
  "checked_add x y = (if unat x + unat y < 2 ^ LENGTH('a) then Some (x + y) else None)"

definition checked_sub :: "'a::len word \<Rightarrow> 'a word \<Rightarrow> 'a word option" where
  "checked_sub x y = (if y \<le> x then Some (x - y) else None)"

definition checked_mul :: "'a::len word \<Rightarrow> 'a word \<Rightarrow> 'a word option" where
  "checked_mul x y = (if unat x * unat y < 2 ^ LENGTH('a) then Some (x * y) else None)"

definition saturating_add :: "'a::len word \<Rightarrow> 'a word \<Rightarrow> 'a word" where
  "saturating_add x y = (if unat x + unat y < 2 ^ LENGTH('a) then x + y else - 1)"

definition saturating_sub :: "'a::len word \<Rightarrow> 'a word \<Rightarrow> 'a word" where
  "saturating_sub x y = (if y \<le> x then x - y else 0)"

definition saturating_mul :: "'a::len word \<Rightarrow> 'a word \<Rightarrow> 'a word" where
  "saturating_mul x y = (if unat x * unat y < 2 ^ LENGTH('a) then x * y else - 1)"

definition is_power_of_two :: "'a::len word \<Rightarrow> bool" where
  "is_power_of_two w \<longleftrightarrow> w \<in> set (map (\<lambda>n. push_bit n 1) [0..<LENGTH('a)])"

definition checked_next_power_of_two :: "'a::len word \<Rightarrow> 'a word option" where
  "checked_next_power_of_two w = find (\<lambda>p. w \<le> p) (map (\<lambda>n. push_bit n 1) [0..<LENGTH('a)])"

definition div_ceil :: "'a::len word \<Rightarrow> 'a word \<Rightarrow> 'a word" where
  "div_ceil x y = (if 0 < x mod y then x div y + 1 else x div y)"

definition trailing_zeros :: "'a::len word \<Rightarrow> nat" where
  "trailing_zeros w = length (takeWhile (\<lambda>n. \<not> bit w n) [0..<LENGTH('a)])"

lemma checked_add_Some [rust_arith]:
  "checked_add x y = Some z \<longleftrightarrow> unat x + unat y < 2 ^ LENGTH('a) \<and> z = x + y"
  for x :: "'a::len word"
  by (auto simp: checked_add_def)

lemma checked_sub_Some [rust_arith]: "checked_sub x y = Some z \<longleftrightarrow> y \<le> x \<and> z = x - y"
  by (auto simp: checked_sub_def)

lemma checked_mul_Some [rust_arith]:
  "checked_mul x y = Some z \<longleftrightarrow> unat x * unat y < 2 ^ LENGTH('a) \<and> z = x * y"
  for x :: "'a::len word"
  by (auto simp: checked_mul_def)

lemma unat_add_small: "unat x + unat y < 2 ^ LENGTH('a) \<Longrightarrow> unat (x + y) = unat x + unat y"
  for x :: "'a::len word"
  by (simp add: unat_word_ariths)

lemma below_max_Suc: "w < - 1 \<Longrightarrow> unat (w + 1) = Suc (unat w)" for w :: "'a::len word"
  by (metis add.commute add_eq_0_iff2 less_irrefl unatSuc)

lemma below_max_less: "w < - 1 \<Longrightarrow> w < w + 1" for w :: "'a::len word"
  by (simp add: word_less_nat_alt [of w "w + 1"] below_max_Suc)

lemma unat_mul_small: "unat x * unat y < 2 ^ LENGTH('a) \<Longrightarrow> unat (x * y) = unat x * unat y"
  for x :: "'a::len word"
  by (simp add: unat_word_ariths)

lemma unat_sub_le: "y \<le> x \<Longrightarrow> unat (x - y) = unat x - unat y"
  for x :: "'a::len word"
  by (rule unat_sub)

lemma unat_power_of_two: "n < LENGTH('a) \<Longrightarrow> unat ((2 :: 'a::len word) ^ n) = 2 ^ n"
  using unsigned_of_nat [where 'b = 'a and 'a = nat, of "2 ^ n"]
  by (simp add: take_bit_eq_mod)

lemma unat_push_bit_1: "n < LENGTH('a) \<Longrightarrow> unat (push_bit n 1 :: 'a::len word) = 2 ^ n"
  by (simp add: push_bit_eq_mult unat_power_of_two)

lemma is_power_of_two_iff:
  "is_power_of_two w \<longleftrightarrow> (\<exists>n < LENGTH('a). unat w = 2 ^ n)" for w :: "'a::len word"
proof -
  have "(\<exists>n < LENGTH('a). w = push_bit n 1) \<longleftrightarrow> (\<exists>n < LENGTH('a). unat w = 2 ^ n)"
    by (metis unat_push_bit_1 word_unat_eq_iff)
  then show ?thesis
    by (auto simp: is_power_of_two_def)
qed

lemma is_power_of_two_exp: "n < LENGTH('a) \<Longrightarrow> is_power_of_two (2 ^ n :: 'a::len word)"
  by (auto simp: is_power_of_two_def push_bit_eq_mult)

lemma is_power_of_two_pos: "is_power_of_two w \<Longrightarrow> 0 < unat w"
  by (auto simp: is_power_of_two_iff)

lemma checked_next_power_of_two_Some:
  assumes "checked_next_power_of_two w = Some p"
  shows "is_power_of_two p" "w \<le> p"
  using assms
  by (auto simp: checked_next_power_of_two_def is_power_of_two_def find_Some_iff)

text \<open>Masking with a power of two less one is reduction modulo it.\<close>

lemma unat_and_decr_power_of_two:
  fixes m w :: "'a::len word"
  assumes "unat m = 2 ^ k" "k < LENGTH('a)"
  shows "unat (w AND (m - 1)) = unat w mod unat m"
proof -
  have "m = 2 ^ k"
    using assms unat_push_bit_1 [where 'a = 'a, of k] by (simp add: word_unat_eq_iff push_bit_eq_mult)
  then have "w AND (m - 1) = take_bit k w"
    by (simp add: take_bit_eq_mask mask_eq_exp_minus_1)
  then show ?thesis
    using assms by (simp add: unsigned_take_bit_eq flip: take_bit_eq_mod)
qed

lemma unat_Suc_power_of_two_mod:
  fixes m w :: "'a::len word"
  assumes "unat m = 2 ^ k" "k < LENGTH('a)"
  shows "unat ((w + 1) AND (m - 1)) = Suc (unat w) mod unat m"
proof -
  have "(2::nat) ^ k dvd 2 ^ LENGTH('a)"
    using assms by (intro le_imp_power_dvd) simp
  then have "unat (w + 1) mod 2 ^ k = (unat w + unat (1 :: 'a word)) mod 2 ^ k"
    by (simp add: unat_word_ariths mod_mod_cancel)
  then show ?thesis
    using unat_and_decr_power_of_two [OF assms] assms by simp
qed

lemma unat_sub_power_of_two_mod:
  fixes m x y :: "'a::len word"
  assumes "unat m = 2 ^ k" "k < LENGTH('a)" "unat y \<le> unat m"
  shows "unat ((x - y) AND (m - 1)) = (unat x + unat m - unat y) mod unat m"
proof -
  define d where "d = (2::nat) ^ (LENGTH('a) - k) - 1"
  have "(2::nat) ^ LENGTH('a) = 2 ^ k * 2 ^ (LENGTH('a) - k)"
    using assms(2) by (simp flip: power_add)
  also have "\<dots> = 2 ^ k + 2 ^ k * d"
    by (simp add: d_def algebra_simps)
  finally have split: "(2::nat) ^ LENGTH('a) = 2 ^ k + 2 ^ k * d" .
  have "unat (x - y) = (unat x + 2 ^ LENGTH('a) - unat y) mod 2 ^ LENGTH('a)"
  proof (cases "y \<le> x")
    case True
    then have "unat x + 2 ^ LENGTH('a) - unat y = unat (x - y) + 2 ^ LENGTH('a)"
      by (simp add: unat_sub_le word_le_nat_alt)
    then show ?thesis by simp
  next
    case False
    then have "unat (x - y) = unat x + 2 ^ LENGTH('a) - unat y"
      by (simp add: unat_sub_if' word_le_nat_alt)
    then show ?thesis
      by (metis mod_less unsigned_less)
  qed
  then have "unat (x - y) mod 2 ^ k = (unat x + 2 ^ LENGTH('a) - unat y) mod 2 ^ k"
    using assms(2) by (simp add: mod_mod_cancel le_imp_power_dvd)
  also have "\<dots> = ((unat x + 2 ^ k - unat y) + 2 ^ k * d) mod 2 ^ k"
    unfolding split using assms by (intro arg_cong [where f = "\<lambda>z. z mod 2 ^ k"]) simp
  finally show ?thesis
    using unat_and_decr_power_of_two [OF assms(1, 2)] assms(1) by simp
qed

lemma unat_ucast_64: "unat (ucast w :: u64) = unat w" for w :: u32
  by (simp add: unsigned_ucast_eq take_bit_nat_eq_self_iff less_trans [OF unsigned_less])

lemma unat_of_nat_below: "i < unat w \<Longrightarrow> unat (of_nat i :: 'a::len word) = i" for w :: "'a::len word"
  by (simp add: unsigned_of_nat take_bit_nat_eq_self_iff less_trans [OF _ unsigned_less [of w]])

lemma unat_and_le: "unat (x AND y) \<le> unat y" for x y :: "'a::len word"
  using word_and_le1 [of x y] by (simp add: word_le_nat_alt and.commute)

section \<open>Bits\<close>

lemma trailing_zeros_bit:
  fixes w :: "'a::len word"
  assumes "w \<noteq> 0"
  shows "bit w (trailing_zeros w)" "trailing_zeros w < LENGTH('a)" "n < trailing_zeros w \<Longrightarrow> \<not> bit w n"
proof -
  let ?xs = "takeWhile (\<lambda>n. \<not> bit w n) [0..<LENGTH('a)]"
  obtain k where k: "bit w k"
    using assms by (auto simp: bit_eq_iff)
  then have "k \<in> set [0..<LENGTH('a)]" "\<not> \<not> bit w k"
    using bit_imp_le_length [of w k] by auto
  then have "?xs \<noteq> [0..<LENGTH('a)]"
    by (metis set_takeWhileD)
  then have len: "length ?xs < length [0..<LENGTH('a)]"
    by (metis length_takeWhile_le le_neq_implies_less takeWhile_eq_all_conv
        takeWhile_eq_take take_all_iff order_refl)
  then show "trailing_zeros w < LENGTH('a)"
    by (simp add: trailing_zeros_def)
  show "bit w (trailing_zeros w)"
    using nth_length_takeWhile [OF len] len by (simp add: trailing_zeros_def)
  show "\<not> bit w n" if "n < trailing_zeros w"
  proof -
    have "n < length ?xs"
      using that by (simp add: trailing_zeros_def)
    moreover from this have "?xs ! n = n"
      using len by (simp add: takeWhile_nth)
    ultimately show ?thesis
      by (metis nth_mem set_takeWhileD)
  qed
qed

lemma bit_clear_lowest:
  fixes w :: "'a::len word"
  assumes "w \<noteq> 0"
  shows "bit (w AND (w - 1)) n \<longleftrightarrow> bit w n \<and> n \<noteq> trailing_zeros w"
proof -
  let ?k = "trailing_zeros w"
  note low = trailing_zeros_bit [OF assms]
  define c where "c = unset_bit ?k w"
  have w: "w = c + 2 ^ ?k"
    using low(1) by (simp add: c_def unset_bit_eq)
  have disj: "\<not> bit c n \<or> \<not> bit (mask ?k :: 'a word) n" for n
    using low(3) [of n] by (auto simp: c_def bit_simps)
  have "w - 1 = c + mask ?k"
    by (subst w) (simp add: mask_eq_exp_minus_1)
  also have "\<dots> = c OR mask ?k"
    using disj by (intro disjunctive_add_eq_or bit_word_eqI) (auto simp: bit_simps)
  finally have "bit (w AND (w - 1)) n \<longleftrightarrow> bit w n \<and> (bit c n \<or> bit (mask ?k :: 'a word) n)"
    by (simp add: bit_simps)
  then show ?thesis
    using low(3) [of n] bit_imp_le_length [of w n] by (auto simp: c_def bit_simps)
qed

lemma unat_div_ceil:
  fixes x y :: "'a::len word"
  assumes "0 < unat y" "Suc (unat x div unat y) < 2 ^ LENGTH('a)"
  shows "unat (div_ceil x y) = (unat x + unat y - 1) div unat y"
proof -
  let ?q = "unat x div unat y" and ?r = "unat x mod unat y"
  have q: "unat (x div y) = ?q" and r: "unat (x mod y) = ?r"
    by (simp_all add: unat_div unat_mod_distrib)
  have x: "unat x = unat y * ?q + ?r" and rlt: "?r < unat y"
    using assms(1) by simp_all
  show ?thesis
  proof (cases "?r = 0")
    case True
    then have "unat x + unat y - 1 = unat y * ?q + (unat y - 1)"
      using x assms(1) by simp
    then have "(unat x + unat y - 1) div unat y = ?q"
      by (simp only: div_mult_self4 [OF gr_implies_not0 [OF assms(1)]]) (use assms(1) in simp)
    then show ?thesis
      using True q r by (simp add: div_ceil_def word_less_nat_alt)
  next
    case False
    then have "unat x + unat y - 1 = unat y * Suc ?q + (?r - 1)"
      using x assms(1) by simp
    then have eq: "(unat x + unat y - 1) div unat y = Suc ?q"
      using assms(1) rlt by (simp add: div_mult_self4 del: mult_Suc_right)
    have "unat (x div y) + unat (1 :: 'a word) < 2 ^ LENGTH('a)"
      using assms(2) q by simp
    then have "unat (x div y + 1) = Suc ?q"
      using q by (simp add: unat_add_small)
    then show ?thesis
      using False r eq by (simp add: div_ceil_def word_less_nat_alt)
  qed
qed

section \<open>Lists\<close>

lemma length_filter_update:
  "i < length xs \<Longrightarrow> length (filter P (xs[i := y])) + (if P (xs ! i) then 1 else 0)
    = length (filter P xs) + (if P y then 1 else (0::nat))"
proof (induction xs arbitrary: i)
  case (Cons x xs)
  then show ?case
    by (cases i) auto
qed simp

lemma sum_list_map_update:
  "i < length xs \<Longrightarrow> sum_list (map g (xs[i := y])) + g (xs ! i) = sum_list (map g xs) + (g y :: nat)"
proof (induction xs arbitrary: i)
  case (Cons x xs)
  then show ?case
    by (cases i) auto
qed simp

lemma sum_list_member: "i < length xs \<Longrightarrow> g (xs ! i) \<le> sum_list (map g xs)" for g :: "'a \<Rightarrow> nat"
  by (rule member_le_sum_list) simp_all

lemma replicate_two: "replicate 2 x = [x, x]"
  by (simp add: numeral_2_eq_2)

section \<open>Reachability\<close>

inductive reachable :: "('s \<Rightarrow> bool) \<Rightarrow> ('s \<Rightarrow> 's \<Rightarrow> bool) \<Rightarrow> 's \<Rightarrow> bool" for start step where
  start: "start s \<Longrightarrow> reachable start step s"
| step: "reachable start step s \<Longrightarrow> step s s' \<Longrightarrow> reachable start step s'"

end
