(* ===== verification/Ident.thy ===== *)
theory Ident
  imports Prelude
begin

text \<open>
  Identities and small value types: \<open>FileId\<close>, \<open>OpToken\<close>, \<open>OpKind\<close>, \<open>SyncMode\<close>
  and \<open>FileHandle\<close> of \<open>driver.rs\<close>, \<open>PageId\<close> of \<open>pool/mod.rs\<close>, \<open>PoolToken\<close> of
  \<open>product.rs\<close>, the error values of \<open>error.rs\<close>.  The lemmas show that packing a
  slot and a generation into one word loses neither.
\<close>

section \<open>Errors\<close>

text \<open>\<open>std::io::Error\<close> as the crate uses it: a raw OS code, or a kind with a message.\<close>

datatype ErrorKind = Unsupported | OutOfMemory | OtherKind

datatype IoError = FromRaw int | FromKind ErrorKind string

fun raw_os_error :: "IoError \<Rightarrow> int option" where
  "raw_os_error (FromRaw errno) = Some errno"
| "raw_os_error (FromKind _ _) = None"

datatype FileRegistrationError = AtCapacity | Io IoError

datatype SubmitError = Full | StaleHandle

section \<open>Files and pages\<close>

record FileId =
  driver :: u64
  slot :: u32
  generation :: u32

definition FileId_new :: "u64 \<Rightarrow> u32 \<Rightarrow> u32 \<Rightarrow> FileId" where
  "FileId_new d s g = \<lparr>driver = d, slot = s, generation = g\<rparr>"

definition aliases_slot :: "FileId \<Rightarrow> FileId \<Rightarrow> bool option" where
  "aliases_slot self other = do {
     assert (driver self = driver other);
     Some (slot self = slot other)
   }"

record PageId =
  page_file :: FileId
  granule_idx :: u32

definition PageId_new :: "FileId \<Rightarrow> u32 \<Rightarrow> PageId" where
  "PageId_new f g = \<lparr>page_file = f, granule_idx = g\<rparr>"

section \<open>Operations\<close>

datatype OpKind = Read | Write | Fsync

datatype SyncMode = Data | FullSync

datatype OpToken = OpToken (user_data: u64)

definition OpToken_new :: "u32 \<Rightarrow> u32 \<Rightarrow> OpToken" where
  "OpToken_new s g = OpToken (push_bit 32 (ucast g) OR ucast s)"

definition OpToken_slot :: "OpToken \<Rightarrow> u32" where
  "OpToken_slot t = ucast (user_data t AND 0xFFFFFFFF)"

datatype PoolToken = PoolToken (pool_token_word: u64)

definition PoolToken_new :: "u32 \<Rightarrow> u32 \<Rightarrow> PoolToken" where
  "PoolToken_new s g = PoolToken (push_bit 32 (ucast g) OR ucast s)"

section \<open>Packing is lossless\<close>

lemma pack_low: "(ucast ((push_bit 32 (ucast g) OR ucast s :: u64) AND 0xFFFFFFFF) :: u32) = s"
  for g s :: u32
proof -
  have low: "(0xFFFFFFFF :: u64) = mask 32"
    by (simp add: mask_eq_exp_minus_1)
  show ?thesis
    unfolding low by (auto intro!: bit_word_eqI simp: bit_simps)
qed

lemma pack_high: "(ucast (drop_bit 32 (push_bit 32 (ucast g) OR ucast s :: u64)) :: u32) = g"
  for g s :: u32
proof -
  have "\<not> bit s (32 + n)" for n
    using bit_imp_le_length [of s "32 + n"] by auto
  then show ?thesis
    by (auto intro!: bit_word_eqI simp: bit_simps)
qed

lemma pack_inject:
  "(push_bit 32 (ucast g) OR ucast s :: u64) = push_bit 32 (ucast g') OR ucast s' \<longleftrightarrow> g = g' \<and> s = s'"
  for g s g' s' :: u32
  by (metis pack_low pack_high)

lemma OpToken_new_inject [simp]: "OpToken_new s g = OpToken_new s' g' \<longleftrightarrow> s = s' \<and> g = g'"
  by (auto simp: OpToken_new_def pack_inject)

lemma OpToken_slot_new [simp]: "OpToken_slot (OpToken_new s g) = s"
  by (simp add: OpToken_new_def OpToken_slot_def pack_low)

lemma PoolToken_new_inject [simp]: "PoolToken_new s g = PoolToken_new s' g' \<longleftrightarrow> s = s' \<and> g = g'"
  by (auto simp: PoolToken_new_def pack_inject)

end
