(* ===== verification/Probing.thy ===== *)
theory Probing
  imports Prelude
begin

text \<open>
  Linear probing over a circular array of optional entries, at the level of
  lists: cyclic distance, the probe-chain invariant, what a probe finds, and why
  backward-shift deletion repairs the chains.  \<open>Table\<close> instantiates it with the
  page table's cells.
\<close>

type_synonym ('k, 'v) slots = "('k \<times> 'v) option list"

section \<open>Cyclic distance\<close>

definition cdist :: "nat \<Rightarrow> nat \<Rightarrow> nat \<Rightarrow> nat" where
  "cdist n a b = (if a \<le> b then b - a else b + n - a)"

definition cnext :: "nat \<Rightarrow> nat \<Rightarrow> nat" where
  "cnext n i = (if Suc i = n then 0 else Suc i)"

lemma cnext_less: "i < n \<Longrightarrow> cnext n i < n"
  by (auto simp: cnext_def)

lemma cnext_mod: "i < n \<Longrightarrow> Suc i mod n = cnext n i"
  by (auto simp: cnext_def)

lemma cdist_less: "a < n \<Longrightarrow> b < n \<Longrightarrow> cdist n a b < n"
  by (auto simp: cdist_def)

lemma cdist_0_iff: "a < n \<Longrightarrow> b < n \<Longrightarrow> cdist n a b = 0 \<longleftrightarrow> a = b"
  by (auto simp: cdist_def)

lemma cdist_inject: "a < n \<Longrightarrow> b < n \<Longrightarrow> c < n \<Longrightarrow> cdist n a b = cdist n a c \<longleftrightarrow> b = c"
  by (auto simp: cdist_def)

lemma cdist_mod: "a < n \<Longrightarrow> b < n \<Longrightarrow> (b + n - a) mod n = cdist n a b"
  by (auto simp: cdist_def le_mod_geq)

lemma cdist_next:
  "a < n \<Longrightarrow> b < n \<Longrightarrow> a \<noteq> b \<Longrightarrow> Suc (cdist n (cnext n a) b) = cdist n a b"
  by (auto simp: cdist_def cnext_def)

lemma cdist_to_next:
  "a < n \<Longrightarrow> b < n \<Longrightarrow> Suc (cdist n a b) < n \<Longrightarrow> cdist n a (cnext n b) = Suc (cdist n a b)"
  by (auto simp: cdist_def cnext_def split: if_splits)

text \<open>\<open>p\<close> lies on the chain from \<open>h\<close> up to, but excluding, \<open>i\<close>.\<close>

definition on_chain :: "nat \<Rightarrow> nat \<Rightarrow> nat \<Rightarrow> nat \<Rightarrow> bool" where
  "on_chain n h i p \<longleftrightarrow> cdist n h p < cdist n h i"

lemma on_chain_gap:
  assumes "h < n" "g < n" "s < n" "g \<noteq> s"
  shows "on_chain n h s g \<longleftrightarrow> cdist n g h = 0 \<or> cdist n g h > cdist n g s"
  using assms by (auto simp: on_chain_def cdist_def)

lemma on_chain_prefix:
  assumes "h < n" "g < n" "s < n" "p < n" "on_chain n h s g" "on_chain n h g p"
  shows "on_chain n h s p" "p \<noteq> g" "p \<noteq> s"
  using assms by (auto simp: on_chain_def)

lemma on_chain_between:
  assumes "h < n" "g < n" "s < n" "i < n" "on_chain n h i g" "cdist n g s < cdist n g i"
  shows "on_chain n h i s"
  using assms by (auto simp: on_chain_def cdist_def split: if_splits)

section \<open>The table invariant\<close>

definition chains :: "('k \<Rightarrow> nat) \<Rightarrow> ('k, 'v) slots \<Rightarrow> bool" where
  "chains home es \<longleftrightarrow>
     (\<forall>i k v p. i < length es \<and> es ! i = Some (k, v) \<and> p < length es
        \<and> on_chain (length es) (home k) i p \<longrightarrow> es ! p \<noteq> None)"

definition unique :: "('k, 'v) slots \<Rightarrow> bool" where
  "unique es \<longleftrightarrow>
     (\<forall>i j k v w. i < length es \<and> j < length es
        \<and> es ! i = Some (k, v) \<and> es ! j = Some (k, w) \<longrightarrow> i = j)"

definition has_key :: "'k \<Rightarrow> ('k \<times> 'v) option \<Rightarrow> bool" where
  "has_key k e = (case e of None \<Rightarrow> False | Some (k', _) \<Rightarrow> k' = k)"

definition content :: "('k, 'v) slots \<Rightarrow> 'k \<rightharpoonup> 'v" where
  "content es k = (case find (has_key k) es of Some (Some (_, v)) \<Rightarrow> Some v | _ \<Rightarrow> None)"

definition vacant :: "('k, 'v) slots \<Rightarrow> bool" where
  "vacant es \<longleftrightarrow> None \<in> set es"

lemma uniqueI:
  "(\<And>i j k v w. i < length es \<Longrightarrow> j < length es \<Longrightarrow> es ! i = Some (k, v) \<Longrightarrow> es ! j = Some (k, w)
     \<Longrightarrow> i = j) \<Longrightarrow> unique es"
  unfolding unique_def by blast

lemma uniqueD:
  "unique es \<Longrightarrow> i < length es \<Longrightarrow> j < length es \<Longrightarrow> es ! i = Some (k, v) \<Longrightarrow> es ! j = Some (k, w)
     \<Longrightarrow> i = j"
  unfolding unique_def by blast

lemma content_Some_iff:
  assumes "unique es"
  shows "content es k = Some v \<longleftrightarrow> (\<exists>i < length es. es ! i = Some (k, v))"
proof
  assume "content es k = Some v"
  then show "\<exists>i < length es. es ! i = Some (k, v)"
    by (auto simp: content_def find_Some_iff has_key_def split: option.splits)
next
  assume "\<exists>i < length es. es ! i = Some (k, v)"
  then obtain i where i: "i < length es" "es ! i = Some (k, v)" by blast
  obtain e where e: "find (has_key k) es = Some e"
    using i by (cases "find (has_key k) es") (auto simp: find_None_iff has_key_def in_set_conv_nth)
  then obtain j w where "j < length es" "es ! j = Some (k, w)" "e = Some (k, w)"
    by (auto simp: find_Some_iff has_key_def split: option.splits)
  then show "content es k = Some v"
    using e i assms unfolding unique_def content_def by fastforce
qed

lemma content_None_iff:
  assumes "unique es"
  shows "content es k = None \<longleftrightarrow> (\<forall>i < length es. \<forall>v. es ! i \<noteq> Some (k, v))"
  using content_Some_iff [OF assms] by (metis not_None_eq)

lemma content_update_vacant:
  assumes "unique es" "i < length es" "content es k = None" "es ! i = None"
  shows "unique (es[i := Some (k, v)])" "content (es[i := Some (k, v)]) = (content es)(k \<mapsto> v)"
proof -
  show u: "unique (es[i := Some (k, v)])"
    using assms content_None_iff [OF assms(1)]
    unfolding unique_def by (auto simp: nth_list_update split: if_splits)
  have old: "j \<noteq> i" if "es ! j = Some e" for j e
    using assms that by auto
  show "content (es[i := Some (k, v)]) = (content es)(k \<mapsto> v)"
  proof (rule map_eq_by_Some)
    fix q w
    show "content (es[i := Some (k, v)]) q = Some w \<longleftrightarrow> ((content es)(k \<mapsto> v)) q = Some w"
    proof (cases "q = k")
      case True
      then show ?thesis
        using assms content_None_iff [OF assms(1), of k]
        by (auto simp: content_Some_iff [OF u] nth_list_update)
    next
      case False
      then show ?thesis
        using assms by (auto simp: content_Some_iff [OF u] content_Some_iff [OF assms(1)] nth_list_update)
          (metis old)
    qed
  qed
qed


lemma content_update_same:
  assumes "unique es" "i < length es" "es ! i = Some (k, w)"
  shows "unique (es[i := Some (k, v)])" "content (es[i := Some (k, v)]) = (content es)(k \<mapsto> v)"
proof -
  have at: "j = i" if "j < length es" "es ! j = Some (k, x)" for j x
    using assms that unfolding unique_def by blast
  show u: "unique (es[i := Some (k, v)])"
  proof (rule uniqueI)
    fix a b q x y
    assume ab: "a < length (es[i := Some (k, v)])" "b < length (es[i := Some (k, v)])"
      "es[i := Some (k, v)] ! a = Some (q, x)" "es[i := Some (k, v)] ! b = Some (q, y)"
    have "es ! c = Some (q, if c = i then w else z)" if "es[i := Some (k, v)] ! c = Some (q, z)" for c z
      using that assms(2, 3) by (cases "c = i") simp_all
    from this [OF ab(3)] this [OF ab(4)] show "a = b"
      using ab(1, 2) by (intro uniqueD [OF assms(1)]) simp_all
  qed
  show "content (es[i := Some (k, v)]) = (content es)(k \<mapsto> v)"
  proof (rule map_eq_by_Some)
    fix q x
    show "content (es[i := Some (k, v)]) q = Some x \<longleftrightarrow> ((content es)(k \<mapsto> v)) q = Some x"
    proof (cases "q = k")
      case True
      then show ?thesis
        using assms(2) by (auto simp: content_Some_iff [OF u] nth_list_update dest: at split: if_splits)
    next
      case False
      then have "es[i := Some (k, v)] ! j = Some (q, x) \<longleftrightarrow> es ! j = Some (q, x)" for j
        using assms(2, 3) by (cases "j = i") auto
      then show ?thesis
        using False by (simp add: content_Some_iff [OF u] content_Some_iff [OF assms(1)])
    qed
  qed
qed

lemma content_clear:
  assumes "unique es" "i < length es" "es ! i = Some (k, w)"
  shows "unique (es[i := None])" "content (es[i := None]) = (content es)(k := None)"
proof -
  have at: "j = i" if "j < length es" "es ! j = Some (k, x)" for j x
    using assms that unfolding unique_def by blast
  show u: "unique (es[i := None])"
    using assms unfolding unique_def by (auto simp: nth_list_update split: if_splits)
  show "content (es[i := None]) = (content es)(k := None)"
  proof (rule map_eq_by_Some)
    fix q x
    have "(\<exists>j < length es. es[i := None] ! j = Some (q, x))
        \<longleftrightarrow> q \<noteq> k \<and> (\<exists>j < length es. es ! j = Some (q, x))"
    proof
      assume "\<exists>j < length es. es[i := None] ! j = Some (q, x)"
      then obtain j where "j < length es" "es[i := None] ! j = Some (q, x)" by blast
      then show "q \<noteq> k \<and> (\<exists>j < length es. es ! j = Some (q, x))"
        using at assms(2) by (cases "j = i") auto
    next
      assume "q \<noteq> k \<and> (\<exists>j < length es. es ! j = Some (q, x))"
      then obtain j where "q \<noteq> k" "j < length es" "es ! j = Some (q, x)" by blast
      moreover from this have "j \<noteq> i" using assms(3) by auto
      ultimately show "\<exists>j < length es. es[i := None] ! j = Some (q, x)" by auto
    qed
    then show "content (es[i := None]) q = Some x \<longleftrightarrow> ((content es)(k := None)) q = Some x"
      by (auto simp: content_Some_iff [OF u] content_Some_iff [OF assms(1)])
  qed
qed

text \<open>Moving an entry into a vacant slot changes no binding.\<close>

lemma content_move:
  assumes "unique es" "g < length es" "s < length es" "es ! g = None" "es ! s \<noteq> None"
  shows "unique (es[g := es ! s, s := None])" "content (es[g := es ! s, s := None]) = content es"
proof -
  let ?es = "es[g := es ! s, s := None]"
  have gs: "g \<noteq> s" using assms by auto
  have nth: "?es ! j = (if j = s then None else if j = g then es ! s else es ! j)"
    if "j < length es" for j
    using assms gs that by (auto simp: nth_list_update)
  show u: "unique ?es"
  proof (rule uniqueI)
    fix a b q x y
    assume "a < length ?es" "b < length ?es" "?es ! a = Some (q, x)" "?es ! b = Some (q, y)"
    then show "a = b"
      using assms(3) gs uniqueD [OF assms(1), of "if a = g then s else a"
            "if b = g then s else b" q x y]
      by (simp add: nth split: if_splits)
  qed
  have "(\<exists>j < length es. ?es ! j = Some e) \<longleftrightarrow> (\<exists>j < length es. es ! j = Some e)" for e
    using assms(2-5) gs by (metis nth option.distinct(1))
  then show "content ?es = content es"
    by (intro map_eq_by_Some) (simp add: content_Some_iff [OF u] content_Some_iff [OF assms(1)])
qed

lemma finite_dom_content: "unique es \<Longrightarrow> finite (dom (content es))"
proof -
  assume u: "unique es"
  have "dom (content es) \<subseteq> (\<lambda>e. fst (the e)) ` set es"
    by (force simp: content_Some_iff [OF u] in_set_conv_nth)
  then show ?thesis
    by (rule finite_subset) simp
qed


lemma vacant_if_room:
  assumes "unique es" "card (dom (content es)) < length es"
  shows "vacant es"
proof (rule ccontr)
  assume "\<not> vacant es"
  then have full: "\<exists>k v. es ! i = Some (k, v)" if "i < length es" for i
    using that by (metis nth_mem option.exhaust surj_pair vacant_def)
  let ?key = "\<lambda>i. fst (the (es ! i))"
  have "inj_on ?key {..<length es}"
    using uniqueD [OF assms(1)] by (intro inj_onI) (metis full fst_conv lessThan_iff option.sel)
  moreover have "?key ` {..<length es} \<subseteq> dom (content es)"
    using full by (force simp: content_Some_iff [OF assms(1)])
  ultimately have "length es \<le> card (dom (content es))"
    using card_inj_on_le [of ?key "{..<length es}"] finite_dom_content [OF assms(1)] by simp
  then show False using assms(2) by simp
qed

section \<open>Probing\<close>

datatype probe_result = Found nat | Vacant nat | Exhausted

primrec probe_from :: "nat \<Rightarrow> ('k, 'v) slots \<Rightarrow> 'k \<Rightarrow> nat \<Rightarrow> probe_result" where
  "probe_from 0 es k s = Exhausted"
| "probe_from (Suc n) es k s =
     (case es ! s of
        None \<Rightarrow> Vacant s
      | Some (k', _) \<Rightarrow> if k' = k then Found s else probe_from n es k (cnext (length es) s))"

definition passed :: "('k, 'v) slots \<Rightarrow> 'k \<Rightarrow> nat \<Rightarrow> nat \<Rightarrow> bool" where
  "passed es k s d \<longleftrightarrow>
     (\<forall>p < length es. cdist (length es) s p < d \<longrightarrow> es ! p \<noteq> None \<and> \<not> has_key k (es ! p))"

lemma passed_step:
  assumes "s < length es" "es ! s \<noteq> None" "\<not> has_key k (es ! s)"
    "passed es k (cnext (length es) s) d"
  shows "passed es k s (Suc d)"
  unfolding passed_def
proof (intro allI impI)
  fix p
  assume p: "p < length es" "cdist (length es) s p < Suc d"
  show "es ! p \<noteq> None \<and> \<not> has_key k (es ! p)"
  proof (cases "p = s")
    case False
    then have "cdist (length es) (cnext (length es) s) p < d"
      using cdist_next [of s "length es" p] assms(1) p by simp
    then show ?thesis
      using assms(4) p by (auto simp: passed_def)
  qed (use assms in simp)
qed

lemma probe_from_spec:
  assumes "s < length es"
  shows "case probe_from n es k s of
      Found i \<Rightarrow> i < length es \<and> (\<exists>v. es ! i = Some (k, v))
    | Vacant i \<Rightarrow> i < length es \<and> es ! i = None \<and> passed es k s (cdist (length es) s i)
    | Exhausted \<Rightarrow> passed es k s n"
  using assms
proof (induction n arbitrary: s)
  case 0
  then show ?case by (simp add: passed_def)
next
  case (Suc n)
  let ?N = "length es"
  have IH: "case probe_from n es k (cnext ?N s) of
      Found i \<Rightarrow> i < ?N \<and> (\<exists>v. es ! i = Some (k, v))
    | Vacant i \<Rightarrow> i < ?N \<and> es ! i = None \<and> passed es k (cnext ?N s) (cdist ?N (cnext ?N s) i)
    | Exhausted \<Rightarrow> passed es k (cnext ?N s) n"
    using Suc.prems by (intro Suc.IH cnext_less)
  show ?case
  proof (cases "es ! s")
    case None
    then show ?thesis
      using Suc.prems by (simp add: passed_def cdist_0_iff [THEN iffD2])
  next
    case (Some e)
    obtain k' v where e: "e = (k', v)" by fastforce
    show ?thesis
    proof (cases "k' = k")
      case False
      then have step: "passed es k (cnext ?N s) d \<Longrightarrow> passed es k s (Suc d)" for d
        using passed_step [of s es k d] Suc.prems Some e by (simp add: has_key_def)
      have "Suc (cdist ?N (cnext ?N s) i) = cdist ?N s i" if "es ! i = None" "i < ?N" for i
        using that Suc.prems Some by (intro cdist_next) auto
      then show ?thesis
        using IH False Some e step by (auto split: probe_result.splits) (metis step)
    qed (use Some e Suc.prems in simp)
  qed
qed

lemma probe_home_found:
  assumes "unique es" "chains home es" "home k < length es" "content es k = Some v"
  shows "\<exists>i. probe_from (length es) es k (home k) = Found i \<and> i < length es \<and> es ! i = Some (k, v)"
proof -
  obtain j where j: "j < length es" "es ! j = Some (k, v)"
    using assms(1, 4) by (auto simp: content_Some_iff)
  have not_passed: "\<not> passed es k (home k) d" if "cdist (length es) (home k) j < d" for d
    using that j by (auto simp: passed_def has_key_def)
  show ?thesis
  proof (cases "probe_from (length es) es k (home k)")
    case (Found i)
    then show ?thesis
      using probe_from_spec [OF assms(3), where n = "length es" and k = k] uniqueD [OF assms(1)] j by fastforce
  next
    case (Vacant i)
    then have i: "i < length es" "es ! i = None" "passed es k (home k) (cdist (length es) (home k) i)"
      using probe_from_spec [OF assms(3), where n = "length es" and k = k] by auto
    have "\<not> on_chain (length es) (home k) j i"
      using assms(2) j i unfolding chains_def by blast
    then have "cdist (length es) (home k) j < cdist (length es) (home k) i"
      using i j cdist_inject [OF assms(3) i(1) j(1)] by (fastforce simp: on_chain_def)
    then show ?thesis
      using not_passed i by blast
  next
    case Exhausted
    then show ?thesis
      using probe_from_spec [OF assms(3), where n = "length es" and k = k] not_passed cdist_less [OF assms(3) j(1)] by auto
  qed
qed

lemma probe_home_vacant:
  assumes "unique es" "home k < length es" "content es k = None" "vacant es"
  shows "\<exists>i. probe_from (length es) es k (home k) = Vacant i \<and> i < length es \<and> es ! i = None
    \<and> (\<forall>p < length es. on_chain (length es) (home k) i p \<longrightarrow> es ! p \<noteq> None)"
proof (cases "probe_from (length es) es k (home k)")
  case (Found i)
  then show ?thesis
    using probe_from_spec [OF assms(2), where n = "length es" and k = k] assms(1, 3) by (auto simp: content_None_iff)
next
  case (Vacant i)
  then show ?thesis
    using probe_from_spec [OF assms(2), where n = "length es" and k = k] by (auto simp: passed_def on_chain_def)
next
  case Exhausted
  then have "passed es k (home k) (length es)"
    using probe_from_spec [OF assms(2), where n = "length es" and k = k] by simp
  moreover obtain z where "z < length es" "es ! z = None"
    using assms(4) by (auto simp: vacant_def in_set_conv_nth)
  ultimately show ?thesis
    using cdist_less [OF assms(2)] by (auto simp: passed_def)
qed


lemma chains_fill:
  assumes "chains home es" "i < length es"
    "\<forall>p < length es. on_chain (length es) (home k) i p \<longrightarrow> es ! p \<noteq> None"
  shows "chains home (es[i := Some (k, v)])"
  using assms unfolding chains_def by (auto simp: nth_list_update split: if_splits)

lemma chains_replace:
  assumes "chains home es" "i < length es" "es ! i = Some (k, w)"
  shows "chains home (es[i := Some (k, v)])"
  using assms unfolding chains_def by (auto simp: nth_list_update split: if_splits)

section \<open>Backward-shift deletion\<close>

text \<open>
  While the gap at \<open>g\<close> is being closed, every chain is intact except that chains
  of entries not yet scanned (from \<open>s\<close> on) may cross the gap; some other slot \<open>z\<close>
  is vacant and lies at or after the scan position.
\<close>

definition hole :: "('k \<Rightarrow> nat) \<Rightarrow> ('k, 'v) slots \<Rightarrow> nat \<Rightarrow> nat \<Rightarrow> nat \<Rightarrow> bool" where
  "hole home es g s z \<longleftrightarrow>
     g < length es \<and> s < length es \<and> z < length es \<and> es ! g = None \<and> es ! z = None \<and> z \<noteq> g \<and> s \<noteq> g
     \<and> cdist (length es) g s \<le> cdist (length es) g z
     \<and> (\<forall>i k v p. i < length es \<and> es ! i = Some (k, v) \<and> p < length es
          \<and> on_chain (length es) (home k) i p \<longrightarrow>
          es ! p \<noteq> None \<or> (p = g \<and> cdist (length es) g s \<le> cdist (length es) g i))"

lemma holeI:
  assumes "g < length es" "s < length es" "z < length es" "es ! g = None" "es ! z = None" "z \<noteq> g" "s \<noteq> g"
    and "cdist (length es) g s \<le> cdist (length es) g z"
    and "\<And>i k v p. i < length es \<Longrightarrow> es ! i = Some (k, v) \<Longrightarrow> p < length es \<Longrightarrow>
      on_chain (length es) (home k) i p \<Longrightarrow>
      es ! p \<noteq> None \<or> (p = g \<and> cdist (length es) g s \<le> cdist (length es) g i)"
  shows "hole home es g s z"
  using assms unfolding hole_def by blast

lemma hole_chain:
  "hole home es g s z \<Longrightarrow> i < length es \<Longrightarrow> es ! i = Some (k, v) \<Longrightarrow> p < length es \<Longrightarrow>
    on_chain (length es) (home k) i p \<Longrightarrow>
    es ! p \<noteq> None \<or> (p = g \<and> cdist (length es) g s \<le> cdist (length es) g i)"
  unfolding hole_def by blast

lemma hole_done:
  assumes home: "\<And>k. home k < length es" and "hole home es g s z" "es ! s = None"
  shows "chains home es"
  unfolding chains_def
proof (intro allI impI, elim conjE)
  fix i k v p
  let ?N = "length es"
  assume i: "i < ?N" "es ! i = Some (k, v)" and p: "p < ?N" "on_chain ?N (home k) i p"
  have ctx: "g < ?N" "s < ?N" "s \<noteq> g" using assms(2) by (auto simp: hole_def)
  show "es ! p \<noteq> None"
  proof (rule ccontr)
    assume "\<not> es ! p \<noteq> None"
    then have "p = g" "cdist ?N g s \<le> cdist ?N g i"
      using assms(2) i p unfolding hole_def by blast+
    moreover have "i \<noteq> s" using i assms(3) by auto
    ultimately have "on_chain ?N (home k) i s"
      using on_chain_between [OF home ctx(1, 2) i(1), of k] cdist_inject [OF ctx(1, 2) i(1)] p by fastforce
    then show False
      using assms(2, 3) i ctx unfolding hole_def by blast
  qed
qed

lemma hole_skip:
  assumes home: "\<And>k. home k < length es" and "hole home es g s z" "es ! s = Some (k, v)"
    "\<not> on_chain (length es) (home k) s g"
  shows "hole home es g (cnext (length es) s) z"
proof -
  let ?N = "length es"
  have ctx: "g < ?N" "s < ?N" "z < ?N" "s \<noteq> g" "cdist ?N g s \<le> cdist ?N g z" "es ! z = None"
    using assms(2) by (auto simp: hole_def)
  have "s \<noteq> z" using ctx assms(3) by auto
  then have "cdist ?N g s < cdist ?N g z"
    using ctx cdist_inject [of g ?N s z] by simp
  moreover from this have next_eq: "cdist ?N g (cnext ?N s) = Suc (cdist ?N g s)"
    using ctx cdist_less [of g ?N z] by (intro cdist_to_next) auto
  moreover have "cnext ?N s \<noteq> g"
    using next_eq ctx cdist_0_iff [of g ?N g] by auto
  moreover have "es ! p \<noteq> None \<or> (p = g \<and> Suc (cdist ?N g s) \<le> cdist ?N g i)"
    if "i < ?N" "es ! i = Some (q, w)" "p < ?N" "on_chain ?N (home q) i p" for i q w p
  proof (cases "i = s")
    case True
    then show ?thesis
      using hole_chain [OF assms(2) that] that assms(3, 4) by auto
  next
    case False
    then have "cdist ?N g s \<noteq> cdist ?N g i"
      using cdist_inject [of g ?N s i] ctx that by simp
    then show ?thesis
      using hole_chain [OF assms(2) that] by auto
  qed
  ultimately show ?thesis
    using ctx assms(2) cnext_less [of s ?N] by (intro holeI) (simp_all add: hole_def)
qed


lemma hole_move:
  assumes home: "\<And>k. home k < length es" and "hole home es g s z" "es ! s = Some (k, v)"
    "on_chain (length es) (home k) s g"
  shows "hole home (es[g := es ! s, s := None]) s (cnext (length es) s) z"
proof -
  let ?N = "length es" and ?es = "es[g := es ! s, s := None]"
  have ctx: "g < ?N" "s < ?N" "z < ?N" "s \<noteq> g" "z \<noteq> g" "es ! z = None" "es ! g = None"
    using assms(2) by (auto simp: hole_def)
  have sz: "s \<noteq> z" using ctx assms(3) by auto
  have nth: "?es ! j = (if j = s then None else if j = g then Some (k, v) else es ! j)" if "j < ?N" for j
    using ctx assms(3) that by (auto simp: nth_list_update)
  have "cdist ?N s z \<noteq> 0"
    using cdist_0_iff [of s ?N z] ctx sz by simp
  then have one: "cdist ?N s (cnext ?N s) = 1" "1 \<le> cdist ?N s z"
    using cdist_to_next [of s ?N s] cdist_0_iff [of s ?N s] cdist_less [of s ?N z] ctx by auto
  have chain: "?es ! p \<noteq> None \<or> (p = s \<and> 1 \<le> cdist ?N s i)"
    if i: "i < ?N" "?es ! i = Some (q, w)" and p: "p < ?N" "on_chain ?N (home q) i p" for i q w p
  proof (cases "i = g")
    case True
    then have "q = k" using i ctx assms(3) by (simp add: nth)
    then have "on_chain ?N (home k) s p" "p \<noteq> g" "p \<noteq> s"
      using on_chain_prefix [OF home ctx(1, 2) p(1) assms(4)] p True by auto
    moreover have "es ! p \<noteq> None"
      using assms(2, 3) ctx p calculation unfolding hole_def by blast
    ultimately show ?thesis using nth p by simp
  next
    case False
    then have "i \<noteq> s" "es ! i = Some (q, w)" using i nth by (auto split: if_splits)
    then have "es ! p \<noteq> None \<or> p = g"
      using assms(2) i p unfolding hole_def by blast
    moreover have "cdist ?N s i \<noteq> 0"
      using cdist_0_iff [of s ?N i] ctx i \<open>i \<noteq> s\<close> by simp
    ultimately show ?thesis using nth p by auto
  qed
  have "cnext ?N s \<noteq> s"
    using one cdist_0_iff [of s ?N s] ctx by auto
  then show ?thesis
    using ctx sz one cnext_less [of s ?N] nth [OF ctx(3)] chain by (intro holeI) simp_all
qed

lemma hole_start:
  assumes home: "\<And>k. home k < length es" and "chains home es" "g < length es" "es ! g \<noteq> None"
    "z < length es" "es ! z = None"
  shows "hole home (es[g := None]) g (cnext (length es) g) z"
proof -
  let ?N = "length es"
  have gz: "g \<noteq> z" using assms by auto
  then have "cdist ?N g z \<noteq> 0"
    using cdist_0_iff [of g ?N z] assms by simp
  then have one: "cdist ?N g (cnext ?N g) = 1" "1 \<le> cdist ?N g z"
    using cdist_to_next [of g ?N g] cdist_0_iff [of g ?N g] cdist_less [of g ?N z] assms by auto
  moreover have "cnext ?N g \<noteq> g"
    using one cdist_0_iff [of g ?N g] assms by auto
  moreover have chain: "es[g := None] ! p \<noteq> None \<or> (p = g \<and> 1 \<le> cdist ?N g i)"
    if "i < ?N" "es[g := None] ! i = Some (q, w)" "p < ?N" "on_chain ?N (home q) i p" for i q w p
  proof -
    have "i \<noteq> g" using that assms(3) by auto
    then have "es ! p \<noteq> None" "cdist ?N g i \<noteq> 0"
      using assms(2, 3) that cdist_0_iff [of g ?N i] unfolding chains_def by auto
    then show ?thesis using that by (cases "p = g") auto
  qed
  ultimately show ?thesis
    using assms(3, 5, 6) gz cnext_less [of g ?N] by (intro holeI) simp_all
qed

end
