(* ===== verification/Contracts.thy ===== *)
theory Contracts
  imports Prelude
begin

text \<open>
  The interfaces the components rely on, each a locale interpreted by the
  component that provides it:

  \<^item> \<open>guarded_system\<close>: a step relation with an invariant of its reachable
    states;
  \<^item> \<open>bounded_map\<close>: a fixed-capacity map (the page table);
  \<^item> \<open>slot_pool\<close>: a fixed set of slots lent one at a time (free frames, write
    staging slots, read routes);
  \<^item> \<open>owned_map\<close>: a fixed-capacity map that also enumerates the bindings of one
    owner (the per-file indices of frames and misses);
  \<^item> \<open>token_source\<close>: a source of generational tokens (completion slots, file
    descriptors).
\<close>

section \<open>Step relations with an invariant\<close>

locale guarded_system =
  fixes start :: "'s \<Rightarrow> bool" and step :: "'s \<Rightarrow> 's \<Rightarrow> bool" and inv :: "'s \<Rightarrow> bool"
  assumes inv_start: "start s \<Longrightarrow> inv s"
    and inv_step: "inv s \<Longrightarrow> step s s' \<Longrightarrow> inv s'"
begin

lemma reachable_inv: "reachable start step s \<Longrightarrow> inv s"
  by (induction rule: reachable.induct) (auto intro: inv_start inv_step)

end

section \<open>Bounded maps\<close>

datatype ('k, 'v) map_op = Insert 'k 'v | Remove 'k

primrec map_op_sem :: "('k, 'v) map_op \<Rightarrow> ('k \<rightharpoonup> 'v) \<Rightarrow> ('k \<rightharpoonup> 'v)" where
  "map_op_sem (Insert k v) m = m(k \<mapsto> v)"
| "map_op_sem (Remove k) m = m(k := None)"

primrec apply_map_op ::
  "('t \<Rightarrow> 'k \<Rightarrow> 'v \<Rightarrow> 't option) \<Rightarrow> ('t \<Rightarrow> 'k \<Rightarrow> ('v option \<times> 't) option) \<Rightarrow>
   ('k, 'v) map_op \<Rightarrow> 't \<Rightarrow> 't option" where
  "apply_map_op ins rem (Insert k v) t = ins t k v"
| "apply_map_op ins rem (Remove k) t = map_option snd (rem t k)"

fun run_map_ops ::
  "('t \<Rightarrow> 'k \<Rightarrow> 'v \<Rightarrow> 't option) \<Rightarrow> ('t \<Rightarrow> 'k \<Rightarrow> ('v option \<times> 't) option) \<Rightarrow>
   ('k, 'v) map_op list \<Rightarrow> 't \<Rightarrow> 't option" where
  "run_map_ops ins rem [] t = Some t"
| "run_map_ops ins rem (op # ops) t = Option.bind (apply_map_op ins rem op t) (run_map_ops ins rem ops)"

text \<open>Every intermediate map of a history has at most \<open>n\<close> bindings.\<close>

fun fits :: "nat \<Rightarrow> ('k, 'v) map_op list \<Rightarrow> ('k \<rightharpoonup> 'v) \<Rightarrow> bool" where
  "fits n [] m = True"
| "fits n (op # ops) m = (card (dom (map_op_sem op m)) \<le> n \<and> fits n ops (map_op_sem op m))"

locale bounded_map =
  fixes lookup :: "'t \<Rightarrow> 'k \<Rightarrow> 'v option option"
    and ins :: "'t \<Rightarrow> 'k \<Rightarrow> 'v \<Rightarrow> 't option"
    and rem :: "'t \<Rightarrow> 'k \<Rightarrow> ('v option \<times> 't) option"
    and inv :: "'t \<Rightarrow> bool"
    and abs :: "'t \<Rightarrow> 'k \<rightharpoonup> 'v"
    and room :: "'t \<Rightarrow> nat"
  assumes lookup_abs: "inv t \<Longrightarrow> lookup t k = Some (abs t k)"
    and ins_abs: "inv t \<Longrightarrow> card (dom ((abs t)(k \<mapsto> v))) \<le> room t \<Longrightarrow>
      \<exists>t'. ins t k v = Some t' \<and> inv t' \<and> abs t' = (abs t)(k \<mapsto> v) \<and> room t' = room t"
    and rem_abs: "inv t \<Longrightarrow>
      \<exists>t'. rem t k = Some (abs t k, t') \<and> inv t' \<and> abs t' = (abs t)(k := None) \<and> room t' = room t"
begin

lemma apply_op_abs:
  assumes "inv t" "card (dom (map_op_sem op (abs t))) \<le> room t"
  shows "\<exists>t'. apply_map_op ins rem op t = Some t' \<and> inv t'
    \<and> abs t' = map_op_sem op (abs t) \<and> room t' = room t"
  using assms ins_abs [OF assms(1)] rem_abs [OF assms(1)] by (cases op) force+

lemma run_ops_abs:
  assumes "inv t" "fits (room t) ops (abs t)"
  shows "\<exists>t'. run_map_ops ins rem ops t = Some t' \<and> inv t' \<and> room t' = room t
    \<and> abs t' = foldl (\<lambda>m op. map_op_sem op m) (abs t) ops"
  using assms
proof (induction ops arbitrary: t)
  case (Cons op ops)
  then obtain t' where t': "apply_map_op ins rem op t = Some t'" "inv t'"
    "abs t' = map_op_sem op (abs t)" "room t' = room t"
    using apply_op_abs [of t op] by auto
  then show ?case
    using Cons.IH [of t'] Cons.prems by simp
qed simp

lemma lookup_after_run:
  assumes "inv t" "fits (room t) ops (abs t)"
  shows "Option.bind (run_map_ops ins rem ops t) (\<lambda>t'. lookup t' k) =
    Some (foldl (\<lambda>m op. map_op_sem op m) (abs t) ops k)"
  using run_ops_abs [OF assms] lookup_abs by auto

end


section \<open>Slot pools\<close>

text \<open>A client of a pool: the pool's state and the slots the client holds.\<close>

inductive pool_client ::
  "('s \<Rightarrow> ('i option \<times> 's) option) \<Rightarrow> ('s \<Rightarrow> 'i \<Rightarrow> 's option) \<Rightarrow> 's \<Rightarrow> 's \<Rightarrow> 'i set \<Rightarrow> bool"
  for lend give s0 where
  client_start: "pool_client lend give s0 s0 {}"
| client_lend: "pool_client lend give s0 s H \<Longrightarrow> lend s = Some (Some i, s') \<Longrightarrow>
    pool_client lend give s0 s' (insert i H)"
| client_give: "pool_client lend give s0 s H \<Longrightarrow> i \<in> H \<Longrightarrow> give s i = Some s' \<Longrightarrow>
    pool_client lend give s0 s' (H - {i})"

locale slot_pool =
  fixes lend :: "'s \<Rightarrow> ('i option \<times> 's) option"
    and give :: "'s \<Rightarrow> 'i \<Rightarrow> 's option"
    and inv :: "'s \<Rightarrow> bool"
    and free :: "'s \<Rightarrow> 'i set"
    and all_slots :: "'s \<Rightarrow> 'i set"
  assumes free_subset: "inv s \<Longrightarrow> free s \<subseteq> all_slots s"
    and lend_none: "inv s \<Longrightarrow> free s = {} \<Longrightarrow> lend s = Some (None, s)"
    and lend_some: "inv s \<Longrightarrow> free s \<noteq> {} \<Longrightarrow>
      \<exists>i s'. lend s = Some (Some i, s') \<and> i \<in> free s \<and> free s' = free s - {i} \<and> inv s' \<and> all_slots s' = all_slots s"
    and give_back: "inv s \<Longrightarrow> i \<in> all_slots s \<Longrightarrow> i \<notin> free s \<Longrightarrow>
      \<exists>s'. give s i = Some s' \<and> free s' = insert i (free s) \<and> inv s' \<and> all_slots s' = all_slots s"
begin

lemma lend_free:
  assumes "inv s" "lend s = Some (Some i, s')"
  shows "i \<in> free s \<and> free s' = free s - {i} \<and> inv s' \<and> all_slots s' = all_slots s"
  using lend_some [OF assms(1)] lend_none [OF assms(1)] assms(2) by fastforce

lemma client_partition:
  assumes "pool_client lend give s0 s H" "inv s0" "free s0 = all_slots s0"
  shows "inv s \<and> all_slots s = all_slots s0 \<and> H = all_slots s0 - free s"
  using assms
proof (induction rule: pool_client.induct)
  case (client_lend s H i s')
  then have "inv s" "all_slots s = all_slots s0" "H = all_slots s0 - free s"
    by auto
  then show ?case
    using lend_free [OF _ client_lend(2)] free_subset [of s] by auto
next
  case (client_give s H i s')
  then have "inv s" "all_slots s = all_slots s0" "H = all_slots s0 - free s" "i \<in> all_slots s" "i \<notin> free s"
    by auto
  then show ?case
    using give_back [of s i] client_give(3) by auto
qed auto

text \<open>No slot is lent twice, a held slot can always be returned, and lending fails only when
  every slot is held.\<close>

lemma client_exclusive:
  assumes "pool_client lend give s0 s H" "inv s0" "free s0 = all_slots s0"
  shows "lend s = Some (Some i, s') \<Longrightarrow> i \<notin> H"
    and "i \<in> H \<Longrightarrow> give s i \<noteq> None"
    and "(\<exists>s'. lend s = Some (None, s')) \<longleftrightarrow> H = all_slots s0"
    and "lend s \<noteq> None"
proof -
  have P: "inv s" "all_slots s = all_slots s0" "H = all_slots s0 - free s"
    using client_partition [OF assms] by auto
  show "lend s = Some (Some i, s') \<Longrightarrow> i \<notin> H"
    using lend_free [OF P(1)] P(3) by blast
  show "i \<in> H \<Longrightarrow> give s i \<noteq> None"
    using give_back [OF P(1), of i] P by auto
  show "(\<exists>s'. lend s = Some (None, s')) \<longleftrightarrow> H = all_slots s0"
    using lend_none [OF P(1)] lend_some [OF P(1)] P free_subset [OF P(1)] by (cases "free s = {}") auto
  show "lend s \<noteq> None"
    using lend_none [OF P(1)] lend_some [OF P(1)] by (cases "free s = {}") auto
qed

end

section \<open>Maps with per-owner enumeration\<close>

text \<open>A history binds vacant keys to values with a known owner and unbinds bound keys.\<close>

fun owned_history :: "nat \<Rightarrow> nat \<Rightarrow> ('v \<Rightarrow> nat) \<Rightarrow> (nat, 'v) map_op list \<Rightarrow> (nat \<rightharpoonup> 'v) \<Rightarrow> bool" where
  "owned_history keys owners own [] m = True"
| "owned_history keys owners own (Insert k v # ops) m =
     (k < keys \<and> own v < owners \<and> m k = None \<and> owned_history keys owners own ops (m(k \<mapsto> v)))"
| "owned_history keys owners own (Remove k # ops) m =
     (m k \<noteq> None \<and> owned_history keys owners own ops (m(k := None)))"

fun run_owned_ops ::
  "('t \<Rightarrow> nat \<Rightarrow> 'v \<Rightarrow> 't option) \<Rightarrow> ('t \<Rightarrow> nat \<Rightarrow> 't option) \<Rightarrow> (nat, 'v) map_op list \<Rightarrow> 't \<Rightarrow> 't option" where
  "run_owned_ops ins rem [] t = Some t"
| "run_owned_ops ins rem (Insert k v # ops) t = Option.bind (ins t k v) (run_owned_ops ins rem ops)"
| "run_owned_ops ins rem (Remove k # ops) t = Option.bind (rem t k) (run_owned_ops ins rem ops)"

locale owned_map =
  fixes ins :: "'t \<Rightarrow> nat \<Rightarrow> 'v \<Rightarrow> 't option"
    and rem :: "'t \<Rightarrow> nat \<Rightarrow> 't option"
    and members :: "'t \<Rightarrow> nat \<Rightarrow> (nat \<times> 'v) list option"
    and own :: "'v \<Rightarrow> nat"
    and inv :: "'t \<Rightarrow> bool"
    and abs :: "'t \<Rightarrow> nat \<rightharpoonup> 'v"
    and keys :: "'t \<Rightarrow> nat"
    and owners :: "'t \<Rightarrow> nat"
  assumes ins_abs: "inv t \<Longrightarrow> k < keys t \<Longrightarrow> own v < owners t \<Longrightarrow> abs t k = None \<Longrightarrow>
      \<exists>t'. ins t k v = Some t' \<and> inv t' \<and> abs t' = (abs t)(k \<mapsto> v) \<and> keys t' = keys t \<and> owners t' = owners t"
    and rem_abs: "inv t \<Longrightarrow> abs t k \<noteq> None \<Longrightarrow>
      \<exists>t'. rem t k = Some t' \<and> inv t' \<and> abs t' = (abs t)(k := None) \<and> keys t' = keys t \<and> owners t' = owners t"
    and members_abs: "inv t \<Longrightarrow> w < owners t \<Longrightarrow>
      \<exists>xs. members t w = Some xs \<and> distinct (map fst xs) \<and> set xs = {(k, v). abs t k = Some v \<and> own v = w}"
begin

lemma run_owned_abs:
  assumes "inv t" "owned_history (keys t) (owners t) own ops (abs t)"
  shows "\<exists>t'. run_owned_ops ins rem ops t = Some t' \<and> inv t' \<and> keys t' = keys t \<and> owners t' = owners t
    \<and> abs t' = foldl (\<lambda>m op. map_op_sem op m) (abs t) ops"
  using assms
proof (induction ops arbitrary: t)
  case (Cons op ops)
  show ?case
  proof (cases op)
    case (Insert k v)
    then show ?thesis
      using ins_abs [of t k v] Cons by force
  next
    case (Remove k)
    then show ?thesis
      using rem_abs [of t k] Cons by force
  qed
qed simp

lemma members_after_run:
  assumes "inv t" "owned_history (keys t) (owners t) own ops (abs t)" "w < owners t"
  shows "\<exists>t' xs. run_owned_ops ins rem ops t = Some t' \<and> members t' w = Some xs \<and> distinct (map fst xs)
    \<and> set xs = {(k, v). foldl (\<lambda>m op. map_op_sem op m) (abs t) ops k = Some v \<and> own v = w}"
  using run_owned_abs [OF assms(1, 2)] members_abs assms(3) by fastforce

end

section \<open>Generational tokens\<close>

text \<open>A client of a token source: the tokens issued to it, latest first, and those it retired.
  Other operations of the component may run in between as silent steps.\<close>

inductive token_client ::
  "('s \<Rightarrow> 'p \<Rightarrow> ('t option \<times> 's) option) \<Rightarrow> ('s \<Rightarrow> 't \<Rightarrow> 's option) \<Rightarrow> ('s \<Rightarrow> 's \<Rightarrow> bool) \<Rightarrow>
    's \<Rightarrow> 's \<Rightarrow> 't list \<Rightarrow> 't set \<Rightarrow> bool"
  for issue retire silent s0 where
  token_start: "token_client issue retire silent s0 s0 [] {}"
| token_issue: "token_client issue retire silent s0 s I R \<Longrightarrow> issue s p = Some (Some t, s') \<Longrightarrow>
    token_client issue retire silent s0 s' (t # I) R"
| token_retire: "token_client issue retire silent s0 s I R \<Longrightarrow> t \<in> set I - R \<Longrightarrow> retire s t = Some s' \<Longrightarrow>
    token_client issue retire silent s0 s' I (insert t R)"
| token_silent: "token_client issue retire silent s0 s I R \<Longrightarrow> silent s s' \<Longrightarrow>
    token_client issue retire silent s0 s' I R"

locale token_source =
  fixes issue :: "'s \<Rightarrow> 'p \<Rightarrow> ('t option \<times> 's) option"
    and retire :: "'s \<Rightarrow> 't \<Rightarrow> 's option"
    and silent :: "'s \<Rightarrow> 's \<Rightarrow> bool"
    and inv :: "'s \<Rightarrow> bool"
    and live :: "'s \<Rightarrow> 't set"
    and spent :: "'s \<Rightarrow> 't set"
  assumes live_spent: "inv s \<Longrightarrow> live s \<subseteq> spent s"
    and issue_fresh: "inv s \<Longrightarrow> issue s p = Some (Some t, s') \<Longrightarrow>
      inv s' \<and> t \<notin> spent s \<and> live s' = insert t (live s) \<and> insert t (spent s) \<subseteq> spent s'"
    and retire_live: "inv s \<Longrightarrow> t \<in> live s \<Longrightarrow>
      \<exists>s'. retire s t = Some s' \<and> inv s' \<and> live s' = live s - {t} \<and> spent s \<subseteq> spent s'"
    and silent_keeps: "inv s \<Longrightarrow> silent s s' \<Longrightarrow> inv s' \<and> live s' = live s \<and> spent s \<subseteq> spent s'"
begin

lemma client_tokens:
  assumes "token_client issue retire silent s0 s I R" "inv s0" "live s0 = {}"
  shows "inv s \<and> distinct I \<and> R \<subseteq> set I \<and> live s = set I - R \<and> set I \<subseteq> spent s"
  using assms
proof (induction rule: token_client.induct)
  case (token_issue s I R p t s')
  then show ?case
    using issue_fresh [of s p t s'] by auto
next
  case (token_retire s I R t s')
  then have "inv s" "t \<in> live s"
    by auto
  then show ?case
    using retire_live [of s t] token_retire by auto
next
  case (token_silent s I R s')
  then show ?case
    using silent_keeps [of s s'] by auto
qed simp

text \<open>Tokens are pairwise distinct, a retired token is never live again, and a live one can
  always be retired.\<close>

lemma client_no_alias:
  assumes "token_client issue retire silent s0 s I R" "inv s0" "live s0 = {}"
  shows "distinct I" "live s = set I - R" "t \<in> set I - R \<Longrightarrow> retire s t \<noteq> None"
    "issue s p = Some (Some t, s') \<Longrightarrow> t \<notin> set I"
proof -
  note all = client_tokens [OF assms]
  show "distinct I" "live s = set I - R"
    using all by blast+
  show "retire s t \<noteq> None" if "t \<in> set I - R"
    using retire_live [of s t] all that by auto
  show "t \<notin> set I" if "issue s p = Some (Some t, s')"
    using issue_fresh [OF _ that] all by blast
qed

end

end
