(* ===== verification/Table.thy ===== *)
theory Table
  imports Ident Probing Contracts
begin

text \<open>
  The page table of \<open>pool/table.rs\<close>: seqlock cells, linear probing with a home
  slot taken from a 64-bit mix of the page identity, insertion, removal with
  backward shift.  The operations here are the ones the control plane runs under
  its lock, where no other writer is active; \<open>Seqlock\<close> treats the lock-free
  reader.  The theory ends by interpreting the \<open>bounded_map\<close> contract.
\<close>

type_synonym ReadFrameIdx = u32
type_synonym entry = "PageId \<times> ReadFrameIdx"

section \<open>Cells\<close>

record Cell =
  c_seq :: u64
  c_occupied :: bool
  c_driver :: u64
  c_file_slot :: u32
  c_file_generation :: u32
  c_granule_idx :: u32
  c_frame :: u32

definition Cell_vacant :: Cell where
  "Cell_vacant = \<lparr>c_seq = 0, c_occupied = False, c_driver = 0, c_file_slot = 0,
     c_file_generation = 0, c_granule_idx = 0, c_frame = 0\<rparr>"

definition Cell_write :: "Cell \<Rightarrow> entry option \<Rightarrow> Cell option" where
  "Cell_write c entry = do {
     let version = c_seq c;
     assert (version AND 1 = 0);
     let c = c\<lparr>c_seq := version + 1\<rparr>;
     let c = (case entry of
         Some (page, frame) \<Rightarrow>
           c\<lparr>c_driver := driver (page_file page),
             c_file_slot := slot (page_file page),
             c_file_generation := generation (page_file page),
             c_granule_idx := granule_idx page,
             c_frame := frame,
             c_occupied := True\<rparr>
       | None \<Rightarrow> c\<lparr>c_occupied := False\<rparr>);
     Some (c\<lparr>c_seq := version + 2\<rparr>)
   }"

definition Cell_snapshot :: "Cell \<Rightarrow> entry option" where
  "Cell_snapshot c =
     (if c_occupied c
      then Some (PageId_new (FileId_new (c_driver c) (c_file_slot c) (c_file_generation c))
                   (c_granule_idx c), c_frame c)
      else None)"

definition SEQLOCK_READ_SPINS_MAX :: nat where
  "SEQLOCK_READ_SPINS_MAX = 1000000"

text \<open>The retry loop on a cell that no writer is changing.\<close>

fun Cell_read_loop :: "nat \<Rightarrow> Cell \<Rightarrow> entry option option" where
  "Cell_read_loop 0 c = None"
| "Cell_read_loop (Suc n) c =
     (let before = c_seq c in
      if before AND 1 \<noteq> 0 then Cell_read_loop n c
      else let snapshot = Cell_snapshot c in
           if c_seq c = before then Some snapshot else Cell_read_loop n c)"

definition Cell_read :: "Cell \<Rightarrow> entry option option" where
  "Cell_read c = Cell_read_loop SEQLOCK_READ_SPINS_MAX c"

section \<open>The table\<close>

record PageTable =
  t_slots :: "Cell list"
  t_capacity :: u32
  t_mask :: u32
  t_len :: u32

text \<open>\<open>allocated\<close> says whether the mapping of the slots succeeded.\<close>

definition try_with_frame_count :: "bool \<Rightarrow> u32 \<Rightarrow> PageTable option option" where
  "try_with_frame_count allocated frame_count = do {
     assert (frame_count > 0);
     capacity \<leftarrow> Option.bind (checked_mul frame_count 2) checked_next_power_of_two;
     Some (if allocated
           then Some \<lparr>t_slots = replicate (unat capacity) Cell_vacant, t_capacity = capacity,
                      t_mask = capacity - 1, t_len = 0\<rparr>
           else None)
   }"

definition mix :: "u64 \<Rightarrow> u64" where
  "mix word = (
     let word = (word XOR drop_bit 30 word) * 0xbf58476d1ce4e5b9;
         word = (word XOR drop_bit 27 word) * 0x94d049bb133111eb
     in word XOR drop_bit 31 word)"

definition page_hash :: "PageId \<Rightarrow> u64" where
  "page_hash page = (
     let file = page_file page;
         hash = 0;
         hash = mix (hash XOR driver file);
         hash = mix (hash XOR ucast (slot file));
         hash = mix (hash XOR ucast (generation file))
     in mix (hash XOR ucast (granule_idx page)))"

definition home_slot :: "PageTable \<Rightarrow> PageId \<Rightarrow> u32" where
  "home_slot t page = ucast (page_hash page AND ucast (t_mask t))"

definition slot_read :: "PageTable \<Rightarrow> u32 \<Rightarrow> entry option option" where
  "slot_read t i = do { c \<leftarrow> nth_opt (t_slots t) (unat i); Cell_read c }"

definition slot_write :: "PageTable \<Rightarrow> u32 \<Rightarrow> entry option \<Rightarrow> PageTable option" where
  "slot_write t i e = do {
     c \<leftarrow> nth_opt (t_slots t) (unat i);
     c' \<leftarrow> Cell_write c e;
     Some (t\<lparr>t_slots := (t_slots t)[unat i := c']\<rparr>)
   }"

fun lookup_loop :: "nat \<Rightarrow> PageTable \<Rightarrow> PageId \<Rightarrow> u32 \<Rightarrow> ReadFrameIdx option option" where
  "lookup_loop 0 t page i = Some None"
| "lookup_loop (Suc n) t page i = do {
     assert (i \<le> t_mask t);
     e \<leftarrow> slot_read t i;
     (case e of
        Some (key, frame) \<Rightarrow>
          if key = page then Some (Some frame) else lookup_loop n t page ((i + 1) AND t_mask t)
      | None \<Rightarrow> Some None)
   }"

definition lookup :: "PageTable \<Rightarrow> PageId \<Rightarrow> ReadFrameIdx option option" where
  "lookup t page = lookup_loop (unat (t_capacity t)) t page (home_slot t page)"

fun insert_loop :: "nat \<Rightarrow> PageTable \<Rightarrow> PageId \<Rightarrow> ReadFrameIdx \<Rightarrow> u32 \<Rightarrow> PageTable option" where
  "insert_loop 0 t page frame i = None"
| "insert_loop (Suc n) t page frame i = do {
     assert (i \<le> t_mask t);
     e \<leftarrow> slot_read t i;
     (case e of
        Some (key, _) \<Rightarrow>
          if key = page then slot_write t i (Some (page, frame))
          else insert_loop n t page frame ((i + 1) AND t_mask t)
      | None \<Rightarrow> do {
          assert (t_len t < t_capacity t);
          t' \<leftarrow> slot_write t i (Some (page, frame));
          Some (t'\<lparr>t_len := t_len t' + 1\<rparr>)
        })
   }"

definition insert_shared :: "PageTable \<Rightarrow> PageId \<Rightarrow> ReadFrameIdx \<Rightarrow> PageTable option" where
  "insert_shared t page frame = insert_loop (unat (t_capacity t)) t page frame (home_slot t page)"

definition fills_gap :: "u32 \<Rightarrow> u32 \<Rightarrow> u32 \<Rightarrow> u32 \<Rightarrow> bool option" where
  "fills_gap home gap scan slot_mask = do {
     assert (home \<le> slot_mask \<and> gap \<le> slot_mask \<and> scan \<le> slot_mask);
     let scan_from_gap = (scan - gap) AND slot_mask;
     let home_from_gap = (home - gap) AND slot_mask;
     assert (scan_from_gap \<ge> 1);
     Some (home_from_gap = 0 \<or> home_from_gap > scan_from_gap)
   }"

fun backward_shift_loop :: "nat \<Rightarrow> PageTable \<Rightarrow> u32 \<Rightarrow> u32 \<Rightarrow> PageTable option" where
  "backward_shift_loop 0 t gap scan = Some t"
| "backward_shift_loop (Suc n) t gap scan = do {
     g \<leftarrow> slot_read t gap;
     assert (g = None);
     e \<leftarrow> slot_read t scan;
     (case e of
        None \<Rightarrow> Some t
      | Some (key, _) \<Rightarrow> do {
          fills \<leftarrow> fills_gap (home_slot t key) gap scan (t_mask t);
          if fills then do {
            assert (gap \<noteq> scan);
            moved \<leftarrow> slot_read t scan;
            t1 \<leftarrow> slot_write t gap moved;
            t2 \<leftarrow> slot_write t1 scan None;
            backward_shift_loop n t2 scan ((scan + 1) AND t_mask t)
          } else backward_shift_loop n t gap ((scan + 1) AND t_mask t)
        })
   }"

definition backward_shift :: "PageTable \<Rightarrow> u32 \<Rightarrow> PageTable option" where
  "backward_shift t gap =
     backward_shift_loop (unat (t_capacity t)) t gap ((gap + 1) AND t_mask t)"

text \<open>The search of \<open>remove_shared\<close>: the slot and frame of \<open>page\<close>, if present.\<close>

fun remove_find :: "nat \<Rightarrow> PageTable \<Rightarrow> PageId \<Rightarrow> u32 \<Rightarrow> (u32 \<times> ReadFrameIdx) option option" where
  "remove_find 0 t page gap = Some None"
| "remove_find (Suc n) t page gap = do {
     assert (gap \<le> t_mask t);
     e \<leftarrow> slot_read t gap;
     (case e of
        Some (key, frame) \<Rightarrow>
          if key = page then Some (Some (gap, frame))
          else remove_find n t page ((gap + 1) AND t_mask t)
      | None \<Rightarrow> Some None)
   }"

definition remove_shared :: "PageTable \<Rightarrow> PageId \<Rightarrow> (ReadFrameIdx option \<times> PageTable) option" where
  "remove_shared t page = do {
     found \<leftarrow> remove_find (unat (t_capacity t)) t page (home_slot t page);
     (case found of
        None \<Rightarrow> Some (None, t)
      | Some (gap, frame) \<Rightarrow> do {
          t1 \<leftarrow> slot_write t gap None;
          assert (t_len t1 \<noteq> 0);
          let t2 = t1\<lparr>t_len := t_len t1 - 1\<rparr>;
          t3 \<leftarrow> backward_shift t2 gap;
          Some (Some frame, t3)
        })
   }"


section \<open>Well-formed tables\<close>

definition entries :: "PageTable \<Rightarrow> (PageId, ReadFrameIdx) slots" where
  "entries t = map Cell_snapshot (t_slots t)"

definition home :: "PageTable \<Rightarrow> PageId \<Rightarrow> nat" where
  "home t page = unat (home_slot t page)"

definition table_geometry :: "PageTable \<Rightarrow> bool" where
  "table_geometry t \<longleftrightarrow>
     is_power_of_two (t_capacity t) \<and> t_mask t = t_capacity t - 1
     \<and> length (t_slots t) = unat (t_capacity t)
     \<and> (\<forall>c \<in> set (t_slots t). c_seq c AND 1 = 0)"

definition table_inv :: "PageTable \<Rightarrow> bool" where
  "table_inv t \<longleftrightarrow>
     table_geometry t \<and> unique (entries t) \<and> chains (home t) (entries t)
     \<and> unat (t_len t) = card (dom (content (entries t))) \<and> t_len t < t_capacity t"

definition table_abs :: "PageTable \<Rightarrow> PageId \<rightharpoonup> ReadFrameIdx" where
  "table_abs t = content (entries t)"

definition table_room :: "PageTable \<Rightarrow> nat" where
  "table_room t = unat (t_capacity t) - 1"

lemma length_entries [simp]: "length (entries t) = length (t_slots t)"
  by (simp add: entries_def)

lemma Cell_read_loop_even: "0 < n \<Longrightarrow> c_seq c AND 1 = 0 \<Longrightarrow> Cell_read_loop n c = Some (Cell_snapshot c)"
  by (cases n) (simp_all add: Let_def)

lemma Cell_read_even: "c_seq c AND 1 = 0 \<Longrightarrow> Cell_read c = Some (Cell_snapshot c)"
  by (simp add: Cell_read_def Cell_read_loop_even SEQLOCK_READ_SPINS_MAX_def)

lemma even_word_add_2: "(w :: u64) AND 1 = 0 \<Longrightarrow> (w + 2) AND 1 = 0"
  by (simp add: and_one_eq flip: even_iff_mod_2_eq_zero)

lemma Cell_write_even:
  assumes "c_seq c AND 1 = 0"
  shows "\<exists>c'. Cell_write c e = Some c' \<and> Cell_snapshot c' = e \<and> c_seq c' AND 1 = 0"
  using assms even_word_add_2 [OF assms]
  by (cases e)
    (auto simp: Cell_write_def Cell_snapshot_def PageId_new_def FileId_new_def Let_def)

lemma slot_read_in:
  "table_geometry t \<Longrightarrow> unat i < length (t_slots t) \<Longrightarrow> slot_read t i = Some (entries t ! unat i)"
  by (simp add: slot_read_def Cell_read_even table_geometry_def entries_def)

lemma slot_write_in:
  assumes "table_geometry t" "unat i < length (t_slots t)"
  shows "\<exists>t'. slot_write t i e = Some t' \<and> table_geometry t' \<and> entries t' = (entries t)[unat i := e]
    \<and> t_len t' = t_len t \<and> t_capacity t' = t_capacity t \<and> home t' = home t
    \<and> length (t_slots t') = length (t_slots t)"
proof -
  obtain c' where c': "Cell_write (t_slots t ! unat i) e = Some c'" "Cell_snapshot c' = e"
    "c_seq c' AND 1 = 0"
    using Cell_write_even [of "t_slots t ! unat i" e] assms by (auto simp: table_geometry_def)
  let ?t = "t\<lparr>t_slots := (t_slots t)[unat i := c']\<rparr>"
  have "slot_write t i e = Some ?t"
    using assms c' by (simp add: slot_write_def)
  moreover have "table_geometry ?t"
    using assms c' by (auto simp: table_geometry_def dest: set_update_subset_insert [THEN subsetD])
  moreover have "entries ?t = (entries t)[unat i := e]"
    using c' by (simp add: entries_def map_update)
  ultimately show ?thesis
    by (auto simp: home_def home_slot_def fun_eq_iff)
qed

text \<open>Slot arithmetic on words is the cyclic arithmetic of \<open>Probing\<close>.\<close>

lemma table_geometry_power:
  assumes "table_geometry t"
  obtains k where "k < 32" "unat (t_capacity t) = 2 ^ k" "length (t_slots t) = 2 ^ k"
    "t_mask t = t_capacity t - 1"
  using assms by (auto simp: table_geometry_def is_power_of_two_iff)

lemma unat_mask:
  assumes "table_geometry t"
  shows "unat (t_mask t) = length (t_slots t) - 1"
proof -
  obtain k where "unat (t_capacity t) = 2 ^ k" "length (t_slots t) = 2 ^ k" "t_mask t = t_capacity t - 1"
    using assms by (rule table_geometry_power)
  then show ?thesis
    by (metis unat_minus_one unat_0 power_not_zero zero_neq_numeral)
qed

lemma slot_le_mask:
  "table_geometry t \<Longrightarrow> i \<le> t_mask t \<longleftrightarrow> unat i < length (t_slots t)"
  using is_power_of_two_pos [of "t_capacity t"]
  by (auto simp: word_le_nat_alt unat_mask) (auto simp: table_geometry_def)

lemma slot_next:
  assumes "table_geometry t" "unat i < length (t_slots t)"
  shows "unat ((i + 1) AND t_mask t) = cnext (length (t_slots t)) (unat i)"
proof -
  obtain k where k: "k < 32" "unat (t_capacity t) = 2 ^ k" "length (t_slots t) = 2 ^ k"
    "t_mask t = t_capacity t - 1"
    using assms(1) by (rule table_geometry_power)
  then have "unat ((i + 1) AND t_mask t) = Suc (unat i) mod length (t_slots t)"
    using unat_Suc_power_of_two_mod [of "t_capacity t" k i] by simp
  then show ?thesis
    using cnext_mod [OF assms(2)] by simp
qed


lemma home_less:
  assumes "table_geometry t"
  shows "home t page < length (t_slots t)"
proof -
  have "unat (page_hash page AND ucast (t_mask t)) \<le> unat (t_mask t)"
    using unat_and_le [of "page_hash page" "ucast (t_mask t)"] by (simp add: unat_ucast_64)
  moreover have "unat (ucast w :: u32) \<le> unat w" for w :: u64
    by (simp add: unsigned_ucast_eq take_bit_nat_less_eq_self)
  ultimately have "home t page \<le> unat (t_mask t)"
    unfolding home_def home_slot_def using order_trans by blast
  then show ?thesis
    using slot_le_mask [OF assms, of "t_mask t"] by simp
qed

lemma slot_diff:
  assumes "table_geometry t" "unat a < length (t_slots t)" "unat b < length (t_slots t)"
  shows "unat ((b - a) AND t_mask t) = cdist (length (t_slots t)) (unat a) (unat b)"
proof -
  obtain k where k: "k < 32" "unat (t_capacity t) = 2 ^ k" "length (t_slots t) = 2 ^ k"
    "t_mask t = t_capacity t - 1"
    using assms(1) by (rule table_geometry_power)
  then have "unat ((b - a) AND t_mask t) = (unat b + 2 ^ k - unat a) mod 2 ^ k"
    using unat_sub_power_of_two_mod [of "t_capacity t" k a b] assms(2) by simp
  then show ?thesis
    using cdist_mod [OF assms(2, 3)] k by simp
qed

lemma fills_gap_on_chain:
  assumes "table_geometry t" "unat g < length (t_slots t)" "unat s < length (t_slots t)" "g \<noteq> s"
  shows "fills_gap (home_slot t page) g s (t_mask t) =
    Some (on_chain (length (t_slots t)) (home t page) (unat s) (unat g))"
proof -
  let ?N = "length (t_slots t)"
  have h: "unat (home_slot t page) < ?N"
    using home_less [OF assms(1)] by (simp add: home_def)
  have ne: "unat g \<noteq> unat s"
    using assms(4) by (simp add: word_unat_eq_iff)
  note diffs = slot_diff [OF assms(1, 2) assms(3)] slot_diff [OF assms(1, 2) h]
  have within: "home_slot t page \<le> t_mask t" "g \<le> t_mask t" "s \<le> t_mask t"
    using assms h by (simp_all add: slot_le_mask)
  have "cdist ?N (unat g) (unat s) \<noteq> 0"
    using cdist_0_iff [OF assms(2, 3)] ne by simp
  then have after: "1 \<le> (s - g) AND t_mask t"
    using diffs by (simp add: word_le_nat_alt)
  have "((home_slot t page - g) AND t_mask t = 0) \<longleftrightarrow> cdist ?N (unat g) (unat (home_slot t page)) = 0"
    using diffs by (metis unat_eq_zero)
  then show ?thesis
    using within after on_chain_gap [OF h assms(2, 3) ne] diffs
    by (simp add: fills_gap_def word_less_nat_alt home_def)
qed

section \<open>The operations follow the probe\<close>

lemma lookup_loop_probe:
  assumes "table_geometry t" "unat i < length (t_slots t)"
  shows "lookup_loop n t page i = Some (case probe_from n (entries t) page (unat i) of
      Found j \<Rightarrow> map_option snd (entries t ! j) | _ \<Rightarrow> None)"
  using assms(2)
proof (induction n arbitrary: i)
  case (Suc n)
  then show ?case
    using assms(1) Suc.IH [of "(i + 1) AND t_mask t"]
    by (auto simp: slot_le_mask slot_read_in slot_next cnext_less split: option.splits)
qed simp

lemma remove_find_probe:
  assumes "table_geometry t" "unat i < length (t_slots t)"
  shows "case probe_from n (entries t) page (unat i) of
      Found j \<Rightarrow> \<exists>g f. remove_find n t page i = Some (Some (g, f)) \<and> unat g = j
        \<and> entries t ! j = Some (page, f)
    | _ \<Rightarrow> remove_find n t page i = Some None"
  using assms(2)
proof (induction n arbitrary: i)
  case (Suc n)
  then show ?case
    using assms(1) Suc.IH [of "(i + 1) AND t_mask t"]
    by (auto simp: slot_le_mask slot_read_in slot_next cnext_less
        split: option.splits probe_result.splits)
qed simp

lemma insert_loop_probe:
  assumes "table_geometry t" "unat i < length (t_slots t)"
  shows "case probe_from n (entries t) page (unat i) of
      Found j \<Rightarrow> \<exists>g. unat g = j \<and> insert_loop n t page f i = slot_write t g (Some (page, f))
    | Vacant j \<Rightarrow> \<exists>g. unat g = j \<and> insert_loop n t page f i = do {
        assert (t_len t < t_capacity t);
        t' \<leftarrow> slot_write t g (Some (page, f));
        Some (t'\<lparr>t_len := t_len t' + 1\<rparr>) }
    | Exhausted \<Rightarrow> insert_loop n t page f i = None"
  using assms(2)
proof (induction n arbitrary: i)
  case (Suc n)
  then show ?case
    using assms(1) Suc.IH [of "(i + 1) AND t_mask t"]
    by (auto simp: slot_le_mask slot_read_in slot_next cnext_less
        split: option.splits probe_result.splits)
qed simp


lemma move_entry:
  assumes "table_geometry t" "unat g < length (t_slots t)" "unat s < length (t_slots t)"
    "unique (entries t)" "entries t ! unat g = None" "entries t ! unat s \<noteq> None"
  shows "\<exists>t1 t2. slot_write t g (entries t ! unat s) = Some t1 \<and> slot_write t1 s None = Some t2
    \<and> table_geometry t2 \<and> entries t2 = (entries t)[unat g := entries t ! unat s, unat s := None]
    \<and> unique (entries t2) \<and> content (entries t2) = content (entries t)
    \<and> t_len t2 = t_len t \<and> t_capacity t2 = t_capacity t \<and> t_mask t2 = t_mask t \<and> home t2 = home t
    \<and> length (t_slots t2) = length (t_slots t)"
proof -
  obtain t1 where t1: "slot_write t g (entries t ! unat s) = Some t1" "table_geometry t1"
    "entries t1 = (entries t)[unat g := entries t ! unat s]" "t_len t1 = t_len t"
    "t_capacity t1 = t_capacity t" "home t1 = home t" "length (t_slots t1) = length (t_slots t)"
    using slot_write_in [OF assms(1, 2)] by blast
  moreover obtain t2 where "slot_write t1 s None = Some t2" "table_geometry t2"
    "entries t2 = (entries t1)[unat s := None]" "t_len t2 = t_len t1"
    "t_capacity t2 = t_capacity t1" "home t2 = home t1" "length (t_slots t2) = length (t_slots t1)"
    using slot_write_in [OF t1(2), of s None] assms(3) t1(7) by auto
  ultimately show ?thesis
    using content_move [OF assms(4), of "unat g" "unat s"] assms
    by (auto simp: table_geometry_def)
qed

lemma backward_shift_loop_closes:
  assumes "table_geometry t" "unique (entries t)"
    "hole (home t) (entries t) (unat g) (unat s) z" "cdist (length (t_slots t)) (unat s) z < n"
  shows "\<exists>t'. backward_shift_loop n t g s = Some t' \<and> table_geometry t' \<and> unique (entries t')
    \<and> chains (home t') (entries t') \<and> content (entries t') = content (entries t)
    \<and> t_len t' = t_len t \<and> t_capacity t' = t_capacity t"
  using assms
proof (induction n arbitrary: t g s)
  case (Suc n)
  let ?N = "length (t_slots t)" and ?s' = "(s + 1) AND t_mask t"
  have ctx: "unat g < ?N" "unat s < ?N" "z < ?N" "entries t ! unat g = None" "entries t ! z = None"
    "unat s \<noteq> unat g"
    using Suc.prems(3) by (auto simp: hole_def)
  have homes: "home t k < length (entries t)" for k
    using home_less [OF Suc.prems(1)] by simp
  have reads: "slot_read t g = Some None" "slot_read t s = Some (entries t ! unat s)"
    using slot_read_in [OF Suc.prems(1)] ctx by simp_all
  have next': "unat ?s' = cnext ?N (unat s)"
    using slot_next [OF Suc.prems(1) ctx(2)] .
  show ?case
  proof (cases "entries t ! unat s")
    case None
    then show ?thesis
      using Suc.prems reads hole_done [OF homes Suc.prems(3)] by simp
  next
    case (Some e)
    obtain k v where e: "e = (k, v)" by fastforce
    have "unat s \<noteq> z" using Some ctx by auto
    then have closer: "cdist ?N (unat ?s') z < n"
      using cdist_next [of "unat s" ?N z] ctx Suc.prems(4) next' by simp
    have fills: "fills_gap (home_slot t k) g s (t_mask t) = Some (on_chain ?N (home t k) (unat s) (unat g))"
      using ctx by (intro fills_gap_on_chain [OF Suc.prems(1) ctx(1, 2)]) auto
    show ?thesis
    proof (cases "on_chain ?N (home t k) (unat s) (unat g)")
      case True
      have occ: "entries t ! unat s \<noteq> None" using Some by simp
      obtain t1 t2 where t2: "slot_write t g (entries t ! unat s) = Some t1" "slot_write t1 s None = Some t2"
        "table_geometry t2" "entries t2 = (entries t)[unat g := entries t ! unat s, unat s := None]"
        "unique (entries t2)" "content (entries t2) = content (entries t)" "t_len t2 = t_len t"
        "t_capacity t2 = t_capacity t" "t_mask t2 = t_mask t" "home t2 = home t"
        "length (t_slots t2) = ?N"
        using move_entry [OF Suc.prems(1) ctx(1, 2) Suc.prems(2) ctx(4) occ] by blast
      have "hole (home t2) (entries t2) (unat s) (unat ?s') z"
        using hole_move [OF homes Suc.prems(3), of k v] True Some e t2 next' by simp
      then show ?thesis
        using Suc.IH [OF t2(3, 5), of s ?s'] closer t2 reads fills True Some e ctx by auto
    next
      case False
      have "hole (home t) (entries t) (unat g) (unat ?s') z"
        using hole_skip [OF homes Suc.prems(3), of k v] False Some e next' by simp
      then show ?thesis
        using Suc.IH [OF Suc.prems(1, 2), of g ?s'] closer reads fills False Some e by simp
    qed
  qed
qed simp

section \<open>The table implements a bounded map\<close>

lemma lookup_correct:
  assumes "table_inv t"
  shows "lookup t page = Some (table_abs t page)"
proof -
  have geo: "table_geometry t" and uniq: "unique (entries t)" and ch: "chains (home t) (entries t)"
    and room: "card (dom (content (entries t))) < length (entries t)"
    using assms by (auto simp: table_inv_def table_geometry_def word_less_nat_alt)
  have h: "home t page < length (entries t)"
    using home_less [OF geo] by simp
  have loop: "lookup t page = Some (case probe_from (length (entries t)) (entries t) page (home t page) of
      Found j \<Rightarrow> map_option snd (entries t ! j) | _ \<Rightarrow> None)"
    using lookup_loop_probe [OF geo, of "home_slot t page" "unat (t_capacity t)" page] h geo
    by (simp add: lookup_def home_def table_geometry_def)
  show ?thesis
  proof (cases "content (entries t) page")
    case None
    then show ?thesis
      using probe_home_vacant [where home = "home t", OF uniq h None vacant_if_room [OF uniq room]] loop
      by (auto simp: table_abs_def)
  next
    case (Some f)
    then show ?thesis
      using probe_home_found [OF uniq ch h Some] loop by (auto simp: table_abs_def)
  qed
qed


lemma insert_shared_correct:
  assumes "table_inv t" "card (dom ((table_abs t)(page \<mapsto> f))) \<le> table_room t"
  shows "\<exists>t'. insert_shared t page f = Some t' \<and> table_inv t' \<and> table_abs t' = (table_abs t)(page \<mapsto> f)
    \<and> table_room t' = table_room t"
proof -
  let ?es = "entries t" and ?N = "length (t_slots t)"
  have geo: "table_geometry t" and uniq: "unique ?es" and ch: "chains (home t) ?es"
    and cap: "unat (t_capacity t) = ?N" and len: "unat (t_len t) = card (dom (content ?es))"
    and lt: "card (dom (content ?es)) < ?N"
    using assms(1) by (auto simp: table_inv_def table_geometry_def word_less_nat_alt)
  have h: "home t page < length ?es"
    using home_less [OF geo] by simp
  have loop: "case probe_from ?N ?es page (home t page) of
      Found j \<Rightarrow> \<exists>g. unat g = j \<and> insert_shared t page f = slot_write t g (Some (page, f))
    | Vacant j \<Rightarrow> \<exists>g. unat g = j \<and> insert_shared t page f = do {
        assert (t_len t < t_capacity t);
        t' \<leftarrow> slot_write t g (Some (page, f));
        Some (t'\<lparr>t_len := t_len t' + 1\<rparr>) }
    | Exhausted \<Rightarrow> insert_shared t page f = None"
    unfolding insert_shared_def home_def cap
    using insert_loop_probe [OF geo, of "home_slot t page" ?N page f] h by (simp add: home_def)
  show ?thesis
  proof (cases "content ?es page")
    case None
    have vac: "vacant ?es"
      using vacant_if_room [OF uniq] lt by simp
    obtain j where j: "probe_from ?N ?es page (home t page) = Vacant j" "j < length ?es" "?es ! j = None"
      "\<forall>p < length ?es. on_chain (length ?es) (home t page) j p \<longrightarrow> ?es ! p \<noteq> None"
      using probe_home_vacant [where home = "home t", OF uniq h None vac] by auto
    obtain g where g: "unat g = j" "insert_shared t page f = do {
        assert (t_len t < t_capacity t);
        t' \<leftarrow> slot_write t g (Some (page, f));
        Some (t'\<lparr>t_len := t_len t' + 1\<rparr>) }"
      using loop j(1) by auto
    have g_in: "unat g < ?N" using g j by simp
    obtain t' where t': "slot_write t g (Some (page, f)) = Some t'" "table_geometry t'"
      "entries t' = ?es[j := Some (page, f)]" "t_len t' = t_len t" "t_capacity t' = t_capacity t"
      "home t' = home t"
      using slot_write_in [OF geo g_in] g by blast
    let ?t = "t'\<lparr>t_len := t_len t' + 1\<rparr>"
    have same: "entries ?t = entries t'" "home ?t = home t'" "table_geometry ?t = table_geometry t'"
      by (simp_all add: entries_def home_def home_slot_def table_geometry_def fun_eq_iff)
    have grown: "content (entries ?t) = (content ?es)(page \<mapsto> f)" "unique (entries ?t)"
      using content_update_vacant [OF uniq j(2) None j(3)] t' same by simp_all
    have card: "card (dom ((content ?es)(page \<mapsto> f))) = Suc (card (dom (content ?es)))"
      using None finite_dom_content [OF uniq] by (simp add: domIff)
    then have fit: "Suc (unat (t_len t)) < unat (t_capacity t)"
      using assms(2) lt len cap by (simp add: table_abs_def table_room_def)
    then have len': "unat (t_len t + 1) = Suc (unat (t_len t))"
      using unat_add_small [of "t_len t" 1] unsigned_less [where 'a = nat, of "t_capacity t"] by simp
    have "chains (home ?t) (entries ?t)"
      using chains_fill [OF ch j(2, 4)] t' same by simp
    then have "table_inv ?t"
      using grown card len len' fit t' same by (simp add: table_inv_def word_less_nat_alt)
    moreover have "t_len t < t_capacity t"
      using fit by (simp add: word_less_nat_alt)
    ultimately show ?thesis
      using g t' grown by (simp add: table_abs_def table_room_def)
  next
    case (Some w)
    obtain j where j: "probe_from ?N ?es page (home t page) = Found j" "j < length ?es"
      "?es ! j = Some (page, w)"
      using probe_home_found [OF uniq ch h Some] by auto
    obtain g where g: "unat g = j" "insert_shared t page f = slot_write t g (Some (page, f))"
      using loop j(1) by auto
    have g_in: "unat g < ?N" using g j by simp
    obtain t' where t': "slot_write t g (Some (page, f)) = Some t'" "table_geometry t'"
      "entries t' = ?es[j := Some (page, f)]" "t_len t' = t_len t" "t_capacity t' = t_capacity t"
      "home t' = home t"
      using slot_write_in [OF geo g_in] g by blast
    have kept: "unique (entries t')" "content (entries t') = (content ?es)(page \<mapsto> f)"
      using content_update_same [OF uniq j(2, 3)] t' by simp_all
    moreover have "dom ((content ?es)(page \<mapsto> f)) = dom (content ?es)"
      using Some by auto
    ultimately have "table_inv t'"
      using chains_replace [OF ch j(2, 3)] t' assms(1) by (simp add: table_inv_def)
    then show ?thesis
      using g t' kept by (simp add: table_abs_def table_room_def)
  qed
qed

lemma remove_shared_correct:
  assumes "table_inv t"
  shows "\<exists>t'. remove_shared t page = Some (table_abs t page, t') \<and> table_inv t'
    \<and> table_abs t' = (table_abs t)(page := None) \<and> table_room t' = table_room t"
proof -
  let ?es = "entries t" and ?N = "length (t_slots t)"
  have geo: "table_geometry t" and uniq: "unique ?es" and ch: "chains (home t) ?es"
    and cap: "unat (t_capacity t) = ?N" and len: "unat (t_len t) = card (dom (content ?es))"
    and lt: "card (dom (content ?es)) < ?N"
    using assms by (auto simp: table_inv_def table_geometry_def word_less_nat_alt)
  have homes: "home t k < length ?es" for k
    using home_less [OF geo] by simp
  have vac: "vacant ?es"
    using vacant_if_room [OF uniq] lt by simp
  have loop: "case probe_from ?N ?es page (home t page) of
      Found j \<Rightarrow> \<exists>g f. remove_find (unat (t_capacity t)) t page (home_slot t page) = Some (Some (g, f))
        \<and> unat g = j \<and> ?es ! j = Some (page, f)
    | _ \<Rightarrow> remove_find (unat (t_capacity t)) t page (home_slot t page) = Some None"
    unfolding home_def cap
    using remove_find_probe [OF geo, of "home_slot t page" ?N page] homes [of page] by (simp add: home_def)
  show ?thesis
  proof (cases "content ?es page")
    case None
    then have "remove_shared t page = Some (None, t)"
      using probe_home_vacant [where home = "home t", OF uniq homes None vac] loop
      by (auto simp: remove_shared_def)
    then show ?thesis
      using assms None by (auto simp: table_abs_def)
  next
    case (Some w)
    obtain j where "probe_from ?N ?es page (home t page) = Found j" "j < length ?es" "?es ! j = Some (page, w)"
      using probe_home_found [OF uniq ch homes Some] by auto
    then obtain g where g: "remove_find (unat (t_capacity t)) t page (home_slot t page) = Some (Some (g, w))"
      "unat g < ?N" "?es ! unat g = Some (page, w)"
      using loop by auto
    obtain t1 where t1: "slot_write t g None = Some t1" "table_geometry t1"
      "entries t1 = ?es[unat g := None]" "t_len t1 = t_len t" "t_capacity t1 = t_capacity t"
      "home t1 = home t" "length (t_slots t1) = ?N"
      using slot_write_in [OF geo g(2)] by blast
    let ?t = "t1\<lparr>t_len := t_len t1 - 1\<rparr>"
    have same: "entries ?t = entries t1" "home ?t = home t1" "table_geometry ?t = table_geometry t1"
      by (simp_all add: entries_def home_def home_slot_def table_geometry_def fun_eq_iff)
    have cleared: "unique (entries ?t)" "content (entries ?t) = (content ?es)(page := None)"
      using content_clear [OF uniq _ g(3)] g(2) t1 same by simp_all
    obtain z where z: "z < length ?es" "?es ! z = None"
      using vac by (auto simp: vacant_def in_set_conv_nth)
    have "hole (home t) (?es[unat g := None]) (unat g) (cnext (length ?es) (unat g)) z"
      using hole_start [OF homes ch _ _ z] g by simp
    moreover have "unat ((g + 1) AND t_mask t1) = cnext ?N (unat g)"
      using slot_next [OF t1(2), of g] t1(7) g(2) by simp
    ultimately have hole: "hole (home ?t) (entries ?t) (unat g) (unat ((g + 1) AND t_mask ?t)) z"
      using t1 same by simp
    have "cdist ?N (unat ((g + 1) AND t_mask ?t)) z < ?N"
      using hole z t1 by (intro cdist_less) (auto simp: hole_def)
    then obtain t' where t': "backward_shift ?t g = Some t'" "table_geometry t'" "unique (entries t')"
      "chains (home t') (entries t')" "content (entries t') = (content ?es)(page := None)"
      "t_len t' = t_len t - 1" "t_capacity t' = t_capacity t"
      using backward_shift_loop_closes [OF _ cleared(1) hole, of ?N] t1 same cleared cap
      by (auto simp: backward_shift_def)
    have card: "card (dom ((content ?es)(page := None))) = card (dom (content ?es)) - 1"
      "0 < card (dom (content ?es))"
      using Some finite_dom_content [OF uniq] by (auto simp: domIff card_gt_0_iff)
    then have "t_len t \<noteq> 0"
      using len by auto
    moreover from this have "unat (t_len t - 1) = unat (t_len t) - 1"
      by (rule unat_minus_one)
    ultimately have "table_inv t'" "t_len t1 \<noteq> 0"
      using t' t1 card len lt cap by (auto simp: table_inv_def word_less_nat_alt)
    then have "remove_shared t page = Some (Some w, t')"
      using g t1 t' by (simp add: remove_shared_def)
    then show ?thesis
      using \<open>table_inv t'\<close> t' Some by (simp add: table_abs_def table_room_def)
  qed
qed

interpretation page_table: bounded_map lookup insert_shared remove_shared table_inv table_abs table_room
  by unfold_locales (simp_all add: lookup_correct insert_shared_correct remove_shared_correct)


section \<open>Construction\<close>

lemma find_power_of_two:
  assumes "unat w \<le> 2 ^ k" "k < LENGTH('a)"
  shows "\<exists>p. checked_next_power_of_two (w :: 'a::len word) = Some p"
proof -
  have "w \<le> push_bit k 1"
    using assms unat_push_bit_1 [OF assms(2)] by (simp add: word_le_nat_alt)
  then have "find (\<lambda>p. w \<le> p) (map (\<lambda>n. push_bit n 1) [0..<LENGTH('a)]) \<noteq> None"
    using assms(2) by (auto simp: find_None_iff)
  then show ?thesis
    by (auto simp: checked_next_power_of_two_def)
qed

lemma try_with_frame_count_Some:
  assumes "try_with_frame_count True n = Some (Some t)"
  shows "0 < unat n" "2 * unat n \<le> unat (t_capacity t)" "table_inv t" "table_abs t = Map.empty"
    "table_room t = unat (t_capacity t) - 1"
proof -
  obtain cap where cap: "0 < n" "unat n * 2 < 2 ^ 32" "checked_next_power_of_two (n * 2) = Some cap"
    "t = \<lparr>t_slots = replicate (unat cap) Cell_vacant, t_capacity = cap, t_mask = cap - 1, t_len = 0\<rparr>"
    using assms by (auto simp: try_with_frame_count_def bind_Some_iff checked_mul_Some)
  note pow = checked_next_power_of_two_Some [OF cap(3)]
  have double: "unat (n * 2) = unat n * 2"
    using unat_mul_small [of n 2] cap(2) by simp
  show n: "0 < unat n"
    using cap(1) by (simp add: word_less_nat_alt)
  show twice: "2 * unat n \<le> unat (t_capacity t)"
    using pow(2) double cap(4) by (simp add: word_le_nat_alt)
  have es: "entries t = replicate (unat cap) None"
    using cap(4) by (simp add: entries_def Cell_snapshot_def Cell_vacant_def)
  then have u: "unique (entries t)" and c: "chains (home t) (entries t)"
    by (auto simp: unique_def chains_def)
  have empty: "content (entries t) = Map.empty"
    using content_Some_iff [OF u] by (intro map_eq_by_Some) (auto simp: es)
  then show "table_abs t = Map.empty"
    by (simp add: table_abs_def)
  have "table_geometry t"
    using pow(1) cap(4) by (auto simp: table_geometry_def Cell_vacant_def)
  then show "table_inv t"
    using u c empty cap(4) n twice by (simp add: table_inv_def word_less_nat_alt)
  show "table_room t = unat (t_capacity t) - 1"
    by (simp add: table_room_def)
qed

lemma fits_mono: "fits n ops m \<Longrightarrow> n \<le> n' \<Longrightarrow> fits n' ops m"
  by (induction ops arbitrary: m) auto

section \<open>Properties\<close>

text \<open>
  C1.  A page table built for \<open>n\<close> frames behaves as a map from pages to frames: for
  every history of insertions and removals that never holds more than \<open>n\<close> pages
  at once, no operation panics and a lookup returns exactly what the history
  says.
\<close>

theorem page_table_refines_map:
  assumes "try_with_frame_count True n = Some (Some t)" "fits (unat n) ops Map.empty"
  shows "Option.bind (run_map_ops insert_shared remove_shared ops t) (\<lambda>t'. lookup t' page) =
    Some (foldl (\<lambda>m op. map_op_sem op m) Map.empty ops page)"
proof -
  note init = try_with_frame_count_Some [OF assms(1)]
  have "fits (table_room t) ops (table_abs t)"
    using fits_mono [OF assms(2)] init by simp
  then show ?thesis
    using page_table.lookup_after_run [OF init(3), of ops page] init(4) by simp
qed

definition sample_page :: "u32 \<Rightarrow> PageId" where
  "sample_page g = PageId_new (FileId_new 7 1 3) g"

theorem page_table_refines_map_witness:
  "Option.bind (run_map_ops insert_shared remove_shared
       [Insert (sample_page 0) 4, Insert (sample_page 1) 5, Remove (sample_page 0)]
       (the (the (try_with_frame_count True 2))))
     (\<lambda>t'. lookup t' (sample_page 1)) = Some (Some 5)"
proof -
  have t: "try_with_frame_count True 2 = Some (Some (the (the (try_with_frame_count True 2))))"
    by (simp add: try_with_frame_count_def checked_mul_def checked_next_power_of_two_def upt_conv_Cons)
  show ?thesis
    by (subst page_table_refines_map [OF t])
      (simp_all add: sample_page_def PageId_new_def FileId_new_def)
qed

end
