(* ===== verification/Seqlock.thy ===== *)
theory Seqlock
  imports Table
begin

text \<open>
  The lock-free read of a page-table cell against its single writer
  (\<open>Cell::write\<close> and \<open>Cell::read\<close> of \<open>pool/table.rs\<close>), store by store and load by
  load.  The step relation interleaves the writer and a reader arbitrarily; the
  memory is sequentially consistent, which the release and acquire fences around
  the two version accesses provide for the fields in between.  \<open>hist\<close> is the
  sequence of entries the cell has held, oldest first, and \<open>started\<close> the position
  in it when the read in progress began; neither influences a step.
\<close>

section \<open>The program, access by access\<close>

datatype cell_store =
    StDriver u64 | StFileSlot u32 | StFileGeneration u32 | StGranule u32 | StFrame u32 | StOccupied bool

primrec apply_store :: "cell_store \<Rightarrow> Cell \<Rightarrow> Cell" where
  "apply_store (StDriver v) c = c\<lparr>c_driver := v\<rparr>"
| "apply_store (StFileSlot v) c = c\<lparr>c_file_slot := v\<rparr>"
| "apply_store (StFileGeneration v) c = c\<lparr>c_file_generation := v\<rparr>"
| "apply_store (StGranule v) c = c\<lparr>c_granule_idx := v\<rparr>"
| "apply_store (StFrame v) c = c\<lparr>c_frame := v\<rparr>"
| "apply_store (StOccupied v) c = c\<lparr>c_occupied := v\<rparr>"

fun write_stores :: "entry option \<Rightarrow> cell_store list" where
  "write_stores (Some (page, frame)) =
     [StDriver (driver (page_file page)), StFileSlot (slot (page_file page)),
      StFileGeneration (generation (page_file page)), StGranule (granule_idx page),
      StFrame frame, StOccupied True]"
| "write_stores None = [StOccupied False]"

datatype cell_field = FDriver | FFileSlot | FFileGeneration | FGranule | FFrame

primrec load_field :: "Cell \<Rightarrow> cell_field \<Rightarrow> Cell \<Rightarrow> Cell" where
  "load_field c FDriver regs = regs\<lparr>c_driver := c_driver c\<rparr>"
| "load_field c FFileSlot regs = regs\<lparr>c_file_slot := c_file_slot c\<rparr>"
| "load_field c FFileGeneration regs = regs\<lparr>c_file_generation := c_file_generation c\<rparr>"
| "load_field c FGranule regs = regs\<lparr>c_granule_idx := c_granule_idx c\<rparr>"
| "load_field c FFrame regs = regs\<lparr>c_frame := c_frame c\<rparr>"

definition field_loads :: "bool \<Rightarrow> cell_field list" where
  "field_loads occupied =
     (if occupied then [FDriver, FFileSlot, FFileGeneration, FGranule, FFrame] else [])"

datatype writer = WIdle | WStoring "entry option" "cell_store list"

datatype reader =
    RIdle | RVersion | ROccupied u64 | RFields u64 Cell "cell_field list" | RDone "entry option"

record seqlock =
  cell :: Cell
  wr :: writer
  rd :: reader
  hist :: "entry option list"
  started :: nat

text \<open>The sequential write is its stores in program order between the two version stores.\<close>

lemma Cell_write_stores:
  "Cell_write c e = (if c_seq c AND 1 = 0
     then Some ((fold apply_store (write_stores e) (c\<lparr>c_seq := c_seq c + 1\<rparr>))\<lparr>c_seq := c_seq c + 2\<rparr>)
     else None)"
  by (cases e) (auto simp: Cell_write_def Let_def assert_def)

inductive seqlock_step :: "seqlock \<Rightarrow> seqlock \<Rightarrow> bool" where
  w_begin: "wr s = WIdle \<Longrightarrow> c_seq (cell s) AND 1 = 0 \<Longrightarrow>
    seqlock_step s (s\<lparr>cell := (cell s)\<lparr>c_seq := c_seq (cell s) + 1\<rparr>, wr := WStoring e (write_stores e)\<rparr>)"
| w_store: "wr s = WStoring e (st # rest) \<Longrightarrow>
    seqlock_step s (s\<lparr>cell := apply_store st (cell s), wr := WStoring e rest\<rparr>)"
| w_end: "wr s = WStoring e [] \<Longrightarrow>
    seqlock_step s (s\<lparr>cell := (cell s)\<lparr>c_seq := c_seq (cell s) + 1\<rparr>, wr := WIdle, hist := hist s @ [e]\<rparr>)"
| r_begin: "rd s = RIdle \<or> rd s = RDone e \<Longrightarrow>
    seqlock_step s (s\<lparr>rd := RVersion, started := length (hist s) - 1\<rparr>)"
| r_version: "rd s = RVersion \<Longrightarrow>
    seqlock_step s (s\<lparr>rd := (if c_seq (cell s) AND 1 \<noteq> 0 then RVersion else ROccupied (c_seq (cell s)))\<rparr>)"
| r_occupied: "rd s = ROccupied before \<Longrightarrow>
    seqlock_step s (s\<lparr>rd := RFields before (Cell_vacant\<lparr>c_occupied := c_occupied (cell s)\<rparr>)
      (field_loads (c_occupied (cell s)))\<rparr>)"
| r_field: "rd s = RFields before regs (f # rest) \<Longrightarrow>
    seqlock_step s (s\<lparr>rd := RFields before (load_field (cell s) f regs) rest\<rparr>)"
| r_validate: "rd s = RFields before regs [] \<Longrightarrow>
    seqlock_step s (s\<lparr>rd := (if c_seq (cell s) = before then RDone (Cell_snapshot regs) else RVersion)\<rparr>)"

definition seqlock_start :: "seqlock \<Rightarrow> bool" where
  "seqlock_start s \<longleftrightarrow>
     c_seq (cell s) = 0 \<and> wr s = WIdle \<and> rd s = RIdle
     \<and> hist s = [Cell_snapshot (cell s)] \<and> started s = 0"

section \<open>Invariant\<close>

definition version :: "seqlock \<Rightarrow> nat" where
  "version s = 2 * (length (hist s) - 1) + (if wr s = WIdle then 0 else 1)"

fun writer_ok :: "writer \<Rightarrow> Cell \<Rightarrow> entry option list \<Rightarrow> bool" where
  "writer_ok WIdle c h \<longleftrightarrow> Cell_snapshot c = last h"
| "writer_ok (WStoring e pending) c h \<longleftrightarrow> Cell_snapshot (fold apply_store pending c) = e"

fun reader_ok :: "reader \<Rightarrow> Cell \<Rightarrow> entry option list \<Rightarrow> nat \<Rightarrow> bool" where
  "reader_ok (ROccupied b) c h st \<longleftrightarrow> (\<exists>m. unat b = 2 * m \<and> st \<le> m \<and> m < length h)"
| "reader_ok (RFields b regs pending) c h st \<longleftrightarrow>
     (\<exists>m. unat b = 2 * m \<and> st \<le> m \<and> m < length h)
     \<and> (c_seq c = b \<longrightarrow> Cell_snapshot (fold (load_field c) pending regs) = Cell_snapshot c)"
| "reader_ok (RDone r) c h st \<longleftrightarrow> (\<exists>m. st \<le> m \<and> m < length h \<and> r = h ! m)"
| "reader_ok _ c h st \<longleftrightarrow> True"

definition seqlock_safe :: "seqlock \<Rightarrow> bool" where
  "seqlock_safe s \<longleftrightarrow>
     hist s \<noteq> [] \<and> started s < length (hist s) \<and> unat (c_seq (cell s)) = version s
     \<and> writer_ok (wr s) (cell s) (hist s) \<and> reader_ok (rd s) (cell s) (hist s) (started s)"

text \<open>Fewer than \<open>2 ^ 62\<close> writes: the version counter has not wrapped.\<close>

definition unwrapped :: "seqlock \<Rightarrow> bool" where
  "unwrapped s \<longleftrightarrow> length (hist s) \<le> 2 ^ 62"

definition seqlock_inv :: "seqlock \<Rightarrow> bool" where
  "seqlock_inv s \<longleftrightarrow> (unwrapped s \<longrightarrow> seqlock_safe s)"


lemma and_one_zero_iff: "w AND 1 = 0 \<longleftrightarrow> even (unat w)" for w :: u64
  by (simp add: and_one_eq even_iff_mod_2_eq_zero word_unat_eq_iff unat_mod)

lemma snapshot_seq [simp]: "Cell_snapshot (c\<lparr>c_seq := v\<rparr>) = Cell_snapshot c"
  by (simp add: Cell_snapshot_def)

lemma seq_apply_store [simp]: "c_seq (apply_store st c) = c_seq c"
  by (cases st) simp_all

lemma snapshot_write_stores: "Cell_snapshot (fold apply_store (write_stores e) c) = e"
  by (cases e) (auto simp: Cell_snapshot_def PageId_new_def FileId_new_def)

lemma snapshot_field_loads:
  "Cell_snapshot (fold (load_field c) (field_loads (c_occupied c)) (Cell_vacant\<lparr>c_occupied := c_occupied c\<rparr>))
     = Cell_snapshot c"
  by (simp add: field_loads_def Cell_snapshot_def)

lemma snapshot_apply_stores_seq [simp]:
  "Cell_snapshot (fold apply_store sts (c\<lparr>c_seq := v\<rparr>)) = Cell_snapshot (fold apply_store sts c)"
proof -
  have "apply_store st (c\<lparr>c_seq := v\<rparr>) = (apply_store st c)\<lparr>c_seq := v\<rparr>" for st c
    by (cases st) simp_all
  then have "fold apply_store sts (c\<lparr>c_seq := v\<rparr>) = (fold apply_store sts c)\<lparr>c_seq := v\<rparr>"
    by (induction sts arbitrary: c) simp_all
  then show ?thesis by simp
qed

lemma version_bound: "unwrapped s \<Longrightarrow> hist s \<noteq> [] \<Longrightarrow> version s + 2 < 2 ^ 64"
  by (auto simp: version_def unwrapped_def)

lemma unat_seq_Suc:
  "unwrapped s \<Longrightarrow> seqlock_safe s \<Longrightarrow> unat (c_seq (cell s) + 1) = Suc (version s)"
  using version_bound [of s] unat_add_small [of "c_seq (cell s)" 1] by (simp add: seqlock_safe_def)

text \<open>A reader holding an even version sees no change of the cell unless the version moves.\<close>

lemma safe_reader_ok: "seqlock_safe s \<Longrightarrow> reader_ok (rd s) (cell s) (hist s) (started s)"
  by (simp add: seqlock_safe_def)

lemma reader_ok_writer_step:
  assumes "reader_ok r c h st" "length h \<le> length h'" "\<And>m. m < length h \<Longrightarrow> h' ! m = h ! m"
    "\<And>m. m < length h \<Longrightarrow> unat (c_seq c') \<noteq> 2 * m"
  shows "reader_ok r c' h' st"
proof (cases r)
  case (RDone e)
  then show ?thesis
    using assms(1-3) by (auto intro: less_le_trans)
qed (use assms in \<open>auto intro: less_le_trans\<close>)

lemma safe_w_begin:
  assumes "seqlock_safe s" "unwrapped s" "wr s = WIdle"
  shows "seqlock_safe (s\<lparr>cell := (cell s)\<lparr>c_seq := c_seq (cell s) + 1\<rparr>, wr := WStoring e (write_stores e)\<rparr>)"
proof -
  have seq: "unat (c_seq (cell s) + 1) = 2 * (length (hist s) - 1) + 1"
    using unat_seq_Suc [OF assms(2, 1)] assms(3) by (simp add: version_def)
  then have moved: "unat (c_seq (cell s) + 1) \<noteq> 2 * m" for m
    by presburger
  then have "reader_ok (rd s) ((cell s)\<lparr>c_seq := c_seq (cell s) + 1\<rparr>) (hist s) (started s)"
    using safe_reader_ok [OF assms(1)] by - (erule reader_ok_writer_step, simp_all)
  then show ?thesis
    using assms seq by (simp add: seqlock_safe_def version_def snapshot_write_stores)
qed

lemma safe_w_store:
  assumes "seqlock_safe s" "wr s = WStoring e (st # rest)"
  shows "seqlock_safe (s\<lparr>cell := apply_store st (cell s), wr := WStoring e rest\<rparr>)"
proof -
  have "unat (c_seq (cell s)) = 2 * (length (hist s) - 1) + 1"
    using assms by (simp add: seqlock_safe_def version_def)
  then have moved: "unat (c_seq (cell s)) \<noteq> 2 * m" for m
    by presburger
  then have "reader_ok (rd s) (apply_store st (cell s)) (hist s) (started s)"
    using safe_reader_ok [OF assms(1)] by - (erule reader_ok_writer_step, simp_all)
  then show ?thesis
    using assms by (simp add: seqlock_safe_def version_def)
qed

lemma safe_w_end:
  assumes "seqlock_safe s" "unwrapped s" "wr s = WStoring e []"
  shows "seqlock_safe (s\<lparr>cell := (cell s)\<lparr>c_seq := c_seq (cell s) + 1\<rparr>, wr := WIdle, hist := hist s @ [e]\<rparr>)"
proof -
  have ne: "hist s \<noteq> []" using assms(1) by (simp add: seqlock_safe_def)
  have seq: "unat (c_seq (cell s) + 1) = 2 * length (hist s)"
    using unat_seq_Suc [OF assms(2, 1)] assms(3) ne by (cases "hist s") (simp_all add: version_def)
  then have "reader_ok (rd s) ((cell s)\<lparr>c_seq := c_seq (cell s) + 1\<rparr>) (hist s @ [e]) (started s)"
    using safe_reader_ok [OF assms(1)] by - (erule reader_ok_writer_step, simp_all add: nth_append)
  then show ?thesis
    using assms seq ne by (simp add: seqlock_safe_def version_def)
qed

text \<open>An even version in memory is that of the newest committed entry.\<close>

lemma even_version:
  assumes "seqlock_safe s" "even (unat (c_seq (cell s)))"
  shows "wr s = WIdle" "unat (c_seq (cell s)) = 2 * (length (hist s) - 1)"
    "Cell_snapshot (cell s) = hist s ! (length (hist s) - 1)"
  using assms by (cases "wr s"; simp add: seqlock_safe_def version_def last_conv_nth)+

lemma safe_reader_step:
  "seqlock_safe s \<Longrightarrow> reader_ok r (cell s) (hist s) (started s) \<Longrightarrow> seqlock_safe (s\<lparr>rd := r\<rparr>)"
  by (simp add: seqlock_safe_def version_def)

lemma safe_r_version:
  assumes "seqlock_safe s" "rd s = RVersion"
  shows "seqlock_safe (s\<lparr>rd := (if c_seq (cell s) AND 1 \<noteq> 0 then RVersion else ROccupied (c_seq (cell s)))\<rparr>)"
proof -
  have "reader_ok (ROccupied (c_seq (cell s))) (cell s) (hist s) (started s)"
    if "even (unat (c_seq (cell s)))"
    using even_version [OF assms(1) that] assms(1)
    by (auto intro!: exI [of _ "length (hist s) - 1"] simp: seqlock_safe_def)
  then show ?thesis
    using assms by (intro safe_reader_step) (auto simp: and_one_zero_iff)
qed

lemma safe_r_validate:
  assumes "seqlock_safe s" "rd s = RFields b regs []"
  shows "seqlock_safe (s\<lparr>rd := (if c_seq (cell s) = b then RDone (Cell_snapshot regs) else RVersion)\<rparr>)"
proof -
  have "reader_ok (RDone (Cell_snapshot regs)) (cell s) (hist s) (started s)" if b: "c_seq (cell s) = b"
  proof -
    have "Cell_snapshot regs = Cell_snapshot (cell s)" "even (unat (c_seq (cell s)))"
      using safe_reader_ok [OF assms(1)] assms(2) b by auto
    then show ?thesis
      using even_version [OF assms(1)] assms(1)
      by (auto intro!: exI [of _ "length (hist s) - 1"] simp: seqlock_safe_def)
  qed
  then show ?thesis
    using assms by (intro safe_reader_step) auto
qed

lemmas safe_steps = safe_w_begin safe_w_store safe_w_end safe_r_version safe_r_validate

lemma seqlock_step_safe:
  assumes "seqlock_step s s'" "seqlock_safe s" "unwrapped s"
  shows "seqlock_safe s'"
  using assms
proof (cases rule: seqlock_step.cases)
  case (r_begin e)
  then show ?thesis
    using assms(2) by (simp add: seqlock_safe_def version_def)
next
  case (r_occupied before)
  then show ?thesis
    using safe_reader_ok [OF assms(2)] assms(2) snapshot_field_loads [of "cell s"]
    by (auto intro!: safe_reader_step)
next
  case (r_field before regs f rest)
  then show ?thesis
    using safe_reader_ok [OF assms(2)] assms(2) by (auto intro!: safe_reader_step)
qed (simp_all add: safe_steps)

lemma seqlock_step_unwrapped: "seqlock_step s s' \<Longrightarrow> unwrapped s' \<Longrightarrow> unwrapped s"
  by (cases rule: seqlock_step.cases) (auto simp: unwrapped_def)

interpretation seqlock: guarded_system seqlock_start seqlock_step seqlock_inv
proof unfold_locales
  fix s assume "seqlock_start s"
  then show "seqlock_inv s"
    by (simp add: seqlock_start_def seqlock_inv_def seqlock_safe_def version_def)
next
  fix s s' assume "seqlock_inv s" "seqlock_step s s'"
  then show "seqlock_inv s'"
    using seqlock_step_safe seqlock_step_unwrapped by (auto simp: seqlock_inv_def)
qed

section \<open>Properties\<close>

text \<open>
  C2.  A lock-free read of a page-table cell is never torn: whatever the
  interleaving with the writer, the entry it returns is one that a single write
  put there in full, and the cell held it at some moment between the start of
  the read and its return.
\<close>

theorem seqlock_read_linearizes:
  assumes "reachable seqlock_start seqlock_step s" "rd s = RDone e" "unwrapped s"
  shows "\<exists>m. started s \<le> m \<and> m < length (hist s) \<and> e = hist s ! m"
  using seqlock.reachable_inv [OF assms(1)] assms(2, 3)
  by (simp add: seqlock_inv_def seqlock_safe_def)


definition sample_run :: "nat \<Rightarrow> seqlock" where
  "sample_run k = (
     let s = \<lparr>cell = Cell_vacant, wr = WIdle, rd = RIdle, hist = [None], started = 0\<rparr>;
         v = (\<lambda>n. Cell_vacant\<lparr>c_seq := n\<rparr>)
     in [s,
         s\<lparr>cell := v 1, wr := WStoring None [StOccupied False]\<rparr>,
         s\<lparr>cell := v 1, wr := WStoring None [StOccupied False], rd := RVersion\<rparr>,
         s\<lparr>cell := v 1, wr := WStoring None [], rd := RVersion\<rparr>,
         s\<lparr>cell := v 2, hist := [None, None], rd := RVersion\<rparr>,
         s\<lparr>cell := v 2, hist := [None, None], rd := ROccupied 2\<rparr>,
         s\<lparr>cell := v 2, hist := [None, None], rd := RFields 2 Cell_vacant []\<rparr>,
         s\<lparr>cell := v 2, hist := [None, None], rd := RDone None\<rparr>] ! k)"

lemmas sample_run_simps = sample_run_def Let_def Cell_vacant_def field_loads_def Cell_snapshot_def

lemma sample_run_step:
  assumes "k < 7"
  shows "seqlock_step (sample_run k) (sample_run (Suc k))"
proof -
  consider "k = 0" | "k = 1" | "k = 2" | "k = 3" | "k = 4" | "k = 5" | "k = 6"
    using assms by linarith
  then show ?thesis
    using seqlock_step.w_begin [of "sample_run 0" None] seqlock_step.r_begin [of "sample_run 1" None]
      seqlock_step.w_store [of "sample_run 2" None "StOccupied False" "[]"]
      seqlock_step.w_end [of "sample_run 3" None] seqlock_step.r_version [of "sample_run 4"]
      seqlock_step.r_occupied [of "sample_run 5" 2]
      seqlock_step.r_validate [of "sample_run 6" 2 Cell_vacant]
    by cases (simp_all add: sample_run_simps)
qed

lemma sample_run_reachable: "k \<le> 7 \<Longrightarrow> reachable seqlock_start seqlock_step (sample_run k)"
proof (induction k)
  case 0
  then show ?case
    by (intro reachable.start) (simp add: seqlock_start_def sample_run_simps)
next
  case (Suc k)
  then show ?case
    using sample_run_step [of k] by (auto intro: reachable.step)
qed

theorem seqlock_read_linearizes_witness:
  "rd (sample_run 7) = RDone None \<and> (\<exists>m. started (sample_run 7) \<le> m
     \<and> m < length (hist (sample_run 7)) \<and> None = hist (sample_run 7) ! m)"
proof -
  have returned: "rd (sample_run 7) = RDone None" "unwrapped (sample_run 7)"
    by (simp_all add: sample_run_simps unwrapped_def)
  then show ?thesis
    using seqlock_read_linearizes [OF sample_run_reachable returned] by simp
qed

end
