(* ===== verification/Notifications.thy ===== *)
theory Notifications
  imports Table Contracts
begin

text \<open>
  The dirty-frame notification bitmap of \<open>pool/prefetch/notifications.rs\<close>: a
  radix-64 tree of atomic words.  \<open>notify\<close> sets one bit per level from the leaf
  to the root; \<open>drain\<close> takes whole words from the root down.  Both are written as
  sequences of atomic accesses (\<open>notify_level\<close>, \<open>drain_iter\<close>), which the sequential
  functions run back to back and the step relation \<open>dirty_step\<close> interleaves.

  Indices into the tree are naturals: every index the code forms is below the
  frame count, a \<open>u32\<close>.  \<open>d_levels\<close> is the initialised prefix of the level array.
\<close>

section \<open>Model\<close>

definition LEVELS_MAX :: nat where
  "LEVELS_MAX = 6"

record DirtyFrames =
  d_levels :: "u64 list list"
  d_height :: nat
  d_frames :: u32

text \<open>\<open>alloc count\<close> says whether the allocation of a level of \<open>count\<close> words succeeds.\<close>

fun try_new_levels :: "(u32 \<Rightarrow> bool) \<Rightarrow> nat \<Rightarrow> u32 \<Rightarrow> (u64 list list \<times> u32) option" where
  "try_new_levels alloc 0 count = Some ([], count)"
| "try_new_levels alloc (Suc n) count =
     (let count = div_ceil count 64 in
      if \<not> alloc count then None
      else if count = 1 then Some ([replicate (unat count) 0], count)
      else map_option (\<lambda>(ls, c). (replicate (unat count) 0 # ls, c)) (try_new_levels alloc n count))"

definition DirtyFrames_try_new :: "(u32 \<Rightarrow> bool) \<Rightarrow> u32 \<Rightarrow> DirtyFrames option option" where
  "DirtyFrames_try_new alloc frames = do {
     assert (0 < frames);
     (case try_new_levels alloc LEVELS_MAX frames of
        None \<Rightarrow> Some None
      | Some (ls, count) \<Rightarrow> do {
          assert (count = 1);
          Some (Some \<lparr>d_levels = ls, d_height = length ls, d_frames = frames\<rparr>)
        })
   }"

text \<open>One \<open>fetch_or\<close>: the bit of \<open>index\<close> at one level, and the index of its word.\<close>

definition notify_level :: "DirtyFrames \<Rightarrow> nat \<Rightarrow> nat \<Rightarrow> (DirtyFrames \<times> nat) option" where
  "notify_level d level index = do {
     ws \<leftarrow> nth_opt (d_levels d) level;
     w \<leftarrow> nth_opt ws (index div 64);
     Some (d\<lparr>d_levels := (d_levels d)[level := ws[index div 64 := w OR push_bit (index mod 64) 1]]\<rparr>,
           index div 64)
   }"

fun notify_loop :: "DirtyFrames \<Rightarrow> nat list \<Rightarrow> nat \<Rightarrow> (DirtyFrames \<times> nat) option" where
  "notify_loop d [] index = Some (d, index)"
| "notify_loop d (level # rest) index = do {
     (d', word) \<leftarrow> notify_level d level index;
     notify_loop d' rest word
   }"

definition notify :: "DirtyFrames \<Rightarrow> ReadFrameIdx \<Rightarrow> DirtyFrames option" where
  "notify d frame = do {
     assert (frame < d_frames d);
     (d', index) \<leftarrow> notify_loop d [0..<d_height d] (unat frame);
     assert (index = 0);
     Some d'
   }"

text \<open>The locals of a running drain, and one iteration of its loop.\<close>

record drain_pc =
  dp_level :: nat
  dp_words :: "nat list"
  dp_bits :: "u64 list"
  dp_visited :: u32

datatype drain_outcome = Drained u32 | Moved drain_pc DirtyFrames | Visit ReadFrameIdx drain_pc

definition swap_word :: "DirtyFrames \<Rightarrow> nat \<Rightarrow> nat \<Rightarrow> (u64 \<times> DirtyFrames) option" where
  "swap_word d level index = do {
     ws \<leftarrow> nth_opt (d_levels d) level;
     w \<leftarrow> nth_opt ws index;
     Some (w, d\<lparr>d_levels := (d_levels d)[level := ws[index := 0]]\<rparr>)
   }"

definition drain_start :: "DirtyFrames \<Rightarrow> (drain_pc \<times> DirtyFrames) option" where
  "drain_start d = do {
     assert (0 < d_height d);
     let level = d_height d - 1;
     (root, d') \<leftarrow> swap_word d level 0;
     bits \<leftarrow> upd_opt (replicate LEVELS_MAX 0) level root;
     Some (\<lparr>dp_level = level, dp_words = replicate LEVELS_MAX 0, dp_bits = bits, dp_visited = 0\<rparr>, d')
   }"

definition drain_iter :: "DirtyFrames \<Rightarrow> drain_pc \<Rightarrow> drain_outcome option" where
  "drain_iter d p = do {
     b \<leftarrow> nth_opt (dp_bits p) (dp_level p);
     (if b = 0 then
        Some (if dp_level p = d_height d - 1 then Drained (dp_visited p)
              else Moved (p\<lparr>dp_level := dp_level p + 1\<rparr>) d)
      else do {
        bits \<leftarrow> upd_opt (dp_bits p) (dp_level p) (b AND (b - 1));
        w \<leftarrow> nth_opt (dp_words p) (dp_level p);
        let index = w * 64 + trailing_zeros b;
        (if dp_level p = 0 then do {
           assert (index < unat (d_frames d));
           Some (Visit (of_nat index) (p\<lparr>dp_bits := bits, dp_visited := dp_visited p + 1\<rparr>))
         }
         else do {
           let level = dp_level p - 1;
           words \<leftarrow> upd_opt (dp_words p) level index;
           (child, d') \<leftarrow> swap_word d level index;
           bits \<leftarrow> upd_opt bits level child;
           Some (Moved (p\<lparr>dp_level := level, dp_words := words, dp_bits := bits\<rparr>) d')
         })
      })
   }"

text \<open>The loop panics (\<open>unreachable!\<close>) when its iteration bound runs out.\<close>

fun drain_loop ::
  "nat \<Rightarrow> DirtyFrames \<Rightarrow> drain_pc \<Rightarrow> (ReadFrameIdx \<Rightarrow> 's \<Rightarrow> 's option) \<Rightarrow> 's
    \<Rightarrow> (u32 \<times> DirtyFrames \<times> 's) option" where
  "drain_loop 0 d p visit s = None"
| "drain_loop (Suc fuel) d p visit s = do {
     outcome \<leftarrow> drain_iter d p;
     (case outcome of
        Drained visited \<Rightarrow> Some (visited, d, s)
      | Moved p' d' \<Rightarrow> drain_loop fuel d' p' visit s
      | Visit frame p' \<Rightarrow> do { s' \<leftarrow> visit frame s; drain_loop fuel d p' visit s' })
   }"

definition drain_bound :: "DirtyFrames \<Rightarrow> u64" where
  "drain_bound d = ucast (d_frames d) * (of_nat LEVELS_MAX + 1) + of_nat LEVELS_MAX"

definition drain ::
  "DirtyFrames \<Rightarrow> (ReadFrameIdx \<Rightarrow> 's \<Rightarrow> 's option) \<Rightarrow> 's \<Rightarrow> (u32 \<times> DirtyFrames \<times> 's) option" where
  "drain d visit s = do {
     (p, d') \<leftarrow> drain_start d;
     drain_loop (unat (drain_bound d)) d' p visit s
   }"

section \<open>The tree as sets of indices\<close>

fun limit :: "nat \<Rightarrow> nat \<Rightarrow> nat" where
  "limit n 0 = n"
| "limit n (Suc j) = (limit n j + 63) div 64"

definition marks :: "u64 list \<Rightarrow> nat set" where
  "marks ws = {i. i div 64 < length ws \<and> bit (ws ! (i div 64)) (i mod 64)}"

definition marked :: "DirtyFrames \<Rightarrow> nat \<Rightarrow> nat set" where
  "marked d j = marks (d_levels d ! j)"

definition pend :: "drain_pc \<Rightarrow> nat \<Rightarrow> nat set" where
  "pend p j = {dp_words p ! j * 64 + n | n. bit (dp_bits p ! j) n}"

definition shaped :: "DirtyFrames \<Rightarrow> bool" where
  "shaped d \<longleftrightarrow> d_height d = length (d_levels d) \<and> 0 < d_height d \<and> d_height d \<le> LEVELS_MAX
     \<and> limit (unat (d_frames d)) (d_height d) = 1 \<and> 0 < d_frames d
     \<and> (\<forall>j < d_height d. 0 < j \<longrightarrow> limit (unat (d_frames d)) j \<noteq> 1)
     \<and> (\<forall>j < d_height d. length (d_levels d ! j) = limit (unat (d_frames d)) (Suc j)
          \<and> marked d j \<subseteq> {..<limit (unat (d_frames d)) j})"

section \<open>The interleaved system\<close>

text \<open>
  Any number of readers notify while the control plane drains.  A notifier is
  the level it reaches next and its index there.  \<open>due\<close> (the frames notified since
  the drain last took their bit; a frame notified again before its visit stays due), \<open>visits\<close> and \<open>iterations\<close> of the running drain are
  history variables; no step reads them.  An iteration of the drain accesses one shared word,
  so it is one step.
\<close>

record dirty_sys =
  shared :: DirtyFrames
  notifiers :: "(nat \<times> nat) list"
  draining :: "drain_pc option"
  due :: "nat set"
  visits :: "nat list"
  iterations :: nat

inductive dirty_step :: "dirty_sys \<Rightarrow> dirty_sys \<Rightarrow> bool" where
  notify_begin: "(frame :: ReadFrameIdx) < d_frames (shared s) \<Longrightarrow>
    dirty_step s (s\<lparr>notifiers := notifiers s @ [(0, unat frame)]\<rparr>)"
| notify_store: "k < length (notifiers s) \<Longrightarrow> notifiers s ! k = (l, i) \<Longrightarrow> l < d_height (shared s) \<Longrightarrow>
    notify_level (shared s) l i = Some (d', i') \<Longrightarrow>
    dirty_step s (s\<lparr>shared := d', notifiers := (notifiers s)[k := (Suc l, i')],
                    due := (if l = 0 then insert i (due s) else due s)\<rparr>)"
| notify_end: "notifiers s = ns @ (d_height (shared s), i) # ms \<Longrightarrow> i = 0 \<Longrightarrow>
    dirty_step s (s\<lparr>notifiers := ns @ ms\<rparr>)"
| drain_begin: "draining s = None \<Longrightarrow> drain_start (shared s) = Some (p, d') \<Longrightarrow>
    dirty_step s (s\<lparr>shared := d', draining := Some p, visits := [], iterations := 0\<rparr>)"
| drain_move: "draining s = Some p \<Longrightarrow> drain_iter (shared s) p = Some (Moved p' d') \<Longrightarrow>
    dirty_step s (s\<lparr>shared := d', draining := Some p', iterations := Suc (iterations s)\<rparr>)"
| drain_visit: "draining s = Some p \<Longrightarrow> drain_iter (shared s) p = Some (Visit frame p') \<Longrightarrow>
    dirty_step s (s\<lparr>draining := Some p', due := due s - ({unat frame} - marked (shared s) 0),
                    visits := visits s @ [unat frame], iterations := Suc (iterations s)\<rparr>)"
| drain_end: "draining s = Some p \<Longrightarrow> drain_iter (shared s) p = Some (Drained n) \<Longrightarrow>
    dirty_step s (s\<lparr>draining := None\<rparr>)"

definition dirty_start :: "dirty_sys \<Rightarrow> bool" where
  "dirty_start s \<longleftrightarrow> (\<exists>frames. DirtyFrames_try_new (\<lambda>_. True) frames = Some (Some (shared s)))
     \<and> notifiers s = [] \<and> draining s = None \<and> due s = {} \<and> visits s = [] \<and> iterations s = 0"

section \<open>Lemmas on the tree\<close>

lemma limit_shift: "limit n (Suc j) = limit ((n + 63) div 64) j"
  by (induction j) simp_all

lemma limit_pos: "0 < n \<Longrightarrow> 0 < limit n j"
  by (induction j) simp_all

lemma limit_one: "0 < n \<Longrightarrow> n \<le> 64 ^ j \<Longrightarrow> limit n j = 1"
proof (induction j arbitrary: n)
  case (Suc j)
  then have "(n + 63) div 64 \<le> 64 ^ j" "0 < (n + 63) div 64"
    by auto
  then show ?case
    using Suc.IH by (simp only: limit_shift)
qed simp

lemma limit_div: "i < limit n j \<Longrightarrow> i div 64 < limit n (Suc j)"
  by simp

lemma marks_zero [simp]: "marks (replicate n 0) = {}"
  by (auto simp: marks_def)

lemma marks_set:
  assumes "i div 64 < length ws"
  shows "marks (ws[i div 64 := ws ! (i div 64) OR push_bit (i mod 64) 1]) = insert i (marks ws)"
proof (rule set_eqI)
  fix k
  have "k = i \<longleftrightarrow> k div 64 = i div 64 \<and> k mod 64 = i mod 64"
    by (metis div_mult_mod_eq)
  moreover have "bit (push_bit (i mod 64) 1 :: u64) (k mod 64) \<longleftrightarrow> k mod 64 = i mod 64"
    by (auto simp: bit_simps)
  ultimately show "k \<in> marks (ws[i div 64 := ws ! (i div 64) OR push_bit (i mod 64) 1])
      \<longleftrightarrow> k \<in> insert i (marks ws)"
    using assms by (cases "k div 64 = i div 64") (auto simp: marks_def bit_or_iff)
qed

lemma marks_clear: "marks (ws[w := 0]) = marks ws - {i. i div 64 = w}"
proof (rule set_eqI)
  fix k show "k \<in> marks (ws[w := 0]) \<longleftrightarrow> k \<in> marks ws - {i. i div 64 = w}"
    by (cases "k div 64 = w") (auto simp: marks_def)
qed

lemma marks_word:
  assumes "w < length ws"
  shows "{w * 64 + n | n. bit (ws ! w) n} = marks ws \<inter> {i. i div 64 = w}"
proof -
  have "n < 64" if "bit (ws ! w) n" for n
    using bit_imp_le_length [OF that] by simp
  moreover have "i = w * 64 + i mod 64" if "i div 64 = w" for i
    using div_mult_mod_eq [of i 64] that by simp
  ultimately show ?thesis
    using assms by (fastforce simp: marks_def)
qed

lemma shaped_pos: "shaped d \<Longrightarrow> 0 < d_height d"
  unfolding shaped_def by blast

lemma marked_update:
  "l < length (d_levels d) \<Longrightarrow>
     marked (d\<lparr>d_levels := (d_levels d)[l := ws]\<rparr>) j = (if j = l then marks ws else marked d j)"
  by (simp add: marked_def nth_list_update)

lemma shaped_update:
  assumes "shaped d" "l < d_height d" "length ws = limit (unat (d_frames d)) (Suc l)"
    "marks ws \<subseteq> {..<limit (unat (d_frames d)) l}"
  shows "shaped (d\<lparr>d_levels := (d_levels d)[l := ws]\<rparr>)"
proof -
  have "l < length (d_levels d)"
    using assms by (simp add: shaped_def)
  then show ?thesis
    using assms unfolding shaped_def by (auto simp: marked_update nth_list_update)
qed

text \<open>The atomic accesses never index out of range, and move exactly the bits they name.\<close>

lemma notify_level_shaped:
  assumes "shaped d" "l < d_height d" "i < limit (unat (d_frames d)) l"
  obtains d' where "notify_level d l i = Some (d', i div 64)" "shaped d'"
    "d_frames d' = d_frames d" "d_height d' = d_height d"
    "\<And>j. marked d' j = (if j = l then insert i (marked d j) else marked d j)"
proof -
  let ?ws = "d_levels d ! l"
  let ?ws' = "?ws[i div 64 := ?ws ! (i div 64) OR push_bit (i mod 64) 1]"
  have l: "l < length (d_levels d)" and len: "length ?ws = limit (unat (d_frames d)) (Suc l)"
    and sub: "marked d l \<subseteq> {..<limit (unat (d_frames d)) l}"
    using assms by (auto simp: shaped_def)
  have i: "i div 64 < length ?ws"
    using len limit_div [OF assms(3)] by simp
  have "marks ?ws' = insert i (marked d l)"
    using marks_set [OF i] by (simp add: marked_def)
  then show ?thesis
    using that [of "d\<lparr>d_levels := (d_levels d)[l := ?ws']\<rparr>"] l i len sub assms
      shaped_update [of d l ?ws'] by (simp add: notify_level_def marked_update)
qed

lemma swap_word_shaped:
  assumes "shaped d" "l < d_height d" "w < limit (unat (d_frames d)) (Suc l)"
  obtains x d' where "swap_word d l w = Some (x, d')" "shaped d'"
    "d_frames d' = d_frames d" "d_height d' = d_height d"
    "{w * 64 + n | n. bit x n} = marked d l \<inter> {i. i div 64 = w}"
    "\<And>j. marked d' j = (if j = l then marked d j - {i. i div 64 = w} else marked d j)"
proof -
  let ?ws = "d_levels d ! l"
  have l: "l < length (d_levels d)" and w: "w < length ?ws" and len: "length ?ws = limit (unat (d_frames d)) (Suc l)"
    and sub: "marked d l \<subseteq> {..<limit (unat (d_frames d)) l}"
    using assms by (auto simp: shaped_def)
  have "marks (?ws[w := 0]) = marked d l - {i. i div 64 = w}"
    by (simp add: marks_clear marked_def)
  moreover from this have "shaped (d\<lparr>d_levels := (d_levels d)[l := ?ws[w := 0]]\<rparr>)"
    using sub len assms by (intro shaped_update) auto
  ultimately show ?thesis
    using that [of "?ws ! w" "d\<lparr>d_levels := (d_levels d)[l := ?ws[w := 0]]\<rparr>"] l w marks_word [OF w]
    by (simp add: swap_word_def marked_update) (simp add: marked_def)
qed

section \<open>The drain's invariant\<close>

text \<open>
  \<open>next j\<close> is one more than the last index the drain extracted at level \<open>j\<close>: pending bits lie
  at or above it, so it only grows and bounds the number of iterations.
\<close>

definition drain_ok :: "DirtyFrames \<Rightarrow> drain_pc \<Rightarrow> (nat \<Rightarrow> nat) \<Rightarrow> bool" where
  "drain_ok d p next \<longleftrightarrow> dp_level p < d_height d
     \<and> length (dp_words p) = LEVELS_MAX \<and> length (dp_bits p) = LEVELS_MAX
     \<and> (\<forall>j < dp_level p. dp_bits p ! j = 0)
     \<and> (\<forall>j < d_height d. pend p j \<subseteq> {next j..<limit (unat (d_frames d)) j}
          \<and> next j \<le> limit (unat (d_frames d)) j)
     \<and> (\<forall>j. Suc j < d_height d \<longrightarrow> next j \<le> 64 * next (Suc j)
          \<and> (dp_level p \<le> j \<longrightarrow> next (Suc j) = Suc (dp_words p ! j)))"

definition visit_cost :: "nat \<Rightarrow> nat" where
  "visit_cost j = (if j = 0 then 1 else 2)"

definition work :: "DirtyFrames \<Rightarrow> (nat \<Rightarrow> nat) \<Rightarrow> nat \<Rightarrow> nat" where
  "work d next level =
     (\<Sum>j < d_height d. visit_cost j * (limit (unat (d_frames d)) j - next j)) + (d_height d - 1 - level)"

lemma pend_zero [simp]: "dp_bits p ! j = 0 \<Longrightarrow> pend p j = {}"
  by (simp add: pend_def)

lemma pend_empty: "pend p j = {} \<Longrightarrow> dp_bits p ! j = 0"
  by (auto simp: pend_def bit_eq_iff)

lemma extracted:
  fixes b :: u64
  assumes "b \<noteq> 0"
  shows "w * 64 + trailing_zeros b \<in> {w * 64 + n | n. bit b n}"
    "{w * 64 + n | n. bit (b AND (b - 1)) n} = {w * 64 + n | n. bit b n} - {w * 64 + trailing_zeros b}"
    "(w * 64 + trailing_zeros b) div 64 = w"
    "k \<in> {w * 64 + n | n. bit b n} \<Longrightarrow> w * 64 + trailing_zeros b \<le> k"
  using trailing_zeros_bit [OF assms] bit_clear_lowest [OF assms] by (auto simp: not_less) (meson not_less)

lemma work_extract:
  assumes "k < d_height d" "next k \<le> i" "i < limit (unat (d_frames d)) k"
  shows "work d (next(k := Suc i)) level + visit_cost k \<le> work d next level"
proof -
  let ?c = "\<lambda>f j. visit_cost j * (limit (unat (d_frames d)) j - f j)"
  have "(\<Sum>j < d_height d. ?c f j) = ?c f k + (\<Sum>j \<in> {..<d_height d} - {k}. ?c f j)" for f
    using assms(1) by (intro sum.remove) auto
  moreover have "(\<Sum>j \<in> {..<d_height d} - {k}. ?c (next(k := Suc i)) j) = (\<Sum>j \<in> {..<d_height d} - {k}. ?c next j)"
    by (intro sum.cong) auto
  moreover have "?c (next(k := Suc i)) k + visit_cost k \<le> ?c next k"
    using assms(2, 3) by (auto simp: visit_cost_def)
  ultimately show ?thesis
    unfolding work_def by simp
qed

text \<open>The three kinds of iteration that do not end the drain.\<close>

lemma drain_iter_up:
  assumes "shaped d" "drain_ok d p next" "dp_bits p ! dp_level p = 0" "dp_level p \<noteq> d_height d - 1"
  shows "drain_iter d p = Some (Moved (p\<lparr>dp_level := Suc (dp_level p)\<rparr>) d)"
    and "drain_ok d (p\<lparr>dp_level := Suc (dp_level p)\<rparr>) next"
    and "work d next (Suc (dp_level p)) < work d next (dp_level p)"
proof -
  let ?p = "p\<lparr>dp_level := Suc (dp_level p)\<rparr>"
  have lt: "dp_level p < d_height d" "d_height d \<le> LEVELS_MAX" "length (dp_bits p) = LEVELS_MAX"
    using assms by (simp_all add: drain_ok_def shaped_def)
  then show "drain_iter d p = Some (Moved ?p d)"
    using assms(3, 4) by (simp add: drain_iter_def)
  have "pend ?p = pend p"
    by (simp add: pend_def fun_eq_iff)
  then show "drain_ok d ?p next"
    using assms lt unfolding drain_ok_def by (auto simp: less_Suc_eq)
  show "work d next (Suc (dp_level p)) < work d next (dp_level p)"
    using lt assms(4) by (simp add: work_def)
qed

text \<open>Taking the lowest pending bit of the current level.\<close>

lemma drain_ok_extract:
  assumes "shaped d" "drain_ok d p next" "dp_level p = L" "dp_bits p ! L = b" "b \<noteq> 0"
    and "i = dp_words p ! L * 64 + trailing_zeros b"
    and "p' = p\<lparr>dp_bits := (dp_bits p)[L := b AND (b - 1)]\<rparr>"
  shows "i \<in> pend p L" "next L \<le> i" "i < limit (unat (d_frames d)) L" "L < d_height d"
    and "pend p' = (pend p)(L := pend p L - {i})"
    and "drain_ok d p' (next(L := Suc i))"
proof -
  let ?F = "unat (d_frames d)"
  note low = extracted [OF assms(5), where w = "dp_words p ! L", folded assms(6)]
  have len: "length (dp_bits p) = LEVELS_MAX" "length (dp_words p) = LEVELS_MAX" "d_height d \<le> LEVELS_MAX"
    using assms(1, 2) by (simp_all add: drain_ok_def shaped_def)
  show L: "L < d_height d" and i: "i \<in> pend p L"
    using assms(2, 3, 4) low(1) by (auto simp: drain_ok_def pend_def)
  have least: "i \<le> k" if "k \<in> pend p L" for k
    using low(4) that assms(4) by (simp add: pend_def)
  show range: "next L \<le> i" "i < limit ?F L"
    using assms(2) i L unfolding drain_ok_def by fastforce+
  show pend: "pend p' = (pend p)(L := pend p L - {i})"
    using low(2) L len assms(4) by (auto simp: fun_eq_iff pend_def assms(7) nth_list_update)
  have old: "pend p j \<subseteq> {next j..<limit ?F j}" "next j \<le> limit ?F j" if "j < d_height d" for j
    using assms(2) that by (auto simp: drain_ok_def)
  have new: "((pend p)(L := pend p L - {i})) j \<subseteq> {(next(L := Suc i)) j..<limit ?F j}"
    if "j < d_height d" for j
  proof (cases "j = L")
    case True
    have "Suc i \<le> k" if "k \<in> pend p L - {i}" for k
      using least [of k] that by simp
    then show ?thesis
      using old [OF \<open>j < d_height d\<close>] True by fastforce
  qed (use old [OF that] in simp)
  have up: "Suc i \<le> 64 * Suc (dp_words p ! L)"
    using trailing_zeros_bit(2) [OF assms(5)] assms(6) by simp
  have "(next(L := Suc i)) j \<le> 64 * (next(L := Suc i)) (Suc j)" if "Suc j < d_height d" for j
    using assms(2, 3) that up range(1) unfolding drain_ok_def
    by (cases "j = L"; cases "Suc j = L") (auto dest!: spec [where x = j])
  then show "drain_ok d p' (next(L := Suc i))"
    using assms(2, 3) new old range len unfolding drain_ok_def pend by (auto simp: assms(7))
qed

text \<open>Entering the child word of the bit just taken.\<close>

lemma drain_ok_descend:
  assumes "shaped d" "drain_ok d p next" "dp_level p = Suc l" "next (Suc l) = Suc i" "next l \<le> 64 * i"
    and "d_frames d' = d_frames d" "d_height d' = d_height d"
    and "{i * 64 + n | n. bit x n} = marked d l \<inter> {k. k div 64 = i}"
    and "p' = p\<lparr>dp_level := l, dp_words := (dp_words p)[l := i], dp_bits := (dp_bits p)[l := x]\<rparr>"
  shows "pend p' = (pend p)(l := marked d l \<inter> {k. k div 64 = i})"
    and "drain_ok d' p' next"
proof -
  let ?F = "unat (d_frames d)"
  have len: "l < LEVELS_MAX" "length (dp_bits p) = LEVELS_MAX" "length (dp_words p) = LEVELS_MAX"
    and l: "Suc l < d_height d" and sub: "marked d l \<subseteq> {..<limit ?F l}"
    using assms(1, 2, 3) by (auto simp: drain_ok_def shaped_def)
  show pend: "pend p' = (pend p)(l := marked d l \<inter> {k. k div 64 = i})"
    using assms(8) len by (auto simp: fun_eq_iff pend_def assms(9) nth_list_update)
  have "next l \<le> k" if "k div 64 = i" for k
    using div_mult_mod_eq [of k 64] that assms(5) by simp
  then have "marked d l \<inter> {k. k div 64 = i} \<subseteq> {next l..<limit ?F l}"
    using sub by auto
  moreover have "next (Suc j) = Suc (dp_words p' ! j)" if "Suc j < d_height d" "l \<le> j" for j
    using assms(2, 3, 4) that len by (cases "j = l") (auto simp: drain_ok_def assms(9))
  ultimately show "drain_ok d' p' next"
    using assms(2, 3, 6, 7) l len unfolding drain_ok_def pend by (auto simp: assms(9))
qed

lemma drain_iter_leaf:
  assumes "shaped d" "drain_ok d p next" "dp_bits p ! 0 \<noteq> 0" "dp_level p = 0"
  obtains i p' where "drain_iter d p = Some (Visit (of_nat i) p')" "i \<in> pend p 0" "next 0 \<le> i"
    "i < unat (d_frames d)" "drain_ok d p' (next(0 := Suc i))" "pend p' = (pend p)(0 := pend p 0 - {i})"
    "dp_level p' = 0" "dp_visited p' = dp_visited p + 1"
proof -
  define b where "b = dp_bits p ! 0"
  define i where "i = dp_words p ! 0 * 64 + trailing_zeros b"
  define q where "q = p\<lparr>dp_bits := (dp_bits p)[0 := b AND (b - 1)]\<rparr>"
  define p' where "p' = q\<lparr>dp_visited := dp_visited p + 1\<rparr>"
  note ext = drain_ok_extract [OF assms(1, 2, 4) b_def [symmetric] _ i_def q_def]
  have "length (dp_bits p) = LEVELS_MAX" "length (dp_words p) = LEVELS_MAX" "b \<noteq> 0"
    using assms by (simp_all add: drain_ok_def b_def)
  moreover have "pend p' = pend q" "drain_ok d p' n = drain_ok d q n" for n
    by (simp_all add: pend_def p'_def drain_ok_def fun_eq_iff)
  ultimately show ?thesis
    using that [of i p'] ext assms(4)
    by (simp add: drain_iter_def Let_def p'_def q_def i_def LEVELS_MAX_def flip: b_def)
qed

lemma drain_iter_node:
  assumes "shaped d" "drain_ok d p next" "dp_bits p ! Suc l \<noteq> 0" "dp_level p = Suc l"
  obtains i p' d' where "drain_iter d p = Some (Moved p' d')" "i \<in> pend p (Suc l)"
    "next (Suc l) \<le> i" "i < limit (unat (d_frames d)) (Suc l)" "Suc l < d_height d"
    "shaped d'" "d_frames d' = d_frames d" "d_height d' = d_height d"
    "\<And>j. marked d' j = (if j = l then marked d j - {k. k div 64 = i} else marked d j)"
    "pend p' = (pend p)(Suc l := pend p (Suc l) - {i}, l := marked d l \<inter> {k. k div 64 = i})"
    "drain_ok d' p' (next(Suc l := Suc i))" "dp_level p' = l" "dp_visited p' = dp_visited p"
proof -
  define b where "b = dp_bits p ! Suc l"
  define i where "i = dp_words p ! Suc l * 64 + trailing_zeros b"
  define q where "q = p\<lparr>dp_bits := (dp_bits p)[Suc l := b AND (b - 1)]\<rparr>"
  have b: "b \<noteq> 0"
    using assms(3) by (simp add: b_def)
  note ext = drain_ok_extract [OF assms(1, 2, 4) b_def [symmetric] b i_def q_def]
  have l: "l < d_height d"
    using ext(4) by simp
  obtain x d' where x: "swap_word d l i = Some (x, d')" "shaped d'"
    "d_frames d' = d_frames d" "d_height d' = d_height d"
    "{i * 64 + n | n. bit x n} = marked d l \<inter> {k. k div 64 = i}"
    "\<And>j. marked d' j = (if j = l then marked d j - {k. k div 64 = i} else marked d j)"
    by (rule swap_word_shaped [OF assms(1) l ext(3)]) blast
  define p' where "p' = q\<lparr>dp_level := l, dp_words := (dp_words q)[l := i], dp_bits := (dp_bits q)[l := x]\<rparr>"
  have "next l \<le> 64 * i"
    using assms(2) ext(2, 4) by (auto simp: drain_ok_def dest!: spec [where x = l])
  then have desc: "pend p' = (pend q)(l := marked d l \<inter> {k. k div 64 = i})"
    "drain_ok d' p' (next(Suc l := Suc i))"
    using drain_ok_descend [OF assms(1) ext(6) _ _ _ x(3, 4, 5) p'_def] assms(4) by (simp_all add: q_def)
  have "length (dp_bits p) = LEVELS_MAX" "length (dp_words p) = LEVELS_MAX" "Suc l < LEVELS_MAX"
    using assms(1, 2) ext(4) by (simp_all add: drain_ok_def shaped_def)
  then have "drain_iter d p = Some (Moved p' d')"
    using assms(4) b x(1) by (simp add: drain_iter_def Let_def p'_def q_def i_def flip: b_def)
  then show ?thesis
    using that [OF _ ext(1-4) x(2-4, 6) _ desc(2)] desc(1) ext(5) by (simp add: p'_def q_def)
qed

section \<open>The invariant of the interleaved system\<close>

definition taken :: "dirty_sys \<Rightarrow> nat \<Rightarrow> nat set" where
  "taken s j = (case draining s of None \<Rightarrow> {} | Some p \<Rightarrow> pend p j)"

text \<open>A set bit has a set parent, unless the parent is in the drain's hands or about to be set.\<close>

definition parented :: "dirty_sys \<Rightarrow> bool" where
  "parented s \<longleftrightarrow> (\<forall>j i. Suc j < d_height (shared s) \<longrightarrow> i \<in> marked (shared s) j \<longrightarrow>
     i div 64 \<in> marked (shared s) (Suc j) \<union> taken s (Suc j) \<or> (Suc j, i div 64) \<in> set (notifiers s))"

definition climbing :: "dirty_sys \<Rightarrow> bool" where
  "climbing s \<longleftrightarrow> (\<forall>(l, i) \<in> set (notifiers s).
     l \<le> d_height (shared s) \<and> i < limit (unat (d_frames (shared s))) l)"

definition progressing :: "dirty_sys \<Rightarrow> bool" where
  "progressing s \<longleftrightarrow> (\<forall>p. draining s = Some p \<longrightarrow> (\<exists>next. drain_ok (shared s) p next
     \<and> iterations s + work (shared s) next (dp_level p) < unat (drain_bound (shared s))
     \<and> sorted_wrt (<) (visits s) \<and> (\<forall>v \<in> set (visits s). v < next 0)
     \<and> dp_visited p = of_nat (length (visits s))))"

definition dirty_inv :: "dirty_sys \<Rightarrow> bool" where
  "dirty_inv s \<longleftrightarrow> shaped (shared s) \<and> climbing s \<and> parented s
     \<and> due s = marked (shared s) 0 \<union> taken s 0 \<and> progressing s"

lemma drain_ok_cong:
  "d_frames d' = d_frames d \<Longrightarrow> d_height d' = d_height d \<Longrightarrow> drain_ok d' p next = drain_ok d p next"
  by (simp add: drain_ok_def)

lemma work_cong:
  "d_frames d' = d_frames d \<Longrightarrow> d_height d' = d_height d \<Longrightarrow> work d' next l = work d next l"
  by (simp add: work_def)

lemma progressing_cong:
  assumes "progressing s" "draining s' = draining s" "iterations s' = iterations s" "visits s' = visits s"
    "d_frames (shared s') = d_frames (shared s)" "d_height (shared s') = d_height (shared s)"
  shows "progressing s'"
  using assms(1-5) unfolding progressing_def
  by (simp add: drain_ok_cong [OF assms(5, 6)] work_cong [OF assms(5, 6)] drain_bound_def)

lemma notify_begin_inv:
  assumes "dirty_inv s" "f < unat (d_frames (shared s))"
  shows "dirty_inv (s\<lparr>notifiers := notifiers s @ [(0, f)]\<rparr>)"
  using assms progressing_cong [of s "s\<lparr>notifiers := notifiers s @ [(0, f)]\<rparr>"]
  by (auto simp: dirty_inv_def climbing_def parented_def taken_def)

lemma notify_end_inv:
  assumes "dirty_inv s" "notifiers s = ns @ (d_height (shared s), i) # ms"
  shows "dirty_inv (s\<lparr>notifiers := ns @ ms\<rparr>)"
  using assms progressing_cong [of s "s\<lparr>notifiers := ns @ ms\<rparr>"]
  by (auto simp: dirty_inv_def climbing_def parented_def taken_def)

lemma set_list_update_old: "x \<in> set xs \<Longrightarrow> x \<in> set (xs[k := y]) \<or> x = xs ! k"
  by (metis in_set_conv_nth length_list_update nth_list_update_neq)

lemma notify_store_inv:
  assumes inv: "dirty_inv s" and k: "k < length (notifiers s)" "notifiers s ! k = (l, i)"
    and l: "l < d_height (shared s)" and store: "notify_level (shared s) l i = Some (d', i')"
  shows "dirty_inv (s\<lparr>shared := d', notifiers := (notifiers s)[k := (Suc l, i')],
                    due := (if l = 0 then insert i (due s) else due s)\<rparr>)" (is "dirty_inv ?s")
proof -
  have mem: "(l, i) \<in> set (notifiers s)"
    using k by (metis nth_mem)
  then have i: "i < limit (unat (d_frames (shared s))) l"
    using inv by (auto simp: dirty_inv_def climbing_def)
  have shaped: "shaped (shared s)"
    using inv by (simp add: dirty_inv_def)
  obtain d'' where "notify_level (shared s) l i = Some (d'', i div 64)" "shaped d''"
    "d_frames d'' = d_frames (shared s)" "d_height d'' = d_height (shared s)"
    "\<And>j. marked d'' j = (if j = l then insert i (marked (shared s) j) else marked (shared s) j)"
    by (rule notify_level_shaped [OF shaped l i]) blast
  then have d': "i' = i div 64" "shaped d'" "d_frames d' = d_frames (shared s)"
    "d_height d' = d_height (shared s)"
    "\<And>j. marked d' j = (if j = l then insert i (marked (shared s) j) else marked (shared s) j)"
    using store by auto
  have new: "set (notifiers ?s) \<subseteq> insert (Suc l, i') (set (notifiers s))"
    "(Suc l, i') \<in> set (notifiers ?s)"
    using k by (auto simp: set_update_memI dest: set_update_subset_insert [THEN subsetD])
  have "climbing ?s"
    using inv new(1) d' l limit_div [OF i] by (fastforce simp: dirty_inv_def climbing_def)
  moreover have "parented ?s"
    unfolding parented_def
  proof (intro allI impI)
    fix j x assume jx: "Suc j < d_height (shared ?s)" "x \<in> marked (shared ?s) j"
    show "x div 64 \<in> marked (shared ?s) (Suc j) \<union> taken ?s (Suc j) \<or> (Suc j, x div 64) \<in> set (notifiers ?s)"
    proof (cases "j = l \<and> x = i")
      case False
      then have "x div 64 \<in> marked (shared s) (Suc j) \<union> taken s (Suc j) \<or> (Suc j, x div 64) \<in> set (notifiers s)"
        using inv jx d' by (auto simp: dirty_inv_def parented_def split: if_splits)
      moreover have "(Suc j, x div 64) \<in> set (notifiers ?s) \<or> (Suc j, x div 64) = (l, i)"
        if "(Suc j, x div 64) \<in> set (notifiers s)"
        using set_list_update_old [OF that, of k "(Suc l, i')"] k(2) by simp
      ultimately show ?thesis
        using d'(5) by (auto simp: taken_def)
    qed (use d'(1) new(2) in auto)
  qed
  moreover have "progressing ?s"
    using inv d' by (intro progressing_cong [of s ?s]) (auto simp: dirty_inv_def)
  ultimately show ?thesis
    using inv d' by (auto simp: dirty_inv_def taken_def)
qed

lemma drain_bound_unat: "unat (drain_bound d) = 7 * unat (d_frames d) + 6"
proof -
  have F: "unat (d_frames d) < 2 ^ 32"
    using unsigned_less [where 'a = nat, of "d_frames d"] by simp
  then have "unat (ucast (d_frames d) * 7 :: u64) = 7 * unat (d_frames d)"
    by (subst unat_mul_small) (simp_all add: unat_ucast_64)
  then show ?thesis
    using F unat_add_small [of "ucast (d_frames d) * 7 :: u64" 6]
    by (simp add: drain_bound_def LEVELS_MAX_def)
qed

lemma limit_antimono: "0 < n \<Longrightarrow> limit n (Suc j) \<le> (n + 63) div 64"
proof (induction j)
  case (Suc j)
  then have "0 < limit n (Suc j)"
    using limit_pos by blast
  then have "(limit n (Suc j) + 63) div 64 \<le> limit n (Suc j)"
    by arith
  then show ?case
    using Suc by simp
qed simp

lemma work_initial:
  assumes "shaped d"
  shows "work d (\<lambda>_. 0) (d_height d - 1) < unat (drain_bound d)"
proof -
  let ?F = "unat (d_frames d)"
  obtain h where h: "d_height d = Suc h" "h \<le> 5" and F: "0 < ?F"
    using assms by (cases "d_height d") (auto simp: shaped_def LEVELS_MAX_def word_less_nat_alt)
  have "(\<Sum>j<h. 2 * limit ?F (Suc j)) \<le> (\<Sum>j<h. 2 * ((?F + 63) div 64))"
    using limit_antimono [OF F] by (intro sum_mono) simp
  also have "\<dots> \<le> 10 * ((?F + 63) div 64)"
    using h by simp
  also have "\<dots> \<le> 6 * ?F + 5"
    using F by arith
  finally show ?thesis
    by (simp add: work_def h(1) sum.lessThan_Suc_shift visit_cost_def drain_bound_unat
        del: limit.simps(2) sum.lessThan_Suc)
qed

lemma drain_start_shaped:
  assumes "shaped d"
  obtains p d' where "drain_start d = Some (p, d')" "shaped d'" "d_frames d' = d_frames d"
    "d_height d' = d_height d" "dp_level p = d_height d - 1" "dp_visited p = 0"
    "drain_ok d p (\<lambda>_. 0)"
    "\<And>j. j < d_height d \<Longrightarrow> pend p j = (if j = d_height d - 1 then marked d j else {})"
    "\<And>j. marked d' j = (if j = d_height d - 1 then {} else marked d j)"
proof -
  obtain h where h: "d_height d = Suc h" "h < LEVELS_MAX"
    using assms by (cases "d_height d") (auto simp: shaped_def)
  have lim: "limit (unat (d_frames d)) (Suc h) = 1" and sub: "marked d h \<subseteq> {..<limit (unat (d_frames d)) h}"
    using assms unfolding shaped_def h(1) by blast+
  then have small: "i div 64 = 0" if "i \<in> marked d h" for i
    using that by fastforce
  obtain x d' where x: "swap_word d h 0 = Some (x, d')" "shaped d'"
    "d_frames d' = d_frames d" "d_height d' = d_height d"
    "{0 * 64 + n | n. bit x n} = marked d h \<inter> {i. i div 64 = 0}"
    "\<And>j. marked d' j = (if j = h then marked d j - {i. i div 64 = 0} else marked d j)"
    by (rule swap_word_shaped [OF assms, of h 0]) (use h lim in auto)
  define p where "p = \<lparr>dp_level = h, dp_words = replicate LEVELS_MAX 0,
    dp_bits = (replicate LEVELS_MAX 0)[h := x], dp_visited = 0\<rparr>"
  have inter: "marked d h \<inter> {i. i div 64 = 0} = marked d h" "marked d h - {i. i div 64 = 0} = {}"
    using small by auto
  have bits: "dp_bits p ! j = (if j = h then x else 0)" if "j < LEVELS_MAX" for j
    using that h by (simp add: p_def nth_list_update)
  have start: "drain_start d = Some (p, d')"
    using x(1) h by (simp add: drain_start_def p_def Let_def)
  have pend: "pend p j = (if j = h then marked d j else {})" if "j < LEVELS_MAX" for j
    using x(5) inter bits [OF that] that by (simp add: pend_def p_def)
  have "drain_ok d p (\<lambda>_. 0)"
    using pend sub h bits by (auto simp: drain_ok_def p_def)
  then show ?thesis
    using that [OF start x(2-4)] x(6) inter h pend by (simp add: p_def)
qed

lemma drain_begin_inv:
  assumes inv: "dirty_inv s" and idle: "draining s = None" and start: "drain_start (shared s) = Some (p, d')"
  shows "dirty_inv (s\<lparr>shared := d', draining := Some p, visits := [], iterations := 0\<rparr>)" (is "dirty_inv ?s")
    and "marked d' (d_height d' - 1) = {}"
proof -
  let ?d = "shared s" and ?top = "d_height (shared s) - 1"
  have shaped: "shaped ?d"
    using inv by (simp add: dirty_inv_def)
  obtain d'' p'' where "drain_start ?d = Some (p'', d'')" "shaped d''" "d_frames d'' = d_frames ?d"
    "d_height d'' = d_height ?d" "dp_level p'' = ?top" "dp_visited p'' = 0" "drain_ok ?d p'' (\<lambda>_. 0)"
    "\<And>j. j < d_height ?d \<Longrightarrow> pend p'' j = (if j = ?top then marked ?d j else {})"
    "\<And>j. marked d'' j = (if j = ?top then {} else marked ?d j)"
    by (rule drain_start_shaped [OF shaped]) blast
  then have d': "shaped d'" "d_frames d' = d_frames ?d" "d_height d' = d_height ?d" "dp_level p = ?top"
    "dp_visited p = 0" "drain_ok ?d p (\<lambda>_. 0)"
    and pend: "\<And>j. j < d_height ?d \<Longrightarrow> pend p j = (if j = ?top then marked ?d j else {})"
    and marked: "\<And>j. marked d' j = (if j = ?top then {} else marked ?d j)"
    using start by auto
  have pos: "0 < d_height ?d"
    using shaped by (rule shaped_pos)
  have "drain_bound d' = drain_bound ?d"
    using d'(2) by (simp add: drain_bound_def)
  then have "progressing ?s"
    using d' work_initial [OF shaped]
    by (auto simp: progressing_def drain_ok_cong [OF d'(2, 3)] work_cong [OF d'(2, 3)]
        intro!: exI [of _ "\<lambda>_. 0"])
  moreover have "parented ?s"
    unfolding parented_def
  proof (intro allI impI)
    fix j x assume jx: "Suc j < d_height (shared ?s)" "x \<in> marked (shared ?s) j"
    then have "x div 64 \<in> marked ?d (Suc j) \<or> (Suc j, x div 64) \<in> set (notifiers s)"
      using inv idle d'(3) marked by (auto simp: dirty_inv_def parented_def taken_def split: if_splits)
    then show "x div 64 \<in> marked (shared ?s) (Suc j) \<union> taken ?s (Suc j)
        \<or> (Suc j, x div 64) \<in> set (notifiers ?s)"
      using jx(1) d'(3) pend [of "Suc j"] marked [of "Suc j"] by (auto simp: taken_def)
  qed
  moreover have "due s = marked d' 0 \<union> pend p 0"
    using inv idle pend [OF pos] marked by (simp add: dirty_inv_def taken_def)
  ultimately show "dirty_inv ?s"
    using inv d' by (auto simp: dirty_inv_def climbing_def taken_def)
  show "marked d' (d_height d' - 1) = {}"
    using d'(3) marked by simp
qed

lemma progressing_running:
  assumes "dirty_inv s" "draining s = Some p"
  obtains n where "drain_ok (shared s) p n"
    "iterations s + work (shared s) n (dp_level p) < unat (drain_bound (shared s))"
    "sorted_wrt (<) (visits s)" "\<And>v. v \<in> set (visits s) \<Longrightarrow> v < n 0"
    "dp_visited p = of_nat (length (visits s))"
  using assms unfolding dirty_inv_def progressing_def by blast

lemma drain_up_inv:
  assumes inv: "dirty_inv s" and run: "draining s = Some p"
    and zero: "dp_bits p ! dp_level p = 0" "dp_level p \<noteq> d_height (shared s) - 1"
  defines "p' \<equiv> p\<lparr>dp_level := Suc (dp_level p)\<rparr>"
  shows "drain_iter (shared s) p = Some (Moved p' (shared s))"
    and "dirty_inv (s\<lparr>draining := Some p', iterations := Suc (iterations s)\<rparr>)" (is "dirty_inv ?s")
proof -
  obtain n where n: "drain_ok (shared s) p n"
    "iterations s + work (shared s) n (dp_level p) < unat (drain_bound (shared s))"
    "sorted_wrt (<) (visits s)" "\<And>v. v \<in> set (visits s) \<Longrightarrow> v < n 0"
    "dp_visited p = of_nat (length (visits s))"
    using progressing_running [OF inv run] by blast
  have shaped: "shaped (shared s)"
    using inv by (simp add: dirty_inv_def)
  note up = drain_iter_up [OF shaped n(1) zero]
  show "drain_iter (shared s) p = Some (Moved p' (shared s))"
    using up(1) by (simp add: p'_def)
  have "pend p' = pend p"
    by (simp add: pend_def p'_def fun_eq_iff)
  moreover have "progressing ?s"
    using n(2-) up(2, 3) by (auto simp: progressing_def p'_def intro!: exI [of _ n])
  ultimately show "dirty_inv ?s"
    using inv run by (auto simp: dirty_inv_def climbing_def parented_def taken_def)
qed

lemma drain_visit_inv:
  assumes inv: "dirty_inv s" and run: "draining s = Some p" and leaf: "dp_level p = 0" "dp_bits p ! 0 \<noteq> 0"
  obtains i p' where "drain_iter (shared s) p = Some (Visit (of_nat i) p')" "i < unat (d_frames (shared s))"
    "i \<in> due s" "unat (of_nat i :: ReadFrameIdx) = i"
    "dirty_inv (s\<lparr>draining := Some p', due := due s - ({i} - marked (shared s) 0),
                  visits := visits s @ [i], iterations := Suc (iterations s)\<rparr>)"
proof -
  let ?d = "shared s"
  obtain n where n: "drain_ok ?d p n" "iterations s + work ?d n (dp_level p) < unat (drain_bound ?d)"
    "sorted_wrt (<) (visits s)" "\<And>v. v \<in> set (visits s) \<Longrightarrow> v < n 0"
    "dp_visited p = of_nat (length (visits s))"
    using progressing_running [OF inv run] by blast
  have shaped: "shaped ?d"
    using inv by (simp add: dirty_inv_def)
  obtain i p' where i: "drain_iter ?d p = Some (Visit (of_nat i) p')" "i \<in> pend p 0" "n 0 \<le> i"
    "i < unat (d_frames ?d)" "drain_ok ?d p' (n(0 := Suc i))" "pend p' = (pend p)(0 := pend p 0 - {i})"
    "dp_level p' = 0" "dp_visited p' = dp_visited p + 1"
    by (rule drain_iter_leaf [OF shaped n(1) leaf(2, 1)]) blast
  let ?s = "s\<lparr>draining := Some p', due := due s - ({i} - marked ?d 0),
              visits := visits s @ [i], iterations := Suc (iterations s)\<rparr>"
  have "work ?d (n(0 := Suc i)) 0 < work ?d n 0"
    using work_extract [of 0 ?d n i 0] i(3, 4) shaped_pos [OF shaped] by (simp add: visit_cost_def)
  moreover have "sorted_wrt (<) (visits s @ [i])" "\<And>v. v \<in> set (visits s @ [i]) \<Longrightarrow> v < Suc i"
    using n(3, 4) i(3) by (fastforce simp: sorted_wrt_append)+
  ultimately have "progressing ?s"
    using n(2, 5) i(5, 7, 8) leaf(1) by (auto simp: progressing_def intro!: exI [of _ "n(0 := Suc i)"])
  moreover have "due s = marked ?d 0 \<union> pend p 0"
    using inv run by (simp add: dirty_inv_def taken_def)
  moreover have "parented ?s"
    using inv run i(6) by (auto simp: dirty_inv_def parented_def taken_def)
  ultimately have "dirty_inv ?s"
    using inv i(6) by (auto simp: dirty_inv_def climbing_def taken_def)
  then show ?thesis
    using that i unat_of_nat_below [OF i(4)] \<open>due s = marked ?d 0 \<union> pend p 0\<close> by blast
qed

lemma drain_down_inv:
  assumes inv: "dirty_inv s" and run: "draining s = Some p"
    and node: "dp_level p = Suc l" "dp_bits p ! Suc l \<noteq> 0"
  obtains p' d' where "drain_iter (shared s) p = Some (Moved p' d')"
    "dirty_inv (s\<lparr>shared := d', draining := Some p', iterations := Suc (iterations s)\<rparr>)"
    "d_frames d' = d_frames (shared s)" "d_height d' = d_height (shared s)" "Suc l < d_height (shared s)"
    "\<And>j. j \<noteq> l \<Longrightarrow> marked d' j = marked (shared s) j"
proof -
  let ?d = "shared s"
  obtain n where n: "drain_ok ?d p n" "iterations s + work ?d n (dp_level p) < unat (drain_bound ?d)"
    "sorted_wrt (<) (visits s)" "\<And>v. v \<in> set (visits s) \<Longrightarrow> v < n 0"
    "dp_visited p = of_nat (length (visits s))"
    using progressing_running [OF inv run] by blast
  have shaped: "shaped ?d"
    using inv by (simp add: dirty_inv_def)
  obtain i p' d' where i: "drain_iter ?d p = Some (Moved p' d')" "i \<in> pend p (Suc l)"
    "n (Suc l) \<le> i" "i < limit (unat (d_frames ?d)) (Suc l)" "Suc l < d_height ?d"
    and d': "shaped d'" "d_frames d' = d_frames ?d" "d_height d' = d_height ?d"
    and marked: "\<And>j. marked d' j = (if j = l then marked ?d j - {k. k div 64 = i} else marked ?d j)"
    and pend: "pend p' = (pend p)(Suc l := pend p (Suc l) - {i}, l := marked ?d l \<inter> {k. k div 64 = i})"
    and p': "drain_ok d' p' (n(Suc l := Suc i))" "dp_level p' = l" "dp_visited p' = dp_visited p"
    by (rule drain_iter_node [OF shaped n(1) node(2, 1)]) blast
  let ?s = "s\<lparr>shared := d', draining := Some p', iterations := Suc (iterations s)\<rparr>"
  have below: "pend p l = {}"
    using n(1) node(1) by (simp add: drain_ok_def)
  have "work ?d (n(Suc l := Suc i)) l < work ?d n (Suc l)"
    using work_extract [of "Suc l" ?d n i l] i(3-5) by (simp add: work_def visit_cost_def)
  moreover have "drain_bound d' = drain_bound ?d"
    using d'(2) by (simp add: drain_bound_def)
  ultimately have "progressing ?s"
    using n(2-5) p' node(1)
    by (auto simp: progressing_def work_cong [OF d'(2, 3)] intro!: exI [of _ "n(Suc l := Suc i)"])
  moreover have "parented ?s"
    unfolding parented_def
  proof (intro allI impI)
    fix j x assume jx: "Suc j < d_height (shared ?s)" "x \<in> marked (shared ?s) j"
    then have "x div 64 \<in> marked ?d (Suc j) \<union> pend p (Suc j) \<or> (Suc j, x div 64) \<in> set (notifiers s)"
      using inv run marked d'(3) by (auto simp: dirty_inv_def parented_def taken_def split: if_splits)
    moreover have "j = l \<Longrightarrow> x div 64 \<noteq> i"
      using jx(2) marked by auto
    ultimately show "x div 64 \<in> marked (shared ?s) (Suc j) \<union> taken ?s (Suc j)
        \<or> (Suc j, x div 64) \<in> set (notifiers ?s)"
      using marked pend below by (cases "j = l"; cases "Suc j = l") (auto simp: taken_def)
  qed
  moreover have "due s = marked d' 0 \<union> pend p' 0"
    using inv run marked pend below by (cases "l = 0") (auto simp: dirty_inv_def taken_def)
  ultimately have "dirty_inv ?s"
    using inv d' by (auto simp: dirty_inv_def climbing_def taken_def)
  then show ?thesis
    using that i d' marked by simp
qed

lemma drain_move_inv:
  assumes inv: "dirty_inv s" and run: "draining s = Some p"
    and move: "drain_iter (shared s) p = Some (Moved p' d')"
  shows "dirty_inv (s\<lparr>shared := d', draining := Some p', iterations := Suc (iterations s)\<rparr>)"
proof (cases "dp_bits p ! dp_level p = 0")
  case True
  then have "dp_level p \<noteq> d_height (shared s) - 1"
    using move by (auto simp: drain_iter_def bind_Some_iff split: if_splits)
  then show ?thesis
    using drain_up_inv [OF inv run True] move by simp
next
  case False
  then obtain l where l: "dp_level p = Suc l"
    using move by (cases "dp_level p") (auto simp: drain_iter_def bind_Some_iff Let_def split: if_splits)
  show ?thesis
    by (rule drain_down_inv [OF inv run l]) (use False l move in auto)
qed

lemma drain_iter_Visit:
  assumes "drain_iter d p = Some (Visit f p')"
  shows "dp_level p = 0" "dp_bits p ! 0 \<noteq> 0"
  using assms by (auto simp: drain_iter_def bind_Some_iff Let_def split: if_splits)

section \<open>Construction\<close>

definition fresh_levels :: "nat \<Rightarrow> nat \<Rightarrow> u64 list list" where
  "fresh_levels n h = map (\<lambda>j. replicate (limit n (Suc j)) 0) [0..<h]"

definition tree_height :: "nat \<Rightarrow> nat \<Rightarrow> bool" where
  "tree_height n h \<longleftrightarrow> 0 < h \<and> limit n h = 1 \<and> (\<forall>j < h. 0 < j \<longrightarrow> limit n j \<noteq> 1)"

lemma tree_height_unique: "tree_height n h \<Longrightarrow> tree_height n h' \<Longrightarrow> h = h'"
  by (metis tree_height_def linorder_cases)

lemma fresh_levels_Suc:
  "fresh_levels n (Suc h) = replicate ((n + 63) div 64) 0 # fresh_levels ((n + 63) div 64) h"
proof -
  have "[0..<Suc h] = 0 # map Suc [0..<h]"
    by (metis map_Suc_upt upt_conv_Cons zero_less_Suc)
  then show ?thesis
    by (simp add: fresh_levels_def limit_shift comp_def del: upt_Suc limit.simps(2))
qed

lemma unat_div_ceil_64: "unat (div_ceil c 64) = (unat c + 63) div 64" for c :: u32
proof -
  have "Suc (unat c div 64) < 2 ^ 32"
    using unsigned_less [where 'a = nat, of c] by simp
  then show ?thesis
    using unat_div_ceil [of "64 :: u32" c] by simp
qed

lemma try_new_levels_fresh:
  assumes "0 < c" "unat c \<le> 64 ^ n" "0 < n"
  shows "\<exists>h. tree_height (unat c) h \<and> h \<le> n
    \<and> try_new_levels (\<lambda>_. True) n c = Some (fresh_levels (unat c) h, 1)"
  using assms
proof (induction n arbitrary: c)
  case (Suc n)
  let ?c = "div_ceil c 64" and ?m = "(unat c + 63) div 64"
  have m: "unat ?c = ?m" "0 < ?m"
    using Suc.prems(1) by (simp_all add: unat_div_ceil_64 word_less_nat_alt)
  have lim1: "limit (unat c) 1 = ?m"
    by simp
  show ?case
  proof (cases "?m = 1")
    case True
    then have "?c = 1" "tree_height (unat c) 1"
      using m by (simp_all add: word_unat_eq_iff tree_height_def)
    then show ?thesis
      using True by (intro exI [of _ 1]) (simp add: fresh_levels_Suc, simp add: fresh_levels_def)
  next
    case False
    then have "0 < ?c" "unat ?c \<le> 64 ^ n" "0 < n" "?c \<noteq> 1"
      using m Suc.prems by (auto simp: word_less_nat_alt word_unat_eq_iff intro: Nat.gr0I)
    then obtain h where h: "tree_height (unat ?c) h" "h \<le> n"
      "try_new_levels (\<lambda>_. True) n ?c = Some (fresh_levels (unat ?c) h, 1)"
      using Suc.IH by blast
    have "limit (unat c) (Suc j) = limit ?m j" for j
      by (rule limit_shift)
    then have "tree_height (unat c) (Suc h)"
      using h(1) False m(1) unfolding tree_height_def
      by (auto simp del: limit.simps(2) simp: less_Suc_eq_0_disj)
    then show ?thesis
      using h(2, 3) m(1) \<open>?c \<noteq> 1\<close> by (intro exI [of _ "Suc h"]) (simp add: fresh_levels_Suc)
  qed
qed simp

lemma try_new_total:
  assumes "0 < frames"
  obtains h where "tree_height (unat frames) h" "h \<le> LEVELS_MAX"
    "DirtyFrames_try_new (\<lambda>_. True) frames =
       Some (Some \<lparr>d_levels = fresh_levels (unat frames) h, d_height = h, d_frames = frames\<rparr>)"
proof -
  have "unat frames \<le> 64 ^ LEVELS_MAX"
    using unsigned_less [where 'a = nat, of frames] by (simp add: LEVELS_MAX_def)
  then obtain h where "tree_height (unat frames) h" "h \<le> LEVELS_MAX"
    "try_new_levels (\<lambda>_. True) LEVELS_MAX frames = Some (fresh_levels (unat frames) h, 1)"
    using try_new_levels_fresh [OF assms, of LEVELS_MAX] by (auto simp: LEVELS_MAX_def)
  then show ?thesis
    using that assms by (simp add: DirtyFrames_try_new_def fresh_levels_def)
qed

lemma try_new_fresh:
  assumes "DirtyFrames_try_new (\<lambda>_. True) frames = Some (Some d)"
  shows "shaped d" "\<And>j. j < d_height d \<Longrightarrow> marked d j = {}" "d_frames d = frames"
proof -
  have pos: "0 < frames"
    using assms by (auto simp: DirtyFrames_try_new_def)
  obtain h where h: "tree_height (unat frames) h" "h \<le> LEVELS_MAX"
    "d = \<lparr>d_levels = fresh_levels (unat frames) h, d_height = h, d_frames = frames\<rparr>"
    by (rule try_new_total [OF pos]) (use assms in auto)
  show "d_frames d = frames"
    by (simp add: h(3))
  show empty: "marked d j = {}" if "j < d_height d" for j
    using that by (simp add: h(3) marked_def fresh_levels_def del: limit.simps(2))
  then show "shaped d"
    using h(1, 2) pos unfolding shaped_def tree_height_def
    by (simp add: h(3) del: limit.simps(2)) (simp add: fresh_levels_def del: limit.simps(2))
qed

lemma marks_empty: "marks ws = {} \<Longrightarrow> ws = replicate (length ws) 0"
proof (rule nth_equalityI)
  fix k assume empty: "marks ws = {}" and k: "k < length ws"
  have "\<not> bit (ws ! k) n" if "n < 64" for n
  proof -
    have "k * 64 + n \<notin> marks ws"
      using empty by simp
    then show ?thesis
      using k that by (simp add: marks_def)
  qed
  then show "ws ! k = replicate (length ws) 0 ! k"
    using k by (intro bit_word_eqI) simp
qed simp

lemma empty_fresh:
  assumes "shaped d" "\<And>j. j < d_height d \<Longrightarrow> marked d j = {}"
  shows "DirtyFrames_try_new (\<lambda>_. True) (d_frames d) = Some (Some d)"
proof -
  have shape: "tree_height (unat (d_frames d)) (d_height d)" "0 < d_frames d" "d_height d = length (d_levels d)"
    "\<And>j. j < d_height d \<Longrightarrow> length (d_levels d ! j) = limit (unat (d_frames d)) (Suc j)"
    using assms(1) unfolding shaped_def tree_height_def by blast+
  have "d_levels d = fresh_levels (unat (d_frames d)) (d_height d)"
  proof (rule nth_equalityI)
    fix j assume "j < length (d_levels d)"
    then show "d_levels d ! j = fresh_levels (unat (d_frames d)) (d_height d) ! j"
      using shape(3, 4) assms(2) [of j] marks_empty [of "d_levels d ! j"]
      by (simp add: fresh_levels_def marked_def del: limit.simps(2))
  qed (simp add: fresh_levels_def shape(3))
  then show ?thesis
    using try_new_total [OF shape(2)] tree_height_unique [OF shape(1)] by (metis DirtyFrames.surjective old.unit.exhaust)
qed

lemma drained:
  assumes "dirty_inv s" "draining s = Some p" "drain_iter (shared s) p = Some (Drained n)"
  shows "\<And>j. j < d_height (shared s) \<Longrightarrow> pend p j = {}" "n = of_nat (length (visits s))"
proof -
  have stop: "dp_bits p ! dp_level p = 0" "dp_level p = d_height (shared s) - 1" "n = dp_visited p"
    using assms(3) by (auto simp: drain_iter_def bind_Some_iff Let_def split: if_splits)
  obtain next' where next': "drain_ok (shared s) p next'" "dp_visited p = of_nat (length (visits s))"
    using progressing_running [OF assms(1, 2)] by blast
  then show "n = of_nat (length (visits s))"
    using stop by simp
  show "pend p j = {}" if "j < d_height (shared s)" for j
    using that stop next'(1) by (cases "j = dp_level p") (auto simp: drain_ok_def)
qed

lemma drain_end_inv:
  assumes "dirty_inv s" "draining s = Some p" "drain_iter (shared s) p = Some (Drained n)"
  shows "dirty_inv (s\<lparr>draining := None\<rparr>)"
  using assms(1, 2) drained(1) [OF assms] shaped_pos [of "shared s"]
  by (auto simp: dirty_inv_def climbing_def parented_def progressing_def taken_def)

interpretation dirty: guarded_system dirty_start dirty_step dirty_inv
proof
  fix s assume "dirty_start s"
  then obtain frames where "DirtyFrames_try_new (\<lambda>_. True) frames = Some (Some (shared s))"
    and s: "notifiers s = []" "draining s = None" "due s = {}"
    by (auto simp: dirty_start_def)
  note fresh = try_new_fresh [OF this(1)]
  show "dirty_inv s"
    using fresh(1, 2) s shaped_pos [OF fresh(1)]
    by (auto simp: dirty_inv_def climbing_def parented_def progressing_def taken_def)
next
  fix s s' assume "dirty_inv s" "dirty_step s s'"
  from this(2, 1) show "dirty_inv s'"
  proof cases
    case (drain_visit p frame p')
    show ?thesis
      by (rule drain_visit_inv [OF \<open>dirty_inv s\<close> drain_visit(2) drain_iter_Visit [OF drain_visit(3)]])
        (use drain_visit in auto)
  next
    case (notify_begin frame)
    then show ?thesis
      using notify_begin_inv [OF \<open>dirty_inv s\<close>] by (simp add: word_less_nat_alt)
  next
    case (notify_store k l i d' i')
    then show ?thesis
      using notify_store_inv [OF \<open>dirty_inv s\<close>] by simp
  qed (auto intro: notify_end_inv drain_begin_inv drain_move_inv drain_end_inv)
qed

text \<open>With no notifier climbing and nothing in the drain's hands, an empty root is an empty tree.\<close>

lemma unparented_empty:
  assumes "j < d_height (shared s)" "parented s" "notifiers s = []"
    "\<And>j. j < d_height (shared s) \<Longrightarrow> taken s j = {}" "marked (shared s) (d_height (shared s) - 1) = {}"
  shows "marked (shared s) j = {}"
  using assms(1)
proof (induction "d_height (shared s) - 1 - j" arbitrary: j)
  case 0
  then have "j = d_height (shared s) - 1"
    by simp
  then show ?case
    using assms(5) by simp
next
  case (Suc k)
  then have "marked (shared s) (Suc j) = {}" "Suc j < d_height (shared s)"
    by simp_all
  then show ?case
    using assms(2-4) unfolding parented_def by fastforce
qed

lemma drain_loop_complete:
  assumes "dirty_inv s" "draining s = Some p" "notifiers s = []"
    "marked (shared s) (d_height (shared s) - 1) = {}"
    "unat (drain_bound (shared s)) \<le> iterations s + fuel"
  defines "all_due \<equiv> set (visits s) \<union> due s"
  shows "\<exists>d'. drain_loop fuel (shared s) p (\<lambda>f fs. Some (fs @ [f])) (map of_nat (visits s))
      = Some (of_nat (card all_due), d', map of_nat (sorted_list_of_set all_due))
    \<and> DirtyFrames_try_new (\<lambda>_. True) (d_frames (shared s)) = Some (Some d')"
  using assms(1-5) unfolding all_due_def
proof (induction fuel arbitrary: s p)
  case 0
  then show ?case
    using progressing_running [OF 0(1, 2)] by fastforce
next
  case (Suc fuel)
  note inv = Suc.prems(1) and run = Suc.prems(2)
  have shaped: "shaped (shared s)"
    using inv by (simp add: dirty_inv_def)
  consider (stop) "dp_bits p ! dp_level p = 0" "dp_level p = d_height (shared s) - 1"
    | (up) "dp_bits p ! dp_level p = 0" "dp_level p \<noteq> d_height (shared s) - 1"
    | (leaf) "dp_level p = 0" "dp_bits p ! 0 \<noteq> 0"
    | (node) l where "dp_level p = Suc l" "dp_bits p ! Suc l \<noteq> 0"
    by (metis nat.exhaust)
  then show ?case
  proof cases
    case stop
    obtain n where n: "drain_ok (shared s) p n" "sorted_wrt (<) (visits s)" "dp_visited p = of_nat (length (visits s))"
      using progressing_running [OF inv run] by blast
    have iter: "drain_iter (shared s) p = Some (Drained (of_nat (length (visits s))))"
      using stop n shaped by (auto simp: drain_iter_def drain_ok_def shaped_def)
    have none: "marked (shared s) j = {}" if "j < d_height (shared s)" for j
      using that Suc.prems(3, 4) inv drained(1) [OF inv run iter]
      by (intro unparented_empty [OF that]) (auto simp: dirty_inv_def taken_def run)
    then have "due s = {}"
      using inv run drained(1) [OF inv run iter] shaped_pos [OF shaped] by (simp add: dirty_inv_def taken_def)
    moreover have "sorted_list_of_set (set (visits s)) = visits s" "card (set (visits s)) = length (visits s)"
      using n(2) by (simp_all add: sorted_list_of_set.idem_if_sorted_distinct strict_sorted_iff distinct_card)
    ultimately show ?thesis
      using iter empty_fresh [OF shaped none] by simp
  next
    case up
    show ?thesis
      using drain_up_inv [OF inv run up] Suc.IH [OF drain_up_inv(2) [OF inv run up]] Suc.prems by simp
  next
    case leaf
    obtain i p' where i: "drain_iter (shared s) p = Some (Visit (of_nat i) p')" "i \<in> due s"
      "dirty_inv (s\<lparr>draining := Some p', due := due s - ({i} - marked (shared s) 0),
                  visits := visits s @ [i], iterations := Suc (iterations s)\<rparr>)"
      by (rule drain_visit_inv [OF inv run leaf]) blast
    have "set (visits s @ [i]) \<union> (due s - ({i} - marked (shared s) 0)) = set (visits s) \<union> due s"
      using i(2) by auto
    then show ?thesis
      using i(1) Suc.IH [OF i(3)] Suc.prems by simp
  next
    case node
    obtain p' d' where d': "drain_iter (shared s) p = Some (Moved p' d')"
      "dirty_inv (s\<lparr>shared := d', draining := Some p', iterations := Suc (iterations s)\<rparr>)"
      "d_frames d' = d_frames (shared s)" "d_height d' = d_height (shared s)" "Suc l < d_height (shared s)"
      "\<And>j. j \<noteq> l \<Longrightarrow> marked d' j = marked (shared s) j"
      by (rule drain_down_inv [OF inv run node]) blast
    have "marked d' (d_height d' - 1) = {}"
      using d'(4-6) Suc.prems(4) by simp
    then show ?thesis
      using d'(1, 3) Suc.IH [OF d'(2)] Suc.prems by (simp add: drain_bound_def)
  qed
qed

lemma drain_complete:
  assumes inv: "dirty_inv s" and idle: "notifiers s = []" "draining s = None"
  shows "\<exists>d'. drain (shared s) (\<lambda>f fs. Some (fs @ [f])) []
      = Some (of_nat (card (due s)), d', map of_nat (sorted_list_of_set (due s)))
    \<and> DirtyFrames_try_new (\<lambda>_. True) (d_frames (shared s)) = Some (Some d')"
proof -
  have "shaped (shared s)"
    using inv by (simp add: dirty_inv_def)
  then obtain p d' where start: "drain_start (shared s) = Some (p, d')" "d_frames d' = d_frames (shared s)"
    by (rule drain_start_shaped)
  let ?s = "s\<lparr>shared := d', draining := Some p, visits := [], iterations := 0\<rparr>"
  note opened = drain_begin_inv [OF inv idle(2) start(1)]
  have "drain_bound d' = drain_bound (shared s)"
    using start(2) by (simp add: drain_bound_def)
  then show ?thesis
    using drain_loop_complete [of ?s p "unat (drain_bound d')"] opened start idle by (simp add: drain_def)
qed

text \<open>A sequential \<open>notify\<close> is a notifier that climbs without interruption.\<close>

lemma notify_loop_inv:
  assumes "dirty_inv s" "notifiers s = [(l, i)]"
  shows "\<exists>d'. notify_loop (shared s) [l..<d_height (shared s)] i = Some (d', 0)
    \<and> d_frames d' = d_frames (shared s) \<and> d_height d' = d_height (shared s)
    \<and> dirty_inv (s\<lparr>shared := d', notifiers := [], due := (if l = 0 then insert i (due s) else due s)\<rparr>)"
  using assms
proof (induction "d_height (shared s) - l" arbitrary: s l i)
  case 0
  have shaped: "shaped (shared s)"
    using 0 by (simp add: dirty_inv_def)
  have l: "l = d_height (shared s)" and "i < limit (unat (d_frames (shared s))) (d_height (shared s))"
    using 0 by (auto simp: dirty_inv_def climbing_def)
  then have "i < 1"
    using shaped unfolding shaped_def by (metis (no_types))
  moreover have "dirty_inv (s\<lparr>notifiers := []\<rparr>)"
    using notify_end_inv [OF 0(2), of "[]" i "[]"] 0(3) l by simp
  ultimately show ?case
    using l shaped_pos [OF shaped] by simp
next
  case (Suc n)
  have shaped: "shaped (shared s)" and l: "l < d_height (shared s)"
    and i: "i < limit (unat (d_frames (shared s))) l"
    using Suc by (auto simp: dirty_inv_def climbing_def)
  obtain d' where d': "notify_level (shared s) l i = Some (d', i div 64)"
    "d_frames d' = d_frames (shared s)" "d_height d' = d_height (shared s)"
    by (rule notify_level_shaped [OF shaped l i]) blast
  let ?s = "s\<lparr>shared := d', notifiers := [(Suc l, i div 64)], due := (if l = 0 then insert i (due s) else due s)\<rparr>"
  have "dirty_inv ?s"
    using notify_store_inv [OF Suc.prems(1) _ _ l d'(1), of 0] Suc.prems(2) by simp
  then show ?case
    using Suc.hyps(1) [of ?s "Suc l" "i div 64"] Suc.hyps(2) d' l by (simp add: upt_conv_Cons)
qed

lemma notify_inv:
  assumes "dirty_inv s" "notifiers s = []" "f < d_frames (shared s)"
  shows "\<exists>d'. notify (shared s) f = Some d' \<and> d_frames d' = d_frames (shared s)
    \<and> dirty_inv (s\<lparr>shared := d', due := insert (unat f) (due s)\<rparr>)"
proof -
  have "dirty_inv (s\<lparr>notifiers := [(0, unat f)]\<rparr>)"
    using notify_begin_inv [OF assms(1), of "unat f"] assms(2, 3) by (simp add: word_less_nat_alt)
  from notify_loop_inv [OF this] obtain d' where
    "notify_loop (shared s) [0..<d_height (shared s)] (unat f) = Some (d', 0)" "d_frames d' = d_frames (shared s)"
    "dirty_inv (s\<lparr>shared := d', notifiers := [], due := insert (unat f) (due s)\<rparr>)"
    by auto
  moreover have "s\<lparr>shared := d', notifiers := [], due := insert (unat f) (due s)\<rparr>
      = s\<lparr>shared := d', due := insert (unat f) (due s)\<rparr>"
    using assms(2) by (cases s) simp
  ultimately show ?thesis
    using assms(3) by (auto simp: notify_def)
qed

fun notify_all :: "DirtyFrames \<Rightarrow> ReadFrameIdx list \<Rightarrow> DirtyFrames option" where
  "notify_all d [] = Some d"
| "notify_all d (f # fs) = Option.bind (notify d f) (\<lambda>d'. notify_all d' fs)"

lemma notify_all_inv:
  assumes "dirty_inv s" "notifiers s = []" "\<forall>f \<in> set fs. f < d_frames (shared s)"
  shows "\<exists>d'. notify_all (shared s) fs = Some d' \<and> d_frames d' = d_frames (shared s)
    \<and> dirty_inv (s\<lparr>shared := d', due := unat ` set fs \<union> due s\<rparr>)"
  using assms
proof (induction fs arbitrary: s)
  case (Cons f fs)
  then obtain d' where d': "notify (shared s) f = Some d'" "d_frames d' = d_frames (shared s)"
    "dirty_inv (s\<lparr>shared := d', due := insert (unat f) (due s)\<rparr>)"
    using notify_inv by force
  then show ?case
    using Cons.IH [OF d'(3)] Cons.prems by simp
qed auto

text \<open>What a client of a quiescent bitmap relies on.\<close>

definition dirty_set :: "DirtyFrames \<Rightarrow> nat set \<Rightarrow> bool" where
  "dirty_set d S \<longleftrightarrow> dirty_inv \<lparr>shared = d, notifiers = [], draining = None, due = S, visits = [], iterations = 0\<rparr>"

lemma dirty_set_new:
  assumes "0 < frames"
  obtains d where "DirtyFrames_try_new (\<lambda>_. True) frames = Some (Some d)" "dirty_set d {}" "d_frames d = frames"
proof -
  obtain d where d: "DirtyFrames_try_new (\<lambda>_. True) frames = Some (Some d)"
    using try_new_total [OF assms] by blast
  then have "dirty_set d {}"
    unfolding dirty_set_def
    by (intro dirty.reachable_inv reachable.start) (auto simp: dirty_start_def)
  then show ?thesis
    using that d try_new_fresh(3) [OF d] by blast
qed

lemma dirty_set_notify:
  assumes "dirty_set d S" "f < d_frames d"
  obtains d' where "notify d f = Some d'" "dirty_set d' (insert (unat f) S)" "d_frames d' = d_frames d"
  using notify_inv [OF assms(1) [unfolded dirty_set_def]] assms(2) by (auto simp: dirty_set_def)

lemma dirty_set_drain:
  assumes "dirty_set d S"
  obtains d' where "drain d (\<lambda>f fs. Some (fs @ [f])) [] = Some (of_nat (card S), d', map of_nat (sorted_list_of_set S))"
    "DirtyFrames_try_new (\<lambda>_. True) (d_frames d) = Some (Some d')"
  using drain_complete [OF assms [unfolded dirty_set_def]] by auto

section \<open>Properties\<close>

text \<open>
  C21.  No notification is lost: in every state an interleaving of notifiers and
  drains can reach in which all of them have returned, a drain neither panics nor
  exceeds its bound, visits exactly the frames notified and not yet drained, each
  once and in ascending order, and leaves the tree as constructed.
\<close>

theorem no_notification_lost:
  assumes "reachable dirty_start dirty_step s" "notifiers s = []" "draining s = None"
  shows "\<exists>d'. drain (shared s) (\<lambda>f fs. Some (fs @ [f])) []
      = Some (of_nat (card (due s)), d', map of_nat (sorted_list_of_set (due s)))
    \<and> DirtyFrames_try_new (\<lambda>_. True) (d_frames (shared s)) = Some (Some d')"
  using drain_complete [OF dirty.reachable_inv [OF assms(1)] assms(2, 3)] .

text \<open>
  C22.  Under every interleaving with notifiers, each iteration of a running drain
  proceeds without a panic and before the iteration bound is used up, so
  the \<open>unreachable!\<close> at the end of the loop is never reached.
\<close>

theorem drain_within_bound:
  assumes "reachable dirty_start dirty_step s" "draining s = Some p"
  shows "drain_iter (shared s) p \<noteq> None \<and> iterations s < unat (drain_bound (shared s))"
proof -
  have inv: "dirty_inv s"
    using dirty.reachable_inv [OF assms(1)] .
  have shaped: "shaped (shared s)"
    using inv by (simp add: dirty_inv_def)
  obtain n where n: "drain_ok (shared s) p n"
    "iterations s + work (shared s) n (dp_level p) < unat (drain_bound (shared s))"
    using progressing_running [OF inv assms(2)] by blast
  have "drain_iter (shared s) p \<noteq> None"
  proof (cases "dp_bits p ! dp_level p = 0")
    case True
    then show ?thesis
      using n(1) shaped by (auto simp: drain_iter_def drain_ok_def shaped_def)
  next
    case False
    then show ?thesis
      using drain_visit_inv [OF inv assms(2)] drain_down_inv [OF inv assms(2)]
      by (cases "dp_level p") (auto, metis option.distinct(1))
  qed
  then show ?thesis
    using n(2) by simp
qed

text \<open>
  C23.  Run sequentially on a new bitmap, \<open>notify\<close> accepts every frame below the
  frame count, and \<open>drain\<close> then visits exactly the notified frames, each once and in ascending
  order, returns how many there were, and restores the new bitmap.
\<close>

theorem notify_then_drain:
  assumes "0 < frames" "\<forall>f \<in> set fs. f < frames"
  shows "\<exists>d0 d. DirtyFrames_try_new (\<lambda>_. True) frames = Some (Some d0) \<and> notify_all d0 fs = Some d
    \<and> drain d (\<lambda>f fs. Some (fs @ [f])) []
      = Some (of_nat (card (unat ` set fs)), d0, map of_nat (sorted_list_of_set (unat ` set fs)))"
proof -
  obtain d0 where d0: "DirtyFrames_try_new (\<lambda>_. True) frames = Some (Some d0)"
    using try_new_total [OF assms(1)] by blast
  let ?s = "\<lparr>shared = d0, notifiers = [], draining = None, due = {}, visits = [], iterations = 0\<rparr>"
  have "reachable dirty_start dirty_step ?s"
    using d0 by (intro reachable.start) (auto simp: dirty_start_def)
  then have "dirty_inv ?s"
    by (rule dirty.reachable_inv)
  then obtain d where d: "notify_all d0 fs = Some d" "d_frames d = frames"
    "dirty_inv (?s\<lparr>shared := d, due := unat ` set fs\<rparr>)"
    using notify_all_inv [of ?s fs] assms(2) try_new_fresh(3) [OF d0] by auto
  from drain_complete [OF d(3)] show ?thesis
    using d0 d(1, 2) by auto
qed

section \<open>Concrete runs\<close>

definition sample_tree :: "u64 \<Rightarrow> DirtyFrames" where
  "sample_tree w = \<lparr>d_levels = [[w]], d_height = 1, d_frames = 3\<rparr>"

definition sample_sys :: "u64 \<Rightarrow> (nat \<times> nat) list \<Rightarrow> nat set \<Rightarrow> dirty_sys" where
  "sample_sys w ns due_frames = \<lparr>shared = sample_tree w, notifiers = ns, draining = None,
     due = due_frames, visits = [], iterations = 0\<rparr>"

lemma sample_try_new: "DirtyFrames_try_new (\<lambda>_. True) 3 = Some (Some (sample_tree 0))"
proof -
  have "try_new_levels (\<lambda>_. True) (Suc 5) 3 = Some ([[0]], 1)"
    unfolding try_new_levels.simps by (simp add: div_ceil_def)
  then show ?thesis
    by (simp add: DirtyFrames_try_new_def LEVELS_MAX_def sample_tree_def del: try_new_levels.simps)
qed

lemma replicate_LEVELS_MAX: "replicate LEVELS_MAX x = [x, x, x, x, x, x]"
  by (simp add: LEVELS_MAX_def numeral_eq_Suc)

lemma sample_start: "reachable dirty_start dirty_step (sample_sys 0 [] {})"
  using sample_try_new by (intro reachable.start) (auto simp: dirty_start_def sample_sys_def)

lemma sample_notified: "reachable dirty_start dirty_step (sample_sys 4 [] {2})"
proof -
  have "dirty_step (sample_sys 0 [] {}) (sample_sys 0 [(0, 2)] {})"
    using dirty_step.notify_begin [of 2 "sample_sys 0 [] {}"] by (simp add: sample_sys_def sample_tree_def)
  moreover have "dirty_step (sample_sys 0 [(0, 2)] {}) (sample_sys 4 [(1, 0)] {2})"
    using dirty_step.notify_store [of 0 "sample_sys 0 [(0, 2)] {}" 0 2]
    by (simp add: sample_sys_def sample_tree_def notify_level_def)
  moreover have "dirty_step (sample_sys 4 [(1, 0)] {2}) (sample_sys 4 [] {2})"
    using dirty_step.notify_end [of "sample_sys 4 [(1, 0)] {2}" "[]" 0 "[]"]
    by (simp add: sample_sys_def sample_tree_def)
  ultimately show ?thesis
    using sample_start by (blast intro: reachable.step)
qed

theorem no_notification_lost_witness:
  "\<exists>d'. drain (sample_tree 4) (\<lambda>f fs. Some (fs @ [f])) [] = Some (1, d', [2])
    \<and> DirtyFrames_try_new (\<lambda>_. True) 3 = Some (Some d')"
  using no_notification_lost [OF sample_notified] by (simp add: sample_sys_def) (simp add: sample_tree_def)

theorem drain_within_bound_witness:
  "drain_iter (sample_tree 0) \<lparr>dp_level = 0, dp_words = [0, 0, 0, 0, 0, 0], dp_bits = [4, 0, 0, 0, 0, 0],
     dp_visited = 0\<rparr> \<noteq> None"
proof -
  let ?p = "\<lparr>dp_level = 0, dp_words = [0, 0, 0, 0, 0, 0], dp_bits = [4, 0, 0, 0, 0, 0], dp_visited = 0\<rparr>"
  have "drain_start (sample_tree 4) = Some (?p, sample_tree 0)"
    by (simp add: drain_start_def swap_word_def sample_tree_def replicate_LEVELS_MAX Let_def)
  then have "dirty_step (sample_sys 4 [] {2})
      ((sample_sys 4 [] {2})\<lparr>shared := sample_tree 0, draining := Some ?p, visits := [], iterations := 0\<rparr>)"
    by (intro dirty_step.drain_begin) (simp_all add: sample_sys_def)
  from drain_within_bound [OF reachable.step [OF sample_notified this]] show ?thesis
    by simp
qed

theorem notify_then_drain_witness:
  "\<exists>d0 d. DirtyFrames_try_new (\<lambda>_. True) 70 = Some (Some d0) \<and> notify_all d0 [65, 3, 65] = Some d
    \<and> drain d (\<lambda>f fs. Some (fs @ [f])) [] = Some (2, d0, [3, 65])"
  using notify_then_drain [of 70 "[65, 3, 65]"] by (simp add: insert_Diff_if card_insert_if)

end
