(* ===== verification/Epoch.thy ===== *)
theory Epoch
  imports Table
begin

text \<open>
  Epoch-based reclamation (\<open>pool/epoch.rs\<close>): the reader slots with their
  publish-before-validate pins, the epoch advance and the queue of evicted frames.
  \<open>Reclaim\<close> composes them into the interleaved system.
\<close>

definition QUIESCENT :: u64 where
  "QUIESCENT = - 1"

section \<open>Reader slots\<close>

record ReaderSlot =
  rs_occupied :: bool
  local_epoch :: u64
  guard_count :: u64
  peak_guards_per_reader :: u32
  rs_index :: u32

definition ReaderSlot_vacant :: "u32 \<Rightarrow> ReaderSlot" where
  "ReaderSlot_vacant peak =
     \<lparr>rs_occupied = False, local_epoch = QUIESCENT, guard_count = 0,
      peak_guards_per_reader = peak, rs_index = - 1\<rparr>"

definition ReaderSlot_index :: "ReaderSlot \<Rightarrow> u32 option" where
  "ReaderSlot_index r = (if rs_index r \<noteq> - 1 then Some (rs_index r) else None)"

definition ReaderRegistry_try_with_capacity :: "u32 \<Rightarrow> u32 \<Rightarrow> ReaderSlot list" where
  "ReaderRegistry_try_with_capacity capacity peak =
     map (\<lambda>i. (ReaderSlot_vacant peak)\<lparr>rs_index := of_nat i\<rparr>) [0..<unat capacity]"

definition try_occupy :: "ReaderSlot \<Rightarrow> bool \<times> ReaderSlot" where
  "try_occupy r = (if rs_occupied r then (False, r) else (True, r\<lparr>rs_occupied := True\<rparr>))"

text \<open>The first slot whose occupation succeeds; the index is the reader's.\<close>

fun register :: "nat \<Rightarrow> ReaderSlot list \<Rightarrow> (nat \<times> ReaderSlot list) option" where
  "register i [] = None"
| "register i (r # rs) = (case try_occupy r of
      (True, r') \<Rightarrow> Some (i, r' # rs)
    | (False, r') \<Rightarrow> map_option (\<lambda>(j, rs'). (j, r' # rs')) (register (Suc i) rs))"

definition vacate :: "ReaderSlot \<Rightarrow> ReaderSlot option" where
  "vacate r = do {
     assert (rs_occupied r);
     assert (guard_count r = 0);
     Some (r\<lparr>local_epoch := QUIESCENT, guard_count := 0, rs_occupied := False\<rparr>)
   }"

text \<open>\<open>begin_pin\<close> returns the \<open>first\<close> flag of its \<open>PinBegun\<close> witness.\<close>

definition begin_pin :: "ReaderSlot \<Rightarrow> u64 \<Rightarrow> (bool \<times> ReaderSlot) option" where
  "begin_pin r global_epoch = do {
     assert (global_epoch \<noteq> QUIESCENT);
     let first = (guard_count r = 0);
     Some (first, if first then r\<lparr>local_epoch := global_epoch\<rparr> else r)
   }"

definition commit_pin :: "ReaderSlot \<Rightarrow> bool \<Rightarrow> ReaderSlot option" where
  "commit_pin r first = do {
     taken \<leftarrow> checked_add (guard_count r) 1;
     assert (taken \<le> ucast (peak_guards_per_reader r));
     let r = r\<lparr>guard_count := taken\<rparr>;
     assert (first = (taken = 1));
     Some r
   }"

definition abort_pin :: "ReaderSlot \<Rightarrow> bool \<Rightarrow> ReaderSlot option" where
  "abort_pin r first =
     (if first then do { assert (guard_count r = 0); Some (r\<lparr>local_epoch := QUIESCENT\<rparr>) }
      else Some r)"

definition release_guard :: "ReaderSlot \<Rightarrow> ReaderSlot option" where
  "release_guard r = do {
     let count = guard_count r;
     assert (count > 0);
     let remaining = count - 1;
     let r = r\<lparr>guard_count := remaining\<rparr>;
     Some (if remaining = 0 then r\<lparr>local_epoch := QUIESCENT\<rparr> else r)
   }"

definition permits_advance :: "ReaderSlot \<Rightarrow> u64 \<Rightarrow> bool option" where
  "permits_advance r global_epoch = do {
     assert (global_epoch \<noteq> QUIESCENT);
     let loc = local_epoch r;
     assert (loc = QUIESCENT \<or> loc \<le> global_epoch);
     Some (loc = QUIESCENT \<or> loc = global_epoch)
   }"

fun all_permit :: "ReaderSlot list \<Rightarrow> u64 \<Rightarrow> bool option" where
  "all_permit [] e = Some True"
| "all_permit (r # rs) e = do { b \<leftarrow> permits_advance r e; if b then all_permit rs e else Some False }"

definition advance_epoch :: "u64 \<Rightarrow> ReaderSlot list \<Rightarrow> u64 option" where
  "advance_epoch global_epoch slots = do {
     permitted \<leftarrow> all_permit slots global_epoch;
     let advanced = (if permitted then global_epoch + 1 else global_epoch);
     assert (advanced = global_epoch \<or> advanced = global_epoch + 1);
     Some advanced
   }"

section \<open>The queue of evicted frames\<close>

record EvictQueue =
  eq_entries :: "(ReadFrameIdx \<times> u64) list"
  eq_capacity :: u32

datatype FrameOutcome = Freed | Held

definition EvictQueue_push :: "EvictQueue \<Rightarrow> ReadFrameIdx \<Rightarrow> u64 \<Rightarrow> EvictQueue option" where
  "EvictQueue_push q frame tagged_epoch = do {
     assert (length (eq_entries q) < unat (eq_capacity q));
     assert (eq_entries q = [] \<or> tagged_epoch \<ge> snd (last (eq_entries q)));
     Some (q\<lparr>eq_entries := eq_entries q @ [(frame, tagged_epoch)]\<rparr>)
   }"

text \<open>\<open>process\<close> is the closure of the caller, threading its state.\<close>

fun drain_matured_loop ::
  "(ReadFrameIdx \<Rightarrow> u64 \<Rightarrow> 's \<Rightarrow> (FrameOutcome \<times> 's) option) \<Rightarrow> u64 \<Rightarrow>
   (ReadFrameIdx \<times> u64) list \<Rightarrow> nat \<Rightarrow> 's \<Rightarrow> (nat \<times> (ReadFrameIdx \<times> u64) list \<times> 's) option" where
  "drain_matured_loop process g [] reclaimed s = Some (reclaimed, [], s)"
| "drain_matured_loop process g ((frame, tag) # rest) reclaimed s =
     (if saturating_add tag 2 > g then Some (reclaimed, (frame, tag) # rest, s)
      else do {
        assert (saturating_add tag 2 \<le> g);
        (outcome, s') \<leftarrow> process frame tag s;
        drain_matured_loop process g rest (if outcome = Freed then reclaimed + 1 else reclaimed) s'
      })"

definition drain_matured ::
  "EvictQueue \<Rightarrow> u64 \<Rightarrow> (ReadFrameIdx \<Rightarrow> u64 \<Rightarrow> 's \<Rightarrow> (FrameOutcome \<times> 's) option) \<Rightarrow> 's \<Rightarrow>
   (nat \<times> EvictQueue \<times> 's) option" where
  "drain_matured q g process s = do {
     (reclaimed, rest, s') \<leftarrow> drain_matured_loop process g (eq_entries q) 0 s;
     Some (reclaimed, q\<lparr>eq_entries := rest\<rparr>, s')
   }"

section \<open>Lemmas\<close>

text \<open>A slot publishes an epoch exactly while it has live guards or a first pin is open.\<close>

definition slot_quiet :: "ReaderSlot \<Rightarrow> bool" where
  "slot_quiet r \<longleftrightarrow> local_epoch r = QUIESCENT \<and> guard_count r = 0"

lemma QUIESCENT_max: "e \<le> QUIESCENT"
  by (simp add: QUIESCENT_def)

lemma less_QUIESCENT: "e \<noteq> QUIESCENT \<longleftrightarrow> e < QUIESCENT"
  using QUIESCENT_max by (simp add: order_less_le)

lemma unat_Suc_epoch: "e \<noteq> QUIESCENT \<Longrightarrow> unat (e + 1) = Suc (unat e)"
  by (metis QUIESCENT_def add_eq_0_iff2 add.commute unatSuc)

lemma epoch_aged:
  "\<not> saturating_add tag 2 > g \<longleftrightarrow> (unat tag + 2 \<le> unat g \<or> g = QUIESCENT)" for tag g :: u64
proof -
  have "unat tag + 2 < 2 ^ 64 \<Longrightarrow> unat (tag + 2) = unat tag + 2"
    using unat_add_small [of tag 2] by simp
  moreover have "unat g < 2 ^ 64"
    using unsigned_less [where 'a = nat, of g] by simp
  moreover have "unat QUIESCENT = 2 ^ 64 - 1"
    by (simp add: QUIESCENT_def unsigned_minus_1_eq_mask mask_eq_exp_minus_1)
  ultimately show ?thesis
    using QUIESCENT_max [of g]
    by (auto simp: saturating_add_def QUIESCENT_def not_less word_le_nat_alt word_unat_eq_iff)
qed

definition aged :: "u64 \<Rightarrow> ReadFrameIdx \<times> u64 \<Rightarrow> bool" where
  "aged g e \<longleftrightarrow> \<not> saturating_add (snd e) 2 > g"

text \<open>Draining splits the queue at the first entry that is not yet aged.\<close>

lemma drain_matured_loop_split:
  assumes "\<And>f t s. process f t s = Some (outcome f t, upd f t s)"
  shows "drain_matured_loop process g es r s =
    Some (r + length (filter (\<lambda>(f, t). outcome f t = Freed) (takeWhile (aged g) es)),
          dropWhile (aged g) es, fold (\<lambda>(f, t). upd f t) (takeWhile (aged g) es) s)"
  using assms by (induction es arbitrary: r s) (auto simp: aged_def)


lemma all_permit_quiescent:
  "e \<noteq> QUIESCENT \<Longrightarrow> \<forall>r \<in> set slots. local_epoch r = QUIESCENT \<Longrightarrow> all_permit slots e = Some True"
  by (induction slots) (simp_all add: permits_advance_def Let_def)

lemma advance_epoch_quiescent:
  "e \<noteq> QUIESCENT \<Longrightarrow> \<forall>r \<in> set slots. local_epoch r = QUIESCENT \<Longrightarrow> advance_epoch e slots = Some (e + 1)"
  by (simp add: advance_epoch_def all_permit_quiescent Let_def)

section \<open>Properties\<close>



end
