(* ===== verification/Clock.thy ===== *)
theory Clock
  imports Notifications Epoch
begin

text \<open>
  CLOCK second-chance eviction and the speculation markers of \<open>pool/clock.rs\<close>.
  A marker is 0 when the frame holds no speculative read, 1 while a speculative
  read is unconsumed, \<open>reader + 2\<close> once that reader consumed it, and \<open>u64::MAX\<close> once a
  reader without an index did.  Operations run to completion; the lock-free reference
  path only stores values these operations store.
\<close>

section \<open>Model\<close>

record Clock =
  reference_bits :: "bool list"
  ck_count :: u32
  ck_hand :: u32
  reference_stores :: u64
  speculation :: "u64 list"
  consumed :: DirtyFrames
  completed :: DirtyFrames

datatype SpeculationOutcome = Absent | Unconsumed | Consumed "u32 option"

definition Clock_try_with_frame_count :: "bool \<Rightarrow> (u32 \<Rightarrow> bool) \<Rightarrow> u32 \<Rightarrow> Clock option option" where
  "Clock_try_with_frame_count mapped alloc frame_count = do {
     assert (0 < frame_count);
     (if \<not> mapped then Some None
      else do {
        consumed_tree \<leftarrow> DirtyFrames_try_new alloc frame_count;
        completed_tree \<leftarrow> DirtyFrames_try_new alloc frame_count;
        Some (do {
          d \<leftarrow> consumed_tree;
          e \<leftarrow> completed_tree;
          Some \<lparr>reference_bits = replicate (unat frame_count) False, ck_count = frame_count,
                ck_hand = 0, reference_stores = 0, speculation = replicate (unat frame_count) 0,
                consumed = d, completed = e\<rparr>
        })
      })
   }"

definition Clock_checked_index :: "Clock \<Rightarrow> ReadFrameIdx \<Rightarrow> nat option" where
  "Clock_checked_index c frame = do {
     assert (unat frame < length (reference_bits c));
     Some (unat frame)
   }"

definition consume_speculation :: "Clock \<Rightarrow> ReadFrameIdx \<Rightarrow> u32 option \<Rightarrow> Clock option" where
  "consume_speculation c frame reader = do {
     i \<leftarrow> Clock_checked_index c frame;
     marker \<leftarrow> nth_opt (speculation c) i;
     (if marker = 1 then do {
        let taken_by = (case reader of None \<Rightarrow> - 1 | Some r \<Rightarrow> ucast r + 2);
        d \<leftarrow> notify (consumed c) frame;
        Some (c\<lparr>speculation := (speculation c)[i := taken_by], consumed := d\<rparr>)
      }
      else Some c)
   }"

definition reference_observed :: "Clock \<Rightarrow> ReadFrameIdx \<Rightarrow> u32 option \<Rightarrow> (bool \<times> Clock) option" where
  "reference_observed c frame reader = do {
     i \<leftarrow> Clock_checked_index c frame;
     bit \<leftarrow> nth_opt (reference_bits c) i;
     (if bit then Some (False, c)
      else do {
        c' \<leftarrow> consume_speculation c frame reader;
        Some (True, c'\<lparr>reference_bits := (reference_bits c')[i := True],
                      reference_stores := reference_stores c' + 1\<rparr>)
      })
   }"

definition reference :: "Clock \<Rightarrow> ReadFrameIdx \<Rightarrow> (bool \<times> Clock) option" where
  "reference c frame = reference_observed c frame None"

definition reference_from :: "Clock \<Rightarrow> ReadFrameIdx \<Rightarrow> ReaderSlot \<Rightarrow> (bool \<times> Clock) option" where
  "reference_from c frame reader = reference_observed c frame (ReaderSlot_index reader)"

definition begin_speculation :: "Clock \<Rightarrow> ReadFrameIdx \<Rightarrow> Clock option" where
  "begin_speculation c frame = do {
     i \<leftarrow> Clock_checked_index c frame;
     marker \<leftarrow> nth_opt (speculation c) i;
     assert (marker = 0);
     Some (c\<lparr>reference_bits := (reference_bits c)[i := False], speculation := (speculation c)[i := 1]\<rparr>)
   }"

definition speculation_consumed :: "Clock \<Rightarrow> ReadFrameIdx \<Rightarrow> bool option" where
  "speculation_consumed c frame = do {
     i \<leftarrow> Clock_checked_index c frame;
     marker \<leftarrow> nth_opt (speculation c) i;
     Some (2 \<le> marker)
   }"

definition is_speculative :: "Clock \<Rightarrow> ReadFrameIdx \<Rightarrow> bool option" where
  "is_speculative c frame = do {
     i \<leftarrow> Clock_checked_index c frame;
     marker \<leftarrow> nth_opt (speculation c) i;
     Some (marker \<noteq> 0)
   }"

definition marker_outcome :: "u64 \<Rightarrow> SpeculationOutcome option" where
  "marker_outcome marker =
     (if marker = 0 then Some Absent
      else if marker = 1 then Some Unconsumed
      else if marker = - 1 then Some (Consumed None)
      else do { assert (marker - 2 \<le> 0xFFFFFFFF); Some (Consumed (Some (ucast (marker - 2)))) })"

definition take_speculation :: "Clock \<Rightarrow> ReadFrameIdx \<Rightarrow> (SpeculationOutcome \<times> Clock) option" where
  "take_speculation c frame = do {
     i \<leftarrow> Clock_checked_index c frame;
     marker \<leftarrow> nth_opt (speculation c) i;
     outcome \<leftarrow> marker_outcome marker;
     Some (outcome, c\<lparr>speculation := (speculation c)[i := 0]\<rparr>)
   }"

definition is_referenced :: "Clock \<Rightarrow> ReadFrameIdx \<Rightarrow> bool option" where
  "is_referenced c frame = do {
     i \<leftarrow> Clock_checked_index c frame;
     nth_opt (reference_bits c) i
   }"

text \<open>The sweep visits at most \<open>count + 1\<close> frames; \<open>hand\<close> is the local copy.\<close>

fun evict_victim_loop :: "nat \<Rightarrow> Clock \<Rightarrow> u32 \<Rightarrow> (ReadFrameIdx \<times> Clock) option" where
  "evict_victim_loop 0 c hand = Some (hand, c\<lparr>ck_hand := hand\<rparr>)"
| "evict_victim_loop (Suc fuel) c hand = do {
     let index = hand;
     let hand = (hand + 1) mod ck_count c;
     bit \<leftarrow> nth_opt (reference_bits c) (unat index);
     (if bit then evict_victim_loop fuel (c\<lparr>reference_bits := (reference_bits c)[unat index := False]\<rparr>) hand
      else Some (index, c\<lparr>ck_hand := hand\<rparr>))
   }"

definition evict_victim_shared :: "Clock \<Rightarrow> (ReadFrameIdx \<times> Clock) option" where
  "evict_victim_shared c = evict_victim_loop (unat (ck_count c) + 1) c (ck_hand c)"

section \<open>Invariant\<close>

definition marker_ok :: "u64 \<Rightarrow> bool" where
  "marker_ok m \<longleftrightarrow> m = 0 \<or> m = 1 \<or> m = - 1 \<or> (\<exists>r :: u32. m = ucast r + 2)"

definition clock_inv :: "Clock \<Rightarrow> bool" where
  "clock_inv c \<longleftrightarrow> 0 < ck_count c \<and> ck_hand c < ck_count c
     \<and> length (reference_bits c) = unat (ck_count c) \<and> length (speculation c) = unat (ck_count c)
     \<and> d_frames (consumed c) = ck_count c \<and> (\<exists>S. dirty_set (consumed c) S)
     \<and> (\<forall>m \<in> set (speculation c). marker_ok m)"

lemma Clock_try_with_frame_count_inv:
  assumes "0 < n"
  obtains c where "Clock_try_with_frame_count True (\<lambda>_. True) n = Some (Some c)" "clock_inv c" "ck_count c = n"
proof -
  obtain d where "DirtyFrames_try_new (\<lambda>_. True) n = Some (Some d)" "dirty_set d {}" "d_frames d = n"
    using dirty_set_new [OF assms] .
  then show ?thesis
    using that assms by (auto simp: Clock_try_with_frame_count_def clock_inv_def marker_ok_def)
qed

lemma reader_marker:
  "ucast r + 2 \<noteq> (0 :: u64)" "ucast r + 2 \<noteq> (1 :: u64)" "ucast r + 2 \<noteq> (- 1 :: u64)"
  "marker_outcome (ucast r + 2) = Some (Consumed (Some r))" for r :: u32
proof -
  have r: "unat r < 2 ^ 32"
    using unsigned_less [where 'a = nat, of r] by simp
  then have u: "unat (ucast r + 2 :: u64) = unat r + 2"
    using unat_add_small [of "ucast r :: u64" 2] by (simp add: unat_ucast_64)
  show ne: "ucast r + 2 \<noteq> (0 :: u64)" "ucast r + 2 \<noteq> (1 :: u64)" "ucast r + 2 \<noteq> (- 1 :: u64)"
    using u r by (auto simp: word_unat_eq_iff unsigned_minus_1_eq_mask mask_eq_exp_minus_1)
  have "(ucast r :: u64) \<le> 0xFFFFFFFF"
    using r by (simp add: word_le_nat_alt unat_ucast_64)
  moreover have "ucast (ucast r :: u64) = r"
    by (auto intro!: bit_word_eqI simp: bit_simps)
  ultimately show "marker_outcome (ucast r + 2) = Some (Consumed (Some r))"
    using ne by (simp add: marker_outcome_def)
qed

lemma marker_outcome_total: "marker_ok m \<Longrightarrow> marker_outcome m \<noteq> None"
  unfolding marker_ok_def by (elim disjE exE) (simp_all add: reader_marker(4), simp_all add: marker_outcome_def)

section \<open>References\<close>

definition reader_mark :: "u32 option \<Rightarrow> u64" where
  "reader_mark r = (case r of None \<Rightarrow> - 1 | Some i \<Rightarrow> ucast i + 2)"

lemma reader_mark [simp]:
  "reader_mark r \<noteq> 0" "reader_mark r \<noteq> 1" "marker_outcome (reader_mark r) = Some (Consumed r)"
  "marker_ok (reader_mark r)"
  using reader_marker by (auto simp: reader_mark_def marker_outcome_def marker_ok_def split: option.splits)

text \<open>Touching a frame either changes nothing, or sets its bit and settles its marker.\<close>

lemma reference_observed_cases:
  assumes "clock_inv c" "f < ck_count c"
  obtains (hit) "reference_bits c ! unat f" "reference_observed c f r = Some (False, c)"
  | (first) c' where "\<not> reference_bits c ! unat f" "reference_observed c f r = Some (True, c')" "clock_inv c'"
      "ck_count c' = ck_count c" "reference_bits c' = (reference_bits c)[unat f := True]"
      "speculation c' = (if speculation c ! unat f = 1 then (speculation c)[unat f := reader_mark r] else speculation c)"
proof -
  have f: "unat f < length (reference_bits c)" "unat f < length (speculation c)"
    using assms by (simp_all add: clock_inv_def word_less_nat_alt)
  obtain S where S: "dirty_set (consumed c) S" "d_frames (consumed c) = ck_count c"
    using assms(1) by (auto simp: clock_inv_def)
  have "f < d_frames (consumed c)"
    using assms(2) S(2) by simp
  then obtain d where d: "notify (consumed c) f = Some d" "dirty_set d (insert (unat f) S)" "d_frames d = ck_count c"
    using dirty_set_notify [OF S(1)] S(2) by metis
  define c1 where "c1 = (if speculation c ! unat f = 1
    then c\<lparr>speculation := (speculation c)[unat f := reader_mark r], consumed := d\<rparr> else c)"
  have consume: "consume_speculation c f r = Some c1"
    using f d(1) by (simp add: consume_speculation_def Clock_checked_index_def c1_def reader_mark_def Let_def)
  define c' where "c' = c1\<lparr>reference_bits := (reference_bits c1)[unat f := True],
    reference_stores := reference_stores c1 + 1\<rparr>"
  have bits: "reference_bits c1 = reference_bits c"
    by (simp add: c1_def)
  have "clock_inv c1"
    using assms(1) d by (auto simp: clock_inv_def c1_def dest!: set_update_subset_insert [THEN subsetD])
  then have "clock_inv c'"
    by (simp add: clock_inv_def c'_def)
  then show ?thesis
    using hit first [of c'] f consume bits
    by (cases "reference_bits c ! unat f")
      (auto simp: reference_observed_def Clock_checked_index_def c'_def c1_def)
qed

section \<open>The sweep\<close>

definition cyc :: "Clock \<Rightarrow> nat \<Rightarrow> nat" where
  "cyc c k = (unat (ck_hand c) + k) mod unat (ck_count c)"

definition swept :: "Clock \<Rightarrow> nat \<Rightarrow> bool list" where
  "swept c k = map (\<lambda>i. reference_bits c ! i \<and> i \<notin> cyc c ` {..<k}) [0..<unat (ck_count c)]"

lemma cyc_less: "clock_inv c \<Longrightarrow> cyc c k < unat (ck_count c)"
  by (simp add: clock_inv_def cyc_def word_less_nat_alt)

lemma cyc_fresh:
  assumes "j < unat (ck_count c)"
  shows "cyc c j \<notin> cyc c ` {..<j}"
proof
  assume "cyc c j \<in> cyc c ` {..<j}"
  then obtain i where i: "i < j" "(unat (ck_hand c) + j) mod unat (ck_count c) = (unat (ck_hand c) + i) mod unat (ck_count c)"
    by (auto simp: cyc_def)
  then have "unat (ck_count c) dvd j - i"
    using mod_eq_dvd_iff_nat [of "unat (ck_hand c) + i" "unat (ck_hand c) + j" "unat (ck_count c)"] by simp
  then show False
    using i(1) assms by (auto dest: dvd_imp_le)
qed

lemma cyc_step:
  assumes "clock_inv c"
  shows "unat (of_nat (cyc c j) :: u32) = cyc c j"
    "(of_nat (cyc c j) + 1) mod ck_count c = of_nat (cyc c (Suc j))"
proof -
  show u: "unat (of_nat (cyc c k) :: u32) = cyc c k" for k
    using unat_of_nat_below [OF cyc_less [OF assms]] .
  have "cyc c j + 1 < 2 ^ 32"
    using cyc_less [OF assms, of j] unsigned_less [where 'a = nat, of "ck_count c"] by simp
  then have "unat (of_nat (cyc c j) + 1 :: u32) = cyc c j + 1"
    using u unat_add_small [of "of_nat (cyc c j) :: u32" 1] by simp
  then have "unat ((of_nat (cyc c j) + 1 :: u32) mod ck_count c) = cyc c (Suc j)"
    by (simp add: unat_mod_distrib cyc_def mod_Suc_eq)
  then show "(of_nat (cyc c j) + 1) mod ck_count c = of_nat (cyc c (Suc j))"
    using u by (simp add: word_unat_eq_iff)
qed

lemma swept_Suc: "clock_inv c \<Longrightarrow> (swept c j)[cyc c j := False] = swept c (Suc j)"
proof (rule nth_equalityI)
  fix i assume "i < length ((swept c j)[cyc c j := False])"
  then show "(swept c j)[cyc c j := False] ! i = swept c (Suc j) ! i"
    by (cases "i = cyc c j") (simp_all add: swept_def lessThan_Suc)
qed (simp add: swept_def)

lemma evict_victim_loop_sweep:
  assumes "clock_inv c" "fuel + j = unat (ck_count c) + 1" "\<And>i. i < j \<Longrightarrow> reference_bits c ! cyc c i" "0 < fuel"
  shows "\<exists>k. j \<le> k \<and> k \<le> unat (ck_count c) \<and> (\<forall>i < k. reference_bits c ! cyc c i)
    \<and> (k < unat (ck_count c) \<longrightarrow> \<not> reference_bits c ! cyc c k)
    \<and> evict_victim_loop fuel (c\<lparr>reference_bits := swept c j\<rparr>) (of_nat (cyc c j))
      = Some (of_nat (cyc c k), c\<lparr>reference_bits := swept c k, ck_hand := of_nat (cyc c (Suc k))\<rparr>)"
  using assms(2-)
proof (induction fuel arbitrary: j)
  case (Suc fuel)
  have j: "j \<le> unat (ck_count c)" and pos: "0 < unat (ck_count c)"
    using Suc.prems(1) assms(1) by (simp_all add: clock_inv_def word_less_nat_alt)
  have lt: "cyc c j < length (swept c j)"
    using cyc_less [OF assms(1)] by (simp add: swept_def)
  have bit: "swept c j ! cyc c j \<longleftrightarrow> j < unat (ck_count c) \<and> reference_bits c ! cyc c j"
  proof (cases "j < unat (ck_count c)")
    case True
    then show ?thesis
      using cyc_fresh [OF True] cyc_less [OF assms(1), of j] by (simp add: swept_def)
  next
    case False
    then have "cyc c j = cyc c 0"
      using j by (simp add: cyc_def)
    then have "cyc c j \<in> cyc c ` {..<j}"
      using pos j False by auto
    then show ?thesis
      using False cyc_less [OF assms(1), of j] by (simp add: swept_def)
  qed
  show ?case
  proof (cases "swept c j ! cyc c j")
    case True
    then have next_j: "j < unat (ck_count c)" "reference_bits c ! cyc c j"
      using bit by simp_all
    then have "\<And>i. i < Suc j \<Longrightarrow> reference_bits c ! cyc c i"
      using Suc.prems(2) by (auto simp: less_Suc_eq)
    then show ?thesis
      using Suc.IH [of "Suc j"] Suc.prems(1) next_j True lt cyc_step [OF assms(1)] swept_Suc [OF assms(1)]
      by (auto simp: Let_def intro: Suc_leD)
  next
    case False
    then show ?thesis
      using bit j lt Suc.prems(2) cyc_step [OF assms(1)] by (intro exI [of _ j]) (auto simp: Let_def)
  qed
qed simp

lemma evict_victim_sweep:
  assumes "clock_inv c"
  obtains k where "k \<le> unat (ck_count c)" "\<forall>i < k. reference_bits c ! cyc c i"
    "k < unat (ck_count c) \<longrightarrow> \<not> reference_bits c ! cyc c k"
    "evict_victim_shared c = Some (of_nat (cyc c k), c\<lparr>reference_bits := swept c k, ck_hand := of_nat (cyc c (Suc k))\<rparr>)"
proof -
  have "swept c 0 = reference_bits c"
    using assms map_nth [of "reference_bits c"] by (simp add: swept_def clock_inv_def)
  moreover have "of_nat (cyc c 0) = ck_hand c"
    using assms by (simp add: cyc_def clock_inv_def word_less_nat_alt)
  ultimately show ?thesis
    using evict_victim_loop_sweep [OF assms, of "unat (ck_count c) + 1" 0] that
    by (auto simp: evict_victim_shared_def simp del: evict_victim_loop.simps)
qed

lemma evict_victim_inv:
  assumes "clock_inv c"
  obtains v c' where "evict_victim_shared c = Some (v, c')" "clock_inv c'" "ck_count c' = ck_count c"
    "speculation c' = speculation c" "\<And>i. i < unat (ck_count c) \<Longrightarrow> reference_bits c' ! i \<Longrightarrow> reference_bits c ! i"
proof -
  obtain k where k: "evict_victim_shared c = Some (of_nat (cyc c k),
      c\<lparr>reference_bits := swept c k, ck_hand := of_nat (cyc c (Suc k))\<rparr>)"
    by (rule evict_victim_sweep [OF assms])
  have "(of_nat (cyc c (Suc k)) :: u32) < ck_count c"
    using cyc_step(1) [OF assms] cyc_less [OF assms] by (simp add: word_less_nat_alt)
  then show ?thesis
    using that [OF k] assms by (simp add: clock_inv_def swept_def)
qed

section \<open>Histories\<close>

datatype clock_op = Touch ReadFrameIdx "u32 option" | Sweep

fun apply_clock_op :: "clock_op \<Rightarrow> Clock \<Rightarrow> Clock option" where
  "apply_clock_op (Touch f r) c = map_option snd (reference_observed c f r)"
| "apply_clock_op Sweep c = map_option snd (evict_victim_shared c)"

fun run_clock_ops :: "clock_op list \<Rightarrow> Clock \<Rightarrow> Clock option" where
  "run_clock_ops [] c = Some c"
| "run_clock_ops (op # ops) c = Option.bind (apply_clock_op op c) (run_clock_ops ops)"

fun touch_of :: "ReadFrameIdx \<Rightarrow> clock_op \<Rightarrow> u32 option option" where
  "touch_of f (Touch g r) = (if g = f then Some r else None)"
| "touch_of f Sweep = None"

fun first_touch :: "ReadFrameIdx \<Rightarrow> clock_op list \<Rightarrow> SpeculationOutcome" where
  "first_touch f [] = Unconsumed"
| "first_touch f (op # ops) = (case touch_of f op of Some r \<Rightarrow> Consumed r | None \<Rightarrow> first_touch f ops)"

fun op_in_range :: "u32 \<Rightarrow> clock_op \<Rightarrow> bool" where
  "op_in_range n (Touch f r) = (f < n)"
| "op_in_range n Sweep = True"

definition armed :: "Clock \<Rightarrow> ReadFrameIdx \<Rightarrow> bool" where
  "armed c f \<longleftrightarrow> speculation c ! unat f = 1 \<and> \<not> reference_bits c ! unat f"

lemma apply_clock_op_marker:
  assumes "clock_inv c" "op_in_range (ck_count c) op" "f < ck_count c"
  obtains c' where "apply_clock_op op c = Some c'" "clock_inv c'" "ck_count c' = ck_count c"
    "armed c f \<Longrightarrow> touch_of f op = None \<Longrightarrow> armed c' f"
    "\<And>r. armed c f \<Longrightarrow> touch_of f op = Some r \<Longrightarrow> speculation c' ! unat f = reader_mark r"
    "\<And>r. speculation c ! unat f = reader_mark r \<Longrightarrow> speculation c' ! unat f = reader_mark r"
proof (cases op)
  case (Touch g r)
  have f: "unat f < length (speculation c)" "unat f < length (reference_bits c)"
    using assms(1, 3) by (simp_all add: clock_inv_def word_less_nat_alt)
  have g: "g < ck_count c"
    using assms(2) Touch by simp
  show ?thesis
  proof (cases rule: reference_observed_cases [OF assms(1) g, of r])
    case 1
    then show ?thesis
      using that [of c] assms(1) Touch by (cases "g = f") (simp_all add: armed_def)
  next
    case (2 c')
    have "unat g = unat f \<longleftrightarrow> g = f"
      by (simp add: word_unat_eq_iff)
    then show ?thesis
      by (intro that [of c']) (use 2 Touch f in \<open>auto simp: armed_def nth_list_update split: if_splits\<close>)
  qed
next
  case Sweep
  obtain v c' where "evict_victim_shared c = Some (v, c')" "clock_inv c'" "ck_count c' = ck_count c"
    "speculation c' = speculation c" "\<And>i. i < unat (ck_count c) \<Longrightarrow> reference_bits c' ! i \<Longrightarrow> reference_bits c ! i"
    by (rule evict_victim_inv [OF assms(1)]) blast
  then show ?thesis
    using that [of c'] Sweep assms(3) by (auto simp: armed_def word_less_nat_alt)
qed

lemma run_clock_ops_consumed:
  assumes "clock_inv c" "list_all (op_in_range (ck_count c)) ops" "f < ck_count c"
    "speculation c ! unat f = reader_mark r"
  shows "\<exists>c'. run_clock_ops ops c = Some c' \<and> clock_inv c' \<and> ck_count c' = ck_count c
    \<and> speculation c' ! unat f = reader_mark r"
  using assms
proof (induction ops arbitrary: c)
  case (Cons op ops)
  then have op: "op_in_range (ck_count c) op"
    by simp
  obtain c' where "apply_clock_op op c = Some c'" "clock_inv c'" "ck_count c' = ck_count c"
    "speculation c' ! unat f = reader_mark r"
    using apply_clock_op_marker [OF Cons.prems(1) op Cons.prems(3)] Cons.prems(4) by metis
  then show ?case
    using Cons.IH [of c'] Cons.prems by simp
qed auto

lemma run_clock_ops_armed:
  assumes "clock_inv c" "list_all (op_in_range (ck_count c)) ops" "f < ck_count c" "armed c f"
  shows "\<exists>c'. run_clock_ops ops c = Some c' \<and> clock_inv c' \<and> ck_count c' = ck_count c
    \<and> marker_outcome (speculation c' ! unat f) = Some (first_touch f ops)"
  using assms
proof (induction ops arbitrary: c)
  case Nil
  then show ?case
    by (simp add: armed_def marker_outcome_def)
next
  case (Cons op ops)
  then have op: "op_in_range (ck_count c) op" and ops: "list_all (op_in_range (ck_count c)) ops"
    by simp_all
  obtain c' where c': "apply_clock_op op c = Some c'" "clock_inv c'" "ck_count c' = ck_count c"
    and miss: "touch_of f op = None \<Longrightarrow> armed c' f"
    and hit: "\<And>r. touch_of f op = Some r \<Longrightarrow> speculation c' ! unat f = reader_mark r"
    using apply_clock_op_marker [OF Cons.prems(1) op Cons.prems(3)] Cons.prems(4) by metis
  show ?case
  proof (cases "touch_of f op")
    case None
    then show ?thesis
      using Cons.IH [OF c'(2)] miss ops c' Cons.prems(3) by simp
  next
    case (Some r)
    then show ?thesis
      using run_clock_ops_consumed [OF c'(2), of ops f r] hit ops c' Cons.prems(3) by auto
  qed
qed

section \<open>Properties\<close>

text \<open>
  C24.  Second chance: a sweep never panics and never falls through its loop.  It
  evicts the first frame at or after the hand whose reference bit is clear, or the
  frame at the hand when all are set; it clears exactly the bits it passed, and leaves the
  hand one past the victim.
\<close>

theorem evict_victim_second_chance:
  assumes "clock_inv c"
  shows "\<exists>k \<le> unat (ck_count c). (\<forall>i < k. reference_bits c ! cyc c i)
    \<and> (k < unat (ck_count c) \<longrightarrow> \<not> reference_bits c ! cyc c k)
    \<and> evict_victim_shared c
      = Some (of_nat (cyc c k), c\<lparr>reference_bits := swept c k, ck_hand := of_nat (cyc c (Suc k))\<rparr>)"
  by (rule evict_victim_sweep [OF assms]) blast

text \<open>
  C25.  The speculation marker attributes a speculative read to the first reader
  that touches its frame, whatever other touches and sweeps happen in between, and reports
  it unconsumed when no reader did; taking it clears the marker.
\<close>

theorem speculation_first_reader:
  assumes "clock_inv c" "f < ck_count c" "is_speculative c f = Some False"
    and "list_all (op_in_range (ck_count c)) ops"
  shows "\<exists>c1 c2 c3. begin_speculation c f = Some c1 \<and> run_clock_ops ops c1 = Some c2
    \<and> take_speculation c2 f = Some (first_touch f ops, c3) \<and> is_speculative c3 f = Some False"
proof -
  have f: "unat f < length (speculation c)" "unat f < length (reference_bits c)"
    using assms(1, 2) by (simp_all add: clock_inv_def word_less_nat_alt)
  define c1 where "c1 = c\<lparr>reference_bits := (reference_bits c)[unat f := False],
    speculation := (speculation c)[unat f := 1]\<rparr>"
  have start: "begin_speculation c f = Some c1"
    using f assms(3) by (simp add: begin_speculation_def is_speculative_def Clock_checked_index_def c1_def)
  have c1: "clock_inv c1" "ck_count c1 = ck_count c" "armed c1 f"
    using assms(1) f
    by (auto simp: clock_inv_def c1_def armed_def marker_ok_def dest!: set_update_subset_insert [THEN subsetD])
  then obtain c2 where c2: "run_clock_ops ops c1 = Some c2" "clock_inv c2" "ck_count c2 = ck_count c"
    "marker_outcome (speculation c2 ! unat f) = Some (first_touch f ops)"
    using run_clock_ops_armed [of c1 ops f] assms(2, 4) by auto
  then have "take_speculation c2 f = Some (first_touch f ops, c2\<lparr>speculation := (speculation c2)[unat f := 0]\<rparr>)"
    using assms(2) by (simp add: take_speculation_def Clock_checked_index_def clock_inv_def word_less_nat_alt)
  moreover have "is_speculative (c2\<lparr>speculation := (speculation c2)[unat f := 0]\<rparr>) f = Some False"
    using c2(2, 3) assms(2) by (simp add: is_speculative_def Clock_checked_index_def clock_inv_def word_less_nat_alt)
  ultimately show ?thesis
    using start c2(1) by blast
qed

definition sample_clock :: "bool list \<Rightarrow> Clock" where
  "sample_clock bits = \<lparr>reference_bits = bits, ck_count = 3, ck_hand = 1, reference_stores = 0,
     speculation = [0, 0, 0], consumed = sample_tree 0, completed = sample_tree 0\<rparr>"

lemma sample_clock_inv: "length bits = 3 \<Longrightarrow> clock_inv (sample_clock bits)"
proof -
  obtain d where "DirtyFrames_try_new (\<lambda>_. True) 3 = Some (Some d)" "dirty_set d {}"
    by (rule dirty_set_new [of 3]) simp_all
  then have "dirty_set (sample_tree 0) {}"
    using sample_try_new by simp
  then show "length bits = 3 \<Longrightarrow> clock_inv (sample_clock bits)"
    by (auto simp: clock_inv_def sample_clock_def marker_ok_def sample_tree_def)
qed

theorem evict_victim_second_chance_witness:
  "\<exists>k \<le> 3. evict_victim_shared (sample_clock [False, True, True])
     = Some (of_nat (cyc (sample_clock [False, True, True]) k), (sample_clock [False, True, True])
         \<lparr>reference_bits := swept (sample_clock [False, True, True]) k,
          ck_hand := of_nat (cyc (sample_clock [False, True, True]) (Suc k))\<rparr>)"
proof -
  have n: "unat (ck_count (sample_clock bits)) = 3" for bits
    by (simp add: sample_clock_def)
  show ?thesis
    using evict_victim_second_chance [OF sample_clock_inv, of "[False, True, True]", unfolded n]
    by auto
qed

theorem speculation_first_reader_witness:
  "\<exists>c1 c2 c3. begin_speculation (sample_clock [False, True, True]) 2 = Some c1
    \<and> run_clock_ops [Touch 1 None, Sweep, Touch 2 (Some 7), Touch 2 (Some 4)] c1 = Some c2
    \<and> take_speculation c2 2 = Some (Consumed (Some 7), c3) \<and> is_speculative c3 2 = Some False"
  using speculation_first_reader [OF sample_clock_inv, of "[False, True, True]" 2
      "[Touch 1 None, Sweep, Touch 2 (Some 7), Touch 2 (Some 4)]"]
  by (simp add: sample_clock_def is_speculative_def Clock_checked_index_def del: run_clock_ops.simps)

end
