(* ===== verification/File_Slots.thy ===== *)
theory File_Slots
  imports Contracts Ident
begin

text \<open>
  The intrusive per-file membership lists of \<open>pool/file_slots.rs\<close>, used for the
  mapped frames of a file (\<open>pool/frame_pages.rs\<close>) and for its misses.  A link is an
  index plus one, zero being no link; the first member's \<open>previous\<close> and the last member's
  \<open>next\<close> point to the member itself, so a zero \<open>next\<close> marks a vacant slot.  The owner of a
  value (the \<open>FileOwned\<close> trait) is an argument.
\<close>

section \<open>Model\<close>

type_synonym SlotLink = u32

definition SlotLink_from_index :: "nat \<Rightarrow> SlotLink option" where
  "SlotLink_from_index i = do {
     assert (i < 2 ^ 32);
     checked_add (of_nat i) 1
   }"

definition SlotLink_index :: "SlotLink \<Rightarrow> nat option" where
  "SlotLink_index link = map_option unat (checked_sub link 1)"

text \<open>\<open>fs_value\<close> is \<open>None\<close> while the payload is uninitialised.\<close>

record 'v FileSlot =
  fs_previous :: SlotLink
  fs_next :: SlotLink
  fs_value :: "'v option"

definition FileSlot_vacant :: "'v FileSlot" where
  "FileSlot_vacant = \<lparr>fs_previous = 0, fs_next = 0, fs_value = None\<rparr>"

definition FileSlot_get :: "'v FileSlot \<Rightarrow> 'v option option" where
  "FileSlot_get s =
     (case SlotLink_index (fs_next s) of
        None \<Rightarrow> Some None
      | Some _ \<Rightarrow> do { v \<leftarrow> fs_value s; Some (Some v) })"

definition FileSlot_is_none :: "'v FileSlot \<Rightarrow> bool" where
  "FileSlot_is_none s \<longleftrightarrow> fs_next s = 0"

record 'v FileSlots =
  fl_slots :: "'v FileSlot list"
  fl_heads :: "SlotLink list"

definition FileSlots_try_new :: "bool \<Rightarrow> u32 \<Rightarrow> u32 \<Rightarrow> 'v FileSlots option option" where
  "FileSlots_try_new allocated capacity file_capacity = do {
     assert (0 < capacity);
     Some (if allocated
           then Some \<lparr>fl_slots = replicate (unat capacity) FileSlot_vacant,
                      fl_heads = replicate (unat file_capacity) 0\<rparr>
           else None)
   }"

definition FileSlots_insert :: "('v \<Rightarrow> u32) \<Rightarrow> 'v FileSlots \<Rightarrow> nat \<Rightarrow> 'v \<Rightarrow> 'v FileSlots option" where
  "FileSlots_insert file_slot s index value = do {
     entry \<leftarrow> nth_opt (fl_slots s) index;
     assert (FileSlot_is_none entry);
     let owner = unat (file_slot value);
     link \<leftarrow> SlotLink_from_index index;
     old_head \<leftarrow> nth_opt (fl_heads s) owner;
     let next_link = (case SlotLink_index old_head of None \<Rightarrow> link | Some _ \<Rightarrow> old_head);
     let slots = (fl_slots s)[index := \<lparr>fs_previous = link, fs_next = next_link, fs_value = Some value\<rparr>];
     slots' \<leftarrow> (case SlotLink_index old_head of
         None \<Rightarrow> Some slots
       | Some head \<Rightarrow> do {
           h \<leftarrow> nth_opt slots head;
           assert (fs_previous h = old_head);
           Some (slots[head := h\<lparr>fs_previous := link\<rparr>])
         });
     Some (s\<lparr>fl_slots := slots', fl_heads := (fl_heads s)[owner := link]\<rparr>)
   }"

definition FileSlots_remove :: "('v \<Rightarrow> u32) \<Rightarrow> 'v FileSlots \<Rightarrow> nat \<Rightarrow> 'v FileSlots option" where
  "FileSlots_remove file_slot s index = do {
     entry \<leftarrow> nth_opt (fl_slots s) index;
     got \<leftarrow> FileSlot_get entry;
     value \<leftarrow> got;
     let owner = unat (file_slot value);
     link \<leftarrow> SlotLink_from_index index;
     let previous = fs_previous entry;
     let next_link = fs_next entry;
     (slots, heads) \<leftarrow>
       (if previous = link then do {
          head \<leftarrow> nth_opt (fl_heads s) owner;
          assert (head = link);
          Some (fl_slots s, (fl_heads s)[owner := (if next_link = link then 0 else next_link)])
        }
        else do {
          before \<leftarrow> SlotLink_index previous;
          b \<leftarrow> nth_opt (fl_slots s) before;
          assert (fs_next b = link);
          Some ((fl_slots s)[before := b\<lparr>fs_next := (if next_link = link then previous else next_link)\<rparr>],
                fl_heads s)
        });
     slots' \<leftarrow>
       (if next_link \<noteq> link then do {
          after \<leftarrow> SlotLink_index next_link;
          a \<leftarrow> nth_opt slots after;
          assert (fs_previous a = link);
          Some (slots[after := a\<lparr>fs_previous := (if previous = link then next_link else previous)\<rparr>])
        }
        else Some slots);
     vacated \<leftarrow> nth_opt slots' index;
     Some (s\<lparr>fl_slots := slots'[index := vacated\<lparr>fs_previous := 0, fs_next := 0\<rparr>], fl_heads := heads\<rparr>)
   }"

fun for_file_loop :: "('v \<Rightarrow> u32) \<Rightarrow> nat \<Rightarrow> 'v FileSlots \<Rightarrow> u32 \<Rightarrow> SlotLink \<Rightarrow> (nat \<times> 'v) list option" where
  "for_file_loop file_slot remaining s owner cursor =
     (case SlotLink_index cursor of
        None \<Rightarrow> Some []
      | Some index \<Rightarrow>
          (case remaining of
             0 \<Rightarrow> None
           | Suc remaining' \<Rightarrow> do {
               entry \<leftarrow> nth_opt (fl_slots s) index;
               got \<leftarrow> FileSlot_get entry;
               value \<leftarrow> got;
               assert (file_slot value = owner);
               let next_link = fs_next entry;
               rest \<leftarrow> for_file_loop file_slot remaining' s owner (if next_link = cursor then 0 else next_link);
               Some ((index, value) # rest)
             }))"

declare for_file_loop.simps [simp del]

definition for_file :: "('v \<Rightarrow> u32) \<Rightarrow> 'v FileSlots \<Rightarrow> FileId \<Rightarrow> (nat \<times> 'v) list option" where
  "for_file file_slot s file = do {
     cursor \<leftarrow> nth_opt (fl_heads s) (unat (slot file));
     for_file_loop file_slot (length (fl_slots s)) s (slot file) cursor
   }"

text \<open>The membership value of a mapped frame is its file's slot (\<open>frame_pages.rs\<close>).\<close>

datatype FrameFileSlot = FrameFileSlot (frame_file_slot: u32)

definition FrameFileSlot_for_page :: "PageId \<Rightarrow> FrameFileSlot" where
  "FrameFileSlot_for_page page = FrameFileSlot (slot (page_file page))"

section \<open>Links\<close>

definition link :: "nat \<Rightarrow> SlotLink" where
  "link i = of_nat (Suc i)"

lemma link_simps:
  assumes "i < 2 ^ 32 - 1"
  shows "SlotLink_from_index i = Some (link i)" "SlotLink_index (link i) = Some i" "link i \<noteq> 0"
proof -
  have u: "unat (of_nat i :: u32) = i" "unat (link i) = Suc i"
    using assms by (simp_all add: link_def unsigned_of_nat take_bit_nat_eq_self_iff del: of_nat_Suc)
  show "SlotLink_from_index i = Some (link i)"
    using assms u(1) by (simp add: SlotLink_from_index_def checked_add_def link_def)
  show ne: "link i \<noteq> 0"
    using u by (auto simp: word_unat_eq_iff)
  have "(1 :: u32) \<le> link i"
    using u by (simp add: word_le_nat_alt)
  then show "SlotLink_index (link i) = Some i"
    using u by (simp add: SlotLink_index_def checked_sub_def unat_sub_le)
qed

lemma link_inject: "i < 2 ^ 32 - 1 \<Longrightarrow> j < 2 ^ 32 - 1 \<Longrightarrow> link i = link j \<longleftrightarrow> i = j"
  by (metis link_simps(2) option.inject)

lemma SlotLink_index_0 [simp]: "SlotLink_index 0 = None"
  by (simp add: SlotLink_index_def checked_sub_def)

section \<open>The lists a table represents\<close>

text \<open>A doubly linked segment between an optional predecessor and an optional successor.\<close>

fun seg :: "(nat \<Rightarrow> SlotLink) \<Rightarrow> (nat \<Rightarrow> SlotLink) \<Rightarrow> nat option \<Rightarrow> nat list \<Rightarrow> nat option \<Rightarrow> bool" where
  "seg P N p [] n = True"
| "seg P N p (x # xs) n =
     (P x = link (case p of None \<Rightarrow> x | Some q \<Rightarrow> q)
      \<and> N x = link (case xs of y # _ \<Rightarrow> y | [] \<Rightarrow> (case n of None \<Rightarrow> x | Some q \<Rightarrow> q))
      \<and> seg P N (Some x) xs n)"

lemma seg_append:
  "seg P N p (as @ bs) n \<longleftrightarrow> seg P N p as (if bs = [] then n else Some (hd bs))
     \<and> seg P N (if as = [] then p else Some (last as)) bs n"
proof (induction as arbitrary: p)
  case (Cons a as)
  show ?case
    unfolding append_Cons seg.simps(2) Cons.IH [of "Some a"] by (cases as; cases bs) auto
qed simp

lemma seg_cong: "(\<And>x. x \<in> set xs \<Longrightarrow> P x = P' x \<and> N x = N' x) \<Longrightarrow> seg P N p xs n = seg P' N' p xs n"
  by (induction xs arbitrary: p) auto

lemma seg_set_next:
  assumes "seg P N p (as @ [a]) n" "a \<notin> set as"
  shows "seg P (N(a := link (case n' of None \<Rightarrow> a | Some q \<Rightarrow> q))) p (as @ [a]) n'"
proof -
  have "seg P (N(a := link (case n' of None \<Rightarrow> a | Some q \<Rightarrow> q))) p as m = seg P N p as m" for m
    using assms(2) by (intro seg_cong) auto
  then show ?thesis
    using assms(1) by (simp add: seg_append)
qed

lemma seg_set_prev:
  assumes "seg P N p (b # bs) n" "b \<notin> set bs"
  shows "seg (P(b := link (case p' of None \<Rightarrow> b | Some q \<Rightarrow> q))) N p' (b # bs) n"
proof -
  have "seg (P(b := link (case p' of None \<Rightarrow> b | Some q \<Rightarrow> q))) N (Some b) bs n = seg P N (Some b) bs n"
    using assms(2) by (intro seg_cong) auto
  then show ?thesis
    using assms(1) by simp
qed

abbreviation prevs :: "'v FileSlots \<Rightarrow> nat \<Rightarrow> SlotLink" where
  "prevs s i \<equiv> fs_previous (fl_slots s ! i)"

abbreviation nexts :: "'v FileSlots \<Rightarrow> nat \<Rightarrow> SlotLink" where
  "nexts s i \<equiv> fs_next (fl_slots s ! i)"

abbreviation vals :: "'v FileSlots \<Rightarrow> nat \<Rightarrow> 'v option" where
  "vals s i \<equiv> fs_value (fl_slots s ! i)"

definition owned_list :: "('v \<Rightarrow> u32) \<Rightarrow> 'v FileSlots \<Rightarrow> nat \<Rightarrow> nat list \<Rightarrow> bool" where
  "owned_list own s k xs \<longleftrightarrow> distinct xs \<and> fl_heads s ! k = (case xs of [] \<Rightarrow> 0 | x # _ \<Rightarrow> link x)
     \<and> seg (prevs s) (nexts s) None xs None
     \<and> (\<forall>x \<in> set xs. x < length (fl_slots s) \<and> (\<exists>v. vals s x = Some v \<and> unat (own v) = k))"

definition represents :: "('v \<Rightarrow> u32) \<Rightarrow> 'v FileSlots \<Rightarrow> (nat \<Rightarrow> nat list) \<Rightarrow> bool" where
  "represents own s L \<longleftrightarrow> length (fl_slots s) < 2 ^ 32
     \<and> (\<forall>k < length (fl_heads s). owned_list own s k (L k))
     \<and> (\<forall>i < length (fl_slots s). nexts s i \<noteq> 0 \<longleftrightarrow> (\<exists>k < length (fl_heads s). i \<in> set (L k)))"

definition slots_inv :: "('v \<Rightarrow> u32) \<Rightarrow> 'v FileSlots \<Rightarrow> bool" where
  "slots_inv own s \<longleftrightarrow> (\<exists>L. represents own s L)"

definition slots_abs :: "'v FileSlots \<Rightarrow> nat \<rightharpoonup> 'v" where
  "slots_abs s i = (if i < length (fl_slots s) \<and> nexts s i \<noteq> 0 then vals s i else None)"

lemma represents_owner:
  assumes "represents own s L" "k < length (fl_heads s)" "i \<in> set (L k)"
  shows "i < length (fl_slots s)" "i < 2 ^ 32 - 1" "\<exists>v. slots_abs s i = Some v \<and> vals s i = Some v \<and> unat (own v) = k"
    "\<And>k'. k' < length (fl_heads s) \<Longrightarrow> i \<in> set (L k') \<Longrightarrow> k' = k"
proof -
  have "owned_list own s k (L k)"
    using assms(1, 2) by (simp add: represents_def)
  then show lt: "i < length (fl_slots s)" and *: "\<exists>v. slots_abs s i = Some v \<and> vals s i = Some v \<and> unat (own v) = k"
    using assms by (auto simp: owned_list_def represents_def slots_abs_def)
  show "i < 2 ^ 32 - 1"
    using lt assms(1) by (simp add: represents_def)
  show "k' = k" if "k' < length (fl_heads s)" "i \<in> set (L k')" for k'
    using assms(1) that * by (fastforce simp: represents_def owned_list_def)
qed

text \<open>A list whose members an update leaves alone is still represented.\<close>

lemma owned_list_cong:
  assumes "owned_list own s k xs" "length (fl_slots s') = length (fl_slots s)" "fl_heads s' ! k = fl_heads s ! k"
    "\<And>x. x \<in> set xs \<Longrightarrow> fl_slots s' ! x = fl_slots s ! x"
  shows "owned_list own s' k xs"
proof -
  have "seg (prevs s') (nexts s') None xs None = seg (prevs s) (nexts s) None xs None"
    using assms(4) by (intro seg_cong) simp
  then show ?thesis
    using assms unfolding owned_list_def by auto
qed

section \<open>Insertion\<close>

lemma insert_represents:
  assumes rep: "represents own s L" and i: "i < length (fl_slots s)" "nexts s i = 0"
    and k: "k = unat (own v)" "k < length (fl_heads s)"
  obtains s' where "FileSlots_insert own s i v = Some s'" "represents own s' (L(k := i # L k))"
    "length (fl_slots s') = length (fl_slots s)" "length (fl_heads s') = length (fl_heads s)"
    "slots_abs s' = (slots_abs s)(i \<mapsto> v)"
proof -
  have i': "i < 2 ^ 32 - 1" and fresh: "i \<notin> set (L k')" if "k' < length (fl_heads s)" for k'
    using rep i that by (auto simp: represents_def)
  have Lk: "owned_list own s k (L k)"
    using rep k by (simp add: represents_def)
  define new where "new = \<lparr>fs_previous = link i,
    fs_next = link (case L k of [] \<Rightarrow> i | h # _ \<Rightarrow> h), fs_value = Some v\<rparr>"
  define slots' where "slots' = (case L k of [] \<Rightarrow> (fl_slots s)[i := new]
    | h # _ \<Rightarrow> (fl_slots s)[i := new, h := (fl_slots s ! h)\<lparr>fs_previous := link i\<rparr>])"
  define s' where "s' = s\<lparr>fl_slots := slots', fl_heads := (fl_heads s)[k := link i]\<rparr>"
  have head: "h < length (fl_slots s)" "h < 2 ^ 32 - 1" "h \<noteq> i" "prevs s h = link h" if "L k = h # t" for h t
    using represents_owner [OF rep k(2), of h] Lk fresh [OF k(2)] that by (auto simp: owned_list_def)
  have call: "FileSlots_insert own s i v = Some s'"
    using i k i' [OF k(2)] Lk head link_simps [of i] link_simps(2)
    by (cases "L k") (auto simp: FileSlots_insert_def FileSlot_is_none_def owned_list_def Let_def
        s'_def slots'_def new_def)
  have slots: "fl_slots s' ! x = (if x = i then new
      else if L k \<noteq> [] \<and> x = hd (L k) then (fl_slots s ! x)\<lparr>fs_previous := link i\<rparr> else fl_slots s ! x)" for x
    using i(1) head by (cases "L k") (auto simp: s'_def slots'_def nth_list_update)
  have len: "length (fl_slots s') = length (fl_slots s)" "length (fl_heads s') = length (fl_heads s)"
    by (simp_all add: s'_def slots'_def split: list.split)
  have nexts': "nexts s' x = (if x = i then fs_next new else nexts s x)"
    and vals': "vals s' x = (if x = i then Some v else vals s x)" for x
    by (auto simp: slots new_def)
  have other: "owned_list own s' j (L j)" if j: "j < length (fl_heads s)" "j \<noteq> k" for j
  proof (rule owned_list_cong)
    show "owned_list own s j (L j)"
      using rep j by (simp add: represents_def)
    show "fl_slots s' ! x = fl_slots s ! x" if "x \<in> set (L j)" for x
      using that fresh [OF j(1)] represents_owner(4) [OF rep j(1) that k(2)] j(2)
      by (cases "L k") (auto simp: slots)
  qed (use j len in \<open>simp_all add: s'_def\<close>)
  have "seg (prevs s') (nexts s') (Some i) (L k) None"
  proof (cases "L k")
    case (Cons h t)
    have "seg ((prevs s)(h := link i)) (nexts s) (Some i) (L k) None"
      using seg_set_prev [of "prevs s" "nexts s" None h t None "Some i"] Lk Cons by (auto simp: owned_list_def)
    moreover have "seg (prevs s') (nexts s') (Some i) (L k) None
        = seg ((prevs s)(h := link i)) (nexts s) (Some i) (L k) None"
      using fresh [OF k(2)] Cons by (intro seg_cong) (auto simp: slots)
    ultimately show ?thesis by simp
  qed simp
  then have "seg (prevs s') (nexts s') None (i # L k) None"
    by (cases "L k") (simp_all add: slots new_def)
  moreover have "\<forall>x \<in> set (i # L k). x < length (fl_slots s') \<and> (\<exists>u. vals s' x = Some u \<and> unat (own u) = k)"
    using Lk fresh [OF k(2)] k(1) i(1) len vals' by (auto simp: owned_list_def)
  ultimately have "owned_list own s' k (i # L k)"
    using Lk fresh [OF k(2)] k(2) unfolding owned_list_def by (simp add: s'_def)
  moreover have "nexts s' x \<noteq> 0 \<longleftrightarrow> (\<exists>j < length (fl_heads s). x \<in> set ((L(k := i # L k)) j))"
    if "x < length (fl_slots s)" for x
  proof -
    have "x \<in> set ((L(k := i # L k)) j) \<longleftrightarrow> x \<in> set (L j) \<or> x = i \<and> j = k" for j
      by auto
    then show ?thesis
      using rep that k(2) i' [OF k(2)] head(2) link_simps(3) unfolding represents_def nexts'
      by (cases "x = i") (auto simp: new_def split: list.split)
  qed
  ultimately have "represents own s' (L(k := i # L k))"
    using rep other len unfolding represents_def by auto
  moreover have "slots_abs s' = (slots_abs s)(i \<mapsto> v)"
    using i(1) i' [OF k(2)] head(2) link_simps(3)
    by (auto simp: fun_eq_iff slots_abs_def len nexts' vals' new_def split: list.split)
  ultimately show ?thesis
    using that call len by blast
qed

section \<open>Removal\<close>

definition neighbour :: "nat list \<Rightarrow> nat \<Rightarrow> nat \<Rightarrow> nat" where
  "neighbour xs y d = (if xs = [] then d else y)"

text \<open>The slots after unlinking \<open>i\<close> from between \<open>as\<close> and \<open>bs\<close>.\<close>

definition unlinked :: "'v FileSlots \<Rightarrow> nat list \<Rightarrow> nat \<Rightarrow> nat list \<Rightarrow> nat \<Rightarrow> 'v FileSlot" where
  "unlinked s as i bs x =
     (if x = i then (fl_slots s ! i)\<lparr>fs_previous := 0, fs_next := 0\<rparr>
      else if as \<noteq> [] \<and> x = last as then (fl_slots s ! x)\<lparr>fs_next := link (neighbour bs (hd bs) x)\<rparr>
      else if bs \<noteq> [] \<and> x = hd bs then (fl_slots s ! x)\<lparr>fs_previous := link (neighbour as (last as) x)\<rparr>
      else fl_slots s ! x)"

lemma remove_call:
  assumes rep: "represents own s L" and k: "k < length (fl_heads s)" "L k = as @ i # bs"
  shows "\<exists>s'. FileSlots_remove own s i = Some s' \<and> length (fl_slots s') = length (fl_slots s)
    \<and> length (fl_heads s') = length (fl_heads s) \<and> (\<forall>x. fl_slots s' ! x = unlinked s as i bs x)
    \<and> fl_heads s' = (if as = [] then (fl_heads s)[k := (case bs of [] \<Rightarrow> 0 | b # _ \<Rightarrow> link b)] else fl_heads s)"
proof -
  have mem: "x < length (fl_slots s) \<and> x < 2 ^ 32 - 1" if "x \<in> set (as @ i # bs)" for x
    using represents_owner(1, 2) [OF rep k(1)] k(2) that by auto
  obtain v where v: "vals s i = Some v" "unat (own v) = k"
    using represents_owner(3) [OF rep k(1), of i] k(2) by auto
  have "owned_list own s k (as @ i # bs)"
    using rep k by (auto simp: represents_def)
  then have owned: "distinct (as @ i # bs)" "as = [] \<Longrightarrow> fl_heads s ! k = link i"
    "seg (prevs s) (nexts s) None (as @ i # bs) None"
    by (simp_all add: owned_list_def)
  have i: "i < length (fl_slots s)" "i < 2 ^ 32 - 1"
    using mem by simp_all
  have entry: "prevs s i = link (neighbour as (last as) i)" "nexts s i = link (neighbour bs (hd bs) i)"
    and bwd: "as \<noteq> [] \<Longrightarrow> nexts s (last as) = link i" and fwd: "bs \<noteq> [] \<Longrightarrow> prevs s (hd bs) = link i"
    using owned(3) unfolding neighbour_def
    by (cases bs; cases as rule: rev_cases; simp add: seg_append)+
  have last: "last as < length (fl_slots s)" "last as < 2 ^ 32 - 1" "last as \<noteq> i" "link (last as) \<noteq> link i" if "as \<noteq> []"
    using that mem [of "last as"] owned(1) link_inject i(2) by auto
  have hd: "hd bs < length (fl_slots s)" "hd bs < 2 ^ 32 - 1" "hd bs \<noteq> i" "link (hd bs) \<noteq> link i" if "bs \<noteq> []"
    using that mem [of "hd bs"] owned(1) link_inject i(2) by (cases bs; auto)+
  have apart: "last as \<noteq> hd bs" if "as \<noteq> []" "bs \<noteq> []"
    using that owned(1) by (metis UnCI disjoint_iff distinct_append hd_in_set last_in_set list.set_intros(2))
  have get: "FileSlot_get (fl_slots s ! i) = Some (Some v)"
    using v(1) entry(2) link_simps(2) i(2) hd(2) by (simp add: FileSlot_get_def neighbour_def)
  note facts = i v get entry bwd fwd last hd link_simps(1, 2) owned(2) k(1)
  show ?thesis
  proof (cases "as = []"; cases "bs = []")
    assume "as = []" "bs = []"
    then show ?thesis
      using facts by (simp add: FileSlots_remove_def Let_def neighbour_def unlinked_def nth_list_update)
  next
    assume "as = []" "bs \<noteq> []"
    then show ?thesis
      using facts by (simp add: FileSlots_remove_def Let_def neighbour_def unlinked_def nth_list_update
          split: list.split)
  next
    assume "as \<noteq> []" "bs = []"
    then show ?thesis
      using facts by (simp add: FileSlots_remove_def Let_def neighbour_def unlinked_def nth_list_update)
  next
    assume "as \<noteq> []" "bs \<noteq> []"
    then show ?thesis
      using facts apart by (simp add: FileSlots_remove_def Let_def neighbour_def unlinked_def nth_list_update)
  qed
qed

lemma unlinked_seg:
  assumes "seg (prevs s) (nexts s) None (as @ i # bs) None" "distinct (as @ i # bs)"
    "\<And>x. fl_slots s' ! x = unlinked s as i bs x"
  shows "seg (prevs s') (nexts s') None (as @ bs) None"
proof -
  have front: "seg (prevs s') (nexts s') None as (if bs = [] then None else Some (hd bs))"
  proof (cases as rule: rev_cases)
    case (snoc as' a)
    let ?n = "if bs = [] then None else Some (hd bs)"
    have "seg (prevs s) (nexts s) None as (Some i)"
      using assms(1) seg_append [of _ _ None as "i # bs" None] by simp
    then have "seg (prevs s) ((nexts s)(a := link (case ?n of None \<Rightarrow> a | Some q \<Rightarrow> q))) None as ?n"
      using assms(2) unfolding snoc by (intro seg_set_next) auto
    moreover have "seg (prevs s') (nexts s') None as ?n
        = seg (prevs s) ((nexts s)(a := link (case ?n of None \<Rightarrow> a | Some q \<Rightarrow> q))) None as ?n"
      using assms(2) snoc by (intro seg_cong) (cases bs; auto simp: assms(3) unlinked_def neighbour_def)
    ultimately show ?thesis by simp
  qed simp
  have rear: "seg (prevs s') (nexts s') (if as = [] then None else Some (last as)) bs None"
  proof (cases bs)
    case (Cons b bs')
    let ?p = "if as = [] then None else Some (last as)"
    have "seg ((prevs s)(b := link (case ?p of None \<Rightarrow> b | Some q \<Rightarrow> q))) (nexts s) ?p bs None"
      using assms(1, 2) Cons seg_set_prev [of "prevs s" "nexts s" "Some i" b bs' None ?p]
      by (simp add: seg_append)
    moreover have "seg (prevs s') (nexts s') ?p bs None
        = seg ((prevs s)(b := link (case ?p of None \<Rightarrow> b | Some q \<Rightarrow> q))) (nexts s) ?p bs None"
      using assms(2) Cons
      by (intro seg_cong) (cases as rule: rev_cases; auto simp: assms(3) unlinked_def neighbour_def)
    ultimately show ?thesis by simp
  qed simp
  show ?thesis
    using front rear by (simp add: seg_append)
qed

lemma remove_represents:
  assumes rep: "represents own s L" and k: "k < length (fl_heads s)" "L k = as @ i # bs"
  obtains s' where "FileSlots_remove own s i = Some s'" "represents own s' (L(k := as @ bs))"
    "length (fl_slots s') = length (fl_slots s)" "length (fl_heads s') = length (fl_heads s)"
    "slots_abs s' = (slots_abs s)(i := None)"
proof -
  obtain s' where call: "FileSlots_remove own s i = Some s'"
    and len: "length (fl_slots s') = length (fl_slots s)" "length (fl_heads s') = length (fl_heads s)"
    and slots: "\<And>x. fl_slots s' ! x = unlinked s as i bs x"
    and heads: "fl_heads s' = (if as = [] then (fl_heads s)[k := (case bs of [] \<Rightarrow> 0 | b # _ \<Rightarrow> link b)] else fl_heads s)"
    using remove_call [OF rep k] by blast
  have Lk: "owned_list own s k (as @ i # bs)"
    using rep k by (auto simp: represents_def)
  then have dist: "distinct (as @ i # bs)"
    by (simp add: owned_list_def)
  have seg: "seg (prevs s') (nexts s') None (as @ bs) None"
    using unlinked_seg [OF _ dist slots] Lk by (simp add: owned_list_def)
  have vals': "vals s' x = vals s x" for x
    by (simp add: slots unlinked_def)
  have nonzero: "nexts s' x \<noteq> 0 \<longleftrightarrow> x \<noteq> i \<and> nexts s x \<noteq> 0" if "x < length (fl_slots s)" for x
  proof (cases "as \<noteq> [] \<and> x = last as")
    case True
    then have "x \<in> set (as @ i # bs)" "neighbour bs (hd bs) x \<in> set (as @ i # bs)"
      by (auto simp: neighbour_def)
    then have "neighbour bs (hd bs) x < 2 ^ 32 - 1" "nexts s x \<noteq> 0" "x \<noteq> i"
      using represents_owner(2) [OF rep k(1)] rep that k True dist by (auto simp: represents_def)
    then show ?thesis
      using True link_simps(3) by (simp add: slots unlinked_def)
  qed (auto simp: slots unlinked_def)
  have other: "owned_list own s' j (L j)" if j: "j < length (fl_heads s)" "j \<noteq> k" for j
  proof (rule owned_list_cong)
    show "owned_list own s j (L j)"
      using rep j by (simp add: represents_def)
    fix x assume "x \<in> set (L j)"
    then have "x \<notin> set (as @ i # bs)"
      using represents_owner(4) [OF rep j(1) _ k(1)] j(2) k(2) by auto
    then show "fl_slots s' ! x = fl_slots s ! x"
      by (cases as rule: rev_cases; cases bs) (simp_all add: slots unlinked_def)
  qed (use j len heads in simp_all)
  have "owned_list own s' k (as @ bs)"
    using Lk seg heads k(1) len(1) vals' unfolding owned_list_def
    by (cases as) (simp_all split: list.split)
  moreover have "nexts s' x \<noteq> 0 \<longleftrightarrow> (\<exists>j < length (fl_heads s). x \<in> set ((L(k := as @ bs)) j))"
    if x: "x < length (fl_slots s)" for x
  proof -
    have "x \<in> set ((L(k := as @ bs)) j) \<longleftrightarrow> x \<noteq> i \<and> x \<in> set (L j)" if "j < length (fl_heads s)" for j
    proof (cases "j = k")
      case False
      then have "i \<notin> set (L j)"
        using represents_owner(4) [OF rep k(1), of i j] k(2) that by auto
      then show ?thesis
        using False by auto
    qed (use dist k(2) in auto)
    moreover have "nexts s x \<noteq> 0 \<longleftrightarrow> (\<exists>j < length (fl_heads s). x \<in> set (L j))"
      using rep x by (simp add: represents_def)
    ultimately show ?thesis
      using nonzero [OF x] by blast
  qed
  ultimately have "represents own s' (L(k := as @ bs))"
    using rep other len unfolding represents_def by auto
  moreover have "slots_abs s' = (slots_abs s)(i := None)"
    using nonzero vals' by (auto simp: fun_eq_iff slots_abs_def len)
  ultimately show ?thesis
    using that call len by blast
qed

section \<open>Enumeration\<close>

lemma for_file_loop_members:
  assumes rep: "represents own s L" and k: "unat f < length (fl_heads s)" "L (unat f) = as @ bs"
    and fuel: "length bs \<le> remaining"
  shows "for_file_loop own remaining s f (case bs of [] \<Rightarrow> 0 | b # _ \<Rightarrow> link b)
    = Some (map (\<lambda>x. (x, the (vals s x))) bs)"
  using k(2) fuel
proof (induction bs arbitrary: as remaining)
  case (Cons b bs)
  then obtain r where r: "remaining = Suc r" "length bs \<le> r"
    by (cases remaining) auto
  have owned: "owned_list own s (unat f) (as @ b # bs)"
    using rep k(1) Cons.prems(1) by (auto simp: represents_def)
  obtain v where v: "vals s b = Some v" "unat (own v) = unat f" and b: "b < length (fl_slots s)" "b < 2 ^ 32 - 1"
    using represents_owner [OF rep k(1), of b] Cons.prems(1) by auto
  have next_b: "nexts s b = link (case bs of y # _ \<Rightarrow> y | [] \<Rightarrow> b)"
    using owned by (cases bs) (simp_all add: owned_list_def seg_append)
  have "(if nexts s b = link b then 0 else nexts s b) = (case bs of [] \<Rightarrow> 0 | y # _ \<Rightarrow> link y)
      \<and> SlotLink_index (nexts s b) \<noteq> None"
  proof (cases bs)
    case bs: (Cons y ys)
    have "y < 2 ^ 32 - 1" "y \<noteq> b"
      using represents_owner(2) [OF rep k(1), of y] Cons.prems(1) bs owned by (auto simp: owned_list_def)
    then show ?thesis
      using bs next_b link_inject b(2) link_simps(2) by auto
  qed (use next_b link_simps(2) b(2) in auto)
  then have step: "(if nexts s b = link b then 0 else nexts s b) = (case bs of [] \<Rightarrow> 0 | y # _ \<Rightarrow> link y)"
    and some: "SlotLink_index (nexts s b) \<noteq> None"
    by blast+
  have "FileSlot_get (fl_slots s ! b) = Some (Some v)"
    using some v(1) by (auto simp: FileSlot_get_def)
  moreover have "own v = f"
    using v(2) by (simp add: word_unat_eq_iff)
  moreover have "for_file_loop own r s f (if nexts s b = link b then 0 else nexts s b)
      = Some (map (\<lambda>x. (x, the (vals s x))) bs)"
    using Cons.IH [of "as @ [b]" r] Cons.prems(1) r(2) step by simp
  ultimately show ?case
    using r(1) b v(1) link_simps(2) by (subst for_file_loop.simps) (simp add: Let_def)
qed (simp add: for_file_loop.simps)

definition file_members :: "('v \<Rightarrow> u32) \<Rightarrow> 'v FileSlots \<Rightarrow> nat \<Rightarrow> (nat \<times> 'v) list option" where
  "file_members own s k = for_file own s (FileId_new 0 (of_nat k) 0)"

lemma for_file_members:
  assumes rep: "represents own s L" and k: "unat (slot file) < length (fl_heads s)"
  shows "for_file own s file = Some (map (\<lambda>x. (x, the (vals s x))) (L (unat (slot file))))"
proof -
  let ?xs = "L (unat (slot file))"
  have owned: "owned_list own s (unat (slot file)) ?xs"
    using rep k by (simp add: represents_def)
  then have "set ?xs \<subseteq> {..<length (fl_slots s)}" "distinct ?xs"
    by (auto simp: owned_list_def)
  then have "length ?xs \<le> length (fl_slots s)"
    by (metis card_lessThan card_mono distinct_card finite_lessThan)
  then show ?thesis
    using for_file_loop_members [OF rep k, of "[]" ?xs] owned k by (simp add: for_file_def owned_list_def)
qed

section \<open>The table is a map with per-file enumeration\<close>

definition file_slots_inv :: "('v \<Rightarrow> u32) \<Rightarrow> 'v FileSlots \<Rightarrow> bool" where
  "file_slots_inv own s \<longleftrightarrow> slots_inv own s \<and> length (fl_heads s) < 2 ^ 32"

interpretation file_slots: owned_map "FileSlots_insert own" "FileSlots_remove own" "file_members own"
    "\<lambda>v. unat (own v)" "file_slots_inv own" slots_abs "\<lambda>s. length (fl_slots s)" "\<lambda>s. length (fl_heads s)"
  for own :: "'v \<Rightarrow> u32"
proof
  fix s :: "'v FileSlots" and i v
  assume s: "file_slots_inv own s" "i < length (fl_slots s)" "unat (own v) < length (fl_heads s)" "slots_abs s i = None"
  then obtain L where rep: "represents own s L"
    by (auto simp: file_slots_inv_def slots_inv_def)
  have vacant: "nexts s i = 0"
  proof (rule ccontr)
    assume "nexts s i \<noteq> 0"
    then obtain k where "k < length (fl_heads s)" "i \<in> set (L k)"
      using rep s(2) by (auto simp: represents_def)
    then show False
      using represents_owner(3) [OF rep] s(4) by fastforce
  qed
  show "\<exists>t'. FileSlots_insert own s i v = Some t' \<and> file_slots_inv own t' \<and> slots_abs t' = (slots_abs s)(i \<mapsto> v)
      \<and> length (fl_slots t') = length (fl_slots s) \<and> length (fl_heads t') = length (fl_heads s)"
    by (rule insert_represents [OF rep s(2) vacant refl s(3)])
      (use s(1) in \<open>auto simp: file_slots_inv_def slots_inv_def\<close>)
next
  fix s :: "'v FileSlots" and i
  assume s: "file_slots_inv own s" "slots_abs s i \<noteq> None"
  then obtain L where rep: "represents own s L"
    by (auto simp: file_slots_inv_def slots_inv_def)
  then obtain k where "k < length (fl_heads s)" "i \<in> set (L k)"
    using s(2) by (auto simp: represents_def slots_abs_def split: if_splits)
  then obtain as bs where k: "k < length (fl_heads s)" "L k = as @ i # bs"
    by (auto dest: split_list)
  show "\<exists>t'. FileSlots_remove own s i = Some t' \<and> file_slots_inv own t' \<and> slots_abs t' = (slots_abs s)(i := None)
      \<and> length (fl_slots t') = length (fl_slots s) \<and> length (fl_heads t') = length (fl_heads s)"
    by (rule remove_represents [OF rep k]) (use s(1) in \<open>auto simp: file_slots_inv_def slots_inv_def\<close>)
next
  fix s :: "'v FileSlots" and w
  assume s: "file_slots_inv own s" "w < length (fl_heads s)"
  then obtain L where rep: "represents own s L"
    by (auto simp: file_slots_inv_def slots_inv_def)
  have w: "unat (of_nat w :: u32) = w"
    using s by (simp add: file_slots_inv_def unsigned_of_nat take_bit_nat_eq_self_iff)
  let ?xs = "map (\<lambda>x. (x, the (vals s x))) (L w)"
  have "file_members own s w = Some ?xs"
    using for_file_members [OF rep, of "FileId_new 0 (of_nat w) 0"] s(2) w
    by (simp add: file_members_def FileId_new_def)
  moreover have "distinct (map fst ?xs)"
    using rep s(2) by (simp add: represents_def owned_list_def comp_def)
  moreover have "(i, v) \<in> set ?xs \<longleftrightarrow> slots_abs s i = Some v \<and> unat (own v) = w" for i v
  proof
    assume "(i, v) \<in> set ?xs"
    then show "slots_abs s i = Some v \<and> unat (own v) = w"
      using represents_owner(3) [OF rep s(2)] by force
  next
    assume v: "slots_abs s i = Some v \<and> unat (own v) = w"
    then obtain k where "k < length (fl_heads s)" "i \<in> set (L k)"
      using rep by (auto simp: represents_def slots_abs_def split: if_splits)
    then show "(i, v) \<in> set ?xs"
      using represents_owner(3) [OF rep] v by force
  qed
  then have "set ?xs = {(i, v). slots_abs s i = Some v \<and> unat (own v) = w}"
    by auto
  ultimately show "\<exists>xs. file_members own s w = Some xs \<and> distinct (map fst xs)
      \<and> set xs = {(k, v). slots_abs s k = Some v \<and> unat (own v) = w}"
    by blast
qed

lemma try_new_file_slots_inv:
  assumes "FileSlots_try_new True capacity files = Some (Some s)"
  shows "file_slots_inv own s" "slots_abs s = Map.empty"
    "length (fl_slots s) = unat capacity" "length (fl_heads s) = unat files"
proof -
  have s: "s = \<lparr>fl_slots = replicate (unat capacity) FileSlot_vacant, fl_heads = replicate (unat files) 0\<rparr>"
    using assms by (simp add: FileSlots_try_new_def)
  then have "represents own s (\<lambda>_. [])"
    using unsigned_less [where 'a = nat, of capacity]
    by (simp add: represents_def owned_list_def FileSlot_vacant_def)
  then show "file_slots_inv own s"
    using unsigned_less [where 'a = nat, of files] by (auto simp: file_slots_inv_def slots_inv_def s)
  show "slots_abs s = Map.empty"
    by (auto simp: fun_eq_iff slots_abs_def s FileSlot_vacant_def)
  show "length (fl_slots s) = unat capacity" "length (fl_heads s) = unat files"
    by (simp_all add: s)
qed

section \<open>Properties\<close>

text \<open>
  C26.  After any history of insertions into vacant slots and removals of occupied
  ones, no assertion of the linked lists fires, and enumerating a file yields each occupied slot of
  that file exactly once with its value, and nothing else.
\<close>

theorem file_membership_exact:
  assumes "FileSlots_try_new True capacity files = Some (Some s0)"
    and "owned_history (unat capacity) (unat files) (\<lambda>v. unat (own v)) ops Map.empty"
    and "slot file < files"
  shows "\<exists>s xs. run_owned_ops (FileSlots_insert own) (FileSlots_remove own) ops s0 = Some s
    \<and> for_file own s file = Some xs \<and> distinct (map fst xs)
    \<and> set xs = {(i, v). foldl (\<lambda>m op. map_op_sem op m) Map.empty ops i = Some v \<and> own v = slot file}"
proof -
  note new = try_new_file_slots_inv [OF assms(1)]
  have "file_members own s (unat (slot file)) = for_file own s file" for s
    by (simp add: file_members_def for_file_def FileId_new_def)
  then show ?thesis
    using file_slots.members_after_run [OF new(1) [of own], where ops = ops and w = "unat (slot file)"] new(2-4) assms(2, 3)
    by (simp add: word_less_nat_alt word_unat_eq_iff)
qed

theorem file_membership_exact_witness:
  "\<exists>s xs. run_owned_ops (FileSlots_insert frame_file_slot) (FileSlots_remove frame_file_slot)
        [Insert 2 (FrameFileSlot 1), Insert 0 (FrameFileSlot 1), Insert 3 (FrameFileSlot 0), Remove 2]
        \<lparr>fl_slots = replicate 4 FileSlot_vacant, fl_heads = replicate 2 0\<rparr> = Some s
    \<and> for_file frame_file_slot s (FileId_new 9 1 5) = Some xs \<and> distinct (map fst xs)
    \<and> set xs = {(i, v). foldl (\<lambda>m op. map_op_sem op m) Map.empty
        [Insert 2 (FrameFileSlot 1), Insert 0 (FrameFileSlot 1), Insert 3 (FrameFileSlot 0), Remove 2] i = Some v
        \<and> frame_file_slot v = 1}"
  using file_membership_exact [of 4 2 "\<lparr>fl_slots = replicate 4 FileSlot_vacant, fl_heads = replicate 2 0\<rparr>"
      frame_file_slot "[Insert 2 (FrameFileSlot 1), Insert 0 (FrameFileSlot 1), Insert 3 (FrameFileSlot 0), Remove 2]"
      "FileId_new 9 1 5"]
  by (simp add: FileSlots_try_new_def FileId_new_def del: run_owned_ops.simps map_op_sem.simps foldl_Cons)

end
