(* ===== verification/Frames.thy ===== *)
theory Frames
  imports Table
begin

text \<open>
  The frame arena (\<open>pool/frames.rs\<close>): the packed residency word of each frame
  (two state bits, sixty-two generation bits), the write token, the residency
  cycle, the exact page identity, and the stack of free frames.  Frame bytes are
  represented by the offsets of their regions in the arena.
\<close>

section \<open>The residency word\<close>

definition FRAME_STATE_BITS :: nat where "FRAME_STATE_BITS = 2"
definition FRAME_STATE_MASK :: u64 where "FRAME_STATE_MASK = 3"
definition FRAME_GENERATION_MAX :: u64 where "FRAME_GENERATION_MAX = drop_bit FRAME_STATE_BITS (- 1)"
definition SECTOR_BYTES :: u32 where "SECTOR_BYTES = 4096"
definition HUGEPAGE_BYTES :: nat where "HUGEPAGE_BYTES = 2 * 1024 * 1024"

datatype FrameState = Free | InFlight | Resident | Evicting

fun FrameState_legal :: "FrameState \<Rightarrow> FrameState \<Rightarrow> bool" where
  "FrameState_legal Free InFlight = True"
| "FrameState_legal InFlight Resident = True"
| "FrameState_legal InFlight Free = True"
| "FrameState_legal Resident Evicting = True"
| "FrameState_legal Evicting Free = True"
| "FrameState_legal _ _ = False"

definition FrameState_advance :: "FrameState \<Rightarrow> FrameState \<Rightarrow> FrameState option" where
  "FrameState_advance self to = do { assert (FrameState_legal self to); Some to }"

primrec to_tag :: "FrameState \<Rightarrow> u8" where
  "to_tag Free = 0"
| "to_tag InFlight = 1"
| "to_tag Resident = 2"
| "to_tag Evicting = 3"

definition from_tag :: "u8 \<Rightarrow> FrameState option" where
  "from_tag tag =
     (if tag = 0 then Some Free else if tag = 1 then Some InFlight
      else if tag = 2 then Some Resident else if tag = 3 then Some Evicting else None)"

definition from_word :: "u64 \<Rightarrow> FrameState option" where
  "from_word w = from_tag (ucast (w AND FRAME_STATE_MASK))"

definition pack_word :: "u64 \<Rightarrow> FrameState \<Rightarrow> u64" where
  "pack_word gen st = push_bit FRAME_STATE_BITS gen OR ucast (to_tag st)"

definition advance_generation :: "u64 \<Rightarrow> FrameState \<Rightarrow> u64 option" where
  "advance_generation current_word to = (
     let gen = drop_bit FRAME_STATE_BITS current_word in
     if to = Resident
     then do {
       g \<leftarrow> checked_add gen 1;
       assert (g \<le> FRAME_GENERATION_MAX);
       Some g
     }
     else Some gen)"

section \<open>The arena\<close>

record Frames =
  f_states :: "u64 list"
  f_pages :: "PageId option list"
  f_count :: u32
  f_granule :: u32
  f_id :: u32

record InFlightFrame =
  token_arena :: u32
  token_frame :: u32

definition InFlightFrame_new :: "u32 \<Rightarrow> ReadFrameIdx \<Rightarrow> InFlightFrame option" where
  "InFlightFrame_new a f = do {
     n \<leftarrow> checked_add f 1;
     assert (n \<noteq> 0);
     Some \<lparr>token_arena = a, token_frame = n\<rparr>
   }"

definition InFlightFrame_frame :: "InFlightFrame \<Rightarrow> ReadFrameIdx" where
  "InFlightFrame_frame token = token_frame token - 1"

definition arena_alignment :: "bool \<Rightarrow> nat \<Rightarrow> u32 \<Rightarrow> nat" where
  "arena_alignment linux span granule =
     (if linux \<and> span \<ge> HUGEPAGE_BYTES then max HUGEPAGE_BYTES (unat granule) else unat granule)"

text \<open>\<open>allocated\<close>: whether the mappings succeed; \<open>fresh\<close>: the arena id handed out.\<close>

definition Frames_try_preallocated :: "bool \<Rightarrow> u32 \<Rightarrow> u32 \<Rightarrow> u32 \<Rightarrow> Frames option option" where
  "Frames_try_preallocated allocated fresh count granule = do {
     assert (count > 0);
     assert (is_power_of_two granule);
     assert (granule \<ge> SECTOR_BYTES);
     Some (if unat count * unat granule < 2 ^ 64 \<and> allocated
           then Some \<lparr>f_states = replicate (unat count) 0, f_pages = replicate (unat count) None,
                      f_count = count, f_granule = granule, f_id = fresh\<rparr>
           else None)
   }"

definition checked_index :: "Frames \<Rightarrow> ReadFrameIdx \<Rightarrow> nat option" where
  "checked_index F frame = do { assert (unat frame < length (f_states F)); Some (unat frame) }"

definition owned_index :: "Frames \<Rightarrow> InFlightFrame \<Rightarrow> nat option" where
  "owned_index F token = do {
     assert (token_arena token = f_id F);
     let i = unat (token_frame token - 1);
     assert (i < unat (f_count F));
     Some i
   }"

definition state_word :: "Frames \<Rightarrow> ReadFrameIdx \<Rightarrow> u64 option" where
  "state_word F frame = do { i \<leftarrow> checked_index F frame; nth_opt (f_states F) i }"

definition frame_state :: "Frames \<Rightarrow> ReadFrameIdx \<Rightarrow> FrameState option" where
  "frame_state F frame = do { w \<leftarrow> state_word F frame; from_word w }"

definition word_is_resident :: "u64 \<Rightarrow> bool option" where
  "word_is_resident w = map_option (\<lambda>st. st = Resident) (from_word w)"

definition claim_unidentified :: "Frames \<Rightarrow> ReadFrameIdx \<Rightarrow> (InFlightFrame option \<times> Frames) option" where
  "claim_unidentified F frame = do {
     i \<leftarrow> checked_index F frame;
     current_word \<leftarrow> nth_opt (f_states F) i;
     current \<leftarrow> from_word current_word;
     if current \<noteq> Free then Some (None, F)
     else do {
       next_state \<leftarrow> FrameState_advance current InFlight;
       let next_word = (current_word AND NOT FRAME_STATE_MASK) OR ucast (to_tag next_state);
       states \<leftarrow> upd_opt (f_states F) i next_word;
       token \<leftarrow> InFlightFrame_new (f_id F) frame;
       Some (Some token, F\<lparr>f_states := states\<rparr>)
     }
   }"

definition Frames_claim :: "Frames \<Rightarrow> ReadFrameIdx \<Rightarrow> PageId \<Rightarrow> (InFlightFrame option \<times> Frames) option" where
  "Frames_claim F frame page = do {
     (claimed, F) \<leftarrow> claim_unidentified F frame;
     (case claimed of
        None \<Rightarrow> Some (None, F)
      | Some token \<Rightarrow> do {
          pages \<leftarrow> upd_opt (f_pages F) (unat (token_frame token - 1)) (Some page);
          Some (Some token, F\<lparr>f_pages := pages\<rparr>)
        })
   }"

definition transfer_ptr :: "Frames \<Rightarrow> InFlightFrame \<Rightarrow> u32 \<Rightarrow> u32 \<Rightarrow> nat option" where
  "transfer_ptr F token destination_offset requested_len = do {
     i \<leftarrow> owned_index F token;
     w \<leftarrow> nth_opt (f_states F) i;
     assert (from_word w = Some InFlight);
     assert (destination_offset \<le> f_granule F);
     assert (requested_len \<le> f_granule F - destination_offset);
     Some (i * unat (f_granule F) + unat destination_offset)
   }"

definition Frames_consume :: "Frames \<Rightarrow> InFlightFrame \<Rightarrow> FrameState \<Rightarrow> (ReadFrameIdx \<times> Frames) option" where
  "Frames_consume F token to = do {
     i \<leftarrow> owned_index F token;
     current_word \<leftarrow> nth_opt (f_states F) i;
     current \<leftarrow> from_word current_word;
     assert (current = InFlight);
     next_state \<leftarrow> FrameState_advance current to;
     gen \<leftarrow> advance_generation current_word next_state;
     states \<leftarrow> upd_opt (f_states F) i (pack_word gen next_state);
     Some (InFlightFrame_frame token, F\<lparr>f_states := states\<rparr>)
   }"

definition Frames_publish :: "Frames \<Rightarrow> InFlightFrame \<Rightarrow> (ReadFrameIdx \<times> Frames) option" where
  "Frames_publish F token = Frames_consume F token Resident"

definition Frames_abort :: "Frames \<Rightarrow> InFlightFrame \<Rightarrow> (ReadFrameIdx \<times> Frames) option" where
  "Frames_abort F token = Frames_consume F token Free"

definition Frames_advance :: "Frames \<Rightarrow> ReadFrameIdx \<Rightarrow> FrameState \<Rightarrow> Frames option" where
  "Frames_advance F frame to = do {
     i \<leftarrow> checked_index F frame;
     current_word \<leftarrow> nth_opt (f_states F) i;
     current \<leftarrow> from_word current_word;
     assert ((current = Resident \<and> to = Evicting) \<or> (current = Evicting \<and> to = Free));
     next_state \<leftarrow> FrameState_advance current to;
     gen \<leftarrow> advance_generation current_word next_state;
     states \<leftarrow> upd_opt (f_states F) i (pack_word gen next_state);
     Some (F\<lparr>f_states := states\<rparr>)
   }"

text \<open>An identity read of a cell that was never written is undefined behaviour: \<open>None\<close>.\<close>

definition page_read :: "Frames \<Rightarrow> nat \<Rightarrow> PageId option" where
  "page_read F i = Option.bind (nth_opt (f_pages F) i) id"

definition validate_resident :: "Frames \<Rightarrow> ReadFrameIdx \<Rightarrow> u64 \<Rightarrow> PageId option option" where
  "validate_resident F frame stamp = do {
     i \<leftarrow> checked_index F frame;
     w \<leftarrow> nth_opt (f_states F) i;
     if w \<noteq> stamp then Some None
     else do {
       resident \<leftarrow> word_is_resident w;
       if \<not> resident then Some None
       else do { page \<leftarrow> page_read F i; Some (Some page) }
     }
   }"

text \<open>\<open>exact_page_guarded\<close> and \<open>exact_page_locked\<close> differ only in the witness they take.\<close>

definition exact_page :: "Frames \<Rightarrow> ReadFrameIdx \<Rightarrow> PageId option" where
  "exact_page F frame = do {
     i \<leftarrow> checked_index F frame;
     w \<leftarrow> nth_opt (f_states F) i;
     st \<leftarrow> from_word w;
     assert (st = Resident \<or> st = Evicting);
     page_read F i
   }"

definition frame_bytes :: "Frames \<Rightarrow> ReadFrameIdx \<Rightarrow> (nat \<times> nat) option" where
  "frame_bytes F frame = do {
     i \<leftarrow> checked_index F frame;
     w \<leftarrow> nth_opt (f_states F) i;
     st \<leftarrow> from_word w;
     assert (st = Resident \<or> st = Evicting);
     Some (i * unat (f_granule F), unat (f_granule F))
   }"

section \<open>The stack of free frames\<close>

record FreeFrames =
  ff_frames :: "ReadFrameIdx list"
  ff_len :: u32

definition FreeFrames_try_empty :: "u32 \<Rightarrow> FreeFrames" where
  "FreeFrames_try_empty capacity = \<lparr>ff_frames = replicate (unat capacity) 0, ff_len = 0\<rparr>"

definition FreeFrames_try_with_all :: "u32 \<Rightarrow> FreeFrames" where
  "FreeFrames_try_with_all frame_count =
     \<lparr>ff_frames = map (\<lambda>i. frame_count - of_nat (Suc i)) [0..<unat frame_count], ff_len = frame_count\<rparr>"

definition FreeFrames_push :: "FreeFrames \<Rightarrow> ReadFrameIdx \<Rightarrow> FreeFrames option" where
  "FreeFrames_push ff frame = do {
     let i = unat (ff_len ff);
     assert (i < length (ff_frames ff));
     frames \<leftarrow> upd_opt (ff_frames ff) i frame;
     Some (ff\<lparr>ff_frames := frames, ff_len := ff_len ff + 1\<rparr>)
   }"

definition FreeFrames_pop :: "FreeFrames \<Rightarrow> (ReadFrameIdx option \<times> FreeFrames) option" where
  "FreeFrames_pop ff = (case checked_sub (ff_len ff) 1 of
      None \<Rightarrow> Some (None, ff)
    | Some i \<Rightarrow> do {
        frame \<leftarrow> nth_opt (ff_frames ff) (unat i);
        Some (Some frame, ff\<lparr>ff_len := i\<rparr>)
      })"


section \<open>Words\<close>

definition word_gen :: "u64 \<Rightarrow> u64" where
  "word_gen w = drop_bit FRAME_STATE_BITS w"

lemmas word_defs = FRAME_STATE_BITS_def FRAME_STATE_MASK_def FRAME_GENERATION_MAX_def
  from_word_def pack_word_def word_gen_def

lemma mask_3: "(3 :: u64) = mask 2"
  by (simp add: mask_eq_exp_minus_1)

lemma low_bits_or: "(push_bit 2 g OR t) AND 3 = t AND 3" for g t :: u64
  unfolding mask_3 by (simp add: take_bit_push_bit flip: take_bit_eq_mask)

lemma low_bits_push [simp]: "push_bit 2 g AND 3 = 0" for g :: u64
  using low_bits_or [of g 0] by simp

lemma from_word_pack [simp]: "from_word (pack_word g st) = Some st"
  by (cases st) (simp_all add: word_defs low_bits_or from_tag_def)

lemma gen_pack: "g \<le> FRAME_GENERATION_MAX \<Longrightarrow> word_gen (pack_word g st) = g"
proof -
  assume g: "g \<le> FRAME_GENERATION_MAX"
  have "unat FRAME_GENERATION_MAX = 2 ^ 62 - 1"
    by (simp add: FRAME_GENERATION_MAX_def FRAME_STATE_BITS_def unat_drop_bit_eq
        unsigned_minus_1_eq_mask mask_eq_exp_minus_1 drop_bit_eq_div)
  then have "unat g < 2 ^ 62"
    using g by (simp add: word_le_nat_alt)
  then have "take_bit 62 g = g"
    by (simp add: word_unat_eq_iff unsigned_take_bit_eq take_bit_nat_eq_self_iff)
  then have "drop_bit 2 (push_bit 2 g) = g"
    by (auto intro!: bit_word_eqI simp: bit_simps dest: bit_imp_le_length) (metis bit_take_bit_iff)
  moreover have "drop_bit 2 (ucast (to_tag st) :: u64) = 0"
    by (cases st) (simp_all add: drop_bit_eq_div)
  ultimately show ?thesis
    by (simp add: word_defs drop_bit_or)
qed

lemma gen_le_max: "word_gen w \<le> FRAME_GENERATION_MAX"
proof -
  have "unat w \<le> unat (- 1 :: u64)"
    by (simp flip: word_le_nat_alt)
  then have "unat w div 4 \<le> unat (- 1 :: u64) div 4"
    by (rule div_le_mono)
  then show ?thesis
    by (simp add: word_defs word_le_nat_alt drop_bit_eq_div unat_div unsigned_minus_1_eq_mask
        mask_eq_exp_minus_1)
qed

lemma gen_bound: "unat (word_gen w) < 2 ^ 62"
  using gen_le_max [of w]
  by (simp add: FRAME_GENERATION_MAX_def FRAME_STATE_BITS_def word_le_nat_alt unat_drop_bit_eq
      unsigned_minus_1_eq_mask mask_eq_exp_minus_1 drop_bit_eq_div unat_div)

lemma unat_gen_Suc: "unat (word_gen w + 1) = Suc (unat (word_gen w))"
  using gen_bound [of w] unat_add_small [of "word_gen w" 1] by simp

lemma from_word_total: "\<exists>st. from_word w = Some st"
proof -
  have "unat (w AND 3) < 4"
    unfolding mask_3 by (simp add: unsigned_take_bit_eq take_bit_nat_less_exp
        [where n = 2, simplified] flip: take_bit_eq_mask)
  then have "unat (w AND 3) \<in> {0, 1, 2, 3}"
    by auto
  then have "w AND 3 \<in> {0, 1, 2, 3}"
    by (auto simp: word_unat_eq_iff)
  then show ?thesis
    by (auto simp: word_defs from_tag_def)
qed

text \<open>Claiming keeps the generation and only rewrites the state bits.\<close>

lemma retag_word: "(w AND NOT FRAME_STATE_MASK) OR ucast (to_tag st) = pack_word (word_gen w) st"
proof -
  have "Suc (Suc (n - 2)) = n" if "2 \<le> n" for n
    using that by simp
  then have "w AND NOT 3 = push_bit 2 (drop_bit 2 w)"
    unfolding mask_3 by (auto intro!: bit_word_eqI simp: bit_simps not_less)
  then show ?thesis
    by (simp add: word_defs)
qed

section \<open>Effects of the operations\<close>

definition frames_wf :: "Frames \<Rightarrow> bool" where
  "frames_wf F \<longleftrightarrow> length (f_states F) = unat (f_count F) \<and> length (f_pages F) = unat (f_count F)"

definition st_of :: "Frames \<Rightarrow> nat \<Rightarrow> FrameState" where
  "st_of F i = the (from_word (f_states F ! i))"

lemma from_word_st_of: "from_word (f_states F ! i) = Some (st_of F i)"
  using from_word_total [of "f_states F ! i"] by (auto simp: st_of_def)

lemma unat_frame_token:
  "unat f < unat n \<Longrightarrow> InFlightFrame_new a f = Some \<lparr>token_arena = a, token_frame = f + 1\<rparr>"
  "f + 1 - 1 = f" for f n :: u32
proof -
  assume "unat f < unat n"
  then have "Suc (unat f) < 2 ^ 32"
    using unsigned_less [where 'a = nat, of n] by simp
  then have "unat f + unat (1 :: u32) < 2 ^ LENGTH(32)" "f + 1 \<noteq> 0"
    using unat_add_small [of f 1] by (auto simp: word_unat_eq_iff)
  then show "InFlightFrame_new a f = Some \<lparr>token_arena = a, token_frame = f + 1\<rparr>"
    by (simp add: InFlightFrame_new_def checked_add_def)
qed simp

lemma Frames_claim_free:
  assumes "frames_wf F" "unat f < unat (f_count F)" "st_of F (unat f) = Free"
  shows "Frames_claim F f page = Some (Some \<lparr>token_arena = f_id F, token_frame = f + 1\<rparr>,
    F\<lparr>f_states := (f_states F)[unat f := pack_word (word_gen (f_states F ! unat f)) InFlight],
      f_pages := (f_pages F)[unat f := Some page]\<rparr>)"
  using assms from_word_st_of [of F "unat f"]
  by (simp add: Frames_claim_def claim_unidentified_def checked_index_def frames_wf_def
      FrameState_advance_def unat_frame_token(1) retag_word flip: to_tag.simps(2))


lemma Frames_claim_Some:
  assumes "frames_wf F" "Frames_claim F f page = Some (Some token, F')"
  shows "unat f < unat (f_count F)" "st_of F (unat f) = Free"
    "token = \<lparr>token_arena = f_id F, token_frame = f + 1\<rparr>"
    "F' = F\<lparr>f_states := (f_states F)[unat f := pack_word (word_gen (f_states F ! unat f)) InFlight],
      f_pages := (f_pages F)[unat f := Some page]\<rparr>"
proof -
  show f: "unat f < unat (f_count F)"
    using assms by (auto simp: Frames_claim_def claim_unidentified_def checked_index_def frames_wf_def
        bind_Some_iff)
  show free: "st_of F (unat f) = Free"
    using assms f from_word_st_of [of F "unat f"]
    by (auto simp: Frames_claim_def claim_unidentified_def checked_index_def frames_wf_def
        bind_Some_iff split: if_splits)
  show "token = \<lparr>token_arena = f_id F, token_frame = f + 1\<rparr>"
    "F' = F\<lparr>f_states := (f_states F)[unat f := pack_word (word_gen (f_states F ! unat f)) InFlight],
      f_pages := (f_pages F)[unat f := Some page]\<rparr>"
    using Frames_claim_free [OF assms(1) f free] assms(2) by simp_all
qed

definition new_gen :: "u64 \<Rightarrow> FrameState \<Rightarrow> u64" where
  "new_gen w to = (if to = Resident then word_gen w + 1 else word_gen w)"

lemma advance_generation_Some:
  "advance_generation w to = Some g \<longleftrightarrow> g = new_gen w to \<and> new_gen w to \<le> FRAME_GENERATION_MAX"
proof -
  have "checked_add (word_gen w) 1 = Some (word_gen w + 1)"
    using gen_bound [of w] by (simp add: checked_add_def)
  then show ?thesis
    using gen_le_max [of w] by (auto simp: advance_generation_def new_gen_def Let_def simp flip: word_gen_def)
qed

lemma Frames_consume_Some:
  assumes "frames_wf F"
  shows "Frames_consume F token to = Some (f, F') \<longleftrightarrow>
    token_arena token = f_id F \<and> f = token_frame token - 1 \<and> unat f < unat (f_count F)
    \<and> st_of F (unat f) = InFlight \<and> (to = Resident \<or> to = Free)
    \<and> new_gen (f_states F ! unat f) to \<le> FRAME_GENERATION_MAX
    \<and> F' = F\<lparr>f_states := (f_states F)[unat f := pack_word (new_gen (f_states F ! unat f) to) to]\<rparr>"
proof -
  have "FrameState_legal InFlight to \<longleftrightarrow> to = Resident \<or> to = Free"
    by (cases to) simp_all
  then show ?thesis
    using assms from_word_st_of [of F "unat (token_frame token - 1)"]
    by (auto simp: Frames_consume_def owned_index_def Let_def frames_wf_def bind_Some_iff InFlightFrame_frame_def
        FrameState_advance_def advance_generation_Some)
qed

lemma Frames_advance_Some:
  assumes "frames_wf F"
  shows "Frames_advance F f to = Some F' \<longleftrightarrow>
    unat f < unat (f_count F)
    \<and> ((st_of F (unat f) = Resident \<and> to = Evicting) \<or> (st_of F (unat f) = Evicting \<and> to = Free))
    \<and> F' = F\<lparr>f_states := (f_states F)[unat f := pack_word (word_gen (f_states F ! unat f)) to]\<rparr>"
  using assms from_word_st_of [of F "unat f"] gen_le_max [of "f_states F ! unat f"]
  by (auto simp: Frames_advance_def checked_index_def frames_wf_def bind_Some_iff
      FrameState_advance_def advance_generation_Some new_gen_def)

lemma frame_state_eq: "frames_wf F \<Longrightarrow> unat f < unat (f_count F) \<Longrightarrow> frame_state F f = Some (st_of F (unat f))"
  by (simp add: frame_state_def state_word_def checked_index_def frames_wf_def from_word_st_of)

lemma exact_page_Some:
  assumes "frames_wf F"
  shows "exact_page F f = Some p \<longleftrightarrow> unat f < unat (f_count F)
    \<and> (st_of F (unat f) = Resident \<or> st_of F (unat f) = Evicting) \<and> f_pages F ! unat f = Some p"
  using assms from_word_st_of [of F "unat f"]
  by (auto simp: exact_page_def checked_index_def frames_wf_def bind_Some_iff page_read_def)

lemma validate_resident_Some:
  assumes "frames_wf F"
  shows "validate_resident F f stamp = Some (Some p) \<longleftrightarrow> unat f < unat (f_count F)
    \<and> f_states F ! unat f = stamp \<and> st_of F (unat f) = Resident \<and> f_pages F ! unat f = Some p"
proof (cases "unat f < unat (f_count F)")
  case True
  then have "validate_resident F f stamp =
    (if f_states F ! unat f \<noteq> stamp \<or> st_of F (unat f) \<noteq> Resident then Some None
     else map_option Some (f_pages F ! unat f))"
    using assms from_word_st_of [of F "unat f"]
    by (cases "f_states F ! unat f = stamp"; cases "f_pages F ! unat f")
      (auto simp: validate_resident_def checked_index_def frames_wf_def page_read_def word_is_resident_def)
  then show ?thesis
    using True by auto
qed (use assms in \<open>simp add: validate_resident_def checked_index_def frames_wf_def\<close>)

lemma st_of_update [simp]:
  "i < length (f_states F) \<Longrightarrow>
    st_of (F\<lparr>f_states := (f_states F)[i := pack_word g st]\<rparr>) j = (if j = i then st else st_of F j)"
  by (auto simp: st_of_def nth_list_update)

lemma st_of_update_pages [simp]: "st_of (F\<lparr>f_pages := ps\<rparr>) i = st_of F i"
  by (simp add: st_of_def)


section \<open>Histories of one arena\<close>

text \<open>The operations that change residency words, as the pool issues them.\<close>

datatype frame_op =
    Claim ReadFrameIdx PageId | Publish InFlightFrame | Abort InFlightFrame | Reclaim ReadFrameIdx FrameState

primrec apply_frame_op :: "frame_op \<Rightarrow> Frames \<Rightarrow> Frames option" where
  "apply_frame_op (Claim f page) F = map_option snd (Frames_claim F f page)"
| "apply_frame_op (Publish token) F = map_option snd (Frames_publish F token)"
| "apply_frame_op (Abort token) F = map_option snd (Frames_abort F token)"
| "apply_frame_op (Reclaim f to) F = Frames_advance F f to"

fun run_frame_ops :: "frame_op list \<Rightarrow> Frames \<Rightarrow> Frames option" where
  "run_frame_ops [] F = Some F"
| "run_frame_ops (op # ops) F = Option.bind (apply_frame_op op F) (run_frame_ops ops)"

text \<open>Twice the generation, plus one once the frame has left \<open>Resident\<close>.\<close>

definition age :: "Frames \<Rightarrow> nat \<Rightarrow> nat" where
  "age F i = 2 * unat (word_gen (f_states F ! i)) + (if st_of F i = Resident then 0 else 1)"

definition frame_kept :: "nat \<Rightarrow> Frames \<Rightarrow> Frames \<Rightarrow> bool" where
  "frame_kept i F F' \<longleftrightarrow> f_states F' ! i = f_states F ! i \<and> f_pages F' ! i = f_pages F ! i"

lemma claim_None_keeps: "Frames_claim F f page = Some (None, F') \<Longrightarrow> F' = F"
  by (auto simp: Frames_claim_def claim_unidentified_def bind_Some_iff split: if_splits option.splits)

text \<open>An operation keeps the arena's shape, moves one frame along the residency cycle, and
  leaves every other frame alone.\<close>

definition residency_edge :: "Frames \<Rightarrow> Frames \<Rightarrow> nat \<Rightarrow> bool" where
  "residency_edge F F' i \<longleftrightarrow>
     FrameState_legal (st_of F i) (st_of F' i)
     \<and> word_gen (f_states F' ! i) = new_gen (f_states F ! i) (st_of F' i)
     \<and> new_gen (f_states F ! i) (st_of F' i) \<le> FRAME_GENERATION_MAX"

lemma apply_frame_op_edge:
  assumes "frames_wf F" "apply_frame_op op F = Some F'"
  shows "frames_wf F' \<and> f_count F' = f_count F \<and>
    (F' = F \<or> (\<exists>i < unat (f_count F). residency_edge F F' i \<and> (\<forall>j. j \<noteq> i \<longrightarrow> frame_kept j F F')))"
proof (cases op)
  case (Claim f page)
  then obtain tok where tok: "Frames_claim F f page = Some (tok, F')"
    using assms(2) by auto
  show ?thesis
  proof (cases tok)
    case None
    then show ?thesis using claim_None_keeps tok assms(1) by blast
  next
    case (Some token)
    note eff = Frames_claim_Some [OF assms(1) tok [unfolded Some]]
    show ?thesis
      using eff assms(1) gen_le_max [of "f_states F ! unat f"]
      by (intro conjI disjI2 exI [of _ "unat f"])
        (auto simp: frames_wf_def residency_edge_def frame_kept_def st_of_def gen_pack new_gen_def)
  qed
next
  case (Publish token)
  then obtain f where "Frames_consume F token Resident = Some (f, F')"
    using assms(2) by (auto simp: Frames_publish_def)
  then show ?thesis
    using assms(1) unfolding Frames_consume_Some [OF assms(1)]
    by (intro conjI disjI2 exI [of _ "unat f"])
      (auto simp: frames_wf_def residency_edge_def frame_kept_def st_of_def gen_pack)
next
  case (Abort token)
  then obtain f where "Frames_consume F token Free = Some (f, F')"
    using assms(2) by (auto simp: Frames_abort_def)
  then show ?thesis
    using assms(1) unfolding Frames_consume_Some [OF assms(1)]
    by (intro conjI disjI2 exI [of _ "unat f"])
      (auto simp: frames_wf_def residency_edge_def frame_kept_def st_of_def gen_pack)
next
  case (Reclaim f to)
  then have "Frames_advance F f to = Some F'"
    using assms(2) by simp
  then show ?thesis
    using assms(1) gen_le_max [of "f_states F ! unat f"] unfolding Frames_advance_Some [OF assms(1)]
    by (intro conjI disjI2 exI [of _ "unat f"])
      (auto simp: frames_wf_def residency_edge_def frame_kept_def st_of_def gen_pack new_gen_def)
qed


lemma residency_edge_age:
  assumes "residency_edge F F' i"
  shows "age F i \<le> age F' i" "st_of F i = Resident \<Longrightarrow> age F i < age F' i"
proof -
  have gen: "unat (word_gen (f_states F' ! i)) =
      (if st_of F' i = Resident then Suc (unat (word_gen (f_states F ! i))) else unat (word_gen (f_states F ! i)))"
    using assms by (simp add: residency_edge_def new_gen_def unat_gen_Suc)
  show "age F i \<le> age F' i" "st_of F i = Resident \<Longrightarrow> age F i < age F' i"
    using assms gen by (cases "st_of F i"; cases "st_of F' i"; simp add: residency_edge_def age_def)+
qed

lemma apply_frame_op_age:
  assumes "frames_wf F" "apply_frame_op op F = Some F'"
  shows "age F i \<le> age F' i" "st_of F i = Resident \<Longrightarrow> age F' i = age F i \<Longrightarrow> frame_kept i F F'"
proof -
  consider "F' = F" | k where "residency_edge F F' k" "\<forall>j. j \<noteq> k \<longrightarrow> frame_kept j F F'"
    using apply_frame_op_edge [OF assms] by blast
  then have "age F i \<le> age F' i \<and> (st_of F i = Resident \<longrightarrow> age F' i = age F i \<longrightarrow> frame_kept i F F')"
  proof cases
    case (2 k)
    then show ?thesis
      using residency_edge_age [of F F' k]
      by (cases "i = k") (auto simp: age_def frame_kept_def st_of_def)
  qed (simp add: frame_kept_def)
  then show "age F i \<le> age F' i" "st_of F i = Resident \<Longrightarrow> age F' i = age F i \<Longrightarrow> frame_kept i F F'"
    by simp_all
qed

lemma run_frame_ops_age:
  assumes "frames_wf F" "run_frame_ops ops F = Some F'"
  shows "frames_wf F' \<and> age F i \<le> age F' i
    \<and> (st_of F i = Resident \<longrightarrow> age F' i = age F i \<longrightarrow> frame_kept i F F')"
  using assms
proof (induction ops arbitrary: F)
  case (Cons op ops)
  then obtain F1 where F1: "apply_frame_op op F = Some F1" "run_frame_ops ops F1 = Some F'"
    by (auto simp: bind_Some_iff)
  note step = apply_frame_op_edge [OF Cons.prems(1) F1(1)] apply_frame_op_age [OF Cons.prems(1) F1(1), of i]
  note rest = Cons.IH [OF _ F1(2)]
  show ?case
    using step rest by (auto simp: frame_kept_def st_of_def)
qed (simp add: frame_kept_def)

section \<open>The free stack is a slot pool\<close>

definition free_inv :: "FreeFrames \<Rightarrow> bool" where
  "free_inv ff \<longleftrightarrow> unat (ff_len ff) \<le> length (ff_frames ff) \<and> length (ff_frames ff) < 2 ^ 32
     \<and> distinct (take (unat (ff_len ff)) (ff_frames ff))
     \<and> (\<forall>f \<in> set (take (unat (ff_len ff)) (ff_frames ff)). unat f < length (ff_frames ff))"

definition free_set :: "FreeFrames \<Rightarrow> ReadFrameIdx set" where
  "free_set ff = set (take (unat (ff_len ff)) (ff_frames ff))"

definition free_universe :: "FreeFrames \<Rightarrow> ReadFrameIdx set" where
  "free_universe ff = {f. unat f < length (ff_frames ff)}"

lemma card_frames_below: "card {f :: u32. unat f < n} \<le> n"
proof -
  have "card {f :: u32. unat f < n} \<le> card {..<n}"
    by (rule card_inj_on_le [of unat]) (auto simp: inj_on_def word_unat_eq_iff)
  then show ?thesis by simp
qed

lemma distinct_frames_length:
  assumes "distinct (f # fs)" "\<forall>g \<in> set (f # fs). unat (g :: u32) < n"
  shows "length fs < n"
proof -
  have "length (f # fs) = card (set (f # fs))"
    using assms(1) by (metis distinct_card)
  also have "\<dots> \<le> card {g :: u32. unat g < n}"
    using assms(2) by (intro card_mono) auto
  finally show ?thesis
    using card_frames_below [of n] by simp
qed

lemma FreeFrames_pop_effect:
  assumes "free_inv ff"
  shows "free_set ff = {} \<Longrightarrow> FreeFrames_pop ff = Some (None, ff)"
    and "free_set ff \<noteq> {} \<Longrightarrow> \<exists>f ff'. FreeFrames_pop ff = Some (Some f, ff') \<and> f \<in> free_set ff
      \<and> free_set ff' = free_set ff - {f} \<and> free_inv ff' \<and> ff_frames ff' = ff_frames ff"
proof -
  have len: "unat (ff_len ff) \<le> length (ff_frames ff)"
    using assms by (simp add: free_inv_def)
  show "FreeFrames_pop ff = Some (None, ff)" if "free_set ff = {}"
  proof -
    have "unat (ff_len ff) = 0"
      using that len by (auto simp: free_set_def)
    then have "ff_len ff = 0" by (simp add: unat_eq_zero)
    then show ?thesis by (simp add: FreeFrames_pop_def checked_sub_def)
  qed
  show "\<exists>f ff'. FreeFrames_pop ff = Some (Some f, ff') \<and> f \<in> free_set ff
      \<and> free_set ff' = free_set ff - {f} \<and> free_inv ff' \<and> ff_frames ff' = ff_frames ff"
    if "free_set ff \<noteq> {}"
  proof -
    have "unat (ff_len ff) \<noteq> 0"
      using that by (auto simp: free_set_def)
    then obtain n where n: "unat (ff_len ff) = Suc n"
      by (cases "unat (ff_len ff)") auto
    then have ne: "ff_len ff \<noteq> 0" by auto
    then have pred: "unat (ff_len ff - 1) = n"
      using unat_minus_one [OF ne] n by simp
    have "1 \<le> ff_len ff"
      using n by (simp add: word_le_nat_alt)
    moreover have split: "take (Suc n) (ff_frames ff) = take n (ff_frames ff) @ [ff_frames ff ! n]"
      using len n by (simp add: take_Suc_conv_app_nth)
    ultimately show ?thesis
      using assms n pred len
      by (auto simp: FreeFrames_pop_def checked_sub_def free_set_def free_inv_def)
  qed
qed

lemma FreeFrames_push_effect:
  assumes "free_inv ff" "f \<in> free_universe ff" "f \<notin> free_set ff"
  shows "\<exists>ff'. FreeFrames_push ff f = Some ff' \<and> free_set ff' = insert f (free_set ff)
    \<and> free_inv ff' \<and> length (ff_frames ff') = length (ff_frames ff)"
proof -
  let ?n = "unat (ff_len ff)" and ?fs = "ff_frames ff"
  have "length (take ?n ?fs) < length ?fs"
    using assms by (intro distinct_frames_length [of f])
      (auto simp: free_inv_def free_set_def free_universe_def)
  then have n: "?n < length ?fs"
    by simp
  then have suc: "unat (ff_len ff + 1) = Suc ?n"
    using assms(1) unat_add_small [of "ff_len ff" 1] by (simp add: free_inv_def)
  have "take (Suc ?n) (?fs[?n := f]) = take ?n ?fs @ [f]"
    using n by (simp add: take_Suc_conv_app_nth)
  then show ?thesis
    using assms n suc
    by (auto simp: FreeFrames_push_def Let_def free_set_def free_inv_def free_universe_def)
qed

interpretation free_frames: slot_pool FreeFrames_pop FreeFrames_push free_inv free_set free_universe
proof unfold_locales
  fix s assume inv: "free_inv s"
  show "free_set s \<subseteq> free_universe s"
    using inv by (auto simp: free_inv_def free_set_def free_universe_def)
  show "free_set s = {} \<Longrightarrow> FreeFrames_pop s = Some (None, s)"
    using FreeFrames_pop_effect(1) [OF inv] .
  show "free_set s \<noteq> {} \<Longrightarrow> \<exists>i s'. FreeFrames_pop s = Some (Some i, s') \<and> i \<in> free_set s
      \<and> free_set s' = free_set s - {i} \<and> free_inv s' \<and> free_universe s' = free_universe s"
    using FreeFrames_pop_effect(2) [OF inv] by (fastforce simp: free_universe_def)
  fix i
  show "i \<in> free_universe s \<Longrightarrow> i \<notin> free_set s \<Longrightarrow> \<exists>s'. FreeFrames_push s i = Some s'
      \<and> free_set s' = insert i (free_set s) \<and> free_inv s' \<and> free_universe s' = free_universe s"
    using FreeFrames_push_effect [OF inv, of i] by (fastforce simp: free_universe_def)
qed

lemma with_all_nth:
  assumes "i < unat n"
  shows "unat (n - of_nat (Suc i) :: u32) = unat n - Suc i"
proof -
  have "Suc i < 2 ^ 32"
    using assms unsigned_less [where 'a = nat, of n] by simp
  then have "unat (of_nat (Suc i) :: u32) = Suc i"
    by (simp add: unsigned_of_nat take_bit_nat_eq_self_iff del: of_nat_Suc)
  then show ?thesis
    using assms unat_sub_le [of "of_nat (Suc i)" n] by (simp add: word_le_nat_alt del: of_nat_Suc)
qed

lemma with_all_full:
  "free_inv (FreeFrames_try_with_all n)"
  "free_set (FreeFrames_try_with_all n) = free_universe (FreeFrames_try_with_all n)"
proof -
  let ?f = "\<lambda>i. n - of_nat (Suc i) :: u32"
  have inj: "inj_on ?f {0..<unat n}"
    by (rule inj_onI) (metis with_all_nth atLeastLessThan_iff diff_less_Suc less_Suc_eq_le diff_diff_cancel
        Suc_leI Suc_inject)
  then have "distinct (map ?f [0..<unat n])"
    by (simp add: distinct_map)
  moreover have below: "unat (?f i) < unat n" if "i < unat n" for i
    using with_all_nth [OF that] that by simp
  ultimately show "free_inv (FreeFrames_try_with_all n)"
    using unsigned_less [where 'a = nat, of n] by (auto simp: FreeFrames_try_with_all_def free_inv_def)
  have "f = ?f (unat n - Suc (unat f))" if "unat f < unat n" for f
    using with_all_nth [of "unat n - Suc (unat f)" n] that by (simp add: word_unat_eq_iff del: of_nat_Suc)
  then have "f \<in> ?f ` {0..<unat n}" if "unat f < unat n" for f
    using that by (intro image_eqI [where x = "unat n - Suc (unat f)"]) auto
  then show "free_set (FreeFrames_try_with_all n) = free_universe (FreeFrames_try_with_all n)"
    using below by (auto simp: FreeFrames_try_with_all_def free_set_def free_universe_def)
qed

section \<open>Properties\<close>

text \<open>
  C11.  A resident word is a sound stamp of a frame's contents.  Whatever claims,
  publications, aborts and reclamations happen in between, if a frame's word is
  resident and later carries the same word again, then its page identity is the
  one it had: \<open>validate_resident\<close> never accepts a stamp across a reuse of the
  frame.
\<close>

theorem resident_stamp_sound:
  assumes "frames_wf F" "run_frame_ops ops F = Some F'" "unat f < unat (f_count F)"
    "state_word F f = Some stamp" "word_is_resident stamp = Some True"
    "validate_resident F' f stamp = Some (Some page)"
  shows "exact_page F f = Some page"
proof -
  have run: "frames_wf F'" "st_of F (unat f) = Resident \<longrightarrow> age F' (unat f) = age F (unat f)
      \<longrightarrow> frame_kept (unat f) F F'"
    using run_frame_ops_age [OF assms(1, 2)] by blast+
  have stamp: "f_states F ! unat f = stamp" "st_of F (unat f) = Resident"
    using assms(1, 3-5) from_word_st_of [of F "unat f"]
    by (auto simp: state_word_def checked_index_def frames_wf_def word_is_resident_def)
  moreover have "f_states F' ! unat f = stamp" "f_pages F' ! unat f = Some page"
    using assms(6) validate_resident_Some [OF run(1)] by auto
  ultimately show ?thesis
    using run assms(3) exact_page_Some [OF assms(1), of f page]
    by (simp add: age_def st_of_def frame_kept_def)
qed


definition sample_arena :: "u64 list \<Rightarrow> PageId option list \<Rightarrow> Frames" where
  "sample_arena words pages = \<lparr>f_states = words, f_pages = pages, f_count = 2, f_granule = 4096, f_id = 1\<rparr>"

theorem resident_stamp_sound_witness:
  "run_frame_ops [Claim 1 (sample_page 9), Publish \<lparr>token_arena = 1, token_frame = 2\<rparr>, Reclaim 1 Evicting]
      (sample_arena [6, 0] [Some (sample_page 4), None])
    = Some (sample_arena [6, 7] [Some (sample_page 4), Some (sample_page 9)])
   \<and> exact_page (sample_arena [6, 0] [Some (sample_page 4), None]) 0 = Some (sample_page 4)"
proof -
  let ?F = "sample_arena [6, 0] [Some (sample_page 4), None]"
  let ?ops = "[Claim 1 (sample_page 9), Publish \<lparr>token_arena = 1, token_frame = 2\<rparr>, Reclaim 1 Evicting]"
  let ?F' = "sample_arena [6, 7] [Some (sample_page 4), Some (sample_page 9)]"
  have run: "run_frame_ops ?ops ?F = Some ?F'"
    by (simp add: sample_arena_def Frames_claim_def claim_unidentified_def checked_index_def word_defs
        from_tag_def FrameState_advance_def InFlightFrame_new_def checked_add_def Let_def Frames_publish_def
        Frames_consume_def owned_index_def InFlightFrame_frame_def advance_generation_def Frames_advance_def
        mask_eq_exp_minus_1)
  have "exact_page ?F 0 = Some (sample_page 4)"
    by (rule resident_stamp_sound [OF _ run, of 0 6])
      (simp_all add: frames_wf_def sample_arena_def state_word_def checked_index_def word_is_resident_def
        word_defs from_tag_def validate_resident_def page_read_def)
  with run show ?thesis by simp
qed

text \<open>
  C12.  The free stack partitions the frames: in every history of claims and
  returns starting from the full stack, the frames held and the frames free are
  complementary, so no frame is handed out twice, a held frame can always be
  returned without overflowing the stack, and a claim fails only when every
  frame is held.
\<close>

theorem free_frames_exclusive:
  assumes "pool_client FreeFrames_pop FreeFrames_push (FreeFrames_try_with_all n) ff held"
  shows "held = {f. unat f < unat n} - free_set ff
    \<and> (\<forall>f ff'. FreeFrames_pop ff = Some (Some f, ff') \<longrightarrow> f \<notin> held)
    \<and> (\<forall>f \<in> held. FreeFrames_push ff f \<noteq> None)
    \<and> ((\<exists>ff'. FreeFrames_pop ff = Some (None, ff')) \<longleftrightarrow> held = {f. unat f < unat n})"
proof -
  have all: "free_universe (FreeFrames_try_with_all n) = {f. unat f < unat n}"
    by (simp add: free_universe_def FreeFrames_try_with_all_def)
  show ?thesis
    using free_frames.client_partition [OF assms with_all_full]
      free_frames.client_exclusive [OF assms with_all_full] all by auto
qed

theorem free_frames_exclusive_witness:
  "{0, 1} = {f :: u32. unat f < 2} - free_set \<lparr>ff_frames = [1, 0], ff_len = 0\<rparr>"
proof -
  have "pool_client FreeFrames_pop FreeFrames_push (FreeFrames_try_with_all 2)
      \<lparr>ff_frames = [1, 0], ff_len = 0\<rparr> (insert 1 (insert 0 {}))"
    by (rule client_lend [where s = "\<lparr>ff_frames = [1, 0], ff_len = 1\<rparr>"],
        rule client_lend [where s = "\<lparr>ff_frames = [1, 0], ff_len = 2\<rparr>"])
      (use client_start [of FreeFrames_pop FreeFrames_push "FreeFrames_try_with_all 2"] in
        \<open>simp_all add: FreeFrames_try_with_all_def FreeFrames_pop_def checked_sub_def upt_conv_Cons\<close>)
  from free_frames_exclusive [OF this] show ?thesis
    by (auto simp: insert_commute)
qed

end
