(* ===== verification/Read_Vector.thy ===== *)
theory Read_Vector
  imports Frames
begin

text \<open>
  Scatter reads of \<open>driver/read_vector.rs\<close>: the bundle of frames one vectored read fills
  (\<open>ReadVector\<close>), the descriptor memory shared by all operation slots (\<open>VectorStorage\<close>) and the
  prefix transfer of a short read.  The arena behind the bundle's \<open>Arc\<close> is an argument; a
  descriptor pointer is an index into the descriptor allocation; a closure called per frame or
  per range is the list of its calls.
\<close>

section \<open>Model\<close>

definition VECTOR_FRAMES_MAX :: u32 where "VECTOR_FRAMES_MAX = 32"
definition VECTOR_BYTES_MAX :: u32 where "VECTOR_BYTES_MAX = 128 * 1024"

record Iovec =
  iov_base :: nat
  iov_len :: nat

record VectorIo =
  vi_pointer :: nat
  vi_count :: u32
  vi_bytes :: u32

record ReadVector =
  rv_frames :: "InFlightFrame option list"
  rv_count :: u32
  rv_ordinal :: u32
  rv_filled :: u32
  rv_total :: u32
  rv_descriptors :: "VectorIo option"
  rv_operation :: "OpToken option"

datatype ReadDestination = Point InFlightFrame | Vector ReadVector

definition live_prefix :: "ReadVector \<Rightarrow> InFlightFrame list option" where
  "live_prefix v = those (take (unat (rv_count v)) (rv_frames v))"

fun frames_in_bounds :: "ReadDestination \<Rightarrow> u32 \<Rightarrow> bool option" where
  "frames_in_bounds (Point frame) count = Some (InFlightFrame_frame frame < count)"
| "frames_in_bounds (Vector v) count =
     map_option (list_all (\<lambda>frame. InFlightFrame_frame frame < count)) (live_prefix v)"

fun into_point :: "ReadDestination \<Rightarrow> InFlightFrame option" where
  "into_point (Point frame) = Some frame"
| "into_point (Vector _) = None"

definition ReadVector_new :: ReadVector where
  "ReadVector_new = \<lparr>rv_frames = replicate (unat VECTOR_FRAMES_MAX) None, rv_count = 0, rv_ordinal = 0,
     rv_filled = 0, rv_total = 0, rv_descriptors = None, rv_operation = None\<rparr>"

definition ReadVector_push :: "Frames \<Rightarrow> ReadVector \<Rightarrow> InFlightFrame \<Rightarrow> ReadVector option" where
  "ReadVector_push F v frame = do {
     assert (rv_count v < VECTOR_FRAMES_MAX);
     assert (rv_filled v = 0);
     assert (rv_operation v = None);
     live \<leftarrow> live_prefix v;
     assert (\<forall>existing \<in> set live. InFlightFrame_frame existing \<noteq> InFlightFrame_frame frame);
     let granule = f_granule F;
     assert (granule \<le> VECTOR_BYTES_MAX - rv_total v);
     _ \<leftarrow> transfer_ptr F frame 0 granule;
     frames \<leftarrow> upd_opt (rv_frames v) (unat (rv_count v)) (Some frame);
     Some (v\<lparr>rv_frames := frames, rv_count := rv_count v + 1, rv_total := rv_total v + granule\<rparr>)
   }"

definition ReadVector_bind :: "ReadVector \<Rightarrow> OpToken \<Rightarrow> ReadVector option" where
  "ReadVector_bind v operation = do {
     assert (rv_operation v = None);
     Some (v\<lparr>rv_operation := Some operation\<rparr>)
   }"

definition remaining :: "ReadVector \<Rightarrow> u32" where
  "remaining v = rv_total v - rv_filled v"

definition destination_offset :: "Frames \<Rightarrow> ReadVector \<Rightarrow> u32" where
  "destination_offset F v = rv_filled v mod f_granule F"

definition record_completion :: "ReadVector \<Rightarrow> u32 \<Rightarrow> ReadVector option" where
  "record_completion v bytes = do {
     assert (bytes \<le> remaining v);
     Some (v\<lparr>rv_filled := rv_filled v + bytes, rv_descriptors := None\<rparr>)
   }"

text \<open>The \<open>take\<close> loop shared by \<open>take_completed\<close> and \<open>take_remaining\<close>.\<close>

primrec take_frames ::
  "u32 \<Rightarrow> nat \<Rightarrow> nat \<Rightarrow> InFlightFrame option list \<Rightarrow> ((u32 \<times> InFlightFrame) list \<times> InFlightFrame option list) option" where
  "take_frames ordinal 0 index fs = Some ([], fs)"
| "take_frames ordinal (Suc n) index fs = do {
     position \<leftarrow> nth_opt fs index;
     frame \<leftarrow> position;
     (consumed, fs') \<leftarrow> take_frames ordinal n (Suc index) (fs[index := None]);
     Some ((ordinal + of_nat index, frame) # consumed, fs')
   }"

definition take_completed :: "Frames \<Rightarrow> ReadVector \<Rightarrow> ((u32 \<times> InFlightFrame) list \<times> ReadVector) option" where
  "take_completed F v = do {
     assert (rv_ordinal v \<le> rv_filled v div f_granule F);
     let completed = rv_filled v div f_granule F - rv_ordinal v;
     assert (completed \<le> rv_count v);
     (consumed, fs) \<leftarrow> take_frames (rv_ordinal v) (unat completed) 0 (rv_frames v);
     let fs = rotate (unat completed) fs;
     let count = rv_count v - completed;
     assert (list_all (\<lambda>p. p = None) (drop (unat count) fs));
     Some (consumed, v\<lparr>rv_frames := fs, rv_ordinal := rv_ordinal v + completed, rv_count := count\<rparr>)
   }"

definition take_remaining :: "ReadVector \<Rightarrow> ((u32 \<times> InFlightFrame) list \<times> ReadVector) option" where
  "take_remaining v = do {
     (consumed, fs) \<leftarrow> take_frames (rv_ordinal v) (unat (rv_count v)) 0 (rv_frames v);
     assert (list_all (\<lambda>p. p = None) fs);
     Some (consumed, v\<lparr>rv_frames := fs, rv_ordinal := rv_ordinal v + rv_count v, rv_count := 0\<rparr>)
   }"

definition kernel_may_write :: "ReadVector \<Rightarrow> bool" where
  "kernel_may_write v \<longleftrightarrow> rv_operation v \<noteq> None \<and> rv_descriptors v \<noteq> None"

primrec abort_frames :: "InFlightFrame option list \<Rightarrow> Frames \<Rightarrow> Frames option" where
  "abort_frames [] F = Some F"
| "abort_frames (position # rest) F =
     (case position of
        None \<Rightarrow> abort_frames rest F
      | Some frame \<Rightarrow> do { (_, F') \<leftarrow> Frames_abort F frame; abort_frames rest F' })"

definition ReadVector_drop :: "ReadVector \<Rightarrow> Frames \<Rightarrow> Frames option" where
  "ReadVector_drop v F =
     (if kernel_may_write v then Some F
      else abort_frames (take (unat (rv_count v)) (rv_frames v)) F)"

subsection \<open>Descriptors\<close>

record VectorStorage =
  vs_memory :: "Iovec list"
  vs_slots :: u32

definition VectorStorage_try_new :: "bool \<Rightarrow> u32 \<Rightarrow> VectorStorage option" where
  "VectorStorage_try_new mapped slots =
     (if unat slots * unat VECTOR_FRAMES_MAX < 2 ^ 64 \<and> mapped
      then Some \<lparr>vs_memory = replicate (unat slots * unat VECTOR_FRAMES_MAX) \<lparr>iov_base = 0, iov_len = 0\<rparr>,
                 vs_slots = slots\<rparr>
      else None)"

primrec prepare_loop :: "Frames \<Rightarrow> ReadVector \<Rightarrow> nat \<Rightarrow> nat \<Rightarrow> nat \<Rightarrow> Iovec list \<Rightarrow> Iovec list option" where
  "prepare_loop F v pointer 0 index memory = Some memory"
| "prepare_loop F v pointer (Suc n) index memory = do {
     let offset = (if index = 0 then destination_offset F v else 0);
     let len = f_granule F - offset;
     position \<leftarrow> nth_opt (rv_frames v) index;
     frame \<leftarrow> position;
     destination \<leftarrow> transfer_ptr F frame offset len;
     memory \<leftarrow> upd_opt memory (pointer + index) \<lparr>iov_base = destination, iov_len = unat len\<rparr>;
     prepare_loop F v pointer n (Suc index) memory
   }"

definition prepare :: "VectorStorage \<Rightarrow> Frames \<Rightarrow> u32 \<Rightarrow> ReadVector \<Rightarrow> (VectorStorage \<times> ReadVector) option" where
  "prepare vs F sl v = do {
     assert (sl < vs_slots vs);
     assert (rv_count v > 0);
     assert (rv_ordinal v = rv_filled v div f_granule F);
     let pointer = unat sl * unat VECTOR_FRAMES_MAX;
     memory \<leftarrow> prepare_loop F v pointer (unat (rv_count v)) 0 (vs_memory vs);
     Some (vs\<lparr>vs_memory := memory\<rparr>,
           v\<lparr>rv_descriptors := Some \<lparr>vi_pointer = pointer, vi_count = rv_count v, vi_bytes = remaining v\<rparr>\<rparr>)
   }"

text \<open>The ranges \<open>VectorIo::transfer_prefix\<close> fills, each with the bytes transferred before it.\<close>

primrec transfer_loop :: "Iovec list \<Rightarrow> nat \<Rightarrow> u32 \<Rightarrow> nat \<Rightarrow> nat \<Rightarrow> u32 \<Rightarrow> ((u32 \<times> nat \<times> nat) list \<times> u32) option" where
  "transfer_loop memory pointer bytes 0 index transferred = Some ([], transferred)"
| "transfer_loop memory pointer bytes (Suc n) index transferred =
     (if transferred = bytes then Some ([], transferred)
      else do {
        descriptor \<leftarrow> nth_opt memory (pointer + index);
        assert (iov_len descriptor < 2 ^ 32);
        let len = min (bytes - transferred) (of_nat (iov_len descriptor));
        (fills, t) \<leftarrow> transfer_loop memory pointer bytes n (Suc index) (transferred + len);
        Some ((transferred, iov_base descriptor, unat len) # fills, t)
      })"

definition VectorIo_transfer_prefix :: "VectorStorage \<Rightarrow> VectorIo \<Rightarrow> u32 \<Rightarrow> (u32 \<times> nat \<times> nat) list option" where
  "VectorIo_transfer_prefix vs io bytes = do {
     assert (bytes \<le> vi_bytes io);
     (fills, transferred) \<leftarrow> transfer_loop (vs_memory vs) (vi_pointer io) bytes (unat (vi_count io)) 0 0;
     assert (transferred = bytes);
     Some fills
   }"

definition ReadVector_transfer_prefix :: "VectorStorage \<Rightarrow> ReadVector \<Rightarrow> u32 \<Rightarrow> (u32 \<times> nat \<times> nat) list option" where
  "ReadVector_transfer_prefix vs v bytes = do {
     assert (bytes \<le> remaining v);
     io \<leftarrow> rv_descriptors v;
     VectorIo_transfer_prefix vs io bytes
   }"

section \<open>The bundle as a list of frames\<close>

lemma unat_of_nat_u32: "m < 2 ^ 32 \<Longrightarrow> unat (of_nat m :: u32) = m"
  by (simp add: unsigned_of_nat take_bit_nat_eq_self)

lemma unat_eq_of_nat_u32: "unat w = m \<Longrightarrow> w = of_nat m" for w :: u32
  by auto

definition owned :: "Frames \<Rightarrow> InFlightFrame \<Rightarrow> bool" where
  "owned F f \<longleftrightarrow> token_arena f = f_id F \<and> unat (InFlightFrame_frame f) < unat (f_count F)
     \<and> unat (InFlightFrame_frame f) < length (f_states F)
     \<and> from_word (f_states F ! unat (InFlightFrame_frame f)) = Some InFlight"

lemma transfer_ptr_owned:
  "owned F f \<Longrightarrow> offset \<le> f_granule F \<Longrightarrow> len \<le> f_granule F - offset \<Longrightarrow>
    transfer_ptr F f offset len = Some (unat (InFlightFrame_frame f) * unat (f_granule F) + unat offset)"
  by (simp add: transfer_ptr_def owned_index_def owned_def InFlightFrame_frame_def Let_def)

text \<open>\<open>vec_holds g fs k n v\<close>: the vector was built from the frames \<open>fs\<close> of granule \<open>g\<close>, has \<open>n\<close> bytes
  filled, and its first \<open>k\<close> frames were handed out.\<close>

definition vec_holds :: "u32 \<Rightarrow> InFlightFrame list \<Rightarrow> nat \<Rightarrow> nat \<Rightarrow> ReadVector \<Rightarrow> bool" where
  "vec_holds g fs k n v \<longleftrightarrow> 0 < unat g \<and> length fs \<le> 32 \<and> unat g * length fs \<le> 131072
     \<and> k \<le> length fs \<and> k \<le> n div unat g \<and> n \<le> unat g * length fs
     \<and> rv_frames v = map Some (drop k fs) @ replicate (32 - (length fs - k)) None
     \<and> rv_count v = of_nat (length fs - k) \<and> rv_ordinal v = of_nat k
     \<and> rv_filled v = of_nat n \<and> rv_total v = of_nat (unat g * length fs)"

lemma bundle_unat:
  assumes "vec_holds g fs k n v"
  shows "unat (rv_count v) = length fs - k" "unat (rv_ordinal v) = k" "unat (rv_filled v) = n"
    "unat (rv_total v) = unat g * length fs" "unat (remaining v) = unat g * length fs - n"
    "unat (rv_filled v div g) = n div unat g" "n div unat g \<le> length fs"
proof -
  have b: "length fs \<le> 32" "unat g * length fs \<le> 131072" "k \<le> length fs" "n \<le> unat g * length fs"
    "0 < unat g"
    using assms by (simp_all add: vec_holds_def)
  show u: "unat (rv_count v) = length fs - k" "unat (rv_ordinal v) = k" "unat (rv_filled v) = n"
    "unat (rv_total v) = unat g * length fs"
    using assms b by (simp_all add: vec_holds_def unat_of_nat_u32 del: of_nat_diff of_nat_mult)
  show "unat (remaining v) = unat g * length fs - n"
    using u b(4) by (simp add: remaining_def unat_sub_le word_le_nat_alt)
  show "unat (rv_filled v div g) = n div unat g"
    by (simp add: unat_div u(3))
  show "n div unat g \<le> length fs"
    using b(4,5) by (metis div_le_mono nonzero_mult_div_cancel_left less_numeral_extra(3))
qed

lemma live_prefix_bundle: "vec_holds g fs k n v \<Longrightarrow> live_prefix v = Some (drop k fs)"
proof -
  assume b: "vec_holds g fs k n v"
  have "those (map Some xs) = Some xs" for xs :: "InFlightFrame list"
    by (induction xs) simp_all
  then show ?thesis
    unfolding live_prefix_def bundle_unat(1) [OF b] using b by (simp add: vec_holds_def)
qed

lemma bundle_new: "0 < unat g \<Longrightarrow> vec_holds g [] 0 0 ReadVector_new"
  by (simp add: vec_holds_def ReadVector_new_def VECTOR_FRAMES_MAX_def)

text \<open>A frame of the arena that is not yet in the bundle can be pushed while the limits allow.\<close>

lemma ReadVector_push_bundle:
  assumes b: "vec_holds (f_granule F) fs 0 0 v" and unbound: "rv_operation v = None" and f: "owned F f"
    and fresh: "\<forall>e \<in> set fs. InFlightFrame_frame e \<noteq> InFlightFrame_frame f"
    and room: "Suc (length fs) \<le> 32" "unat (f_granule F) * Suc (length fs) \<le> 131072"
  obtains v' where "ReadVector_push F v f = Some v'" "vec_holds (f_granule F) (fs @ [f]) 0 0 v'" "rv_operation v' = None"
proof -
  let ?g = "f_granule F"
  note u = bundle_unat [OF b]
  have frames: "rv_frames v = map Some fs @ replicate (32 - length fs) None"
    and words: "rv_count v = of_nat (length fs)" "rv_ordinal v = 0" "rv_filled v = 0"
      "rv_total v = of_nat (unat ?g * length fs)" and g: "0 < unat ?g"
    using b by (simp_all add: vec_holds_def)
  have "rv_count v < VECTOR_FRAMES_MAX"
    using u(1) room(1) by (simp add: word_less_nat_alt VECTOR_FRAMES_MAX_def)
  moreover have "?g \<le> VECTOR_BYTES_MAX - rv_total v"
    using u(4) room(2) by (simp add: word_le_nat_alt unat_sub_le VECTOR_BYTES_MAX_def)
  moreover have "transfer_ptr F f 0 ?g \<noteq> None"
    by (simp add: transfer_ptr_owned [OF f])
  moreover have "length fs < length (rv_frames v)"
    using room(1) by (simp add: frames)
  ultimately have "ReadVector_push F v f = Some (v\<lparr>rv_frames := (rv_frames v)[length fs := Some f],
      rv_count := rv_count v + 1, rv_total := rv_total v + ?g\<rparr>)"
    using live_prefix_bundle [OF b] u(1) fresh unbound words(3) by (auto simp: ReadVector_push_def Let_def)
  moreover have "(map Some fs @ replicate (32 - length fs) None)[length fs := Some f]
      = map Some (fs @ [f]) @ replicate (32 - Suc (length fs)) None"
  proof -
    have "replicate (32 - length fs) None = None # replicate (32 - Suc (length fs)) (None :: InFlightFrame option)"
      using room(1) by (metis Suc_diff_Suc Suc_le_lessD replicate_Suc)
    then show ?thesis
      by (simp add: list_update_append)
  qed
  ultimately show thesis
    using that g room words unbound by (auto simp: vec_holds_def frames algebra_simps)
qed

section \<open>Handing out frames\<close>

lemma take_frames_prefix:
  "m \<le> length fs \<Longrightarrow> take_frames ordinal m (length ps) (replicate (length ps) None @ map Some fs @ rest)
     = Some (map (\<lambda>i. (ordinal + of_nat (length ps + i), fs ! i)) [0..<m],
             replicate (length ps + m) None @ map Some (drop m fs) @ rest)"
  for ps :: "InFlightFrame list"
proof (induction m arbitrary: ps fs)
  case (Suc m)
  then obtain f fs' where fs: "fs = f # fs'" and m: "m \<le> length fs'"
    by (cases fs) auto
  have upd: "(replicate (length ps) None @ Some f # map Some fs' @ rest)[length ps := None]
      = None # replicate (length ps) None @ map Some fs' @ rest"
    by (simp add: list_update_append replicate_app_Cons_same)
  have "[0..<Suc m] = 0 # map Suc [0..<m]"
    by (simp add: upt_conv_Cons map_Suc_upt del: upt_Suc)
  then show ?case
    using Suc.IH [OF m, of "ps @ [f]"] by (simp add: fs upd nth_append o_def add_ac del: upt_Suc)
qed simp

lemma take_completed_bundle:
  assumes b: "vec_holds (f_granule F) fs k n v"
  obtains v' where "take_completed F v = Some (map (\<lambda>i. (of_nat i, fs ! i)) [k..<n div unat (f_granule F)], v')"
    "vec_holds (f_granule F) fs (n div unat (f_granule F)) n v'"
    "rv_operation v' = rv_operation v" "rv_descriptors v' = rv_descriptors v"
proof -
  let ?g = "f_granule F" and ?K = "n div unat (f_granule F)"
  note u = bundle_unat [OF b]
  have frames: "rv_frames v = map Some (drop k fs) @ replicate (32 - (length fs - k)) None"
    and k: "k \<le> ?K" "k \<le> length fs" "length fs \<le> 32" and ord: "rv_ordinal v = of_nat k"
    and cnt: "rv_count v = of_nat (length fs - k)"
    using b by (simp_all add: vec_holds_def)
  have le: "rv_ordinal v \<le> rv_filled v div ?g"
    by (simp add: word_le_nat_alt u k)
  have c: "unat (rv_filled v div ?g - rv_ordinal v) = ?K - k"
    by (simp add: unat_sub_le le u)
  have fits: "rv_filled v div ?g - rv_ordinal v \<le> rv_count v"
    using u(7) k by (simp add: word_le_nat_alt c u(1))
  have taken: "take_frames (rv_ordinal v) (?K - k) 0 (rv_frames v)
      = Some (map (\<lambda>i. (of_nat i, fs ! i)) [k..<?K],
          replicate (?K - k) None @ map Some (drop ?K fs) @ replicate (32 - (length fs - k)) None)"
  proof -
    have "map (\<lambda>i. (rv_ordinal v + of_nat i, drop k fs ! i)) [0..<?K - k] = map (\<lambda>i. (of_nat i, fs ! i)) [k..<?K]"
      using k u(7) by (intro nth_equalityI) (simp_all add: ord)
    then show ?thesis
      using take_frames_prefix [of "?K - k" "drop k fs" "rv_ordinal v" "[]"] u(7) k by (simp add: frames)
  qed
  have rot: "rotate (?K - k) (replicate (?K - k) None @ map Some (drop ?K fs) @ replicate (32 - (length fs - k)) None)
      = map Some (drop ?K fs) @ replicate (32 - (length fs - ?K)) (None :: InFlightFrame option)"
    using rotate_append [of "replicate (?K - k) None" "map Some (drop ?K fs) @ replicate (32 - (length fs - k)) None"]
      u(7) k by (simp flip: replicate_add)
  have c2: "rv_count v - (rv_filled v div ?g - rv_ordinal v) = of_nat (length fs - ?K)"
  proof -
    have "unat (rv_count v - (rv_filled v div ?g - rv_ordinal v)) = length fs - ?K"
      using u(7) k by (simp add: unat_sub_le fits c u(1))
    then show ?thesis
      by (rule unat_eq_of_nat_u32)
  qed
  have len: "unat (of_nat (length fs - ?K) :: u32) = length fs - ?K"
    using k(3) by (simp add: unat_of_nat_u32 del: of_nat_diff)
  have ord': "rv_ordinal v + (rv_filled v div ?g - rv_ordinal v) = of_nat ?K"
    using u(6) by (simp add: unat_eq_of_nat_u32)
  define v' where "v' = v\<lparr>rv_frames := map Some (drop ?K fs) @ replicate (32 - (length fs - ?K)) None,
    rv_ordinal := of_nat ?K, rv_count := of_nat (length fs - ?K)\<rparr>"
  have "take_completed F v = Some (map (\<lambda>i. (of_nat i, fs ! i)) [k..<?K], v')"
    unfolding take_completed_def Let_def c c2 ord' len
    by (simp only: le fits taken rot assert_bind_holds Option.bind.simps case_prod_conv v'_def)
      (simp add: list_all_iff set_replicate_conv_if)
  moreover have "vec_holds ?g fs ?K n v'"
    using b u(7) unfolding vec_holds_def v'_def by simp
  ultimately show thesis
    by (rule that) (simp_all add: v'_def)
qed

lemma take_remaining_bundle:
  assumes b: "vec_holds g fs k n v"
  shows "\<exists>v'. take_remaining v = Some (map (\<lambda>i. (of_nat i, fs ! i)) [k..<length fs], v') \<and> rv_count v' = 0"
proof -
  have frames: "rv_frames v = map Some (drop k fs) @ replicate (32 - (length fs - k)) None"
    and ord: "rv_ordinal v = of_nat k"
    using b by (simp_all add: vec_holds_def)
  have "map (\<lambda>i. (rv_ordinal v + of_nat i, drop k fs ! i)) [0..<length fs - k]
      = map (\<lambda>i. (of_nat i, fs ! i)) [k..<length fs]"
    by (intro nth_equalityI) (simp_all add: ord)
  then show ?thesis
    using take_frames_prefix [of "length fs - k" "drop k fs" "rv_ordinal v" "[]"]
    by (simp add: take_remaining_def bundle_unat(1) [OF b] frames list_all_iff set_replicate_conv_if)
qed

lemma record_completion_bundle:
  assumes b: "vec_holds g fs k n v" and "n + unat bytes \<le> unat g * length fs"
  obtains v' where "record_completion v bytes = Some v'" "vec_holds g fs k (n + unat bytes) v'"
    "rv_operation v' = rv_operation v" "rv_descriptors v' = None"
proof -
  have "bytes \<le> remaining v"
    using assms(2) by (simp add: word_le_nat_alt bundle_unat(5) [OF b])
  moreover have "k \<le> (n + unat bytes) div unat g"
    using b div_le_mono [of n "n + unat bytes" "unat g"] by (simp add: vec_holds_def)
  ultimately show thesis
    using b assms(2)
    by (intro that [of "v\<lparr>rv_filled := rv_filled v + bytes, rv_descriptors := None\<rparr>"])
      (simp_all add: record_completion_def vec_holds_def)
qed

section \<open>Descriptors and the bytes they cover\<close>

definition byte_addr :: "nat \<Rightarrow> InFlightFrame list \<Rightarrow> nat \<Rightarrow> nat" where
  "byte_addr g fs p = unat (InFlightFrame_frame (fs ! (p div g))) * g + p mod g"

definition iov_range :: "Iovec \<Rightarrow> nat list" where
  "iov_range d = [iov_base d..<iov_base d + iov_len d]"

text \<open>The descriptor of the \<open>i\<close>-th frame still in the bundle.\<close>

definition desc :: "nat \<Rightarrow> InFlightFrame list \<Rightarrow> nat \<Rightarrow> nat \<Rightarrow> Iovec" where
  "desc g fs n i = (let offset = (if i = 0 then n mod g else 0) in
     \<lparr>iov_base = unat (InFlightFrame_frame (fs ! (n div g + i))) * g + offset, iov_len = g - offset\<rparr>)"

lemma prepare_loop_descs:
  assumes b: "vec_holds (f_granule F) fs k n v" and k: "k = n div unat (f_granule F)"
    and own: "\<forall>f \<in> set (drop k fs). owned F f"
  shows "index + m \<le> length fs - k \<Longrightarrow> pointer + index + m \<le> length memory \<Longrightarrow>
    prepare_loop F v pointer m index memory = Some (take (pointer + index) memory
      @ map (desc (unat (f_granule F)) fs n) [index..<index + m] @ drop (pointer + index + m) memory)"
proof (induction m arbitrary: index memory)
  case (Suc m)
  let ?g = "unat (f_granule F)" and ?d = "desc (unat (f_granule F)) fs n"
  define offset where "offset = (if index = 0 then destination_offset F v else 0)"
  have g: "0 < ?g" and frames: "rv_frames v = map Some (drop k fs) @ replicate (32 - (length fs - k)) None"
    using b by (simp_all add: vec_holds_def)
  have off: "unat offset = (if index = 0 then n mod ?g else 0)"
    by (simp add: offset_def destination_offset_def unat_mod bundle_unat(3) [OF b])
  then have le: "offset \<le> f_granule F"
    using g by (simp add: word_le_nat_alt less_imp_le)
  have f: "owned F (fs ! (k + index))" "nth_opt (rv_frames v) index = Some (Some (fs ! (k + index)))"
  proof -
    have "fs ! (k + index) = drop k fs ! index" "index < length (drop k fs)"
      using Suc.prems(1) by simp_all
    then show "owned F (fs ! (k + index))"
      using own nth_mem by metis
    show "nth_opt (rv_frames v) index = Some (Some (fs ! (k + index)))"
      using Suc.prems(1) by (simp add: frames nth_append nth_opt_def)
  qed
  have ptr: "transfer_ptr F (fs ! (k + index)) offset (f_granule F - offset) = Some (iov_base (?d index))"
    using transfer_ptr_owned [OF f(1) le order_refl] by (simp only: off desc_def Let_def k Iovec.simps)
  have "\<lparr>iov_base = iov_base (?d index), iov_len = unat (f_granule F - offset)\<rparr> = ?d index"
    using le by (simp add: unat_sub_le off desc_def Let_def)
  then have "prepare_loop F v pointer (Suc m) index memory
      = prepare_loop F v pointer m (Suc index) (memory[pointer + index := ?d index])"
    using Suc.prems(2) f(2) ptr by (simp only: prepare_loop.simps Let_def flip: offset_def) simp
  also have "\<dots> = Some (take (pointer + Suc index) (memory[pointer + index := ?d index])
      @ map ?d [Suc index..<Suc index + m] @ drop (pointer + Suc index + m) (memory[pointer + index := ?d index]))"
    using Suc.prems by (intro Suc.IH) simp_all
  finally show ?case
    using Suc.prems(2) by (simp add: take_Suc_conv_app_nth upt_conv_Cons [of index] del: upt_Suc)
qed simp

definition fill_bytes :: "(u32 \<times> nat \<times> nat) list \<Rightarrow> nat list" where
  "fill_bytes fills = concat (map (\<lambda>(t, base, len). [base..<base + len]) fills)"

lemma transfer_loop_bytes:
  assumes "\<forall>i < m. pointer + index + i < length memory \<and> iov_len (memory ! (pointer + index + i)) < 2 ^ 32"
    and "unat t \<le> unat bytes"
    and "unat bytes - unat t \<le> length (concat (map (\<lambda>i. iov_range (memory ! (pointer + index + i))) [0..<m]))"
  shows "\<exists>fills. transfer_loop memory pointer bytes m index t = Some (fills, bytes)
    \<and> fill_bytes fills = take (unat bytes - unat t) (concat (map (\<lambda>i. iov_range (memory ! (pointer + index + i))) [0..<m]))"
  using assms
proof (induction m arbitrary: index t)
  case 0
  then show ?case
    by (simp add: word_unat_eq_iff fill_bytes_def)
next
  case (Suc m)
  show ?case
  proof (cases "t = bytes")
    case False
    let ?d = "memory ! (pointer + index)" and ?rest = "concat (map (\<lambda>i. iov_range (memory ! (pointer + Suc index + i))) [0..<m])"
    let ?len = "min (bytes - t) (of_nat (iov_len ?d))"
    have d: "pointer + index < length memory" "iov_len ?d < 2 ^ 32"
      using Suc.prems(1) by auto
    have all: "concat (map (\<lambda>i. iov_range (memory ! (pointer + index + i))) [0..<Suc m]) = iov_range ?d @ ?rest"
      by (simp add: upt_conv_Cons map_Suc_upt [symmetric] o_def del: upt_Suc)
    have len: "unat ?len = min (unat bytes - unat t) (iov_len ?d)"
      using Suc.prems(2) unat_of_nat_u32 [OF d(2)] unat_sub_le [of t bytes]
      by (simp add: min_def word_le_nat_alt)
    then have t': "unat (t + ?len) = unat t + unat ?len" "unat t + unat ?len \<le> unat bytes"
    proof -
      show le: "unat t + unat ?len \<le> unat bytes"
        unfolding len using Suc.prems(2) by simp
      show "unat (t + ?len) = unat t + unat ?len"
        by (rule unat_add_small, rule le_less_trans [OF le unsigned_less])
    qed
    obtain fills where fills: "transfer_loop memory pointer bytes m (Suc index) (t + ?len) = Some (fills, bytes)"
      "fill_bytes fills = take (unat bytes - unat (t + ?len)) ?rest"
    proof -
      have "\<forall>i < m. pointer + Suc index + i < length memory \<and> iov_len (memory ! (pointer + Suc index + i)) < 2 ^ 32"
        using Suc.prems(1) by (metis Suc_less_eq add_Suc_right add_Suc_shift)
      moreover have "unat bytes - unat (t + ?len) \<le> length ?rest"
        using Suc.prems(3) unfolding all t'(1) len by (simp add: iov_range_def)
      ultimately show thesis
        using Suc.IH [of "Suc index" "t + ?len"] t' that by auto
    qed
    have "[iov_base ?d..<iov_base ?d + unat ?len] @ take (unat bytes - unat (t + ?len)) ?rest
        = take (unat bytes - unat t) (iov_range ?d @ ?rest)"
    proof (cases "unat bytes - unat t \<le> iov_len ?d")
      case True
      then show ?thesis
        unfolding t'(1) len using Suc.prems(2) by (simp add: iov_range_def min_def)
    next
      case False
      then show ?thesis
        unfolding t'(1) len by (simp add: iov_range_def min_def)
    qed
    then show ?thesis
      using False d fills unfolding all by (simp add: fill_bytes_def Let_def)
  qed (use Suc.prems in \<open>simp add: fill_bytes_def\<close>)
qed

lemma chunks_upt:
  "m \<le> l \<Longrightarrow> concat (map (\<lambda>i. map (h i) [0..<g]) [m..<l]) = map (\<lambda>p. h (p div g) (p mod g)) [m * g..<l * g]"
proof (induction l)
  case (Suc l)
  show ?case
  proof (cases "m = Suc l")
    case False
    then have "[m * g..<Suc l * g] = [m * g..<l * g] @ [l * g..<l * g + g]"
      using Suc.prems upt_add_eq_append [of "m * g" "l * g" g] by (simp add: add.commute)
    moreover have "map (h l) [0..<g] = map (\<lambda>p. h (p div g) (p mod g)) [l * g..<l * g + g]"
      by (intro nth_equalityI) simp_all
    ultimately show ?thesis
      using Suc False by simp
  qed simp
qed simp

lemma desc_bytes:
  assumes "n < g * length fs"
  shows "concat (map (\<lambda>i. iov_range (desc g fs n i)) [0..<length fs - n div g]) = map (byte_addr g fs) [n..<g * length fs]"
proof -
  let ?h = "\<lambda>i j. unat (InFlightFrame_frame (fs ! i)) * g + j" and ?k = "n div g"
  have g: "0 < g"
    using assms by (cases g) simp_all
  have k: "?k < length fs"
    using assms by (simp add: less_mult_imp_div_less mult.commute)
  then have split: "[0..<length fs - ?k] = 0 # map (\<lambda>i. i - ?k) [Suc ?k..<length fs]"
    by (intro nth_equalityI) (auto simp: nth_Cons split: nat.splits)
  have "concat (map (\<lambda>i. iov_range (desc g fs n i)) (map (\<lambda>i. i - ?k) [Suc ?k..<length fs]))
      = concat (map (\<lambda>i. map (?h i) [0..<g]) [Suc ?k..<length fs])"
    by (intro arg_cong [of _ _ concat]) (auto simp: desc_def iov_range_def map_add_upt add.commute)
  also have "\<dots> = map (byte_addr g fs) [Suc ?k * g..<length fs * g]"
    using k by (subst chunks_upt) (auto simp: byte_addr_def)
  finally have rest: "concat (map (\<lambda>i. iov_range (desc g fs n i)) (map (\<lambda>i. i - ?k) [Suc ?k..<length fs]))
      = map (byte_addr g fs) [Suc ?k * g..<length fs * g]" .
  have first: "iov_range (desc g fs n 0) = map (byte_addr g fs) [n..<Suc ?k * g]"
  proof (intro nth_equalityI)
    have len: "Suc ?k * g - n = g - n mod g"
      using div_mult_mod_eq [of n g] mod_less_divisor [OF g, of n] unfolding mult_Suc by linarith
    then show "length (iov_range (desc g fs n 0)) = length (map (byte_addr g fs) [n..<Suc ?k * g])"
      by (simp add: iov_range_def desc_def Let_def)
    fix i assume "i < length (iov_range (desc g fs n 0))"
    then have i: "n mod g + i < g"
      by (simp add: iov_range_def desc_def Let_def)
    have "n + i = ?k * g + (n mod g + i)"
      by simp
    then have "(n + i) div g = ?k" "(n + i) mod g = n mod g + i"
      using i by (metis add.right_neutral div_less div_mult_self3 g less_numeral_extra(3), metis i mod_less mod_mult_self3)
    then show "iov_range (desc g fs n 0) ! i = map (byte_addr g fs) [n..<Suc ?k * g] ! i"
      using i len by (simp add: iov_range_def desc_def Let_def byte_addr_def)
  qed
  have "n \<le> Suc ?k * g" "Suc ?k * g \<le> length fs * g"
    using k g mult_le_mono1 [of "Suc ?k" "length fs" g] by (simp_all add: dividend_less_div_times less_imp_le)
  then have "[n..<length fs * g] = [n..<Suc ?k * g] @ [Suc ?k * g..<length fs * g]"
    by (metis le_add_diff_inverse upt_add_eq_append)
  then show ?thesis
    unfolding split by (simp only: list.map concat.simps first rest mult.commute [of g] map_append)
qed

section \<open>A scatter read and its continuations\<close>

text \<open>One attempt as the driver and the pool run it: descriptors for the missing suffix, a
  transfer of \<open>bytes\<close> by the backend, the recorded completion, the frames it completed.\<close>

definition vector_attempt :: "u32 \<Rightarrow> Frames \<Rightarrow> u32 \<Rightarrow> VectorStorage \<Rightarrow> ReadVector \<Rightarrow>
    (nat list \<times> (u32 \<times> InFlightFrame) list \<times> VectorStorage \<times> ReadVector) option" where
  "vector_attempt sl F bytes vs v = do {
     (vs, v) \<leftarrow> prepare vs F sl v;
     fills \<leftarrow> ReadVector_transfer_prefix vs v bytes;
     v \<leftarrow> record_completion v bytes;
     (consumed, v) \<leftarrow> take_completed F v;
     Some (fill_bytes fills, consumed, vs, v)
   }"

primrec vector_attempts :: "u32 \<Rightarrow> (Frames \<times> u32) list \<Rightarrow> VectorStorage \<Rightarrow> ReadVector \<Rightarrow>
    (nat list \<times> (u32 \<times> InFlightFrame) list \<times> VectorStorage \<times> ReadVector) option" where
  "vector_attempts sl [] vs v = Some ([], [], vs, v)"
| "vector_attempts sl (a # as) vs v = do {
     (filled, consumed, vs, v) \<leftarrow> vector_attempt sl (fst a) (snd a) vs v;
     (filled', consumed', vs, v) \<leftarrow> vector_attempts sl as vs v;
     Some (filled @ filled', consumed @ consumed', vs, v)
   }"

definition storage_ok :: "VectorStorage \<Rightarrow> bool" where
  "storage_ok vs \<longleftrightarrow> length (vs_memory vs) = unat (vs_slots vs) * 32"

definition other_slots_kept :: "u32 \<Rightarrow> VectorStorage \<Rightarrow> VectorStorage \<Rightarrow> bool" where
  "other_slots_kept sl vs vs' \<longleftrightarrow> vs_slots vs' = vs_slots vs \<and> length (vs_memory vs') = length (vs_memory vs)
     \<and> (\<forall>i. i div 32 \<noteq> unat sl \<longrightarrow> vs_memory vs' ! i = vs_memory vs ! i)"

lemma prepare_bundle:
  assumes b: "vec_holds (f_granule F) fs (n div unat (f_granule F)) n v" and n: "n < unat (f_granule F) * length fs"
    and own: "\<forall>f \<in> set (drop (n div unat (f_granule F)) fs). owned F f"
    and vs: "storage_ok vs" and sl: "sl < vs_slots vs"
  obtains vs' io where "prepare vs F sl v = Some (vs', v\<lparr>rv_descriptors := Some io\<rparr>)"
    "storage_ok vs'" "other_slots_kept sl vs vs'"
    "\<And>bytes. n + unat bytes \<le> unat (f_granule F) * length fs \<Longrightarrow>
      \<exists>fills. VectorIo_transfer_prefix vs' io bytes = Some fills
        \<and> fill_bytes fills = map (byte_addr (unat (f_granule F)) fs) [n..<n + unat bytes]"
proof -
  let ?g = "unat (f_granule F)" and ?p = "unat sl * 32"
  let ?k = "n div ?g"
  note u = bundle_unat [OF b]
  have k: "?k < length fs" and l32: "length fs \<le> 32"
    using n b by (simp_all add: less_mult_imp_div_less mult.commute vec_holds_def)
  have "Suc (unat sl) * 32 \<le> unat (vs_slots vs) * 32"
    using sl by (intro mult_le_mono1) (simp add: word_less_nat_alt)
  then have room: "?p + 32 \<le> length (vs_memory vs)"
    using vs by (simp add: storage_ok_def)
  define memory where "memory = take ?p (vs_memory vs) @ map (desc ?g fs n) [0..<length fs - ?k]
    @ drop (?p + (length fs - ?k)) (vs_memory vs)"
  have "prepare_loop F v ?p (length fs - ?k) 0 (vs_memory vs) = Some memory"
    using prepare_loop_descs [OF b refl own, of 0 "length fs - ?k" ?p "vs_memory vs"] room l32
    by (simp add: memory_def)
  moreover have "rv_count v > 0"
    using k u(1) by (simp add: word_less_nat_alt)
  moreover have "rv_ordinal v = rv_filled v div f_granule F"
    by (simp add: word_unat_eq_iff u(2,6))
  ultimately have prep: "prepare vs F sl v = Some (vs\<lparr>vs_memory := memory\<rparr>,
      v\<lparr>rv_descriptors := Some \<lparr>vi_pointer = ?p, vi_count = rv_count v, vi_bytes = remaining v\<rparr>\<rparr>)"
    using sl by (simp add: prepare_def Let_def VECTOR_FRAMES_MAX_def u(1))
  have len: "length memory = length (vs_memory vs)"
    using room l32 by (simp add: memory_def)
  have at: "memory ! (?p + i) = desc ?g fs n i" if "i < length fs - ?k" for i
    using that room l32 by (simp add: memory_def nth_append)
  have other: "memory ! i = vs_memory vs ! i" if "i div 32 \<noteq> unat sl" for i
  proof -
    have "i < ?p \<or> ?p + 32 \<le> i"
      using that by (metis add.commute div_less_iff_less_mult le_less_linear less_Suc_eq less_mult_imp_div_less
          linorder_neqE_nat mult_Suc not_less_eq zero_less_numeral)
    then show ?thesis
      using room l32 by (auto simp: memory_def nth_append)
  qed
  have fills: "\<exists>fills. VectorIo_transfer_prefix (vs\<lparr>vs_memory := memory\<rparr>)
        \<lparr>vi_pointer = ?p, vi_count = rv_count v, vi_bytes = remaining v\<rparr> bytes = Some fills
        \<and> fill_bytes fills = map (byte_addr ?g fs) [n..<n + unat bytes]"
    if bytes: "n + unat bytes \<le> ?g * length fs" for bytes
  proof -
    have "map (\<lambda>i. iov_range (memory ! (?p + 0 + i))) [0..<length fs - ?k] = map (\<lambda>i. iov_range (desc ?g fs n i)) [0..<length fs - ?k]"
      using at by simp
    then have all: "concat (map (\<lambda>i. iov_range (memory ! (?p + 0 + i))) [0..<length fs - ?k]) = map (byte_addr ?g fs) [n..<?g * length fs]"
      using desc_bytes [OF n] by (simp only:)
    have "iov_len (desc ?g fs n i) < 2 ^ 32" for i
      using unsigned_less [where 'a = nat, of "f_granule F"] by (auto simp: desc_def Let_def)
    then have "\<forall>i < length fs - ?k. ?p + 0 + i < length memory \<and> iov_len (memory ! (?p + 0 + i)) < 2 ^ 32"
      using at len room l32 by auto
    moreover have "unat bytes \<le> ?g * length fs - n"
      using bytes by simp
    ultimately have "\<exists>fills. transfer_loop memory ?p bytes (length fs - ?k) 0 0 = Some (fills, bytes)
        \<and> fill_bytes fills = take (unat bytes) (map (byte_addr ?g fs) [n..<?g * length fs])"
      using transfer_loop_bytes [of "length fs - ?k" ?p 0 memory 0 bytes] unfolding all by simp
    then obtain fills where "transfer_loop memory ?p bytes (length fs - ?k) 0 0 = Some (fills, bytes)"
      "fill_bytes fills = take (unat bytes) (map (byte_addr ?g fs) [n..<?g * length fs])"
      by blast
    moreover have "bytes \<le> remaining v"
      using bytes by (simp add: word_le_nat_alt u(5))
    ultimately show ?thesis
      using bytes by (simp add: VectorIo_transfer_prefix_def u(1) take_map)
  qed
  show thesis
    using vs by (intro that [OF prep _ _ fills]) (simp_all add: storage_ok_def other_slots_kept_def len other)
qed

lemma vector_attempt_bundle:
  assumes b: "vec_holds (f_granule F) fs (n div unat (f_granule F)) n v" and n: "n < unat (f_granule F) * length fs"
    and own: "\<forall>f \<in> set (drop (n div unat (f_granule F)) fs). owned F f"
    and vs: "storage_ok vs" and sl: "sl < vs_slots vs" and bytes: "n + unat bytes \<le> unat (f_granule F) * length fs"
  shows "\<exists>vs' v'. vector_attempt sl F bytes vs v = Some (map (byte_addr (unat (f_granule F)) fs) [n..<n + unat bytes],
      map (\<lambda>i. (of_nat i, fs ! i)) [n div unat (f_granule F)..<(n + unat bytes) div unat (f_granule F)], vs', v')
    \<and> storage_ok vs' \<and> other_slots_kept sl vs vs'
    \<and> vec_holds (f_granule F) fs ((n + unat bytes) div unat (f_granule F)) (n + unat bytes) v'"
proof -
  obtain vs' io where p: "prepare vs F sl v = Some (vs', v\<lparr>rv_descriptors := Some io\<rparr>)"
    and vs': "storage_ok vs'" "other_slots_kept sl vs vs'"
    and t: "\<exists>fills. VectorIo_transfer_prefix vs' io bytes = Some fills
        \<and> fill_bytes fills = map (byte_addr (unat (f_granule F)) fs) [n..<n + unat bytes]"
    using prepare_bundle [OF b n own vs sl] bytes by metis
  let ?v1 = "v\<lparr>rv_descriptors := Some io\<rparr>"
  have b1: "vec_holds (f_granule F) fs (n div unat (f_granule F)) n ?v1"
    using b by (simp add: vec_holds_def)
  obtain v2 where v2: "record_completion ?v1 bytes = Some v2"
    "vec_holds (f_granule F) fs (n div unat (f_granule F)) (n + unat bytes) v2"
    by (rule record_completion_bundle [OF b1 bytes])
  obtain v3 where v3: "take_completed F v2 = Some (map (\<lambda>i. (of_nat i, fs ! i))
      [n div unat (f_granule F)..<(n + unat bytes) div unat (f_granule F)], v3)"
    "vec_holds (f_granule F) fs ((n + unat bytes) div unat (f_granule F)) (n + unat bytes) v3"
    by (rule take_completed_bundle [OF v2(2)])
  have "bytes \<le> remaining ?v1"
    using bytes by (simp add: word_le_nat_alt bundle_unat(5) [OF b1])
  then show ?thesis
    using t p v2(1) v3 vs' by (auto simp: vector_attempt_def ReadVector_transfer_prefix_def)
qed

text \<open>A backend that serves a bundle: each attempt finds the frames still owned by the bundle in
  flight and transfers at most what is missing.\<close>

primrec served :: "u32 \<Rightarrow> InFlightFrame list \<Rightarrow> nat \<Rightarrow> (Frames \<times> u32) list \<Rightarrow> bool" where
  "served g fs n [] \<longleftrightarrow> True"
| "served g fs n (a # as) \<longleftrightarrow> f_granule (fst a) = g \<and> n < unat g * length fs
     \<and> n + unat (snd a) \<le> unat g * length fs
     \<and> (\<forall>f \<in> set (drop (n div unat g) fs). owned (fst a) f)
     \<and> served g fs (n + unat (snd a)) as"

definition total_bytes :: "(Frames \<times> u32) list \<Rightarrow> nat" where
  "total_bytes as = sum_list (map (unat \<circ> snd) as)"

lemma other_slots_kept_trans: "other_slots_kept sl a b \<Longrightarrow> other_slots_kept sl b c \<Longrightarrow> other_slots_kept sl a c"
  by (simp add: other_slots_kept_def)

lemma vector_attempts_bundle:
  assumes "vec_holds g fs (n div unat g) n v" "served g fs n as" "storage_ok vs" "sl < vs_slots vs"
  shows "\<exists>vs' v'. vector_attempts sl as vs v = Some (map (byte_addr (unat g) fs) [n..<n + total_bytes as],
      map (\<lambda>i. (of_nat i, fs ! i)) [n div unat g..<(n + total_bytes as) div unat g], vs', v')
    \<and> other_slots_kept sl vs vs' \<and> vec_holds g fs ((n + total_bytes as) div unat g) (n + total_bytes as) v'"
  using assms
proof (induction as arbitrary: n v vs)
  case (Cons a as)
  let ?F = "fst a" and ?m = "n + unat (snd a)"
  have g: "f_granule ?F = g"
    using Cons.prems(2) by simp
  obtain vs1 v1 where 1: "vector_attempt sl ?F (snd a) vs v = Some (map (byte_addr (unat g) fs) [n..<?m],
      map (\<lambda>i. (of_nat i, fs ! i)) [n div unat g..<?m div unat g], vs1, v1)"
    "storage_ok vs1" "other_slots_kept sl vs vs1" "vec_holds g fs (?m div unat g) ?m v1"
    using vector_attempt_bundle [of ?F fs n v vs sl "snd a"] Cons.prems unfolding g by auto
  have "sl < vs_slots vs1"
    using Cons.prems(4) 1(3) by (simp add: other_slots_kept_def)
  then obtain vs2 v2 where 2: "vector_attempts sl as vs1 v1 = Some (map (byte_addr (unat g) fs) [?m..<?m + total_bytes as],
      map (\<lambda>i. (of_nat i, fs ! i)) [?m div unat g..<(?m + total_bytes as) div unat g], vs2, v2)"
    "other_slots_kept sl vs1 vs2" "vec_holds g fs ((?m + total_bytes as) div unat g) (?m + total_bytes as) v2"
    using Cons.IH [OF 1(4) _ 1(2)] Cons.prems(2) by auto
  have sum: "n + total_bytes (a # as) = ?m + total_bytes as"
    by (simp add: total_bytes_def)
  have "[n..<?m] @ [?m..<?m + total_bytes as] = [n..<?m + total_bytes as]"
    "[n div unat g..<?m div unat g] @ [?m div unat g..<(?m + total_bytes as) div unat g]
      = [n div unat g..<(?m + total_bytes as) div unat g]"
    by (metis le_add1 le_add_diff_inverse upt_add_eq_append, metis div_le_mono le_add1 le_add_diff_inverse upt_add_eq_append)
  then show ?case
    using 1(1) 2 other_slots_kept_trans [OF 1(3) 2(2)] unfolding sum by (simp flip: map_append)
qed (simp add: total_bytes_def other_slots_kept_def)

primrec push_all :: "Frames \<Rightarrow> InFlightFrame list \<Rightarrow> ReadVector \<Rightarrow> ReadVector option" where
  "push_all F [] v = Some v"
| "push_all F (f # fs) v = do { v \<leftarrow> ReadVector_push F v f; push_all F fs v }"

lemma push_all_bundle:
  assumes "vec_holds (f_granule F) fs 0 0 v" "push_all F gs v = Some v'"
  shows "vec_holds (f_granule F) (fs @ gs) 0 0 v'"
  using assms
proof (induction gs arbitrary: fs v)
  case (Cons f gs)
  obtain v1 where v1: "ReadVector_push F v f = Some v1" "push_all F gs v1 = Some v'"
    using Cons.prems(2) by (auto simp: bind_Some_iff)
  note b = Cons.prems(1)
  have p: "rv_count v < VECTOR_FRAMES_MAX" "rv_operation v = None"
    "\<forall>e \<in> set fs. InFlightFrame_frame e \<noteq> InFlightFrame_frame f"
    "f_granule F \<le> VECTOR_BYTES_MAX - rv_total v" "transfer_ptr F f 0 (f_granule F) \<noteq> None"
    using v1(1) live_prefix_bundle [OF b] by (auto simp: ReadVector_push_def bind_Some_iff Let_def)
  have "owned F f"
    using p(5) by (auto simp: transfer_ptr_def owned_index_def owned_def InFlightFrame_frame_def Let_def bind_Some_iff)
  moreover have "Suc (length fs) \<le> 32"
    using p(1) bundle_unat(1) [OF b] by (simp add: word_less_nat_alt VECTOR_FRAMES_MAX_def)
  moreover have "unat (f_granule F) * Suc (length fs) \<le> 131072"
  proof -
    have "unat (rv_total v) \<le> 131072"
      using b bundle_unat(4) [OF b] by (simp add: vec_holds_def)
    then show ?thesis
      using p(4) bundle_unat(4) [OF b] by (simp add: word_le_nat_alt unat_sub_le VECTOR_BYTES_MAX_def)
  qed
  ultimately have "vec_holds (f_granule F) (fs @ [f]) 0 0 v1"
    using ReadVector_push_bundle [OF b p(2) _ p(3)] v1(1) by (metis option.inject)
  then show ?case
    using Cons.IH [OF _ v1(2), of "fs @ [f]"] by simp
qed simp

text \<open>C27. A scatter read reassembles the file in order over any sequence of short transfers: the
  attempts put the stream's bytes one after the other at \<open>byte_addr\<close>, that is byte \<open>p\<close> at offset
  \<open>p mod granule\<close> of the \<open>p div granule\<close>-th frame pushed; every frame is handed out exactly once, in
  push order with its ordinal, as soon as its last byte arrived; the rest stays in the bundle; and
  no attempt touches the descriptors of another operation slot.\<close>

theorem scatter_read_reassembles:
  assumes "0 < f_granule F" "push_all F fs ReadVector_new = Some v" "served (f_granule F) fs 0 as"
    and "storage_ok vs" "sl < vs_slots vs"
  shows "\<exists>vs' v'. vector_attempts sl as vs v = Some (map (byte_addr (unat (f_granule F)) fs) [0..<total_bytes as],
      map (\<lambda>i. (of_nat i, fs ! i)) [0..<total_bytes as div unat (f_granule F)], vs', v')
    \<and> other_slots_kept sl vs vs'
    \<and> live_prefix v' = Some (drop (total_bytes as div unat (f_granule F)) fs)
    \<and> unat (remaining v') = unat (f_granule F) * length fs - total_bytes as"
proof -
  have "vec_holds (f_granule F) fs 0 0 v"
    using push_all_bundle [OF bundle_new assms(2)] assms(1) by (simp add: word_less_nat_alt)
  then show ?thesis
    using vector_attempts_bundle [of "f_granule F" fs 0 v as vs sl] assms(3-5)
    by (auto dest: live_prefix_bundle bundle_unat(5))
qed

text \<open>Two frames in reverse arena order, a short first transfer across the frame boundary, and the
  first frame published before the second attempt.\<close>

definition sample_bundle :: "InFlightFrame list" where
  "sample_bundle = [\<lparr>token_arena = 1, token_frame = 2\<rparr>, \<lparr>token_arena = 1, token_frame = 1\<rparr>]"

definition sample_attempts :: "(Frames \<times> u32) list" where
  "sample_attempts = [(sample_arena [1, 1] [None, None], 5000), (sample_arena [1, 6] [None, None], 3192)]"

theorem scatter_read_reassembles_witness:
  "\<exists>v vs v'. push_all (sample_arena [1, 1] [None, None]) sample_bundle ReadVector_new = Some v
     \<and> vector_attempts 0 sample_attempts \<lparr>vs_memory = replicate 32 \<lparr>iov_base = 0, iov_len = 0\<rparr>, vs_slots = 1\<rparr> v
       = Some (map (byte_addr 4096 sample_bundle) [0..<8192],
           [(0, \<lparr>token_arena = 1, token_frame = 2\<rparr>), (1, \<lparr>token_arena = 1, token_frame = 1\<rparr>)], vs, v')
     \<and> unat (remaining v') = 0"
proof -
  let ?F = "sample_arena [1, 1] [None, None]"
  obtain v where v: "push_all ?F sample_bundle ReadVector_new = Some v"
  proof -
    have new: "vec_holds (f_granule ?F) [] 0 0 ReadVector_new"
      by (rule bundle_new) (simp add: sample_arena_def)
    have own: "\<forall>f \<in> set sample_bundle. owned ?F f"
      by (simp add: sample_bundle_def sample_arena_def owned_def InFlightFrame_frame_def word_defs from_tag_def mask_eq_exp_minus_1)
    obtain v1 where v1: "ReadVector_push ?F ReadVector_new (hd sample_bundle) = Some v1"
      "vec_holds (f_granule ?F) [hd sample_bundle] 0 0 v1" "rv_operation v1 = None"
      by (rule ReadVector_push_bundle [OF new, of "hd sample_bundle"])
        (use own in \<open>simp_all add: ReadVector_new_def sample_bundle_def sample_arena_def\<close>)
    obtain v2 where "ReadVector_push ?F v1 (last sample_bundle) = Some v2"
      by (rule ReadVector_push_bundle [OF v1(2,3), of "last sample_bundle"])
        (use own in \<open>simp_all add: sample_bundle_def sample_arena_def InFlightFrame_frame_def\<close>)
    then show thesis
      using v1(1) that by (simp add: sample_bundle_def)
  qed
  have "served (f_granule ?F) sample_bundle 0 sample_attempts"
    by (simp add: sample_attempts_def sample_bundle_def sample_arena_def owned_def InFlightFrame_frame_def word_defs
        from_tag_def mask_eq_exp_minus_1)
  moreover have "total_bytes sample_attempts = 8192"
    by (simp add: total_bytes_def sample_attempts_def)
  moreover have "f_granule ?F = 4096" "[0..<2] = [0, Suc 0]"
    by (simp_all add: sample_arena_def upt_rec)
  ultimately show ?thesis
    using scatter_read_reassembles [OF _ v, of sample_attempts
        "\<lparr>vs_memory = replicate 32 \<lparr>iov_base = 0, iov_len = 0\<rparr>, vs_slots = 1\<rparr>" 0] v
    by (auto simp: storage_ok_def sample_bundle_def)
qed

end
