(* ===== verification/Alignment.thy ===== *)
theory Alignment
  imports Ident
begin

text \<open>
  Byte alignments (\<open>alignment.rs\<close>) and the direct-I/O probe (\<open>open.rs\<close>).  The
  kernel's answers (the \<open>statx\<close> buffer, whether a probe read or \<open>fcntl\<close>
  succeeds) are arguments.
\<close>

section \<open>Alignment\<close>

datatype Alignment = Alignment (get: u32)

record Unaligned =
  offset_bytes :: u64
  alignment :: Alignment

definition Alignment_new :: "u32 \<Rightarrow> Alignment option" where
  "Alignment_new bytes =
     (if bytes = 0 then None
      else if \<not> is_power_of_two bytes then None
      else Some (Alignment bytes))"

definition Alignment_check :: "Alignment \<Rightarrow> u64 \<Rightarrow> (Unaligned + unit) option" where
  "Alignment_check self off = do {
     assert (is_power_of_two (get self));
     Some (if off AND (ucast (get self) - 1) = 0 then Ok ()
           else Err \<lparr>offset_bytes = off, alignment = self\<rparr>)
   }"

section \<open>The direct-I/O probe\<close>

datatype DirectIo = Disabled | Preferred | Required

datatype IoMode = Direct Alignment | Buffered

record FileHandle =
  handle_id :: FileId
  handle_mode :: IoMode

definition FileHandle_from_id :: "FileId \<Rightarrow> FileHandle" where
  "FileHandle_from_id i = \<lparr>handle_id = i, handle_mode = Buffered\<rparr>"

definition FileHandle_from_parts :: "FileId \<Rightarrow> IoMode \<Rightarrow> FileHandle" where
  "FileHandle_from_parts i m = \<lparr>handle_id = i, handle_mode = m\<rparr>"

definition direct_unavailable :: "DirectIo \<Rightarrow> string \<Rightarrow> IoError + IoMode" where
  "direct_unavailable policy message =
     (if policy = Required then Err (FromKind Unsupported message) else Ok Buffered)"

definition direct_arena_compatible :: "u32 \<Rightarrow> Alignment \<Rightarrow> bool" where
  "direct_arena_compatible granule a =
     (let required = get a in required \<le> granule \<and> granule mod required = 0)"

text \<open>
  \<open>probed\<close> is what \<open>probe_direct_alignment\<close> reports for the file and \<open>enabled\<close>
  the result of \<open>enable_direct\<close>.
\<close>

definition probe ::
  "Alignment option \<Rightarrow> (IoError + unit) \<Rightarrow> DirectIo \<Rightarrow> u32 \<Rightarrow> (IoError + IoMode) option" where
  "probe probed enabled policy arena_granule = do {
     assert (is_power_of_two arena_granule);
     Some (if policy = Disabled then Ok Buffered
           else (case probed of
               None \<Rightarrow> direct_unavailable policy ''direct IO is unsupported for this file''
             | Some a \<Rightarrow>
                 if \<not> direct_arena_compatible arena_granule a
                 then direct_unavailable policy
                        ''direct IO alignment exceeds the configured arena granule''
                 else (case enabled of
                     Inr _ \<Rightarrow> Ok (Direct a)
                   | Inl error \<Rightarrow> if policy = Required then Err error else Ok Buffered)))
   }"

definition from_ne_bytes :: "bool \<Rightarrow> u8 list \<Rightarrow> u32" where
  "from_ne_bytes little bs =
     foldl (\<lambda>acc b. acc * 256 + ucast b) 0 (if little then rev bs else bs)"

definition statx_dio_alignment :: "bool \<Rightarrow> u8 list \<Rightarrow> Alignment option" where
  "statx_dio_alignment little buf =
     (let mask_word = from_ne_bytes little (take 4 buf) in
      if mask_word AND 0x2000 = 0 then None
      else do {
        memory \<leftarrow> Alignment_new (from_ne_bytes little (take 4 (drop 152 buf)));
        off \<leftarrow> Alignment_new (from_ne_bytes little (take 4 (drop 156 buf)));
        Some (Alignment (max (get memory) (get off)))
      })"

text \<open>
  The \<open>O_DIRECT\<close> fallback tries the sector sizes in order; \<open>readable\<close> stands for
  opening the probe path and reading \<open>candidate\<close> bytes from it.
\<close>

fun write_probe_loop :: "(u32 \<Rightarrow> bool) \<Rightarrow> u32 list \<Rightarrow> Alignment option option" where
  "write_probe_loop readable [] = Some None"
| "write_probe_loop readable (candidate # rest) = do {
     assert (candidate \<le> 4096);
     (case Alignment_new candidate of
        None \<Rightarrow> write_probe_loop readable rest
      | Some a \<Rightarrow> if readable candidate then Some (Some a) else write_probe_loop readable rest)
   }"

definition write_probe :: "(u32 \<Rightarrow> bool) \<Rightarrow> Alignment option option" where
  "write_probe readable = write_probe_loop readable [512, 1024, 2048, 4096]"

text \<open>
  On Linux the alignment reported for a file is the one \<open>statx\<close> names, when the call
  succeeds and names one, and otherwise the one the fallback discovers.
\<close>

definition probe_direct_alignment ::
  "bool \<Rightarrow> u8 list option \<Rightarrow> (u32 \<Rightarrow> bool) \<Rightarrow> Alignment option option" where
  "probe_direct_alignment little statx_buf readable =
     (case Option.bind statx_buf (statx_dio_alignment little) of
        Some a \<Rightarrow> Some (Some a)
      | None \<Rightarrow> write_probe readable)"

section \<open>Lemmas\<close>

lemma Alignment_new_Some: "Alignment_new b = Some a \<longleftrightarrow> is_power_of_two b \<and> a = Alignment b"
  using is_power_of_two_pos [of b] by (auto simp: Alignment_new_def)

lemma mask_check_iff:
  assumes "is_power_of_two (a :: u32)"
  shows "(off :: u64) AND (ucast a - 1) = 0 \<longleftrightarrow> unat off mod unat a = 0"
proof -
  obtain k where k: "k < 32" "unat a = 2 ^ k"
    using assms by (auto simp: is_power_of_two_iff)
  have "unat (off AND (ucast a - 1)) = unat off mod unat a"
    using unat_and_decr_power_of_two [of "ucast a :: u64" k off] k by (simp add: unat_ucast_64)
  then show ?thesis
    by (metis unat_0_iff)
qed


lemma Alignment_check_eq:
  "is_power_of_two (get a) \<Longrightarrow> Alignment_check a off =
     Some (if unat (get a) dvd unat off then Ok () else Err \<lparr>offset_bytes = off, alignment = a\<rparr>)"
  by (simp add: Alignment_check_def mask_check_iff mod_eq_0_iff_dvd)

lemma statx_dio_alignment_power_of_two:
  "statx_dio_alignment little buf = Some a \<Longrightarrow> is_power_of_two (get a)"
  by (auto simp: statx_dio_alignment_def Let_def bind_Some_iff Alignment_new_Some max_def split: if_splits)

lemma write_probe_loop_power_of_two:
  "write_probe_loop readable cs = Some (Some a) \<Longrightarrow> is_power_of_two (get a)"
  by (induction cs) (auto simp: Alignment_new_Some split: option.splits if_splits)

lemma probe_direct_alignment_power_of_two:
  "probe_direct_alignment little buf readable = Some (Some a) \<Longrightarrow> is_power_of_two (get a)"
  unfolding probe_direct_alignment_def write_probe_def
  using write_probe_loop_power_of_two [of readable _ a]
  by (auto simp del: write_probe_loop.simps simp: bind_Some_iff
      intro: statx_dio_alignment_power_of_two split: option.splits)

lemma probe_Direct:
  "probe probed enabled policy g = Some (Ok (Direct a)) \<Longrightarrow>
     probed = Some a \<and> direct_arena_compatible g a \<and> is_power_of_two g"
  by (auto simp: probe_def direct_unavailable_def split: if_splits option.splits sum.splits)

section \<open>Properties\<close>

text \<open>
  C35.  A file that \<open>probe\<close> reports as direct accepts every page of the arena: the
  offset of each granule index, and each whole-page length, passes the alignment
  check of the alignment the kernel reported, whichever way it was discovered.
\<close>

theorem direct_pages_are_aligned:
  assumes "probe_direct_alignment little statx_buf readable = Some probed"
    and "probe probed enabled policy granule = Some (Ok (Direct a))"
  shows "Alignment_check a (ucast (idx :: u32) * ucast granule) = Some (Ok ())"
proof -
  have a: "probed = Some a" "direct_arena_compatible granule a"
    using probe_Direct [OF assms(2)] by simp_all
  then have pow: "is_power_of_two (get a)"
    using assms(1) probe_direct_alignment_power_of_two by blast
  have "unat (get a) dvd unat granule"
    using a(2) by (auto simp: direct_arena_compatible_def Let_def word_unat_eq_iff unat_mod_distrib
        mod_eq_0_iff_dvd)
  moreover have "unat idx * unat granule < 2 ^ 32 * 2 ^ 32"
    by (intro mult_strict_mono) (use unsigned_less [where 'a = nat, of idx]
        unsigned_less [where 'a = nat, of granule] in simp_all)
  then have "unat (ucast idx * ucast granule :: u64) = unat idx * unat granule"
    by (simp add: unat_mul_small unat_ucast_64)
  ultimately show ?thesis
    by (simp add: Alignment_check_eq [OF pow])
qed

theorem direct_pages_are_aligned_witness:
  "Alignment_check (Alignment 1024) (ucast (7 :: u32) * ucast (4096 :: u32)) = Some (Ok ())"
proof (rule direct_pages_are_aligned)
  show "probe_direct_alignment True None (\<lambda>c. 1024 \<le> c) = Some (Some (Alignment 1024))"
    by (simp add: probe_direct_alignment_def write_probe_def Alignment_new_def
        is_power_of_two_exp [of 9, simplified] is_power_of_two_exp [of 10, simplified])
  show "probe (Some (Alignment 1024)) (Ok ()) Preferred 4096 = Some (Ok (Direct (Alignment 1024)))"
    by (simp add: probe_def direct_arena_compatible_def is_power_of_two_exp [of 12, simplified])
qed

text \<open>
  C36.  \<open>Alignment::check\<close> with a constructed alignment never panics; it accepts exactly
  the multiples of the alignment, and its error carries both operands.
\<close>

theorem Alignment_check_exact:
  assumes "Alignment_new bytes = Some a"
  shows "Alignment_check a off = Some (if unat bytes dvd unat off then Ok ()
           else Err \<lparr>offset_bytes = off, alignment = Alignment bytes\<rparr>)"
  using assms by (simp add: Alignment_new_Some Alignment_check_eq)

theorem Alignment_check_exact_witness:
  "Alignment_check (Alignment 512) 1000 = Some (Err \<lparr>offset_bytes = 1000, alignment = Alignment 512\<rparr>)"
proof -
  have "Alignment_new 512 = Some (Alignment 512)"
    by (simp add: Alignment_new_def is_power_of_two_exp [of 9, simplified])
  from Alignment_check_exact [OF this, of 1000] show ?thesis
    by (simp add: dvd_eq_mod_eq_0)
qed

end
