(* ===== verification/Retry.thy ===== *)
theory Retry
  imports Read_Vector Alignment
begin

text \<open>
  The retry policy of \<open>driver.rs\<close>: the loop \<open>execute\<close> runs over the attempts of an eager
  backend, and the per-completion step \<open>ring_progress\<close> of the ring backend.  A backend is an
  argument: what it answers to the \<open>n\<close>-th attempt of an operation.  \<open>linux\<close> selects the
  platform's \<open>EAGAIN\<close>.
\<close>

section \<open>Operations\<close>

definition EINTR :: int where "EINTR = 4"
definition EIO :: int where "EIO = 5"
definition EBADF :: int where "EBADF = 9"
definition EAGAIN :: "bool \<Rightarrow> int" where "EAGAIN linux = (if linux then 11 else 35)"

datatype Attempt = Done u32 | Failed int | Interrupted | WouldBlock

datatype FrameLease = Absent | Pool | Raw

datatype ReadPurpose = Demand | Speculative | PurposeContinuation

datatype ReadLease = LeasePool InFlightFrame ReadPurpose | LeaseRaw InFlightFrame

fun ReadLease_split :: "ReadLease \<Rightarrow> InFlightFrame \<times> FrameLease \<times> ReadPurpose" where
  "ReadLease_split (LeasePool token purpose) = (token, Pool, purpose)"
| "ReadLease_split (LeaseRaw token) = (token, Raw, Demand)"

datatype OpState = Queued | Active | Continuation | Terminal "int + u32"

record OpEntry =
  oe_kind :: OpKind
  oe_sync_mode :: SyncMode
  oe_fd :: FileId
  oe_file_offset :: u64
  oe_frame :: "ReadDestination option"
  oe_destination_offset :: u32
  oe_requested_len :: u32
  oe_frame_lease :: FrameLease
  oe_write_slot :: "u32 option"
  oe_retries :: u32
  oe_io_mode :: IoMode
  oe_state :: OpState

record OpContext =
  cx_fd :: FileId
  cx_file_offset :: u64
  cx_frame :: "ReadDestination option"
  cx_destination_offset :: u32
  cx_requested_len :: u32
  cx_write_buf :: "u8 list"
  cx_sync_mode :: SyncMode

definition OpContext_read :: "FileId \<Rightarrow> u64 \<Rightarrow> ReadDestination \<Rightarrow> u32 \<Rightarrow> u32 \<Rightarrow> OpContext" where
  "OpContext_read fd file_offset frame dest len =
     \<lparr>cx_fd = fd, cx_file_offset = file_offset, cx_frame = Some frame, cx_destination_offset = dest,
      cx_requested_len = len, cx_write_buf = [], cx_sync_mode = FullSync\<rparr>"

definition OpContext_write :: "FileId \<Rightarrow> u64 \<Rightarrow> u32 \<Rightarrow> u8 list \<Rightarrow> OpContext option" where
  "OpContext_write fd file_offset source_offset write_buf = do {
     assert (length write_buf < 2 ^ 32);
     Some \<lparr>cx_fd = fd, cx_file_offset = file_offset, cx_frame = None, cx_destination_offset = source_offset,
           cx_requested_len = of_nat (length write_buf), cx_write_buf = write_buf, cx_sync_mode = FullSync\<rparr>
   }"

definition OpContext_fsync :: "FileId \<Rightarrow> SyncMode \<Rightarrow> OpContext" where
  "OpContext_fsync fd mode =
     \<lparr>cx_fd = fd, cx_file_offset = 0, cx_frame = None, cx_destination_offset = 0, cx_requested_len = 0,
      cx_write_buf = [], cx_sync_mode = mode\<rparr>"

definition advance_write :: "OpContext \<Rightarrow> u32 \<Rightarrow> OpContext option" where
  "advance_write c bytes = do {
     assert (bytes > 0);
     assert (bytes < cx_requested_len c);
     assert (unat bytes \<le> length (cx_write_buf c));
     OpContext_write (cx_fd c) (cx_file_offset c + ucast bytes) (cx_destination_offset c + bytes)
       (drop (unat bytes) (cx_write_buf c))
   }"

section \<open>The eager retry loop\<close>

text \<open>One turn of the loop: the outcome, or the retry count and context of the next attempt.
  The outer option is a panic.\<close>

definition execute_step :: "bool \<Rightarrow> u32 \<Rightarrow> OpKind \<Rightarrow> u32 \<Rightarrow> Attempt \<Rightarrow> u32 \<Rightarrow> OpContext \<Rightarrow>
    ((int + u32) + (u32 \<times> OpContext)) option" where
  "execute_step linux retry_bound kind logical_len attempt retries c =
     (case attempt of
        Done bytes \<Rightarrow> do {
          assert (bytes \<le> cx_requested_len c);
          if kind \<noteq> Write then Some (Inl (Inr bytes))
          else if bytes = cx_requested_len c then Some (Inl (Inr logical_len))
          else if bytes > 0 then do { c' \<leftarrow> advance_write c bytes; Some (Inr (retries, c')) }
          else if retries \<ge> retry_bound then Some (Inl (Inl EIO))
          else Some (Inr (retries + 1, c))
        }
      | Failed errno \<Rightarrow> Some (Inl (Inl errno))
      | Interrupted \<Rightarrow>
          if retries \<ge> retry_bound then Some (Inl (Inl EINTR)) else Some (Inr (retries + 1, c))
      | WouldBlock \<Rightarrow>
          if kind \<noteq> Read then Some (Inl (Inl (EAGAIN linux)))
          else if retries \<ge> retry_bound then Some (Inl (Inl (EAGAIN linux)))
          else Some (Inr (retries + 1, c)))"

lemma advance_write_shrinks: "advance_write c bytes = Some c' \<Longrightarrow> length (cx_write_buf c') < length (cx_write_buf c)"
  by (auto simp: advance_write_def OpContext_write_def bind_Some_iff word_less_nat_alt)

lemma retry_counts:
  assumes "\<not> (retry_bound :: u32) \<le> retries"
  shows "unat retry_bound - unat (retries + 1) < unat retry_bound - unat retries"
proof -
  have "retries < - 1"
    using assms by (metis not_le order_less_le_trans word_order.extremum)
  then show ?thesis
    using assms below_max_Suc [of retries] by (simp add: word_le_nat_alt)
qed

lemma execute_step_decreases:
  assumes "execute_step linux retry_bound kind logical_len attempt retries c = Some (Inr (retries', c'))"
  shows "length (cx_write_buf c') + (unat retry_bound - unat retries')
    < length (cx_write_buf c) + (unat retry_bound - unat retries)"
  using assms retry_counts [of retry_bound retries] advance_write_shrinks [of c _ c']
  by (auto simp: execute_step_def bind_Some_iff split: Attempt.splits if_splits)

text \<open>\<open>execute\<close>, with the attempts it makes: each context handed to the backend and the answer.\<close>

function execute_loop :: "bool \<Rightarrow> u32 \<Rightarrow> (nat \<Rightarrow> OpContext \<Rightarrow> Attempt) \<Rightarrow> OpKind \<Rightarrow> u32 \<Rightarrow> nat \<Rightarrow> u32 \<Rightarrow> OpContext \<Rightarrow>
    ((int + u32) \<times> ReadDestination option \<times> (OpContext \<times> Attempt) list) option" where
  "execute_loop linux retry_bound backend kind logical_len n retries c =
     (let attempt = backend n c in
      case execute_step linux retry_bound kind logical_len attempt retries c of
        None \<Rightarrow> None
      | Some (Inl outcome) \<Rightarrow> Some (outcome, cx_frame c, [(c, attempt)])
      | Some (Inr (retries', c')) \<Rightarrow>
          map_option (\<lambda>(outcome, frame, trace). (outcome, frame, (c, attempt) # trace))
            (execute_loop linux retry_bound backend kind logical_len (Suc n) retries' c'))"
  by auto
termination
  by (relation "measure (\<lambda>(linux, retry_bound, backend, kind, logical_len, n, retries, c).
      length (cx_write_buf c) + (unat retry_bound - unat retries))")
    (auto intro: execute_step_decreases)

definition execute :: "bool \<Rightarrow> u32 \<Rightarrow> (nat \<Rightarrow> OpContext \<Rightarrow> Attempt) \<Rightarrow> OpKind \<Rightarrow> OpContext \<Rightarrow>
    ((int + u32) \<times> ReadDestination option \<times> (OpContext \<times> Attempt) list) option" where
  "execute linux retry_bound backend kind ctx =
     execute_loop linux retry_bound backend kind (cx_requested_len ctx) 0 0 ctx"

declare execute_loop.simps [simp del]

section \<open>Blocking metadata writes\<close>

text \<open>\<open>write_all_blocking\<close> and \<open>fsync_blocking\<close>: \<open>backend k\<close> answers the attempts of the \<open>k\<close>-th call of
  \<open>execute\<close>; \<open>live\<close> is the answer of the file table.\<close>

function write_all_loop :: "bool \<Rightarrow> u32 \<Rightarrow> (nat \<Rightarrow> nat \<Rightarrow> OpContext \<Rightarrow> Attempt) \<Rightarrow> FileId \<Rightarrow> u8 list \<Rightarrow> u64 \<Rightarrow> u32 \<Rightarrow> nat \<Rightarrow> u32 \<Rightarrow>
    ((IoError + unit) \<times> (OpContext \<times> Attempt) list) option" where
  "write_all_loop linux retry_bound backend fd buf offset total_len k written =
     (if written < total_len then do {
        let remaining = total_len - written;
        c \<leftarrow> OpContext_write fd (offset + ucast written) written (drop (unat written) buf);
        (outcome, _, trace) \<leftarrow> execute linux retry_bound (backend k) Write c;
        case outcome of
          Inr bytes \<Rightarrow>
            if bytes \<le> remaining \<and> bytes > 0 then
              map_option (\<lambda>(r, trace'). (r, trace @ trace'))
                (write_all_loop linux retry_bound backend fd buf offset total_len (Suc k) (written + bytes))
            else None
        | Inl errno \<Rightarrow> Some (Inl (FromRaw errno), trace)
      }
      else Some (Inr (), []))"
  by auto
termination
proof (relation "measure (\<lambda>(linux, retry_bound, backend, fd, buf, offset, total_len, k, written). unat total_len - unat written)",
    goal_cases)
  case (2 linux retry_bound backend fd buf offset total_len k written x c ret outcome y z trace bytes)
  then have "unat bytes \<le> unat total_len - unat written" "unat written < unat total_len" "0 < unat bytes"
    by (auto simp: word_le_nat_alt word_less_nat_alt unat_sub_le)
  moreover from this have "unat (written + bytes) = unat written + unat bytes"
    using unsigned_less [where 'a = nat, of total_len] by (intro unat_add_small) simp
  ultimately show ?case
    by simp
qed simp

definition write_all_blocking :: "bool \<Rightarrow> u32 \<Rightarrow> (nat \<Rightarrow> nat \<Rightarrow> OpContext \<Rightarrow> Attempt) \<Rightarrow> bool \<Rightarrow> FileId \<Rightarrow> u8 list \<Rightarrow> u64 \<Rightarrow>
    ((IoError + unit) \<times> (OpContext \<times> Attempt) list) option" where
  "write_all_blocking linux retry_bound backend live fd buf offset = do {
     assert (length buf < 2 ^ 32);
     if \<not> live then Some (Inl (FromRaw EBADF), [])
     else write_all_loop linux retry_bound backend fd buf offset (of_nat (length buf)) 0 0
   }"

definition fsync_blocking :: "bool \<Rightarrow> u32 \<Rightarrow> (nat \<Rightarrow> OpContext \<Rightarrow> Attempt) \<Rightarrow> bool \<Rightarrow> FileId \<Rightarrow> SyncMode \<Rightarrow> (IoError + unit) option" where
  "fsync_blocking linux retry_bound backend live fd mode =
     (if \<not> live then Some (Inl (FromRaw EBADF))
      else do {
        (outcome, _, _) \<leftarrow> execute linux retry_bound backend Fsync (OpContext_fsync fd mode);
        Some (case outcome of Inr _ \<Rightarrow> Inr () | Inl errno \<Rightarrow> Inl (FromRaw errno))
      })"

declare write_all_loop.simps [simp del]

section \<open>The ring retry step\<close>

text \<open>Negating the most negative \<open>i32\<close> overflows; the kernel never returns it.\<close>

definition ring_result :: "int \<Rightarrow> (IoError + u32) option" where
  "ring_result raw = (if raw < 0 then do { assert (raw > - (2 ^ 31)); Some (Inl (FromRaw (- raw))) }
     else Some (Inr (of_int raw)))"

datatype RingProgress = Resubmit | RingTerminal "IoError + u32"

definition ring_should_retry :: "bool \<Rightarrow> OpKind \<Rightarrow> int \<Rightarrow> u32 \<Rightarrow> u32 \<Rightarrow> bool option" where
  "ring_should_retry linux kind raw retries retry_bound =
     (if raw \<ge> 0 \<or> retries \<ge> retry_bound then Some False
      else do {
        assert (raw > - (2 ^ 31));
        Some (if - raw = EINTR then True else if - raw = EAGAIN linux then kind = Read else False)
      })"

definition ring_progress :: "bool \<Rightarrow> OpEntry \<Rightarrow> int \<Rightarrow> u32 \<Rightarrow> (RingProgress \<times> OpEntry) option" where
  "ring_progress linux entry raw retry_bound = do {
     retry \<leftarrow> ring_should_retry linux (oe_kind entry) raw (oe_retries entry) retry_bound;
     if retry then Some (Resubmit, entry\<lparr>oe_retries := oe_retries entry + 1\<rparr>)
     else if oe_kind entry \<noteq> Write \<or> raw < 0 then do { r \<leftarrow> ring_result raw; Some (RingTerminal r, entry) }
     else do {
       let bytes = (of_int raw :: u32);
       assert (bytes \<le> oe_requested_len entry);
       if bytes = oe_requested_len entry then Some (RingTerminal (Inr (oe_destination_offset entry + bytes)), entry)
       else if bytes = 0 then
         (if oe_retries entry \<ge> retry_bound then Some (RingTerminal (Inl (FromRaw EIO)), entry)
          else Some (Resubmit, entry\<lparr>oe_retries := oe_retries entry + 1\<rparr>))
       else Some (Resubmit, entry\<lparr>oe_file_offset := oe_file_offset entry + ucast bytes,
                                oe_destination_offset := oe_destination_offset entry + bytes,
                                oe_requested_len := oe_requested_len entry - bytes\<rparr>)
     }
   }"

lemma ring_progress_decreases:
  assumes "ring_progress linux e raw retry_bound = Some (Resubmit, e')"
  shows "unat (oe_requested_len e') + (unat retry_bound - unat (oe_retries e'))
    < unat (oe_requested_len e) + (unat retry_bound - unat (oe_retries e))"
proof -
  have tail: "unat (len - bytes) < unat len" if "bytes \<le> len" "bytes \<noteq> 0" for len bytes :: u32
    using that unat_sub_le [of bytes len] by (simp add: word_le_nat_alt unat_gt_0 [symmetric])
  show ?thesis
    using assms retry_counts [of retry_bound "oe_retries e"] tail [of "of_int raw" "oe_requested_len e"]
    by (auto simp: ring_progress_def ring_should_retry_def bind_Some_iff Let_def split: if_splits)
qed

text \<open>An operation on the ring: each completion is resubmitted until one is terminal.  \<open>cqe\<close>
  gives the result of the \<open>n\<close>-th submission of an entry.\<close>

function ring_run :: "bool \<Rightarrow> u32 \<Rightarrow> (nat \<Rightarrow> OpEntry \<Rightarrow> int) \<Rightarrow> nat \<Rightarrow> OpEntry \<Rightarrow> (IoError + u32) option" where
  "ring_run linux retry_bound cqe n e =
     (case ring_progress linux e (cqe n e) retry_bound of
        None \<Rightarrow> None
      | Some (RingTerminal r, _) \<Rightarrow> Some r
      | Some (Resubmit, e') \<Rightarrow> ring_run linux retry_bound cqe (Suc n) e')"
  by auto
termination
  by (relation "measure (\<lambda>(linux, retry_bound, cqe, n, e).
      unat (oe_requested_len e) + (unat retry_bound - unat (oe_retries e)))")
    (auto intro: ring_progress_decreases)

declare ring_run.simps [simp del]

section \<open>Both policies agree\<close>

text \<open>The context an entry is executed with; \<open>buf\<close> is the leased write region.\<close>

definition entry_context :: "u8 list \<Rightarrow> OpEntry \<Rightarrow> OpContext" where
  "entry_context buf e =
     \<lparr>cx_fd = oe_fd e, cx_file_offset = oe_file_offset e, cx_frame = oe_frame e,
      cx_destination_offset = oe_destination_offset e, cx_requested_len = oe_requested_len e,
      cx_write_buf = (if oe_kind e = Write then drop (unat (oe_destination_offset e)) buf else []),
      cx_sync_mode = oe_sync_mode e\<rparr>"

text \<open>The completion result the kernel posts for an attempt's outcome.\<close>

fun raw_of :: "bool \<Rightarrow> Attempt \<Rightarrow> int" where
  "raw_of linux (Done bytes) = uint bytes"
| "raw_of linux (Failed errno) = - errno"
| "raw_of linux Interrupted = - EINTR"
| "raw_of linux WouldBlock = - EAGAIN linux"

text \<open>An attempt that respects its request and classifies errors as \<open>backend/eager.rs\<close> does.\<close>

fun proper_attempt :: "bool \<Rightarrow> u32 \<Rightarrow> Attempt \<Rightarrow> bool" where
  "proper_attempt linux len (Done bytes) \<longleftrightarrow> bytes \<le> len \<and> unat bytes < 2 ^ 31"
| "proper_attempt linux len (Failed errno) \<longleftrightarrow> 0 < errno \<and> errno < 2 ^ 31 \<and> errno \<noteq> EINTR \<and> errno \<noteq> EAGAIN linux"
| "proper_attempt linux len _ \<longleftrightarrow> True"

definition write_shape :: "u8 list \<Rightarrow> OpEntry \<Rightarrow> bool" where
  "write_shape buf e \<longleftrightarrow> (oe_kind e = Write \<longrightarrow> oe_frame e = None \<and> oe_sync_mode e = FullSync \<and> length buf < 2 ^ 32
     \<and> unat (oe_destination_offset e) + unat (oe_requested_len e) = length buf)"

definition logical_len :: "u8 list \<Rightarrow> OpEntry \<Rightarrow> u32" where
  "logical_len buf e = (if oe_kind e = Write then of_nat (length buf) else oe_requested_len e)"

lemma advance_write_entry:
  assumes "write_shape buf e" "oe_kind e = Write" "0 < bytes" "bytes < oe_requested_len e"
  shows "advance_write (entry_context buf e) bytes = Some (entry_context buf
      (e\<lparr>oe_file_offset := oe_file_offset e + ucast bytes, oe_destination_offset := oe_destination_offset e + bytes,
         oe_requested_len := oe_requested_len e - bytes\<rparr>))"
    and "write_shape buf (e\<lparr>oe_file_offset := oe_file_offset e + ucast bytes,
      oe_destination_offset := oe_destination_offset e + bytes, oe_requested_len := oe_requested_len e - bytes\<rparr>)"
proof -
  have b: "unat (oe_destination_offset e) + unat (oe_requested_len e) = length buf" "length buf < 2 ^ 32"
    "unat bytes < unat (oe_requested_len e)"
    using assms by (simp_all add: write_shape_def word_less_nat_alt)
  have d: "unat (oe_destination_offset e + bytes) = unat (oe_destination_offset e) + unat bytes"
    using b by (intro unat_add_small) simp
  have r: "unat (oe_requested_len e - bytes) = unat (oe_requested_len e) - unat bytes"
    using b(3) by (simp add: unat_sub_le word_le_nat_alt)
  have "of_nat (length buf - (unat (oe_destination_offset e) + unat bytes)) = oe_requested_len e - bytes"
    using b r by (intro unat_eq_of_nat_u32 [symmetric]) simp
  moreover have "length buf - (unat (oe_destination_offset e) + unat bytes) < 2 ^ 32"
    using b(2) by simp
  ultimately show "advance_write (entry_context buf e) bytes = Some (entry_context buf
      (e\<lparr>oe_file_offset := oe_file_offset e + ucast bytes, oe_destination_offset := oe_destination_offset e + bytes,
         oe_requested_len := oe_requested_len e - bytes\<rparr>))"
    using assms b by (simp add: advance_write_def OpContext_write_def entry_context_def d write_shape_def
        add.commute [of "unat bytes" "unat (oe_destination_offset e)"])
  show "write_shape buf (e\<lparr>oe_file_offset := oe_file_offset e + ucast bytes,
      oe_destination_offset := oe_destination_offset e + bytes, oe_requested_len := oe_requested_len e - bytes\<rparr>)"
    using assms(1) b by (simp add: write_shape_def d r)
qed

lemma uint_u32: "(of_int (uint w) :: u32) = w" "\<not> uint w < 0" for w :: u32
  by simp_all

lemma policy_step:
  fixes bound :: u32
  assumes shape: "write_shape buf e" and a: "proper_attempt linux (oe_requested_len e) a"
  defines "step \<equiv> execute_step linux bound (oe_kind e) (logical_len buf e) a (oe_retries e) (entry_context buf e)"
  shows "(\<exists>out. step = Some (Inl out)
           \<and> ring_progress linux e (raw_of linux a) bound = Some (RingTerminal (map_sum FromRaw id out), e))
     \<or> (\<exists>e'. step = Some (Inr (oe_retries e', entry_context buf e'))
           \<and> ring_progress linux e (raw_of linux a) bound = Some (Resubmit, e')
           \<and> write_shape buf e' \<and> oe_kind e' = oe_kind e \<and> logical_len buf e' = logical_len buf e
           \<and> oe_frame e' = oe_frame e)"
proof (cases a)
  case (Done bytes)
  note [simp] = step_def execute_step_def ring_progress_def ring_should_retry_def ring_result_def Let_def
    entry_context_def logical_len_def Done
  have le: "bytes \<le> oe_requested_len e"
    using a by simp
  consider "oe_kind e \<noteq> Write" | "oe_kind e = Write" "bytes = oe_requested_len e"
    | "oe_kind e = Write" "bytes \<noteq> oe_requested_len e" "bytes = 0"
    | "oe_kind e = Write" "0 < bytes" "bytes < oe_requested_len e"
    using le by (metis order_le_less word_gt_0)
  then show ?thesis
  proof cases
    case 1
    then show ?thesis
      using le by simp
  next
    case 2
    then have "of_nat (length buf) = oe_destination_offset e + bytes"
      using shape unfolding write_shape_def by (metis of_nat_add of_nat_unat ucast_id)
    then show ?thesis
      using 2 by simp
  next
    case 3
    then show ?thesis
      using shape by (cases "bound \<le> oe_retries e") (auto simp: write_shape_def)
  next
    case 4
    note adv = advance_write_entry [OF shape 4]
    show ?thesis
      using 4 adv by (intro disjI2 exI [of _ "e\<lparr>oe_file_offset := oe_file_offset e + ucast bytes,
        oe_destination_offset := oe_destination_offset e + bytes, oe_requested_len := oe_requested_len e - bytes\<rparr>"]) auto
  qed
next
  case (Failed errno)
  then show ?thesis
    using a by (simp add: step_def execute_step_def ring_progress_def ring_should_retry_def ring_result_def)
next
  case Interrupted
  then show ?thesis
    using shape by (cases "bound \<le> oe_retries e")
      (auto simp: step_def execute_step_def ring_progress_def ring_should_retry_def ring_result_def EINTR_def
        entry_context_def write_shape_def logical_len_def)
next
  case WouldBlock
  then show ?thesis
    using shape by (cases "bound \<le> oe_retries e"; cases "oe_kind e = Read")
      (auto simp: step_def execute_step_def ring_progress_def ring_should_retry_def ring_result_def EINTR_def
        EAGAIN_def entry_context_def write_shape_def logical_len_def)
qed

lemma policy_runs:
  fixes bound :: u32
  assumes backend: "\<And>n c. proper_attempt linux (cx_requested_len c) (backend n c)"
    and "write_shape buf e"
  shows "\<exists>out trace. execute_loop linux bound backend (oe_kind e) (logical_len buf e) n (oe_retries e) (entry_context buf e)
        = Some (out, oe_frame e, trace)
     \<and> ring_run linux bound (\<lambda>n e. raw_of linux (backend n (entry_context buf e))) n e = Some (map_sum FromRaw id out)
     \<and> length trace \<le> Suc (unat (oe_requested_len e) + (unat bound - unat (oe_retries e)))"
  using assms(2)
proof (induction "unat (oe_requested_len e) + (unat bound - unat (oe_retries e))" arbitrary: e n rule: less_induct)
  case less
  let ?a = "backend n (entry_context buf e)" and ?cqe = "\<lambda>n e. raw_of linux (backend n (entry_context buf e))"
  have "proper_attempt linux (oe_requested_len e) ?a"
    using backend [of "entry_context buf e"] by (simp add: entry_context_def)
  from policy_step [OF less.prems this, of bound] show ?case
  proof (elim disjE exE conjE)
    fix out
    assume "execute_step linux bound (oe_kind e) (logical_len buf e) ?a (oe_retries e) (entry_context buf e) = Some (Inl out)"
      "ring_progress linux e (raw_of linux ?a) bound = Some (RingTerminal (map_sum FromRaw id out), e)"
    then show ?case
      by (simp add: execute_loop.simps [of _ _ _ _ _ n] ring_run.simps [of _ _ _ n] Let_def entry_context_def)
  next
    fix e'
    assume e': "execute_step linux bound (oe_kind e) (logical_len buf e) ?a (oe_retries e) (entry_context buf e)
        = Some (Inr (oe_retries e', entry_context buf e'))"
      "ring_progress linux e (raw_of linux ?a) bound = Some (Resubmit, e')"
      "write_shape buf e'" "oe_kind e' = oe_kind e" "logical_len buf e' = logical_len buf e" "oe_frame e' = oe_frame e"
    note dec = ring_progress_decreases [OF e'(2)]
    from less.hyps [OF dec e'(3), of "Suc n"] obtain out trace where
      ih: "execute_loop linux bound backend (oe_kind e) (logical_len buf e) (Suc n) (oe_retries e') (entry_context buf e')
        = Some (out, oe_frame e, trace)"
      "ring_run linux bound ?cqe (Suc n) e' = Some (map_sum FromRaw id out)"
      "length trace \<le> Suc (unat (oe_requested_len e') + (unat bound - unat (oe_retries e')))"
      unfolding e'(4-6) by blast
    have "execute_loop linux bound backend (oe_kind e) (logical_len buf e) n (oe_retries e) (entry_context buf e)
        = Some (out, oe_frame e, (entry_context buf e, ?a) # trace)"
      using e'(1) ih(1) by (simp add: execute_loop.simps [of _ _ _ _ _ n] Let_def)
    moreover have "ring_run linux bound ?cqe n e = Some (map_sum FromRaw id out)"
      using e'(2) ih(2) by (simp add: ring_run.simps [of _ _ _ n])
    ultimately show ?case
      using ih(3) dec by auto
  qed
qed

text \<open>C28. The ring backend mirrors the eager retry policy: for a fresh operation and any backend
  whose attempts respect the requested length and classify errors as the eager one does, both
  loops return, with the same outcome, after at most one attempt per requested byte plus one per
  allowed retry plus one; neither panics.\<close>

theorem ring_mirrors_eager:
  assumes "\<And>n c. proper_attempt linux (cx_requested_len c) (backend n c)"
    and "write_shape buf e" "oe_retries e = 0" "oe_kind e = Write \<Longrightarrow> oe_destination_offset e = 0"
  shows "\<exists>out trace. execute linux retry_bound backend (oe_kind e) (entry_context buf e) = Some (out, oe_frame e, trace)
     \<and> ring_run linux retry_bound (\<lambda>n e. raw_of linux (backend n (entry_context buf e))) 0 e = Some (map_sum FromRaw id out)
     \<and> length trace \<le> unat (oe_requested_len e) + unat retry_bound + 1"
proof -
  have "cx_requested_len (entry_context buf e) = logical_len buf e"
    using assms(2,4) by (auto simp: entry_context_def logical_len_def write_shape_def unat_eq_of_nat_u32)
  then show ?thesis
    using policy_runs [where bound = retry_bound and n = 0, OF assms(1,2)] assms(3) by (simp add: execute_def)
qed

definition sample_entry :: "u32 \<Rightarrow> OpEntry" where
  "sample_entry len = \<lparr>oe_kind = Write, oe_sync_mode = FullSync, oe_fd = FileId_new 1 0 1, oe_file_offset = 100,
     oe_frame = None, oe_destination_offset = 0, oe_requested_len = len, oe_frame_lease = Absent,
     oe_write_slot = Some 0, oe_retries = 0, oe_io_mode = Buffered, oe_state = Active\<rparr>"

text \<open>A device that is interrupted, then writes one byte at a time.\<close>

definition sample_backend :: "nat \<Rightarrow> OpContext \<Rightarrow> Attempt" where
  "sample_backend n c = (if n = 0 then Interrupted else Done (min 1 (cx_requested_len c)))"

lemma sample_backend_proper: "proper_attempt linux (cx_requested_len c) (sample_backend n c)"
  by (auto simp: sample_backend_def min_def word_le_nat_alt)

theorem ring_mirrors_eager_witness:
  "\<exists>out trace. execute True 3 sample_backend Write (entry_context [7, 8, 9] (sample_entry 3)) = Some (out, None, trace)
     \<and> ring_run True 3 (\<lambda>n e. raw_of True (sample_backend n (entry_context [7, 8, 9] e))) 0 (sample_entry 3)
       = Some (map_sum FromRaw id out)
     \<and> length trace \<le> 7"
  using ring_mirrors_eager [where backend = sample_backend and linux = True and retry_bound = 3
      and buf = "[7, 8, 9]" and e = "sample_entry 3"] sample_backend_proper
  by (simp add: write_shape_def sample_entry_def)

section \<open>Where the bytes go\<close>

definition written_bytes :: "(OpContext \<times> Attempt) list \<Rightarrow> (u64 \<times> u8) list" where
  "written_bytes trace = concat (map (\<lambda>(c, a). case a of
       Done bytes \<Rightarrow> map (\<lambda>i. (cx_file_offset c + of_nat i, cx_write_buf c ! i)) [0..<unat bytes]
     | _ \<Rightarrow> []) trace)"

definition image_at :: "u64 \<Rightarrow> u8 list \<Rightarrow> nat \<Rightarrow> (u64 \<times> u8) list" where
  "image_at offset buf m = map (\<lambda>i. (offset + of_nat i, buf ! i)) [0..<m]"

lemma written_bytes_simps [simp]:
  "written_bytes [] = []"
  "written_bytes ((c, Done bytes) # trace) = image_at (cx_file_offset c) (cx_write_buf c) (unat bytes) @ written_bytes trace"
  "written_bytes ((c, Failed errno) # trace) = written_bytes trace"
  "written_bytes ((c, Interrupted) # trace) = written_bytes trace"
  "written_bytes ((c, WouldBlock) # trace) = written_bytes trace"
  "written_bytes (trace @ trace') = written_bytes trace @ written_bytes trace'"
  by (simp_all add: written_bytes_def image_at_def)

lemma image_at_0 [simp]: "image_at offset buf 0 = []"
  by (simp add: image_at_def)

lemma image_at_split:
  assumes "b + m \<le> length buf"
  shows "image_at offset buf b @ image_at (offset + of_nat b) (drop b buf) m = image_at offset buf (b + m)"
proof (rule nth_equalityI)
  fix i assume "i < length (image_at offset buf b @ image_at (offset + of_nat b) (drop b buf) m)"
  then have "i < b + m"
    by (simp add: image_at_def)
  then show "(image_at offset buf b @ image_at (offset + of_nat b) (drop b buf) m) ! i = image_at offset buf (b + m) ! i"
    using assms by (auto simp: image_at_def nth_append)
qed (simp add: image_at_def)

lemma execute_loop_image:
  assumes "execute_loop linux bound backend Write len n retries c = Some (out, fr, trace)"
    and "cx_requested_len c = of_nat (length (cx_write_buf c))" "length (cx_write_buf c) < 2 ^ 32"
  shows "\<exists>m \<le> length (cx_write_buf c). written_bytes trace = image_at (cx_file_offset c) (cx_write_buf c) m
    \<and> (\<forall>k. out = Inr k \<longrightarrow> m = length (cx_write_buf c) \<and> k = len)"
  using assms
proof (induction linux bound backend "Write" len n retries c arbitrary: trace rule: execute_loop.induct)
  case (1 linux bound backend len n retries c)
  let ?a = "backend n c" and ?buf = "cx_write_buf c"
  have req: "unat (cx_requested_len c) = length ?buf"
    using 1(3,4) by (simp add: unat_of_nat_u32)
  obtain r where r: "execute_step linux bound Write len ?a retries c = Some r"
    using 1(2) by (cases "execute_step linux bound Write len ?a retries c")
      (auto simp: execute_loop.simps [of _ _ _ _ _ n] Let_def)
  show ?case
  proof (cases r)
    case (Inl out')
    then have "trace = [(c, ?a)]" "out' = out"
      using 1(2) r by (simp_all add: execute_loop.simps [of _ _ _ _ _ n] Let_def)
    then show ?thesis
      using r Inl req by (cases ?a) (auto simp: execute_step_def bind_Some_iff word_gt_0 split: if_splits)
  next
    case (Inr p)
    then obtain retries' c' where p: "r = Inr (retries', c')"
      by (cases p) simp
    then obtain rest where rest: "execute_loop linux bound backend Write len (Suc n) retries' c' = Some (out, fr, rest)"
      "trace = (c, ?a) # rest"
      using 1(2) r by (auto simp: execute_loop.simps [of _ _ _ _ _ n] Let_def)
    show ?thesis
    proof (cases "\<exists>b. ?a = Done b \<and> 0 < b")
      case True
      then obtain b where b: "?a = Done b" "0 < b" "b < cx_requested_len c" "advance_write c b = Some c'"
        using r p by (auto simp: execute_step_def bind_Some_iff order_less_le split: if_splits)
      have c': "cx_write_buf c' = drop (unat b) ?buf" "cx_file_offset c' = cx_file_offset c + of_nat (unat b)"
        "cx_requested_len c' = of_nat (length (cx_write_buf c'))" "length (cx_write_buf c') < 2 ^ 32" "unat b \<le> length ?buf"
        using b(4) 1(4) by (auto simp: advance_write_def OpContext_write_def bind_Some_iff unsigned_ucast_eq)
      obtain m where m: "m \<le> length ?buf - unat b"
        "written_bytes rest = image_at (cx_file_offset c') (cx_write_buf c') m"
        "\<forall>k. out = Inr k \<longrightarrow> m = length ?buf - unat b \<and> k = len"
        using 1(1) [OF refl r p refl rest(1) c'(3,4)] c'(1) by auto
      then show ?thesis
        using image_at_split [of "unat b" m ?buf "cx_file_offset c"] b(1) c' rest(2)
        by (intro exI [of _ "unat b + m"]) auto
    next
      case False
      then have "c' = c" "\<forall>b. ?a = Done b \<longrightarrow> b = 0"
        using r p by (auto simp: execute_step_def bind_Some_iff word_gt_0 split: Attempt.splits if_splits)
      then show ?thesis
        using 1(1) [OF refl r p refl rest(1)] 1(3,4) rest(2) by (cases ?a) auto
    qed
  qed
qed

lemma execute_loop_total:
  assumes "\<And>n c. proper_attempt linux (cx_requested_len c) (backend n c)"
    and "cx_requested_len c = of_nat (length (cx_write_buf c))" "length (cx_write_buf c) < 2 ^ 32"
  shows "execute_loop linux bound backend Write len n retries c \<noteq> None"
  using assms
proof (induction linux bound backend "Write" len n retries c rule: execute_loop.induct)
  case (1 linux bound backend len n retries c)
  let ?a = "backend n c"
  have a: "proper_attempt linux (cx_requested_len c) ?a"
    by (rule 1(2))
  have adv: "\<exists>c'. advance_write c b = Some c'" if "0 < b" "b < cx_requested_len c" for b
    using that 1(3,4) by (auto simp: advance_write_def OpContext_write_def word_less_nat_alt unat_of_nat_u32)
  have "execute_step linux bound Write len ?a retries c \<noteq> None"
  proof (cases ?a)
    case (Done b)
    then show ?thesis
      using a adv [of b] by (cases "b = cx_requested_len c"; cases "0 < b") (auto simp: execute_step_def order_less_le)
  qed (simp_all add: execute_step_def)
  then obtain r where r: "execute_step linux bound Write len ?a retries c = Some r"
    by blast
  show ?case
  proof (cases r)
    case (Inr p)
    then obtain retries' c' where p: "r = Inr (retries', c')"
      by (cases p) simp
    have "cx_requested_len c' = of_nat (length (cx_write_buf c'))" "length (cx_write_buf c') < 2 ^ 32"
      using r p 1(3,4) by (auto simp: execute_step_def advance_write_def OpContext_write_def bind_Some_iff
          split: Attempt.splits if_splits)
    from 1(1) [OF refl r p refl 1(2) this] show ?thesis
      using r p by (simp add: execute_loop.simps [of _ _ _ _ _ n] Let_def)
  qed (use r in \<open>simp add: execute_loop.simps [of _ _ _ _ _ n] Let_def\<close>)
qed

lemma execute_write:
  assumes "\<And>n c. proper_attempt linux (cx_requested_len c) (backend n c)"
    and c: "OpContext_write fd off src buf = Some c"
  obtains out fr trace m where "execute linux bound backend Write c = Some (out, fr, trace)" "m \<le> length buf"
    "written_bytes trace = image_at off buf m" "\<And>k. out = Inr k \<Longrightarrow> m = length buf \<and> k = of_nat (length buf)"
proof -
  have shape: "cx_requested_len c = of_nat (length buf)" "length buf < 2 ^ 32" "cx_write_buf c = buf" "cx_file_offset c = off"
    using c by (auto simp: OpContext_write_def bind_Some_iff)
  obtain out fr trace where e: "execute_loop linux bound backend Write (cx_requested_len c) 0 0 c = Some (out, fr, trace)"
    using execute_loop_total [of linux backend c bound "cx_requested_len c" 0 0] assms(1) shape
    by (cases "execute_loop linux bound backend Write (cx_requested_len c) 0 0 c") auto
  then show thesis
    using execute_loop_image [OF e] shape that by (auto simp: execute_def)
qed

lemma write_all_loop_image:
  assumes "\<And>k n c. proper_attempt linux (cx_requested_len c) (backend k n c)"
    and "length buf < 2 ^ 32" "unat written \<le> length buf"
  shows "\<exists>r trace m. write_all_loop linux bound backend fd buf offset (of_nat (length buf)) k written = Some (r, trace)
    \<and> unat written + m \<le> length buf
    \<and> written_bytes trace = image_at (offset + ucast written) (drop (unat written) buf) m
    \<and> (r = Inr () \<longrightarrow> unat written + m = length buf)"
  using assms(3)
proof (induction "length buf - unat written" arbitrary: written k rule: less_induct)
  case less
  let ?loop = "write_all_loop linux bound backend fd buf offset (of_nat (length buf))"
  have len: "unat (of_nat (length buf) :: u32) = length buf"
    by (rule unat_of_nat_u32 [OF assms(2)])
  show ?case
  proof (cases "written < of_nat (length buf)")
    case False
    then show ?thesis
      using less.prems len by (simp add: write_all_loop.simps [of _ _ _ _ _ _ _ k] word_less_nat_alt)
  next
    case True
    then have w: "unat written < length buf"
      by (simp add: word_less_nat_alt len)
    let ?suffix = "drop (unat written) buf"
    have "length ?suffix < 2 ^ 32"
      using assms(2) by simp
    then obtain c where c: "OpContext_write fd (offset + ucast written) written ?suffix = Some c"
      by (simp add: OpContext_write_def)
    obtain out fr trace m where e: "execute linux bound (backend k) Write c = Some (out, fr, trace)" "m \<le> length ?suffix"
      "written_bytes trace = image_at (offset + ucast written) ?suffix m"
      "\<And>j. out = Inr j \<Longrightarrow> m = length ?suffix \<and> j = of_nat (length ?suffix)"
      by (rule execute_write [where backend = "backend k" and bound = bound, OF assms(1) c]) blast
    show ?thesis
    proof (cases out)
      case (Inl errno)
      then show ?thesis
        using True c e(1-3) w
        by (auto simp: write_all_loop.simps [of _ _ _ _ _ _ _ k] Let_def intro!: exI [of _ m])
    next
      case (Inr j)
      then have m: "m = length ?suffix" "j = of_nat (length ?suffix)"
        using e(4) by blast+
      have j: "unat j = length buf - unat written"
        unfolding m(2) using \<open>length ?suffix < 2 ^ 32\<close> by (subst unat_of_nat_u32) simp_all
      have sum: "unat (written + j) = length buf"
        using j w assms(2) by (subst unat_add_small) simp_all
      have "written + j = of_nat (length buf)"
        using sum by (rule unat_eq_of_nat_u32)
      then have "?loop (Suc k) (written + j) = Some (Inr (), [])"
        by (simp add: write_all_loop.simps [of _ _ _ _ _ _ _ "Suc k"])
      moreover have "j \<le> of_nat (length buf) - written" "0 < j"
        using j w len by (simp_all add: word_le_nat_alt word_less_nat_alt unat_sub_le)
      ultimately have "?loop k written = Some (Inr (), trace)"
        using True c e(1) Inr by (simp add: write_all_loop.simps [of _ _ _ _ _ _ _ k] Let_def)
      then show ?thesis
        using e(3) m(1) w by (intro exI [of _ "Inr ()"] exI [of _ trace] exI [of _ m]) simp
    qed
  qed
qed

text \<open>C29. A blocking metadata write puts every byte of the buffer at its place exactly once: on any
  backend with proper attempts, however short its transfers, the call returns, the bytes it has
  written form a prefix of the buffer laid out from the offset on in order, and on success the
  prefix is the whole buffer.\<close>

theorem blocking_write_places_bytes:
  assumes "\<And>k n c. proper_attempt linux (cx_requested_len c) (backend k n c)" "length buf < 2 ^ 32"
  shows "\<exists>r trace m. write_all_blocking linux retry_bound backend True fd buf offset = Some (r, trace)
    \<and> m \<le> length buf \<and> written_bytes trace = image_at offset buf m \<and> (r = Inr () \<longrightarrow> m = length buf)"
  using write_all_loop_image [where written = 0 and k = 0 and bound = retry_bound and fd = fd and offset = offset, OF assms] assms(2) by (auto simp: write_all_blocking_def)

theorem blocking_write_places_bytes_witness:
  "\<exists>r trace m. write_all_blocking True 3 (\<lambda>k. sample_backend) True (FileId_new 1 0 1) [7, 8, 9] 100 = Some (r, trace)
    \<and> m \<le> 3 \<and> written_bytes trace = image_at 100 [7, 8, 9] m \<and> (r = Inr () \<longrightarrow> m = 3)"
  using blocking_write_places_bytes [where backend = "\<lambda>k. sample_backend" and linux = True and retry_bound = 3
      and buf = "[7, 8, 9]" and fd = "FileId_new 1 0 1" and offset = 100] sample_backend_proper
  by (simp add: numeral_3_eq_3)

end
