(* ===== verification/Eager.thy ===== *)
theory Eager
  imports Retry
begin

text \<open>
  The portable eager backend of \<open>backend/eager.rs\<close>: its file entries and the one syscall
  attempt it makes for an operation.  The operating system's \<open>read_at\<close>, \<open>write_at\<close> and
  \<open>sync_file\<close> are arguments; a read is described by the destination address, its length and the
  file offset.
\<close>

section \<open>Model\<close>

text \<open>\<open>PermissionsMode\<close> aside, a \<open>File\<close> is an opaque value.\<close>

record 'file EagerState =
  eg_files :: "'file option list"

definition classify :: "IoError \<Rightarrow> Attempt" where
  "classify error =
     (case raw_os_error error of
        Some code \<Rightarrow> if code = EINTR then Interrupted else if code = EAGAIN False then WouldBlock else Failed code
      | None \<Rightarrow> Failed EIO)"

definition attempt_map_transfer :: "IoError + nat \<Rightarrow> u32 \<Rightarrow> Attempt option" where
  "attempt_map_transfer result requested =
     (case result of
        Inr bytes \<Rightarrow> do { assert (bytes \<le> unat requested); Some (Done (of_nat bytes)) }
      | Inl error \<Rightarrow> Some (classify error))"

datatype ControlFlow = Continue u32 | Break Attempt

definition read_vector_range :: "(nat \<Rightarrow> nat \<Rightarrow> u64 \<Rightarrow> IoError + nat) \<Rightarrow> u64 \<Rightarrow> ControlFlow \<Rightarrow> u32 \<times> nat \<times> nat \<Rightarrow> ControlFlow option" where
  "read_vector_range read_at file_offset progress r =
     (case progress of
        Break _ \<Rightarrow> Some progress
      | Continue transferred \<Rightarrow>
          (case r of (offset, base, len) \<Rightarrow>
            (case read_at base len (file_offset + ucast offset) of
               Inr bytes \<Rightarrow> do {
                 assert (bytes \<le> len);
                 assert (bytes < 2 ^ 32);
                 let transferred = transferred + of_nat bytes;
                 Some (if bytes < len then Break (Done transferred) else Continue transferred)
               }
             | Inl error \<Rightarrow> Some (Break (if transferred > 0 then Done transferred else classify error)))))"

primrec read_vector_ranges :: "(nat \<Rightarrow> nat \<Rightarrow> u64 \<Rightarrow> IoError + nat) \<Rightarrow> u64 \<Rightarrow> (u32 \<times> nat \<times> nat) list \<Rightarrow> ControlFlow \<Rightarrow> ControlFlow option" where
  "read_vector_ranges read_at file_offset [] progress = Some progress"
| "read_vector_ranges read_at file_offset (r # rs) progress = do {
     progress \<leftarrow> read_vector_range read_at file_offset progress r;
     read_vector_ranges read_at file_offset rs progress
   }"

definition attempt_read_vector :: "(nat \<Rightarrow> nat \<Rightarrow> u64 \<Rightarrow> IoError + nat) \<Rightarrow> VectorStorage \<Rightarrow> ReadVector \<Rightarrow> u64 \<Rightarrow> Attempt option" where
  "attempt_read_vector read_at vs v file_offset = do {
     ranges \<leftarrow> ReadVector_transfer_prefix vs v (remaining v);
     progress \<leftarrow> read_vector_ranges read_at file_offset ranges (Continue 0);
     Some (case progress of Continue bytes \<Rightarrow> Done bytes | Break outcome \<Rightarrow> outcome)
   }"

text \<open>\<open>Eager::attempt\<close>; the file of the slot selects the system calls.\<close>

definition Eager_attempt ::
  "('file \<Rightarrow> nat \<Rightarrow> nat \<Rightarrow> u64 \<Rightarrow> IoError + nat) \<Rightarrow> ('file \<Rightarrow> u8 list \<Rightarrow> u64 \<Rightarrow> IoError + nat) \<Rightarrow>
   ('file \<Rightarrow> SyncMode \<Rightarrow> IoError + unit) \<Rightarrow> VectorStorage \<Rightarrow> Frames \<Rightarrow> 'file EagerState \<Rightarrow> OpKind \<Rightarrow> u32 \<Rightarrow> OpContext \<Rightarrow> Attempt option" where
  "Eager_attempt read_at write_at sync_file vs F st kind clean_bytes c =
     (case Option.bind (nth_opt (eg_files st) (unat (slot (cx_fd c)))) id of
        None \<Rightarrow> Some (Failed EBADF)
      | Some f \<Rightarrow>
          (case kind of
             Read \<Rightarrow> do {
               assert (clean_bytes = cx_requested_len c);
               token \<leftarrow> cx_frame c;
               (case token of
                  Point token \<Rightarrow> do {
                    destination \<leftarrow> transfer_ptr F token (cx_destination_offset c) (cx_requested_len c);
                    attempt_map_transfer (read_at f destination (unat (cx_requested_len c)) (cx_file_offset c)) (cx_requested_len c)
                  }
                | Vector v \<Rightarrow> attempt_read_vector (read_at f) vs v (cx_file_offset c))
             }
           | Write \<Rightarrow> do {
               assert (cx_write_buf c \<noteq> []);
               assert (length (cx_write_buf c) < 2 ^ 32);
               attempt_map_transfer (write_at f (cx_write_buf c) (cx_file_offset c)) (of_nat (length (cx_write_buf c)))
             }
           | Fsync \<Rightarrow> Some (case sync_file f (cx_sync_mode c) of Inr _ \<Rightarrow> Done 0 | Inl error \<Rightarrow> classify error)))"

definition Eager_register_file :: "'file EagerState \<Rightarrow> u32 \<Rightarrow> 'file \<Rightarrow> 'file EagerState option" where
  "Eager_register_file st sl f = do {
     entry \<leftarrow> nth_opt (eg_files st) (unat sl);
     assert (entry = None);
     Some (st\<lparr>eg_files := (eg_files st)[unat sl := Some f]\<rparr>)
   }"

definition Eager_clean_bytes :: "u32 \<Rightarrow> OpKind \<Rightarrow> u32" where
  "Eager_clean_bytes frame_len kind = (case kind of Fsync \<Rightarrow> 0 | _ \<Rightarrow> frame_len)"

definition Eager_schedule :: "nat \<Rightarrow> nat" where
  "Eager_schedule ready_len = ready_len"

definition Eager_retire_file :: "'file EagerState \<Rightarrow> u32 \<Rightarrow> 'file EagerState option" where
  "Eager_retire_file st sl = do {
     entry \<leftarrow> nth_opt (eg_files st) (unat sl);
     assert (entry \<noteq> None);
     Some (st\<lparr>eg_files := (eg_files st)[unat sl := None]\<rparr>)
   }"

section \<open>Attempts\<close>

text \<open>The documented behaviour of the system calls: a transfer reports at most what it was given,
  and an OS error code is a positive \<open>i32\<close>.\<close>

definition os_error_ok :: "IoError \<Rightarrow> bool" where
  "os_error_ok error \<longleftrightarrow> (\<forall>code. raw_os_error error = Some code \<longrightarrow> 0 < code \<and> code < 2 ^ 31)"

fun transfer_ok :: "nat \<Rightarrow> IoError + nat \<Rightarrow> bool" where
  "transfer_ok len (Inr bytes) \<longleftrightarrow> bytes \<le> len"
| "transfer_ok len (Inl error) \<longleftrightarrow> os_error_ok error"

lemma classify_proper: "os_error_ok error \<Longrightarrow> proper_attempt False len (classify error)"
  by (auto simp: classify_def os_error_ok_def EIO_def EINTR_def EAGAIN_def split: option.splits)

lemma attempt_map_transfer_proper:
  assumes "transfer_ok (unat len) r" "unat len < 2 ^ 31"
  shows "\<exists>a. attempt_map_transfer r len = Some a \<and> proper_attempt False len a"
proof (cases r)
  case (Inr bytes)
  then have "unat (of_nat bytes :: u32) = bytes" "bytes \<le> unat len"
    using assms by (auto intro!: unat_of_nat_u32)
  then show ?thesis
    using Inr assms(2) by (simp add: attempt_map_transfer_def word_le_nat_alt)
qed (use assms classify_proper in \<open>simp add: attempt_map_transfer_def\<close>)

text \<open>A scatter attempt reports the length of the contiguous prefix it filled: the ranges before
  the one that came up short are complete.\<close>

definition range_len :: "u32 \<times> nat \<times> nat \<Rightarrow> nat" where
  "range_len r = snd (snd r)"

definition full_range :: "(nat \<Rightarrow> nat \<Rightarrow> u64 \<Rightarrow> IoError + nat) \<Rightarrow> u64 \<Rightarrow> u32 \<times> nat \<times> nat \<Rightarrow> bool" where
  "full_range read_at off r \<longleftrightarrow> (case r of (offset, base, len) \<Rightarrow> read_at base len (off + ucast offset) = Inr len)"

definition range_bytes :: "(nat \<Rightarrow> nat \<Rightarrow> u64 \<Rightarrow> IoError + nat) \<Rightarrow> u64 \<Rightarrow> u32 \<times> nat \<times> nat \<Rightarrow> nat" where
  "range_bytes read_at off r = (case r of (offset, base, len) \<Rightarrow>
     (case read_at base len (off + ucast offset) of Inr bytes \<Rightarrow> bytes | Inl _ \<Rightarrow> 0))"

definition prefix_filled :: "(nat \<Rightarrow> nat \<Rightarrow> u64 \<Rightarrow> IoError + nat) \<Rightarrow> u64 \<Rightarrow> (u32 \<times> nat \<times> nat) list \<Rightarrow> nat" where
  "prefix_filled read_at off rs = sum_list (map range_len (takeWhile (full_range read_at off) rs))
     + (case dropWhile (full_range read_at off) rs of [] \<Rightarrow> 0 | r # _ \<Rightarrow> range_bytes read_at off r)"

lemma read_vector_ranges_Break [simp]: "read_vector_ranges read_at off rs (Break a) = Some (Break a)"
  by (induction rs) (simp_all add: read_vector_range_def)

lemma prefix_filled_le:
  assumes "\<forall>(offset, base, len) \<in> set rs. transfer_ok len (read_at base len (off + ucast offset))"
  shows "prefix_filled read_at off rs \<le> sum_list (map range_len rs)"
  using assms
  by (induction rs) (auto simp: prefix_filled_def range_len_def range_bytes_def full_range_def split: sum.splits)

lemma read_vector_ranges_filled:
  assumes "\<forall>(offset, base, len) \<in> set rs. transfer_ok len (read_at base len (off + ucast offset))"
    and "unat t + sum_list (map range_len rs) < 2 ^ 31"
  shows "\<exists>p. read_vector_ranges read_at off rs (Continue t) = Some p
    \<and> (p = Continue (t + of_nat (prefix_filled read_at off rs))
       \<or> p = Break (Done (t + of_nat (prefix_filled read_at off rs)))
       \<or> (\<exists>error. os_error_ok error \<and> p = Break (classify error) \<and> t = 0 \<and> prefix_filled read_at off rs = 0))"
  using assms
proof (induction rs arbitrary: t)
  case (Cons r rs)
  obtain offset base len where r: "r = (offset, base, len)"
    by (cases r)
  have len: "unat t + len < 2 ^ 31"
    using Cons.prems(2) by (simp add: r range_len_def)
  have ok: "transfer_ok len (read_at base len (off + ucast offset))"
    using Cons.prems(1) by (simp add: r)
  show ?case
  proof (cases "read_at base len (off + ucast offset) = Inr len")
    case True
    then have "unat (of_nat len :: u32) = len"
      using len by (intro unat_of_nat_u32) simp
    then have "unat (t + of_nat len) = unat t + len"
      using len by (subst unat_add_small) simp_all
    then have "\<exists>p. read_vector_ranges read_at off rs (Continue (t + of_nat len)) = Some p
      \<and> (p = Continue (t + of_nat len + of_nat (prefix_filled read_at off rs))
         \<or> p = Break (Done (t + of_nat len + of_nat (prefix_filled read_at off rs)))
         \<or> (\<exists>error. os_error_ok error \<and> p = Break (classify error) \<and> t + of_nat len = 0 \<and> prefix_filled read_at off rs = 0))"
      using Cons.prems by (intro Cons.IH) (auto simp: r range_len_def)
    moreover have "t + of_nat len = 0 \<Longrightarrow> t = 0 \<and> len = 0"
      using \<open>unat (t + of_nat len) = unat t + len\<close> by (metis add_is_0 unsigned_0 unsigned_eq_0_iff)
    moreover have "read_vector_range read_at off (Continue t) r = Some (Continue (t + of_nat len))"
      using True len by (simp add: read_vector_range_def r Let_def)
    moreover have "prefix_filled read_at off (r # rs) = len + prefix_filled read_at off rs"
      using True by (simp add: prefix_filled_def full_range_def r range_len_def)
    ultimately show ?thesis
      by (auto simp: add.assoc)
  next
    case False
    have p: "prefix_filled read_at off (r # rs) = (case read_at base len (off + ucast offset) of Inr bytes \<Rightarrow> bytes | Inl _ \<Rightarrow> 0)"
      using False by (simp add: prefix_filled_def full_range_def range_bytes_def r)
    show ?thesis
    proof (cases "read_at base len (off + ucast offset)")
      case (Inr bytes)
      then have "bytes < len" "bytes < 2 ^ 32"
        using False ok len by auto
      then show ?thesis
        using Inr p by (simp add: read_vector_range_def r Let_def)
    next
      case (Inl error)
      then show ?thesis
        using p ok by (auto simp: read_vector_range_def r word_gt_0)
    qed
  qed
qed (simp add: prefix_filled_def)

lemma fill_bytes_length: "length (fill_bytes rs) = sum_list (map range_len rs)"
  by (induction rs) (auto simp: fill_bytes_def range_len_def)

definition reads_ok :: "(nat \<Rightarrow> nat \<Rightarrow> u64 \<Rightarrow> IoError + nat) \<Rightarrow> bool" where
  "reads_ok read_at \<longleftrightarrow> (\<forall>base len off. transfer_ok len (read_at base len off))"

lemma classify_not_Done: "classify error \<noteq> Done n"
  by (simp add: classify_def split: option.splits)

lemma attempt_read_vector_filled:
  assumes fills: "ReadVector_transfer_prefix vs v (remaining v) = Some rs" "length (fill_bytes rs) = unat (remaining v)"
    and bound: "unat (remaining v) < 2 ^ 31" and os: "reads_ok read_at"
  shows "\<exists>a. attempt_read_vector read_at vs v off = Some a \<and> proper_attempt False (remaining v) a
    \<and> (\<forall>k. a = Done k \<longrightarrow> unat k = prefix_filled read_at off rs)"
proof -
  have ok: "\<forall>(offset, base, len) \<in> set rs. transfer_ok len (read_at base len (off + ucast offset))"
    using os by (auto simp: reads_ok_def)
  let ?n = "prefix_filled read_at off rs"
  have sum: "sum_list (map range_len rs) = unat (remaining v)"
    using fills(2) by (simp add: fill_bytes_length)
  then have n: "?n \<le> unat (remaining v)"
    using prefix_filled_le [OF ok] by simp
  then have u: "unat (of_nat ?n :: u32) = ?n"
    using bound by (intro unat_of_nat_u32) simp
  have "\<exists>p. read_vector_ranges read_at off rs (Continue 0) = Some p
    \<and> (p = Continue (of_nat ?n) \<or> p = Break (Done (of_nat ?n))
       \<or> (\<exists>error. os_error_ok error \<and> p = Break (classify error) \<and> ?n = 0))"
    using read_vector_ranges_filled [OF ok, of 0] sum bound by auto
  then show ?thesis
    using fills(1) u n bound classify_proper
    by (auto simp: attempt_read_vector_def word_le_nat_alt classify_not_Done)
qed

text \<open>An operation the driver hands to the backend: a frame it owns with the range inside, a prepared
  bundle, a write buffer of the announced length, or a barrier.\<close>

fun ready_read :: "VectorStorage \<Rightarrow> Frames \<Rightarrow> OpContext \<Rightarrow> ReadDestination \<Rightarrow> bool" where
  "ready_read vs F c (Point token) \<longleftrightarrow> owned F token \<and> cx_destination_offset c \<le> f_granule F
     \<and> cx_requested_len c \<le> f_granule F - cx_destination_offset c"
| "ready_read vs F c (Vector v) \<longleftrightarrow> cx_requested_len c = remaining v \<and>
     (\<exists>sl fs n vs0 v0. vec_holds (f_granule F) fs (n div unat (f_granule F)) n v0
       \<and> n < unat (f_granule F) * length fs \<and> (\<forall>f \<in> set (drop (n div unat (f_granule F)) fs). owned F f)
       \<and> storage_ok vs0 \<and> sl < vs_slots vs0 \<and> prepare vs0 F sl v0 = Some (vs, v))"

definition ready_context :: "VectorStorage \<Rightarrow> Frames \<Rightarrow> OpKind \<Rightarrow> OpContext \<Rightarrow> bool" where
  "ready_context vs F kind c \<longleftrightarrow> unat (cx_requested_len c) < 2 ^ 31 \<and>
     (case kind of
        Read \<Rightarrow> (\<exists>d. cx_frame c = Some d \<and> ready_read vs F c d)
      | Write \<Rightarrow> cx_write_buf c \<noteq> [] \<and> cx_requested_len c = of_nat (length (cx_write_buf c)) \<and> length (cx_write_buf c) < 2 ^ 32
      | Fsync \<Rightarrow> True)"

lemma prepared_transfer:
  assumes "ready_read vs F c (Vector v)"
  obtains rs where "ReadVector_transfer_prefix vs v (remaining v) = Some rs" "length (fill_bytes rs) = unat (remaining v)"
proof -
  obtain sl fs n vs0 v0 where b: "vec_holds (f_granule F) fs (n div unat (f_granule F)) n v0"
    "n < unat (f_granule F) * length fs" "\<forall>f \<in> set (drop (n div unat (f_granule F)) fs). owned F f"
    "storage_ok vs0" "sl < vs_slots vs0" "prepare vs0 F sl v0 = Some (vs, v)"
    using assms by auto
  obtain vs' io where p: "prepare vs0 F sl v0 = Some (vs', v0\<lparr>rv_descriptors := Some io\<rparr>)"
    and t: "\<And>bytes. n + unat bytes \<le> unat (f_granule F) * length fs \<Longrightarrow>
      \<exists>fills. VectorIo_transfer_prefix vs' io bytes = Some fills
        \<and> fill_bytes fills = map (byte_addr (unat (f_granule F)) fs) [n..<n + unat bytes]"
    using prepare_bundle [OF b(1-5)] by metis
  have v: "v = v0\<lparr>rv_descriptors := Some io\<rparr>" "vs' = vs" and r: "remaining v = remaining v0"
    using p b(6) by (auto simp: remaining_def)
  obtain rs where "VectorIo_transfer_prefix vs io (remaining v) = Some rs" "length (fill_bytes rs) = unat (remaining v)"
    using t [of "remaining v"] bundle_unat(5) [OF b(1)] b(2) by (auto simp: v(2) r)
  then show thesis
    using that by (simp add: ReadVector_transfer_prefix_def v(1))
qed

text \<open>C37. Every attempt of the eager backend is proper on every operation the driver hands it,
  provided the system calls report at most the bytes they were given and positive error codes: it
  does not panic, reports no more than was requested, and classifies \<open>EINTR\<close> and \<open>EAGAIN\<close> apart
  from the errors it surfaces.  This is what the retry policy relies on.\<close>

theorem eager_attempts_proper:
  assumes "\<And>f. reads_ok (read_at f)" "\<And>f buf off. transfer_ok (length buf) (write_at f buf off)"
    and "\<And>f mode error. sync_file f mode = Inl error \<Longrightarrow> os_error_ok error"
    and ready: "ready_context vs F kind c"
  shows "\<exists>a. Eager_attempt read_at write_at sync_file vs F st kind (cx_requested_len c) c = Some a
    \<and> proper_attempt False (cx_requested_len c) a"
proof (cases "Option.bind (nth_opt (eg_files st) (unat (slot (cx_fd c)))) id")
  case None
  then show ?thesis
    by (simp add: Eager_attempt_def EBADF_def EINTR_def EAGAIN_def)
next
  case entry: (Some f)
  have bound: "unat (cx_requested_len c) < 2 ^ 31"
    using ready by (simp add: ready_context_def)
  show ?thesis
  proof (cases kind)
    case Read
    then obtain d where d: "cx_frame c = Some d" "ready_read vs F c d"
      using ready by (auto simp: ready_context_def)
    show ?thesis
    proof (cases d)
      case (Point token)
      then obtain p where "transfer_ptr F token (cx_destination_offset c) (cx_requested_len c) = Some p"
        using d(2) transfer_ptr_owned by auto
      then show ?thesis
        using entry Read d(1) Point attempt_map_transfer_proper [OF _ bound] assms(1) [of f]
        by (simp add: Eager_attempt_def reads_ok_def)
    next
      case (Vector v)
      obtain rs where rs: "ReadVector_transfer_prefix vs v (remaining v) = Some rs" "length (fill_bytes rs) = unat (remaining v)"
        by (rule prepared_transfer [OF d(2) [unfolded Vector]])
      have "cx_requested_len c = remaining v"
        using d(2) Vector by simp
      then show ?thesis
        using entry Read d(1) Vector attempt_read_vector_filled [OF rs _ assms(1), of f "cx_file_offset c"] bound
        by (auto simp: Eager_attempt_def)
    qed
  next
    case Write
    then have "cx_write_buf c \<noteq> []" "length (cx_write_buf c) < 2 ^ 32"
      and len: "cx_requested_len c = of_nat (length (cx_write_buf c))"
      using ready by (simp_all add: ready_context_def)
    moreover from this have "unat (cx_requested_len c) = length (cx_write_buf c)"
      by (simp add: unat_of_nat_u32)
    ultimately show ?thesis
      using entry Write attempt_map_transfer_proper [OF _ bound, of "write_at f (cx_write_buf c) (cx_file_offset c)"]
        assms(2) [of "cx_write_buf c" f] by (simp add: Eager_attempt_def)
  next
    case Fsync
    show ?thesis
    proof (cases "sync_file f (cx_sync_mode c)")
      case (Inl error)
      then show ?thesis
        using entry Fsync classify_proper [OF assms(3) [OF Inl]] by (simp add: Eager_attempt_def)
    qed (use entry Fsync in \<open>simp add: Eager_attempt_def\<close>)
  qed
qed

text \<open>A device that reads half of every range and writes everything.\<close>

theorem eager_attempts_proper_witness:
  "\<exists>a. Eager_attempt (\<lambda>f base len off. Inr (len div 2)) (\<lambda>f buf off. Inr (length buf)) (\<lambda>f mode. Inl (FromRaw 5))
      \<lparr>vs_memory = [], vs_slots = 0\<rparr> (sample_arena [1, 1] [None, None]) \<lparr>eg_files = [Some ()]\<rparr> Read 4096
      (OpContext_read (FileId_new 1 0 1) 8192 (Point \<lparr>token_arena = 1, token_frame = 2\<rparr>) 0 4096) = Some a
    \<and> proper_attempt False 4096 a"
proof -
  let ?c = "OpContext_read (FileId_new 1 0 1) 8192 (Point \<lparr>token_arena = 1, token_frame = 2\<rparr>) 0 4096"
  have "ready_context \<lparr>vs_memory = [], vs_slots = 0\<rparr> (sample_arena [1, 1] [None, None]) Read ?c"
    by (simp add: ready_context_def OpContext_read_def owned_def sample_arena_def InFlightFrame_frame_def word_defs
        from_tag_def mask_eq_exp_minus_1)
  from eager_attempts_proper [OF _ _ _ this, of "\<lambda>f base len off. Inr (len div 2)" "\<lambda>f buf off. Inr (length buf)"
      "\<lambda>f mode. Inl (FromRaw 5)" "\<lparr>eg_files = [Some ()]\<rparr>"]
  show ?thesis
    by (simp add: reads_ok_def os_error_ok_def OpContext_read_def)
qed

end
