(* ===== verification/Slab.thy ===== *)
theory Slab
  imports Contracts Ident
begin

text \<open>
  The completion slab of \<open>driver.rs\<close> (\<open>CompletionSlab\<close>): operation slots with a
  generation that every fill advances, and a stack of free slots.  The free \<open>Vec\<close> is kept with
  its end first, so a push is a cons.
\<close>

section \<open>Model\<close>

record 'p SlabSlot =
  sl_generation :: u32
  sl_payload :: "'p option"

record 'p CompletionSlab =
  slab_slots :: "'p SlabSlot list"
  slab_free :: "u32 list"

definition CompletionSlab_try_with_capacity :: "bool \<Rightarrow> u32 \<Rightarrow> 'p CompletionSlab option" where
  "CompletionSlab_try_with_capacity allocated capacity =
     (if allocated
      then Some \<lparr>slab_slots = replicate (unat capacity) \<lparr>sl_generation = 0, sl_payload = None\<rparr>,
                 slab_free = map of_nat [0..<unat capacity]\<rparr>
      else None)"

definition slab_contains :: "'p CompletionSlab \<Rightarrow> OpToken \<Rightarrow> bool option" where
  "slab_contains s token = do {
     entry \<leftarrow> nth_opt (slab_slots s) (unat (OpToken_slot token));
     Some (sl_payload entry \<noteq> None \<and> OpToken_new (OpToken_slot token) (sl_generation entry) = token)
   }"

definition slab_token :: "'p CompletionSlab \<Rightarrow> u32 \<Rightarrow> OpToken option" where
  "slab_token s sl = do {
     entry \<leftarrow> nth_opt (slab_slots s) (unat sl);
     Some (OpToken_new sl (sl_generation entry))
   }"

definition slab_reserve :: "'p CompletionSlab \<Rightarrow> u32 option \<times> 'p CompletionSlab" where
  "slab_reserve s =
     (case slab_free s of
        [] \<Rightarrow> (None, s)
      | sl # rest \<Rightarrow> (Some sl, s\<lparr>slab_free := rest\<rparr>))"

definition slab_fill :: "'p CompletionSlab \<Rightarrow> u32 \<Rightarrow> 'p \<Rightarrow> (OpToken \<times> 'p CompletionSlab) option" where
  "slab_fill s sl payload = do {
     entry \<leftarrow> nth_opt (slab_slots s) (unat sl);
     assert (sl_payload entry = None);
     assert (sl_generation entry < - 1);
     let generation = sl_generation entry + 1;
     Some (OpToken_new sl generation,
           s\<lparr>slab_slots := (slab_slots s)[unat sl := \<lparr>sl_generation = generation, sl_payload = Some payload\<rparr>]\<rparr>)
   }"

definition slab_peek :: "'p CompletionSlab \<Rightarrow> u32 \<Rightarrow> 'p option" where
  "slab_peek s sl = do {
     entry \<leftarrow> nth_opt (slab_slots s) (unat sl);
     sl_payload entry
   }"

text \<open>Writing through \<open>peek_mut\<close>.\<close>

definition slab_update :: "'p CompletionSlab \<Rightarrow> u32 \<Rightarrow> 'p \<Rightarrow> 'p CompletionSlab option" where
  "slab_update s sl payload = do {
     entry \<leftarrow> nth_opt (slab_slots s) (unat sl);
     _ \<leftarrow> sl_payload entry;
     Some (s\<lparr>slab_slots := (slab_slots s)[unat sl := entry\<lparr>sl_payload := Some payload\<rparr>]\<rparr>)
   }"

definition slab_reclaim :: "'p CompletionSlab \<Rightarrow> u32 \<Rightarrow> ((OpToken \<times> 'p) \<times> 'p CompletionSlab) option" where
  "slab_reclaim s sl = do {
     entry \<leftarrow> nth_opt (slab_slots s) (unat sl);
     let token = OpToken_new sl (sl_generation entry);
     payload \<leftarrow> sl_payload entry;
     Some ((token, payload),
           s\<lparr>slab_slots := (slab_slots s)[unat sl := entry\<lparr>sl_payload := None\<rparr>],
             slab_free := sl # slab_free s\<rparr>)
   }"

section \<open>Invariant\<close>

text \<open>The free stack lists exactly the vacant slots, each once.\<close>

definition slab_inv :: "'p CompletionSlab \<Rightarrow> bool" where
  "slab_inv s \<longleftrightarrow> length (slab_slots s) < 2 ^ 32 \<and> distinct (slab_free s)
     \<and> (\<forall>sl. sl \<in> set (slab_free s) \<longleftrightarrow>
          unat sl < length (slab_slots s) \<and> sl_payload (slab_slots s ! unat sl) = None)"

definition slab_live :: "'p CompletionSlab \<Rightarrow> OpToken set" where
  "slab_live s = {OpToken_new sl (sl_generation (slab_slots s ! unat sl)) | sl.
     unat sl < length (slab_slots s) \<and> sl_payload (slab_slots s ! unat sl) \<noteq> None}"

definition slab_spent :: "'p CompletionSlab \<Rightarrow> OpToken set" where
  "slab_spent s = {OpToken_new sl g | sl g.
     unat sl < length (slab_slots s) \<and> g \<le> sl_generation (slab_slots s ! unat sl)}"

text \<open>The abstraction: \<^const>\<open>slab_peek\<close> is the partial map from slots to payloads.\<close>

lemma slab_peek_eq: "slab_peek s sl =
    (if unat sl < length (slab_slots s) then sl_payload (slab_slots s ! unat sl) else None)"
  by (simp add: slab_peek_def nth_opt_def)

lemma slab_free_iff: "slab_inv s \<Longrightarrow>
    sl \<in> set (slab_free s) \<longleftrightarrow> unat sl < length (slab_slots s) \<and> slab_peek s sl = None"
  by (simp add: slab_inv_def slab_peek_eq)

lemma slab_live_peek: "OpToken_new sl g \<in> slab_live s \<Longrightarrow> slab_peek s sl \<noteq> None"
  by (auto simp: slab_live_def slab_peek_eq)

definition slab_gen :: "'p CompletionSlab \<Rightarrow> u32 \<Rightarrow> u32" where
  "slab_gen s sl = (if unat sl < length (slab_slots s) then sl_generation (slab_slots s ! unat sl) else 0)"

lemma slab_spent_eq: "slab_spent s = {OpToken_new sl g | sl g. unat sl < length (slab_slots s) \<and> g \<le> slab_gen s sl}"
  by (auto simp: slab_spent_def slab_gen_def)

lemma slab_live_eq: "slab_live s = (\<lambda>sl. OpToken_new sl (slab_gen s sl)) ` dom (slab_peek s)"
proof -
  have "(\<exists>sl. x = OpToken_new sl (sl_generation (slab_slots s ! unat sl)) \<and> unat sl < length (slab_slots s)
      \<and> sl_payload (slab_slots s ! unat sl) \<noteq> None) \<longleftrightarrow>
    (\<exists>sl \<in> dom (slab_peek s). x = OpToken_new sl (slab_gen s sl))" for x
    by (auto simp: slab_peek_eq slab_gen_def Bex_def dom_def split: if_splits)
  then show ?thesis
    unfolding slab_live_def by blast
qed

lemma slab_inv_new:
  assumes "CompletionSlab_try_with_capacity True capacity = Some s"
  shows "slab_inv s" "slab_live s = {}" "length (slab_slots s) = unat capacity"
proof -
  have s: "s = \<lparr>slab_slots = replicate (unat capacity) \<lparr>sl_generation = 0, sl_payload = None\<rparr>,
      slab_free = map of_nat [0..<unat capacity]\<rparr>"
    using assms by (simp add: CompletionSlab_try_with_capacity_def)
  have "inj_on (of_nat :: nat \<Rightarrow> u32) {0..<unat capacity}"
    by (rule inj_onI) (metis atLeastLessThan_iff unat_of_nat_below)
  moreover have "sl \<in> of_nat ` {0..<unat capacity} \<longleftrightarrow> unat sl < unat capacity" for sl :: u32
    using unat_of_nat_below [of _ capacity] by (auto intro: image_eqI [of _ _ "unat sl"])
  ultimately show "slab_inv s"
    using unsigned_less [where 'a = nat, of capacity] by (auto simp: slab_inv_def s distinct_map)
  show "slab_live s = {}" "length (slab_slots s) = unat capacity"
    by (auto simp: slab_live_def s)
qed

section \<open>Operations on the abstract map\<close>

lemma slab_reserve_fill:
  assumes "slab_inv s" "slab_reserve s = (Some sl, s')"
  shows "unat sl < length (slab_slots s)" "slab_peek s sl = None"
    "slab_peek s' = slab_peek s" "slab_slots s' = slab_slots s"
    "slab_fill s' sl p = (if slab_gen s sl < - 1 then
       Some (OpToken_new sl (slab_gen s sl + 1),
         s'\<lparr>slab_slots := (slab_slots s)[unat sl := \<lparr>sl_generation = slab_gen s sl + 1, sl_payload = Some p\<rparr>]\<rparr>)
       else None)"
proof -
  obtain rest where f: "slab_free s = sl # rest" and s': "s' = s\<lparr>slab_free := rest\<rparr>"
    using assms(2) by (auto simp: slab_reserve_def split: list.splits)
  then have sl: "unat sl < length (slab_slots s)" "slab_peek s sl = None"
    using assms(1) slab_free_iff [OF assms(1), of sl] by auto
  then show "unat sl < length (slab_slots s)" "slab_peek s sl = None"
    by simp_all
  show "slab_slots s' = slab_slots s" "slab_peek s' = slab_peek s"
    by (auto simp: s' slab_peek_eq)
  show "slab_fill s' sl p = (if slab_gen s sl < - 1 then
       Some (OpToken_new sl (slab_gen s sl + 1),
         s'\<lparr>slab_slots := (slab_slots s)[unat sl := \<lparr>sl_generation = slab_gen s sl + 1, sl_payload = Some p\<rparr>]\<rparr>)
       else None)"
    using sl by (simp add: slab_fill_def nth_opt_def assert_def slab_gen_def s' slab_peek_eq Let_def)
qed

lemma slab_issue_map:
  assumes inv: "slab_inv s" and r: "slab_reserve s = (Some sl, s1)" and f: "slab_fill s1 sl p = Some (t, s')"
  shows "slab_inv s'" "slab_peek s sl = None" "slab_peek s' = (slab_peek s)(sl \<mapsto> p)"
    "t = OpToken_new sl (slab_gen s' sl)" "slab_gen s sl < slab_gen s' sl"
    "\<And>i. i \<noteq> sl \<Longrightarrow> slab_gen s' i = slab_gen s i" "length (slab_slots s') = length (slab_slots s)"
proof -
  note sl = slab_reserve_fill [OF inv r]
  obtain rest where fr: "slab_free s = sl # rest" "s1 = s\<lparr>slab_free := rest\<rparr>"
    using r by (auto simp: slab_reserve_def split: list.splits)
  have g: "slab_gen s sl < - 1" and t: "t = OpToken_new sl (slab_gen s sl + 1)"
    and s': "s' = \<lparr>slab_slots = (slab_slots s)[unat sl := \<lparr>sl_generation = slab_gen s sl + 1, sl_payload = Some p\<rparr>],
       slab_free = rest\<rparr>"
    using f unfolding sl(5) by (auto simp: fr(2) split: if_splits)
  show peek': "slab_peek s' = (slab_peek s)(sl \<mapsto> p)"
    using sl(1) by (auto simp: fun_eq_iff slab_peek_eq s' nth_list_update word_unat_eq_iff [symmetric])
  show len: "length (slab_slots s') = length (slab_slots s)"
    by (simp add: s')
  have notin: "sl \<notin> set rest"
    using inv fr(1) by (simp add: slab_inv_def)
  have "i \<in> set (slab_free s') \<longleftrightarrow> unat i < length (slab_slots s') \<and> slab_peek s' i = None" for i
    unfolding peek' len using slab_free_iff [OF inv, of i] fr(1) notin sl(2) by (simp add: s') blast
  then show "slab_inv s'"
    using inv by (simp add: slab_inv_def len s' fr slab_peek_eq) 
  show "slab_peek s sl = None"
    by (rule sl(2))
  have gen': "slab_gen s' sl = slab_gen s sl + 1"
    using sl(1) by (simp add: slab_gen_def s')
  then show "t = OpToken_new sl (slab_gen s' sl)"
    by (simp add: t)
  show "slab_gen s sl < slab_gen s' sl"
    unfolding gen' using g by (rule below_max_less)
  show "slab_gen s' i = slab_gen s i" if "i \<noteq> sl" for i
    using that by (simp add: slab_gen_def s' nth_list_update word_unat_eq_iff [symmetric])
qed

lemma slab_update_map:
  assumes "slab_inv s" "slab_peek s sl = Some q"
  obtains s' where "slab_update s sl p = Some s'" "slab_inv s'" "slab_peek s' = (slab_peek s)(sl \<mapsto> p)"
    "slab_gen s' = slab_gen s" "length (slab_slots s') = length (slab_slots s)" "slab_free s' = slab_free s"
proof -
  have sl: "unat sl < length (slab_slots s)" "sl_payload (slab_slots s ! unat sl) = Some q"
    using assms(2) by (auto simp: slab_peek_eq split: if_splits)
  define s' where "s' = s\<lparr>slab_slots := (slab_slots s)[unat sl := (slab_slots s ! unat sl)\<lparr>sl_payload := Some p\<rparr>]\<rparr>"
  have "slab_update s sl p = Some s'"
    using sl by (simp add: slab_update_def nth_opt_def s'_def)
  moreover have peek': "slab_peek s' = (slab_peek s)(sl \<mapsto> p)"
    using sl(1) by (auto simp: fun_eq_iff slab_peek_eq s'_def nth_list_update word_unat_eq_iff [symmetric])
  moreover have "slab_gen s' = slab_gen s"
    using sl(1) by (auto simp: fun_eq_iff slab_gen_def s'_def nth_list_update word_unat_eq_iff [symmetric])
  moreover have "slab_inv s'"
    using assms sl by (auto simp: slab_inv_def s'_def nth_list_update word_unat_eq_iff [symmetric])
  ultimately show thesis
    using that [of s'] by (simp add: s'_def)
qed

lemma slab_reclaim_map:
  assumes "slab_inv s" "slab_peek s sl = Some p"
  obtains s' where "slab_reclaim s sl = Some ((OpToken_new sl (slab_gen s sl), p), s')"
    "slab_inv s'" "slab_peek s' = (slab_peek s)(sl := None)" "slab_gen s' = slab_gen s"
    "length (slab_slots s') = length (slab_slots s)"
proof -
  have sl: "unat sl < length (slab_slots s)" "sl_payload (slab_slots s ! unat sl) = Some p"
    using assms(2) by (auto simp: slab_peek_eq split: if_splits)
  define s' where "s' = s\<lparr>slab_slots := (slab_slots s)[unat sl := (slab_slots s ! unat sl)\<lparr>sl_payload := None\<rparr>],
    slab_free := sl # slab_free s\<rparr>"
  have "slab_reclaim s sl = Some ((OpToken_new sl (slab_gen s sl), p), s')"
    using sl by (simp add: slab_reclaim_def nth_opt_def s'_def slab_gen_def Let_def)
  moreover have "slab_peek s' = (slab_peek s)(sl := None)"
    using sl(1) by (auto simp: fun_eq_iff slab_peek_eq s'_def nth_list_update word_unat_eq_iff [symmetric])
  moreover have "slab_gen s' = slab_gen s"
    using sl(1) by (auto simp: fun_eq_iff slab_gen_def s'_def nth_list_update word_unat_eq_iff [symmetric])
  moreover have "slab_inv s'"
    using assms sl by (auto simp: slab_inv_def s'_def nth_list_update word_unat_eq_iff [symmetric])
  ultimately show thesis
    using that [of s'] by (simp add: s'_def)
qed

lemma slab_contains_iff:
  assumes "unat (OpToken_slot t) < length (slab_slots s)"
  shows "slab_contains s t = Some (t \<in> slab_live s)"
proof -
  let ?e = "slab_slots s ! unat (OpToken_slot t)"
  have "t \<in> slab_live s \<longleftrightarrow> sl_payload ?e \<noteq> None \<and> OpToken_new (OpToken_slot t) (sl_generation ?e) = t"
    unfolding slab_live_def using assms by (auto intro!: exI [of _ "OpToken_slot t"])
  then show ?thesis
    using assms by (simp add: slab_contains_def nth_opt_def)
qed

section \<open>Tokens\<close>

definition slab_issue :: "'p CompletionSlab \<Rightarrow> 'p \<Rightarrow> (OpToken option \<times> 'p CompletionSlab) option" where
  "slab_issue s p =
     (case slab_reserve s of
        (None, s') \<Rightarrow> Some (None, s')
      | (Some sl, s') \<Rightarrow> map_option (\<lambda>(t, s''). (Some t, s'')) (slab_fill s' sl p))"

definition slab_retire :: "'p CompletionSlab \<Rightarrow> OpToken \<Rightarrow> 'p CompletionSlab option" where
  "slab_retire s t = map_option snd (slab_reclaim s (OpToken_slot t))"

definition slab_silent :: "'p CompletionSlab \<Rightarrow> 'p CompletionSlab \<Rightarrow> bool" where
  "slab_silent s s' \<longleftrightarrow> (\<exists>sl p. slab_update s sl p = Some s')"

interpretation slab_tokens: token_source slab_issue slab_retire slab_silent slab_inv slab_live slab_spent
proof
  show "slab_live s \<subseteq> slab_spent s" for s :: "'a CompletionSlab"
    by (auto simp: slab_live_def slab_spent_def)
next
  fix s s' :: "'a CompletionSlab" and p t
  assume inv: "slab_inv s" and "slab_issue s p = Some (Some t, s')"
  then obtain sl s1 where r: "slab_reserve s = (Some sl, s1)" and f: "slab_fill s1 sl p = Some (t, s')"
    by (auto simp: slab_issue_def split: prod.splits option.splits)
  note m = slab_issue_map [OF inv r f]
  have spent: "slab_spent s = {OpToken_new i g | i g. unat i < length (slab_slots s) \<and> g \<le> slab_gen s i}"
    "slab_spent s' = {OpToken_new i g | i g. unat i < length (slab_slots s) \<and> g \<le> slab_gen s' i}"
    by (simp_all add: slab_spent_eq m(7))
  have "slab_gen s i \<le> slab_gen s' i" for i
    using m(5,6) by (cases "i = sl") (auto intro: less_imp_le)
  then have sub: "slab_spent s \<subseteq> slab_spent s'"
    unfolding spent by (blast intro: order_trans)
  have "t \<notin> slab_spent s" "t \<in> slab_spent s'"
    using m(4,5) slab_reserve_fill(1) [OF inv r] by (auto simp: spent)
  moreover have "slab_live s' = insert t (slab_live s)"
  proof -
    have "dom (slab_peek s') = insert sl (dom (slab_peek s))"
      by (simp add: m(3))
    moreover have "(\<lambda>i. OpToken_new i (slab_gen s' i)) ` dom (slab_peek s)
        = (\<lambda>i. OpToken_new i (slab_gen s i)) ` dom (slab_peek s)"
      using m(2,6) by (intro image_cong refl) (metis domIff)
    ultimately show ?thesis
      by (simp add: slab_live_eq m(4))
  qed
  ultimately show "slab_inv s' \<and> t \<notin> slab_spent s \<and> slab_live s' = insert t (slab_live s) \<and>
      insert t (slab_spent s) \<subseteq> slab_spent s'"
    using m(1) sub by blast
next
  fix s :: "'a CompletionSlab" and t
  assume inv: "slab_inv s" and "t \<in> slab_live s"
  then obtain sl p where t: "t = OpToken_new sl (slab_gen s sl)" and p: "slab_peek s sl = Some p"
    by (auto simp: slab_live_eq)
  obtain s' where s': "slab_reclaim s sl = Some ((OpToken_new sl (slab_gen s sl), p), s')"
    "slab_inv s'" "slab_peek s' = (slab_peek s)(sl := None)" "slab_gen s' = slab_gen s"
    "length (slab_slots s') = length (slab_slots s)"
    by (rule slab_reclaim_map [OF inv p]) blast
  have "slab_spent s' = slab_spent s"
    by (simp add: slab_spent_eq s'(4,5))
  moreover have "slab_live s' = slab_live s - {t}"
    using s'(3,4) by (auto simp: slab_live_eq t)
  ultimately show "\<exists>s'. slab_retire s t = Some s' \<and> slab_inv s' \<and> slab_live s' = slab_live s - {t} \<and>
      slab_spent s \<subseteq> slab_spent s'"
    using s'(1,2) by (simp add: slab_retire_def t)
next
  fix s s' :: "'a CompletionSlab"
  assume inv: "slab_inv s" and "slab_silent s s'"
  then obtain sl p where u: "slab_update s sl p = Some s'"
    by (auto simp: slab_silent_def)
  then obtain q where q: "slab_peek s sl = Some q"
    by (auto simp: slab_update_def slab_peek_def bind_Some_iff)
  have m: "slab_inv s'" "slab_peek s' = (slab_peek s)(sl \<mapsto> p)"
    "slab_gen s' = slab_gen s" "length (slab_slots s') = length (slab_slots s)"
    using u by (auto intro: slab_update_map [OF inv q, of p])
  moreover have "dom (slab_peek s') = dom (slab_peek s)"
    using q by (auto simp: m(2))
  ultimately show "slab_inv s' \<and> slab_live s' = slab_live s \<and> slab_spent s \<subseteq> slab_spent s'"
    by (simp add: slab_live_eq slab_spent_eq)
qed

text \<open>C30. Operation tokens never alias: over any history of submissions, retries and completions
  on a fresh slab the tokens handed out are pairwise distinct, and \<open>contains\<close> answers exactly
  whether a token was issued and not yet reclaimed, however often its slot was reused.\<close>

theorem op_tokens_never_alias:
  assumes "CompletionSlab_try_with_capacity True capacity = Some s0"
    and "token_client slab_issue slab_retire slab_silent s0 s I R"
  shows "distinct I \<and> (\<forall>t. unat (OpToken_slot t) < length (slab_slots s) \<longrightarrow>
    slab_contains s t = Some (t \<in> set I - R))"
  using slab_tokens.client_no_alias(1,2) [OF assms(2) slab_inv_new(1,2) [OF assms(1)]]
  by (simp add: slab_contains_iff)

definition sample_slab :: "u32 \<Rightarrow> nat option \<Rightarrow> u32 list \<Rightarrow> nat CompletionSlab" where
  "sample_slab g p fr = \<lparr>slab_slots = [\<lparr>sl_generation = g, sl_payload = p\<rparr>], slab_free = fr\<rparr>"

lemma sample_slab_history:
  "token_client slab_issue slab_retire slab_silent (sample_slab 0 None [0]) (sample_slab 2 (Some 8) [])
     [OpToken_new 0 2, OpToken_new 0 1] {OpToken_new 0 1}"
proof -
  have "slab_issue (sample_slab 0 None [0]) 7 = Some (Some (OpToken_new 0 1), sample_slab 1 (Some 7) [])"
    "slab_retire (sample_slab 1 (Some 7) []) (OpToken_new 0 1) = Some (sample_slab 1 None [0])"
    "slab_issue (sample_slab 1 None [0]) 8 = Some (Some (OpToken_new 0 2), sample_slab 2 (Some 8) [])"
    by (simp_all add: slab_issue_def slab_retire_def slab_reserve_def slab_fill_def slab_reclaim_def sample_slab_def Let_def word_less_nat_alt unsigned_minus_1_eq_mask mask_eq_exp_minus_1)
  then show ?thesis
    by (meson token_client.intros list.set_intros(1) DiffI empty_iff)
qed

theorem op_tokens_never_alias_witness:
  "distinct [OpToken_new 0 2, OpToken_new 0 1]
    \<and> slab_contains (sample_slab 2 (Some 8) []) (OpToken_new 0 1) = Some False
    \<and> slab_contains (sample_slab 2 (Some 8) []) (OpToken_new 0 2) = Some True"
proof -
  have new: "CompletionSlab_try_with_capacity True 1 = Some (sample_slab 0 None [0])"
    by (simp add: CompletionSlab_try_with_capacity_def sample_slab_def)
  show ?thesis
    using op_tokens_never_alias [OF new sample_slab_history] by (simp add: sample_slab_def)
qed

end
