(* ===== verification/File_Table.thy ===== *)
theory File_Table
  imports Contracts Ident
begin

text \<open>
  The file table of \<open>driver.rs\<close> (\<open>FileTable\<close>): generational descriptors with a
  deferred close.  A closed file stays \<open>Closing\<close> while operations are in flight and until the
  backend retired it; only then can \<open>open\<close> reuse the slot.
\<close>

section \<open>Model\<close>

datatype FileState = Free | Open | Closing | Closed

text \<open>\<open>FileSlot\<close> of \<open>driver.rs\<close>.\<close>

record FdSlot =
  fd_generation :: u32
  fd_state :: FileState
  fd_inflight :: u32

record FileTable =
  ft_slots :: "FdSlot list"

definition FileTable_try_with_capacity :: "bool \<Rightarrow> u32 \<Rightarrow> FileTable option" where
  "FileTable_try_with_capacity allocated capacity =
     (if allocated
      then Some \<lparr>ft_slots = replicate (unat capacity) \<lparr>fd_generation = 0, fd_state = Free, fd_inflight = 0\<rparr>\<rparr>
      else None)"

definition FileTable_try_resized :: "bool \<Rightarrow> FileTable \<Rightarrow> u32 \<Rightarrow> FileTable option" where
  "FileTable_try_resized allocated t capacity =
     (if \<not> allocated then None else
      let empty = \<lparr>fd_generation = 0, fd_state = Free, fd_inflight = 0\<rparr>;
          slots = replicate (unat capacity) empty;
          copied = min (length slots) (length (ft_slots t))
      in if list_ex (\<lambda>s. fd_generation s \<noteq> 0 \<or> fd_state s \<noteq> Free) (drop copied (ft_slots t))
         then None
         else Some \<lparr>ft_slots = take copied (ft_slots t) @ drop copied slots\<rparr>)"

text \<open>The scan of \<open>open\<close> from a slot index on; the outer option is the exhausted-generation
  panic.\<close>

function FileTable_open_from :: "FileTable \<Rightarrow> u64 \<Rightarrow> nat \<Rightarrow> (FileId option \<times> FileTable) option" where
  "FileTable_open_from t d index =
     (if index < length (ft_slots t) then
        let s = ft_slots t ! index in
        if fd_state s = Free \<or> fd_state s = Closed then do {
          assert (fd_generation s < - 1);
          let s' = \<lparr>fd_generation = fd_generation s + 1, fd_state = Open, fd_inflight = 0\<rparr>;
          let t' = t\<lparr>ft_slots := (ft_slots t)[index := s']\<rparr>;
          if index < 2 ^ 32 then Some (Some (FileId_new d (of_nat index) (fd_generation s')), t')
          else Some (None, t')
        }
        else FileTable_open_from t d (Suc index)
      else Some (None, t))"
  by auto
termination
  by (relation "measure (\<lambda>(t, d, index). length (ft_slots t) - index)") auto

definition FileTable_open :: "FileTable \<Rightarrow> u64 \<Rightarrow> (FileId option \<times> FileTable) option" where
  "FileTable_open t d = FileTable_open_from t d 0"

definition FileTable_is_live :: "FileTable \<Rightarrow> FileId \<Rightarrow> bool option" where
  "FileTable_is_live t fid = do {
     s \<leftarrow> nth_opt (ft_slots t) (unat (slot fid));
     Some (fd_generation s = generation fid \<and> fd_state s = Open)
   }"

definition FileTable_total_inflight :: "FileTable \<Rightarrow> u32" where
  "FileTable_total_inflight t = sum_list (map fd_inflight (ft_slots t))"

definition FileTable_is_closed :: "FileTable \<Rightarrow> FileId \<Rightarrow> bool option" where
  "FileTable_is_closed t fid = do {
     s \<leftarrow> nth_opt (ft_slots t) (unat (slot fid));
     Some (fd_generation s > generation fid \<or> fd_generation s = generation fid \<and> fd_state s = Closed)
   }"

definition FileTable_on_submit :: "FileTable \<Rightarrow> FileId \<Rightarrow> FileTable option" where
  "FileTable_on_submit t fid = do {
     s \<leftarrow> nth_opt (ft_slots t) (unat (slot fid));
     assert (fd_generation s = generation fid);
     assert (fd_inflight s < - 1);
     Some (t\<lparr>ft_slots := (ft_slots t)[unat (slot fid) := s\<lparr>fd_inflight := fd_inflight s + 1\<rparr>]\<rparr>)
   }"

definition FileTable_on_complete :: "FileTable \<Rightarrow> FileId \<Rightarrow> (bool \<times> FileTable) option" where
  "FileTable_on_complete t fid = do {
     s \<leftarrow> nth_opt (ft_slots t) (unat (slot fid));
     assert (fd_generation s = generation fid);
     assert (fd_inflight s > 0);
     let s' = s\<lparr>fd_inflight := fd_inflight s - 1\<rparr>;
     Some (fd_inflight s' = 0 \<and> fd_state s' = Closing, t\<lparr>ft_slots := (ft_slots t)[unat (slot fid) := s']\<rparr>)
   }"

definition FileTable_finish_retire :: "FileTable \<Rightarrow> FileId \<Rightarrow> FileTable option" where
  "FileTable_finish_retire t fid = do {
     s \<leftarrow> nth_opt (ft_slots t) (unat (slot fid));
     assert (fd_generation s = generation fid);
     assert (fd_state s = Closing);
     assert (fd_inflight s = 0);
     Some (t\<lparr>ft_slots := (ft_slots t)[unat (slot fid) := s\<lparr>fd_state := Closed\<rparr>]\<rparr>)
   }"

definition FileTable_close :: "FileTable \<Rightarrow> FileId \<Rightarrow> (bool \<times> FileTable) option" where
  "FileTable_close t fid = do {
     s \<leftarrow> nth_opt (ft_slots t) (unat (slot fid));
     assert (fd_generation s = generation fid);
     assert (fd_state s = Open);
     let s' = s\<lparr>fd_state := Closing\<rparr>;
     Some (fd_inflight s' = 0, t\<lparr>ft_slots := (ft_slots t)[unat (slot fid) := s']\<rparr>)
   }"

definition FileTable_abort_open :: "FileTable \<Rightarrow> FileId \<Rightarrow> FileTable option" where
  "FileTable_abort_open t fid = do {
     s \<leftarrow> nth_opt (ft_slots t) (unat (slot fid));
     assert (fd_generation s = generation fid);
     assert (fd_state s = Open);
     assert (fd_inflight s = 0);
     Some (t\<lparr>ft_slots := (ft_slots t)[unat (slot fid) := s\<lparr>fd_state := Free\<rparr>]\<rparr>)
   }"

section \<open>Invariant\<close>

abbreviation fd_reusable :: "FdSlot \<Rightarrow> bool" where
  "fd_reusable s \<equiv> fd_state s = Free \<or> fd_state s = Closed"

definition ft_inv :: "FileTable \<Rightarrow> bool" where
  "ft_inv t \<longleftrightarrow> length (ft_slots t) < 2 ^ 32 \<and> (\<forall>s \<in> set (ft_slots t). fd_reusable s \<longrightarrow> fd_inflight s = 0)"

text \<open>Each operation rewrites the one slot its identity names.\<close>

definition ft_put :: "FileTable \<Rightarrow> nat \<Rightarrow> FdSlot \<Rightarrow> FileTable" where
  "ft_put t i s = t\<lparr>ft_slots := (ft_slots t)[i := s]\<rparr>"

lemma ft_put_length [simp]: "length (ft_slots (ft_put t i s)) = length (ft_slots t)"
  by (simp add: ft_put_def)

lemma ft_put_nth [simp]: "i < length (ft_slots t) \<Longrightarrow>
    ft_slots (ft_put t i s) ! j = (if i = j then s else ft_slots t ! j)"
  by (simp add: ft_put_def nth_list_update)

lemma ft_put_inv:
  "ft_inv t \<Longrightarrow> (fd_reusable s \<Longrightarrow> fd_inflight s = 0) \<Longrightarrow> ft_inv (ft_put t i s)"
  by (auto simp: ft_inv_def ft_put_def dest!: set_update_subset_insert [THEN subsetD])

lemma ft_inv_nth: "ft_inv t \<Longrightarrow> i < length (ft_slots t) \<Longrightarrow> fd_reusable (ft_slots t ! i) \<Longrightarrow> fd_inflight (ft_slots t ! i) = 0"
  using nth_mem by (auto simp: ft_inv_def)

declare FileTable_open_from.simps [simp del]

lemma FileTable_open_from_cases:
  assumes "FileTable_open_from t d i = Some r" "length (ft_slots t) < 2 ^ 32"
  shows "(\<exists>j. i \<le> j \<and> j < length (ft_slots t) \<and> fd_reusable (ft_slots t ! j)
           \<and> fd_generation (ft_slots t ! j) < - 1
           \<and> r = (Some (FileId_new d (of_nat j) (fd_generation (ft_slots t ! j) + 1)),
                  ft_put t j \<lparr>fd_generation = fd_generation (ft_slots t ! j) + 1, fd_state = Open, fd_inflight = 0\<rparr>))
       \<or> r = (None, t) \<and> (\<forall>j. i \<le> j \<longrightarrow> j < length (ft_slots t) \<longrightarrow> \<not> fd_reusable (ft_slots t ! j))"
  using assms
proof (induction t d i rule: FileTable_open_from.induct)
  case (1 t d i)
  show ?case
  proof (cases "i < length (ft_slots t) \<and> \<not> fd_reusable (ft_slots t ! i)")
    case True
    then have eq: "FileTable_open_from t d i = FileTable_open_from t d (Suc i)"
      by (simp add: FileTable_open_from.simps [of t d i] Let_def)
    have up: "i \<le> j \<longleftrightarrow> i = j \<or> Suc i \<le> j" for j
      by auto
    show ?thesis
      using 1(1) [of "ft_slots t ! i"] 1(2,3) True unfolding eq up by blast
  next
    case False
    then show ?thesis
      using 1(2,3) by (auto simp: FileTable_open_from.simps [of t d i] Let_def ft_put_def assert_bind split: if_splits)
  qed
qed

lemma FileTable_open_Some:
  assumes "FileTable_open t d = Some (Some fid, t')" "ft_inv t"
  obtains s where "unat (slot fid) < length (ft_slots t)" "s = ft_slots t ! unat (slot fid)" "fd_reusable s"
    "fd_generation s < - 1" "generation fid = fd_generation s + 1" "driver fid = d"
    "t' = ft_put t (unat (slot fid)) \<lparr>fd_generation = generation fid, fd_state = Open, fd_inflight = 0\<rparr>"
    "ft_inv t'"
proof -
  have len: "length (ft_slots t) < 2 ^ 32"
    using assms(2) by (simp add: ft_inv_def)
  obtain j where j: "j < length (ft_slots t)" "fd_reusable (ft_slots t ! j)" "fd_generation (ft_slots t ! j) < - 1"
    "fid = FileId_new d (of_nat j) (fd_generation (ft_slots t ! j) + 1)"
    "t' = ft_put t j \<lparr>fd_generation = fd_generation (ft_slots t ! j) + 1, fd_state = Open, fd_inflight = 0\<rparr>"
    using FileTable_open_from_cases [OF _ len, of d 0] assms(1) by (auto simp: FileTable_open_def)
  have "unat (of_nat j :: u32) = j"
    using j(1) len by (simp add: unsigned_of_nat take_bit_nat_eq_self)
  then show thesis
    using j assms(2) by (intro that [of "ft_slots t ! j"]) (auto simp: FileId_new_def intro: ft_put_inv)
qed

lemma FileTable_open_None:
  assumes "FileTable_open t d = Some (None, t')" "ft_inv t"
  shows "t' = t" "\<And>s. s \<in> set (ft_slots t) \<Longrightarrow> \<not> fd_reusable s"
  using FileTable_open_from_cases [of t d 0 "(None, t')"] assms
  by (auto simp: FileTable_open_def ft_inv_def in_set_conv_nth)

text \<open>The counting operations, on a slot that carries the identity's generation.\<close>

definition ft_at :: "FileTable \<Rightarrow> FileId \<Rightarrow> FdSlot option" where
  "ft_at t fid = (if unat (slot fid) < length (ft_slots t)
       \<and> fd_generation (ft_slots t ! unat (slot fid)) = generation fid
     then Some (ft_slots t ! unat (slot fid)) else None)"

lemma ft_at_SomeD: "ft_at t fid = Some s \<Longrightarrow>
    unat (slot fid) < length (ft_slots t) \<and> ft_slots t ! unat (slot fid) = s \<and> fd_generation s = generation fid"
  by (auto simp: ft_at_def split: if_splits)

lemma FileTable_is_live_iff: "unat (slot fid) < length (ft_slots t) \<Longrightarrow>
    FileTable_is_live t fid = Some (\<exists>s. ft_at t fid = Some s \<and> fd_state s = Open)"
  by (auto simp: FileTable_is_live_def ft_at_def)

lemma FileTable_on_submit_at: "ft_at t fid = Some s \<Longrightarrow> fd_inflight s < - 1 \<Longrightarrow>
    FileTable_on_submit t fid = Some (ft_put t (unat (slot fid)) (s\<lparr>fd_inflight := fd_inflight s + 1\<rparr>))"
  by (auto dest!: ft_at_SomeD simp: FileTable_on_submit_def ft_put_def)

lemma FileTable_on_complete_at: "ft_at t fid = Some s \<Longrightarrow> 0 < fd_inflight s \<Longrightarrow>
    FileTable_on_complete t fid = Some (fd_inflight s = 1 \<and> fd_state s = Closing,
      ft_put t (unat (slot fid)) (s\<lparr>fd_inflight := fd_inflight s - 1\<rparr>))"
  by (auto dest!: ft_at_SomeD simp: FileTable_on_complete_def ft_put_def Let_def)

lemma FileTable_finish_retire_at: "ft_at t fid = Some s \<Longrightarrow> fd_state s = Closing \<Longrightarrow> fd_inflight s = 0 \<Longrightarrow>
    FileTable_finish_retire t fid = Some (ft_put t (unat (slot fid)) (s\<lparr>fd_state := Closed\<rparr>))"
  by (auto dest!: ft_at_SomeD simp: FileTable_finish_retire_def ft_put_def)

lemma FileTable_close_at: "ft_at t fid = Some s \<Longrightarrow> fd_state s = Open \<Longrightarrow>
    FileTable_close t fid = Some (fd_inflight s = 0, ft_put t (unat (slot fid)) (s\<lparr>fd_state := Closing\<rparr>))"
  by (auto dest!: ft_at_SomeD simp: FileTable_close_def ft_put_def Let_def)

lemma FileTable_abort_open_at: "ft_at t fid = Some s \<Longrightarrow> fd_state s = Open \<Longrightarrow> fd_inflight s = 0 \<Longrightarrow>
    FileTable_abort_open t fid = Some (ft_put t (unat (slot fid)) (s\<lparr>fd_state := Free\<rparr>))"
  by (auto dest!: ft_at_SomeD simp: FileTable_abort_open_def ft_put_def)

lemmas file_table_at = FileTable_on_submit_at FileTable_on_complete_at FileTable_finish_retire_at
  FileTable_close_at FileTable_abort_open_at

lemma FileTable_close_Some: "FileTable_close t fid = Some (b, t') \<longleftrightarrow>
    (\<exists>s. ft_at t fid = Some s \<and> fd_state s = Open \<and> b = (fd_inflight s = 0)
       \<and> t' = ft_put t (unat (slot fid)) (s\<lparr>fd_state := Closing\<rparr>))"
  by (auto simp: FileTable_close_def ft_put_def Let_def bind_Some_iff ft_at_def)

section \<open>Identities\<close>

definition ft_live :: "u64 \<Rightarrow> FileTable \<Rightarrow> FileId set" where
  "ft_live d t = {fid. driver fid = d \<and> (\<exists>s. ft_at t fid = Some s \<and> fd_state s = Open)}"

definition ft_spent :: "u64 \<Rightarrow> FileTable \<Rightarrow> FileId set" where
  "ft_spent d t = {fid. driver fid = d \<and> unat (slot fid) < length (ft_slots t)
     \<and> generation fid \<le> fd_generation (ft_slots t ! unat (slot fid))}"

definition ft_issue :: "u64 \<Rightarrow> FileTable \<Rightarrow> unit \<Rightarrow> (FileId option \<times> FileTable) option" where
  "ft_issue d t _ = FileTable_open t d"

text \<open>The close a driver performs: an idle file is retired at once, a busy one when its last
  operation completes.\<close>

definition ft_retire :: "FileTable \<Rightarrow> FileId \<Rightarrow> FileTable option" where
  "ft_retire t fid = do {
     (idle, t') \<leftarrow> FileTable_close t fid;
     if idle then FileTable_finish_retire t' fid else Some t'
   }"

definition ft_complete :: "FileTable \<Rightarrow> FileId \<Rightarrow> FileTable option" where
  "ft_complete t fid = do {
     (due, t') \<leftarrow> FileTable_on_complete t fid;
     if due then FileTable_finish_retire t' fid else Some t'
   }"

definition ft_silent :: "FileTable \<Rightarrow> FileTable \<Rightarrow> bool" where
  "ft_silent t t' \<longleftrightarrow> (\<exists>fid. FileTable_is_live t fid = Some True \<and> FileTable_on_submit t fid = Some t'
     \<or> ft_complete t fid = Some t')"

lemma unat_slot_eq: "unat (slot a) = unat (slot b) \<longleftrightarrow> slot a = slot b"
  by (simp add: word_unat_eq_iff)

lemma FileId_eqI: "driver a = driver b \<Longrightarrow> slot a = slot b \<Longrightarrow> generation a = generation b \<Longrightarrow> a = (b :: FileId)"
  by simp

lemma ft_silent_slot:
  assumes "ft_inv t" "ft_silent t t'"
  obtains fid s s' where "ft_at t fid = Some s" "t' = ft_put t (unat (slot fid)) s'"
    "fd_generation s' = fd_generation s" "fd_state s' = Open \<longleftrightarrow> fd_state s = Open"
    "fd_reusable s' \<Longrightarrow> fd_inflight s' = 0"
proof -
  obtain fid where "FileTable_is_live t fid = Some True \<and> FileTable_on_submit t fid = Some t'
     \<or> ft_complete t fid = Some t'"
    using assms(2) by (auto simp: ft_silent_def)
  then show thesis
  proof (elim disjE conjE)
    assume "FileTable_is_live t fid = Some True" "FileTable_on_submit t fid = Some t'"
    then show thesis
      by (intro that [of fid "ft_slots t ! unat (slot fid)"])
        (auto simp: FileTable_is_live_def FileTable_on_submit_def bind_Some_iff ft_at_def ft_put_def)
  next
    assume "ft_complete t fid = Some t'"
    then obtain due t1 where c: "FileTable_on_complete t fid = Some (due, t1)"
      and r: "(if due then FileTable_finish_retire t1 fid else Some t1) = Some t'"
      by (auto simp: ft_complete_def bind_Some_iff)
    define s where "s = ft_slots t ! unat (slot fid)"
    have s: "ft_at t fid = Some s" "0 < fd_inflight s" "\<not> fd_reusable s"
      using c ft_inv_nth [OF assms(1), of "unat (slot fid)"]
      by (auto simp: FileTable_on_complete_def bind_Some_iff ft_at_def s_def Let_def)
    define s1 where "s1 = s\<lparr>fd_inflight := fd_inflight s - 1\<rparr>"
    have t1: "t1 = ft_put t (unat (slot fid)) s1" and due: "due \<longleftrightarrow> fd_inflight s = 1 \<and> fd_state s = Closing"
      using FileTable_on_complete_at [OF s(1,2)] c by (auto simp: s1_def)
    have "ft_at t1 fid = Some s1"
      using ft_at_SomeD [OF s(1)] by (auto simp: t1 ft_at_def s1_def)
    then have "t' = ft_put t (unat (slot fid)) (if due then s1\<lparr>fd_state := Closed\<rparr> else s1)"
      using r FileTable_finish_retire_at [of t1 fid s1] by (auto simp: t1 due s1_def ft_put_def split: if_splits)
    then show thesis
      using s by (intro that [of fid s "if due then s1\<lparr>fd_state := Closed\<rparr> else s1"]) (auto simp: due s1_def)
  qed
qed

interpretation file_ids: token_source "ft_issue d" ft_retire ft_silent ft_inv "ft_live d" "ft_spent d" for d
proof
  show "ft_live d t \<subseteq> ft_spent d t" if "ft_inv t" for t
    by (auto simp: ft_live_def ft_spent_def ft_at_def split: if_splits)
next
  fix t p fid t'
  assume inv: "ft_inv t" and "ft_issue d t p = Some (Some fid, t')"
  then obtain s where o: "unat (slot fid) < length (ft_slots t)" "s = ft_slots t ! unat (slot fid)" "fd_reusable s"
    "fd_generation s < - 1" "generation fid = fd_generation s + 1" "driver fid = d"
    "t' = ft_put t (unat (slot fid)) \<lparr>fd_generation = generation fid, fd_state = Open, fd_inflight = 0\<rparr>" "ft_inv t'"
    unfolding ft_issue_def using FileTable_open_Some by blast
  have gt: "fd_generation s < generation fid"
    unfolding o(5) by (rule below_max_less [OF o(4)])
  then have "fid \<notin> ft_spent d t" "fid \<in> ft_spent d t'"
    using o(1,2,6) by (auto simp: ft_spent_def o(7))
  moreover have "ft_spent d t \<subseteq> ft_spent d t'"
    using o(1,2) gt by (auto simp: ft_spent_def o(7))
  moreover have "ft_live d t' = insert fid (ft_live d t)"
    using o(1,2,3,6) by (auto simp: ft_live_def ft_at_def o(7) unat_slot_eq split: if_splits intro: FileId_eqI)
  ultimately show "ft_inv t' \<and> fid \<notin> ft_spent d t \<and> ft_live d t' = insert fid (ft_live d t)
      \<and> insert fid (ft_spent d t) \<subseteq> ft_spent d t'"
    using o(8) by blast
next
  fix t fid
  assume inv: "ft_inv t" and "fid \<in> ft_live d t"
  then obtain s where s: "driver fid = d" "ft_at t fid = Some s" "fd_state s = Open"
    by (auto simp: ft_live_def)
  define t' where "t' = ft_put t (unat (slot fid)) (s\<lparr>fd_state := (if fd_inflight s = 0 then Closed else Closing)\<rparr>)"
  note at = ft_at_SomeD [OF s(2)]
  have "ft_at (ft_put t (unat (slot fid)) (s\<lparr>fd_state := Closing\<rparr>)) fid = Some (s\<lparr>fd_state := Closing\<rparr>)"
    using at by (simp add: ft_at_def)
  from FileTable_finish_retire_at [OF this] have "ft_retire t fid = Some t'"
    using FileTable_close_at [OF s(2,3)] by (simp add: ft_retire_def t'_def ft_put_def)
  moreover have "ft_inv t'"
    unfolding t'_def by (rule ft_put_inv [OF inv]) (simp split: if_splits)
  moreover have "ft_live d t' = ft_live d t - {fid}" "ft_spent d t' = ft_spent d t"
    using s at by (auto simp: t'_def ft_live_def ft_spent_def ft_at_def unat_slot_eq split: if_splits intro: FileId_eqI)
  ultimately show "\<exists>t'. ft_retire t fid = Some t' \<and> ft_inv t' \<and> ft_live d t' = ft_live d t - {fid}
      \<and> ft_spent d t \<subseteq> ft_spent d t'"
    by blast
next
  fix t t'
  assume inv: "ft_inv t" and "ft_silent t t'"
  then obtain fid s s' where at: "ft_at t fid = Some s" and t': "t' = ft_put t (unat (slot fid)) s'"
    and keep: "fd_generation s' = fd_generation s" "fd_state s' = Open \<longleftrightarrow> fd_state s = Open"
    and ok: "fd_reusable s' \<Longrightarrow> fd_inflight s' = 0"
    by (rule ft_silent_slot) blast
  have "ft_inv t'"
    unfolding t' by (rule ft_put_inv [OF inv ok])
  moreover have "ft_live d t' = ft_live d t" "ft_spent d t' = ft_spent d t"
    using ft_at_SomeD [OF at] keep
    by (auto simp: t' ft_live_def ft_spent_def ft_at_def unat_slot_eq split: if_splits)
  ultimately show "ft_inv t' \<and> ft_live d t' = ft_live d t \<and> ft_spent d t \<subseteq> ft_spent d t'"
    by blast
qed

lemma ft_new:
  assumes "FileTable_try_with_capacity True capacity = Some t"
  shows "ft_inv t" "ft_live d t = {}" "length (ft_slots t) = unat capacity"
proof -
  have t: "t = \<lparr>ft_slots = replicate (unat capacity) \<lparr>fd_generation = 0, fd_state = Free, fd_inflight = 0\<rparr>\<rparr>"
    using assms by (simp add: FileTable_try_with_capacity_def)
  show "ft_inv t"
    using unsigned_less [where 'a = nat, of capacity] by (auto simp: t ft_inv_def)
  show "ft_live d t = {}" "length (ft_slots t) = unat capacity"
    by (auto simp: t ft_live_def ft_at_def split: if_splits)
qed

text \<open>C31. File identities never alias: over any history of opens, submissions, completions and
  closes on a fresh table, with slots reused as soon as their files are retired, the identities
  handed out are pairwise distinct, and \<open>is_live\<close> answers exactly whether an identity
  was opened and not yet closed.\<close>

theorem file_ids_never_alias:
  assumes "FileTable_try_with_capacity True capacity = Some t0"
    and "token_client (ft_issue d) ft_retire ft_silent t0 t I R"
  shows "distinct I \<and> (\<forall>fid. driver fid = d \<longrightarrow> unat (slot fid) < length (ft_slots t) \<longrightarrow>
    FileTable_is_live t fid = Some (fid \<in> set I - R))"
proof -
  note ids = file_ids.client_no_alias(1,2) [OF assms(2) ft_new(1,2) [OF assms(1)]]
  have "FileTable_is_live t fid = Some (fid \<in> set I - R)"
    if "driver fid = d" "unat (slot fid) < length (ft_slots t)" for fid
    unfolding ids(2) [symmetric] using that by (simp add: FileTable_is_live_iff ft_live_def)
  then show ?thesis
    using ids(1) by blast
qed

definition sample_files :: "u32 \<Rightarrow> FileState \<Rightarrow> u32 \<Rightarrow> FileTable" where
  "sample_files g st n = \<lparr>ft_slots = [\<lparr>fd_generation = g, fd_state = st, fd_inflight = n\<rparr>]\<rparr>"

lemmas sample_file_simps = sample_files_def FileTable_open_def FileTable_open_from.simps ft_issue_def
  ft_retire_def ft_complete_def FileTable_is_live_def FileTable_on_submit_def FileTable_on_complete_def
  FileTable_close_def FileTable_finish_retire_def FileId_new_def Let_def word_less_nat_alt
  unsigned_minus_1_eq_mask mask_eq_exp_minus_1

lemma sample_files_history:
  "token_client (ft_issue 5) ft_retire ft_silent (sample_files 0 Free 0) (sample_files 2 Open 0)
     [FileId_new 5 0 2, FileId_new 5 0 1] {FileId_new 5 0 1}"
proof -
  have opened: "ft_issue 5 (sample_files 0 Free 0) () = Some (Some (FileId_new 5 0 1), sample_files 1 Open 0)"
    by (simp add: sample_file_simps)
  have "FileTable_is_live (sample_files 1 Open 0) (FileId_new 5 0 1) = Some True"
    "FileTable_on_submit (sample_files 1 Open 0) (FileId_new 5 0 1) = Some (sample_files 1 Open 1)"
    by (simp_all add: sample_file_simps)
  then have submitted: "ft_silent (sample_files 1 Open 0) (sample_files 1 Open 1)"
    unfolding ft_silent_def by blast
  have closed: "ft_retire (sample_files 1 Open 1) (FileId_new 5 0 1) = Some (sample_files 1 Closing 1)"
    by (simp add: sample_file_simps)
  have "ft_complete (sample_files 1 Closing 1) (FileId_new 5 0 1) = Some (sample_files 1 Closed 0)"
    by (simp add: sample_file_simps)
  then have completed: "ft_silent (sample_files 1 Closing 1) (sample_files 1 Closed 0)"
    unfolding ft_silent_def by blast
  have reopened: "ft_issue 5 (sample_files 1 Closed 0) () = Some (Some (FileId_new 5 0 2), sample_files 2 Open 0)"
    by (simp add: sample_file_simps)
  show ?thesis
    by (rule token_issue, rule token_silent, rule token_retire, rule token_silent, rule token_issue,
      rule token_start, rule opened, rule submitted, simp, rule closed, rule completed, rule reopened)
qed

theorem file_ids_never_alias_witness:
  "distinct [FileId_new 5 0 2, FileId_new 5 0 1]
     \<and> FileTable_is_live (sample_files 2 Open 0) (FileId_new 5 0 1) = Some False
     \<and> FileTable_is_live (sample_files 2 Open 0) (FileId_new 5 0 2) = Some True"
proof -
  have new: "FileTable_try_with_capacity True 1 = Some (sample_files 0 Free 0)"
    by (simp add: FileTable_try_with_capacity_def sample_files_def)
  show ?thesis
    using file_ids_never_alias [OF new sample_files_history] by (simp add: sample_files_def FileId_new_def)
qed

end
