(* ===== verification/Write_Arena.thy ===== *)
theory Write_Arena
  imports Contracts
begin

text \<open>
  The write staging arena of \<open>pool/write_arena.rs\<close>: one allocation of granule regions, a free
  bit per slot, and the count of blocked allocators.  The base pointer is address 0, so a region
  is a range of byte positions.  \<open>wait_for_release\<close> is split at its condition-variable wait.
\<close>

section \<open>Model\<close>

record ArenaState =
  wa_free :: "bool list"
  wa_size :: nat
  wa_granule :: u32
  wa_owner :: u64
  wa_waiters :: u32

text \<open>\<open>isize::MAX\<close> bounds the size of a layout.\<close>

definition ArenaState_try_preallocated :: "bool \<Rightarrow> u32 \<Rightarrow> u32 \<Rightarrow> u64 \<Rightarrow> ArenaState option option" where
  "ArenaState_try_preallocated allocated slot_count granule owner = do {
     assert (slot_count > 0);
     assert (is_power_of_two granule);
     let span = unat slot_count * unat granule;
     assert (span < 2 ^ 64);
     assert (span \<le> 2 ^ 63 - unat granule);
     Some (if allocated
           then Some \<lparr>wa_free = replicate (unat slot_count) True, wa_size = span, wa_granule = granule,
                      wa_owner = owner, wa_waiters = 0\<rparr>
           else None)
   }"

record WriteSlot =
  ws_slot :: u32
  ws_consumed :: bool

function alloc_within_loop :: "ArenaState \<Rightarrow> nat \<Rightarrow> nat \<Rightarrow> (WriteSlot option \<times> ArenaState) option" where
  "alloc_within_loop a limit index =
     (if index < length (wa_free a) \<and> index < limit then
        (if wa_free a ! index then do {
           assert (index < 2 ^ 32);
           Some (Some \<lparr>ws_slot = of_nat index, ws_consumed = False\<rparr>, a\<lparr>wa_free := (wa_free a)[index := False]\<rparr>)
         }
         else alloc_within_loop a limit (Suc index))
      else Some (None, a))"
  by auto
termination
  by (relation "measure (\<lambda>(a, limit, index). length (wa_free a) - index)") auto

definition alloc_within :: "ArenaState \<Rightarrow> u32 \<Rightarrow> (WriteSlot option \<times> ArenaState) option" where
  "alloc_within a limit = alloc_within_loop a (unat limit) 0"

definition ArenaState_alloc :: "ArenaState \<Rightarrow> (WriteSlot option \<times> ArenaState) option" where
  "ArenaState_alloc a = do {
     assert (length (wa_free a) < 2 ^ 32);
     alloc_within a (of_nat (length (wa_free a)))
   }"

definition assert_owner :: "ArenaState \<Rightarrow> u64 \<Rightarrow> unit option" where
  "assert_owner a owner = assert (wa_owner a = owner)"

text \<open>The first byte of the checked source range.\<close>

definition region :: "ArenaState \<Rightarrow> u32 \<Rightarrow> u32 \<Rightarrow> u32 \<Rightarrow> nat option" where
  "region a sl source_offset len = do {
     let index = unat sl;
     assert (index < length (wa_free a));
     assert (source_offset \<le> wa_granule a);
     assert (len \<le> wa_granule a - source_offset);
     let offset = index * unat (wa_granule a) + unat source_offset;
     assert (offset + unat len \<le> wa_size a);
     Some offset
   }"

text \<open>The flag tells whether the release notifies a waiter.\<close>

definition ArenaState_release :: "ArenaState \<Rightarrow> u32 \<Rightarrow> (bool \<times> ArenaState) option" where
  "ArenaState_release a sl = do {
     was_free \<leftarrow> nth_opt (wa_free a) (unat sl);
     assert (\<not> was_free);
     let a' = a\<lparr>wa_free := (wa_free a)[unat sl := True]\<rparr>;
     Some (wa_waiters a' > 0, a')
   }"

text \<open>Up to the wait: \<open>False\<close> when a free slot makes the call return at once.\<close>

definition wait_begin :: "ArenaState \<Rightarrow> (bool \<times> ArenaState) option" where
  "wait_begin a = do {
     assert (wa_waiters a < - 1);
     let a' = a\<lparr>wa_waiters := wa_waiters a + 1\<rparr>;
     if list_ex id (wa_free a') then do {
       assert (wa_waiters a' > 0);
       Some (False, a'\<lparr>wa_waiters := wa_waiters a' - 1\<rparr>)
     }
     else Some (True, a')
   }"

text \<open>After the wait, notified or timed out.\<close>

definition wait_end :: "ArenaState \<Rightarrow> ArenaState option" where
  "wait_end a = do {
     assert (wa_waiters a > 0);
     Some (a\<lparr>wa_waiters := wa_waiters a - 1\<rparr>)
   }"

definition WriteSlot_into_index :: "WriteSlot \<Rightarrow> u32" where
  "WriteSlot_into_index w = ws_slot w"

definition region_offset :: "ArenaState \<Rightarrow> WriteSlot \<Rightarrow> nat option" where
  "region_offset a w = do {
     assert (unat (ws_slot w) < length (wa_free a));
     Some (unat (ws_slot w) * unat (wa_granule a))
   }"

definition WriteSlot_drop :: "ArenaState \<Rightarrow> WriteSlot \<Rightarrow> ArenaState option" where
  "WriteSlot_drop a w = (if ws_consumed w then Some a else map_option snd (ArenaState_release a (ws_slot w)))"

section \<open>Exclusive leases\<close>

definition arena_inv :: "ArenaState \<Rightarrow> bool" where
  "arena_inv a \<longleftrightarrow> length (wa_free a) < 2 ^ 32 \<and> wa_size a = length (wa_free a) * unat (wa_granule a)"

definition arena_slots :: "ArenaState \<Rightarrow> u32 set" where
  "arena_slots a = {s. unat s < length (wa_free a)}"

definition arena_free :: "ArenaState \<Rightarrow> u32 set" where
  "arena_free a = {s. unat s < length (wa_free a) \<and> wa_free a ! unat s}"

definition arena_lend :: "ArenaState \<Rightarrow> (u32 option \<times> ArenaState) option" where
  "arena_lend a = map_option (map_prod (map_option WriteSlot_into_index) id) (ArenaState_alloc a)"

definition arena_give :: "ArenaState \<Rightarrow> u32 \<Rightarrow> ArenaState option" where
  "arena_give a s = map_option snd (ArenaState_release a s)"

declare alloc_within_loop.simps [simp del]

lemma alloc_within_loop_cases:
  assumes "length (wa_free a) < 2 ^ 32"
  shows "(\<exists>i. index \<le> i \<and> i < length (wa_free a) \<and> i < limit \<and> wa_free a ! i
      \<and> alloc_within_loop a limit index = Some (Some \<lparr>ws_slot = of_nat i, ws_consumed = False\<rparr>,
          a\<lparr>wa_free := (wa_free a)[i := False]\<rparr>))
    \<or> alloc_within_loop a limit index = Some (None, a)
      \<and> (\<forall>i. index \<le> i \<longrightarrow> i < length (wa_free a) \<longrightarrow> i < limit \<longrightarrow> \<not> wa_free a ! i)"
  using assms
proof (induction a limit index rule: alloc_within_loop.induct)
  case (1 a limit index)
  show ?case
  proof (cases "index < length (wa_free a) \<and> index < limit \<and> \<not> wa_free a ! index")
    case True
    then have eq: "alloc_within_loop a limit index = alloc_within_loop a limit (Suc index)"
      by (simp add: alloc_within_loop.simps [of a limit index])
    have up: "index \<le> i \<longleftrightarrow> i = index \<or> Suc index \<le> i" for i
      by auto
    show ?thesis
      using 1(1) 1(2) True unfolding eq up by blast
  next
    case False
    then show ?thesis
      using 1(2) by (auto simp: alloc_within_loop.simps [of a limit index])
  qed
qed

interpretation write_slots: slot_pool arena_lend arena_give arena_inv arena_free arena_slots
proof
  fix a
  assume inv: "arena_inv a"
  then have len: "length (wa_free a) < 2 ^ 32" "unat (of_nat (length (wa_free a)) :: u32) = length (wa_free a)"
    by (simp_all add: arena_inv_def unsigned_of_nat take_bit_nat_eq_self)
  have small: "unat (of_nat i :: u32) = i" if "i < length (wa_free a)" for i
    using that len(1) by (simp add: unsigned_of_nat take_bit_nat_eq_self)
  show "arena_free a \<subseteq> arena_slots a"
    by (auto simp: arena_free_def arena_slots_def)
  note scan = alloc_within_loop_cases [OF len(1), of 0 "length (wa_free a)"]
  have lend: "arena_lend a = map_option (map_prod (map_option WriteSlot_into_index) id) (alloc_within_loop a (length (wa_free a)) 0)"
    using len by (simp add: arena_lend_def ArenaState_alloc_def alloc_within_def)
  show "arena_lend a = Some (None, a)" if "arena_free a = {}"
  proof -
    have "\<not> wa_free a ! i" if "i < length (wa_free a)" for i
      using \<open>arena_free a = {}\<close> that small [OF that] by (auto simp: arena_free_def dest: spec [of _ "of_nat i"])
    then show ?thesis
      using scan by (auto simp: lend)
  qed
  show "\<exists>i a'. arena_lend a = Some (Some i, a') \<and> i \<in> arena_free a \<and> arena_free a' = arena_free a - {i}
      \<and> arena_inv a' \<and> arena_slots a' = arena_slots a" if "arena_free a \<noteq> {}"
  proof -
    from that obtain j where "j < length (wa_free a)" "wa_free a ! j"
      by (auto simp: arena_free_def)
    then obtain i where i: "i < length (wa_free a)" "wa_free a ! i"
      "alloc_within_loop a (length (wa_free a)) 0 = Some (Some \<lparr>ws_slot = of_nat i, ws_consumed = False\<rparr>,
        a\<lparr>wa_free := (wa_free a)[i := False]\<rparr>)"
      using scan by auto
    have "arena_free (a\<lparr>wa_free := (wa_free a)[i := False]\<rparr>) = arena_free a - {of_nat i}"
      using i(1) small [OF i(1)] by (auto simp: arena_free_def nth_list_update)
    then show ?thesis
      using i inv small [OF i(1)]
      by (simp add: lend WriteSlot_into_index_def arena_free_def arena_slots_def arena_inv_def)
  qed
next
  fix a i
  assume inv: "arena_inv a" and i: "i \<in> arena_slots a" "i \<notin> arena_free a"
  then have "arena_free (a\<lparr>wa_free := (wa_free a)[unat i := True]\<rparr>) = insert i (arena_free a)"
    by (auto simp: arena_free_def arena_slots_def nth_list_update word_unat_eq_iff)
  then show "\<exists>a'. arena_give a i = Some a' \<and> arena_free a' = insert i (arena_free a) \<and> arena_inv a' \<and> arena_slots a' = arena_slots a"
    using i inv by (simp add: arena_give_def ArenaState_release_def arena_free_def arena_slots_def arena_inv_def Let_def)
qed

lemma arena_new:
  assumes "ArenaState_try_preallocated True n granule owner = Some (Some a)"
  shows "arena_inv a" "arena_free a = arena_slots a"
proof -
  have a: "a = \<lparr>wa_free = replicate (unat n) True, wa_size = unat n * unat granule, wa_granule = granule,
      wa_owner = owner, wa_waiters = 0\<rparr>"
    using assms by (auto simp: ArenaState_try_preallocated_def bind_Some_iff Let_def)
  show "arena_inv a"
    using unsigned_less [where 'a = nat, of n] by (simp add: a arena_inv_def)
  show "arena_free a = arena_slots a"
    by (auto simp: a arena_free_def arena_slots_def)
qed

lemma region_Some:
  assumes "arena_inv a" "unat sl < length (wa_free a)"
  shows "region a sl off len = (if off \<le> wa_granule a \<and> len \<le> wa_granule a - off
    then Some (unat sl * unat (wa_granule a) + unat off) else None)"
proof -
  have "unat sl * unat (wa_granule a) + unat off + unat len \<le> wa_size a"
    if "off \<le> wa_granule a" "len \<le> wa_granule a - off"
  proof -
    have "unat off + unat len \<le> unat (wa_granule a)"
      using that by (simp add: word_le_nat_alt unat_sub_le)
    moreover have "Suc (unat sl) * unat (wa_granule a) \<le> wa_size a"
      using assms mult_le_mono1 [of "Suc (unat sl)" "length (wa_free a)" "unat (wa_granule a)"]
      by (simp add: arena_inv_def)
    ultimately show ?thesis
      by simp
  qed
  then show ?thesis
    using assms(2) by (auto simp: region_def Let_def assert_bind)
qed

text \<open>C32. Write leases are exclusive and their regions never overlap: in every state a history of
  allocations and releases on a fresh arena reaches, an allocation returns a slot nobody holds, a
  held slot can be released without tripping the exactly-once assertion, every source range inside
  a granule is accepted for a held slot, and the ranges of two distinct held slots are disjoint and
  inside the allocation.\<close>

theorem write_leases_disjoint:
  assumes "ArenaState_try_preallocated True n granule owner = Some (Some a0)"
    and client: "pool_client arena_lend arena_give a0 a H"
  shows "(\<forall>s a'. arena_lend a = Some (Some s, a') \<longrightarrow> s \<notin> H)
    \<and> (\<forall>s \<in> H. ArenaState_release a s \<noteq> None)
    \<and> (\<forall>s \<in> H. \<forall>off len. off \<le> wa_granule a \<and> len \<le> wa_granule a - off \<longrightarrow> region a s off len \<noteq> None)
    \<and> (\<forall>s \<in> H. \<forall>t \<in> H. \<forall>off len p off' len' q. s \<noteq> t \<longrightarrow> region a s off len = Some p \<longrightarrow> region a t off' len' = Some q \<longrightarrow>
        (p + unat len \<le> q \<or> q + unat len' \<le> p) \<and> p + unat len \<le> wa_size a)"
proof -
  note new = arena_new [OF assms(1)]
  note excl = write_slots.client_exclusive [OF client new]
  have inv: "arena_inv a" and held: "s \<in> H \<Longrightarrow> unat s < length (wa_free a)" for s
    using write_slots.client_partition [OF client new] by (auto simp: arena_slots_def)
  have "ArenaState_release a s \<noteq> None" if "s \<in> H" for s
    using excl(2) [OF that] by (simp add: arena_give_def)
  moreover have "(p + unat len \<le> q \<or> q + unat len' \<le> p) \<and> p + unat len \<le> wa_size a"
    if st: "s \<in> H" "t \<in> H" "s \<noteq> t" and p: "region a s off len = Some p" and q: "region a t off' len' = Some q"
    for s t off len p off' len' q
  proof -
    let ?g = "unat (wa_granule a)"
    have p': "p = unat s * ?g + unat off" "unat off + unat len \<le> ?g" and q': "q = unat t * ?g + unat off'" "unat off' + unat len' \<le> ?g"
      using p q region_Some [OF inv held] st by (auto simp: word_le_nat_alt unat_sub_le split: if_splits)
    have "Suc (unat s) \<le> unat t \<or> Suc (unat t) \<le> unat s"
      using st(3) by (auto simp: word_unat_eq_iff)
    then have "Suc (unat s) * ?g \<le> unat t * ?g \<or> Suc (unat t) * ?g \<le> unat s * ?g"
      using mult_le_mono1 by blast
    moreover have "p + unat len \<le> wa_size a"
      using p by (auto simp: region_def Let_def bind_Some_iff)
    ultimately show ?thesis
      using p' q' by auto
  qed
  ultimately show ?thesis
    using excl(1) region_Some [OF inv held] by auto
qed

definition sample_write_arena :: "bool list \<Rightarrow> ArenaState" where
  "sample_write_arena bits = \<lparr>wa_free = bits, wa_size = 8192, wa_granule = 4096, wa_owner = 7, wa_waiters = 0\<rparr>"

theorem write_leases_disjoint_witness:
  "arena_lend (sample_write_arena [False, True]) = Some (Some 1, sample_write_arena [False, False])
    \<and> ArenaState_release (sample_write_arena [False, False]) 0 \<noteq> None
    \<and> region (sample_write_arena [False, False]) 1 512 1024 = Some 4608"
proof -
  let ?A = sample_write_arena
  have "is_power_of_two (4096 :: u32)"
    using is_power_of_two_exp [of 12, where 'a = 32] by simp
  moreover have "replicate 2 True = [True, True]"
    by (simp add: numeral_2_eq_2)
  ultimately have new: "ArenaState_try_preallocated True 2 4096 7 = Some (Some (?A [True, True]))"
    by (simp add: ArenaState_try_preallocated_def sample_write_arena_def Let_def)
  have l: "arena_lend (?A [True, True]) = Some (Some 0, ?A [False, True])"
    "arena_lend (?A [False, True]) = Some (Some 1, ?A [False, False])"
    by (simp_all add: arena_lend_def ArenaState_alloc_def alloc_within_def alloc_within_loop.simps sample_write_arena_def
        WriteSlot_into_index_def)
  have "pool_client arena_lend arena_give (?A [True, True]) (?A [False, False]) {1, 0}"
    by (rule client_lend, rule client_lend, rule client_start, rule l(1), rule l(2))
  from write_leases_disjoint [OF new this] l(2) show ?thesis
    by (simp add: region_def sample_write_arena_def)
qed

end
