(* ===== verification/Driver.thy ===== *)
theory Driver
  imports Eager Slab File_Table Write_Arena
begin

text \<open>
  The driver core of \<open>driver.rs\<close> and the lease half of \<open>driver/read_vector.rs\<close>: admission,
  the ready queue, the locked prepare and publish phases around the unlocked execution, the ring's
  fill and reap, deferred completions, and the two-phase close.  \<open>DriverCore\<close> carries the state of
  \<open>Shared\<close> as well; the mutex around it makes every locked phase one definition.  The executor's
  state is the file entries of the eager backend; the observation hooks of the executor trait do
  not change state.  \<open>dc_schedule\<close> is the executor's placement in the ready order.
\<close>

section \<open>State\<close>

record Completion =
  co_token :: OpToken
  co_kind :: OpKind
  co_result :: "IoError + u32"
  co_frame :: "ReadDestination option"
  co_continuation :: "OpToken option"

record DeferredCompletion =
  df_fd :: FileId
  df_retire :: bool
  df_outcome :: "int + u32"

record 'file DriverCore =
  dc_slab :: "OpEntry CompletionSlab"
  dc_files :: FileTable
  dc_ready :: "u32 list"
  dc_backlog :: "Completion list"
  dc_deferred :: "DeferredCompletion list"
  dc_vectors :: VectorStorage
  dc_executor :: "'file EagerState"
  dc_write_arena :: ArenaState
  dc_arena :: Frames
  dc_retry_bound :: u32
  dc_queue_capacity :: u32
  dc_id :: u64
  dc_schedule :: "nat \<Rightarrow> nat"

definition assert_own :: "'file DriverCore \<Rightarrow> FileId \<Rightarrow> unit option" where
  "assert_own d fid = assert (driver fid = dc_id d)"

section \<open>Retirement and deferred completions\<close>

definition retire :: "'file DriverCore \<Rightarrow> FileId \<Rightarrow> 'file DriverCore option" where
  "retire d fd = do {
     executor \<leftarrow> Eager_retire_file (dc_executor d) (slot fd);
     files \<leftarrow> FileTable_finish_retire (dc_files d) fd;
     Some (d\<lparr>dc_executor := executor, dc_files := files\<rparr>)
   }"

primrec flush_deferred_loop :: "nat \<Rightarrow> 'file DriverCore \<Rightarrow> 'file DriverCore option" where
  "flush_deferred_loop 0 d = Some d"
| "flush_deferred_loop (Suc n) d =
     (case dc_deferred d of
        [] \<Rightarrow> Some d
      | completion # rest \<Rightarrow> do {
          let d = d\<lparr>dc_deferred := rest\<rparr>;
          d \<leftarrow> (if df_retire completion then retire d (df_fd completion) else Some d);
          flush_deferred_loop n d
        })"

definition flush_deferred :: "'file DriverCore \<Rightarrow> 'file DriverCore option" where
  "flush_deferred d = flush_deferred_loop (unat (dc_queue_capacity d)) d"

definition release_read_lease :: "'file DriverCore \<Rightarrow> u32 \<Rightarrow> 'file DriverCore option" where
  "release_read_lease d sl = do {
     ((_, entry), slab) \<leftarrow> slab_reclaim (dc_slab d) sl;
     outcome \<leftarrow> (case oe_state entry of
        Continuation \<Rightarrow> Some (Inl EIO)
      | Terminal outcome \<Rightarrow> Some outcome
      | _ \<Rightarrow> None);
     assert (oe_frame entry = None);
     (due, files) \<leftarrow> FileTable_on_complete (dc_files d) (oe_fd entry);
     assert (length (dc_deferred d) < unat (dc_queue_capacity d));
     Some (d\<lparr>dc_slab := slab, dc_files := files,
       dc_deferred := dc_deferred d @ [\<lparr>df_fd = oe_fd entry, df_retire = due, df_outcome = outcome\<rparr>]\<rparr>)
   }"

text \<open>\<open>Drop for ReadContinuation\<close> of a lease that still carries its token.\<close>

definition ReadContinuation_drop :: "'file DriverCore \<Rightarrow> OpToken \<Rightarrow> 'file DriverCore option" where
  "ReadContinuation_drop d token = do {
     live \<leftarrow> slab_contains (dc_slab d) token;
     if live then do {
       entry \<leftarrow> slab_peek (dc_slab d) (OpToken_slot token);
       assert (case oe_state entry of Continuation \<Rightarrow> True | Terminal _ \<Rightarrow> True | _ \<Rightarrow> False);
       release_read_lease d (OpToken_slot token)
     }
     else Some d
   }"

primrec abandon_loop :: "nat \<Rightarrow> nat \<Rightarrow> 'file DriverCore \<Rightarrow> 'file DriverCore option" where
  "abandon_loop 0 index d = Some d"
| "abandon_loop (Suc n) index d = do {
     entry \<leftarrow> nth_opt (slab_slots (dc_slab d)) index;
     d \<leftarrow> (if (case sl_payload entry of
                  None \<Rightarrow> False
                | Some e \<Rightarrow> (case oe_state e of Continuation \<Rightarrow> True | Terminal _ \<Rightarrow> True | _ \<Rightarrow> False))
           then release_read_lease d (of_nat index) else Some d);
     abandon_loop n (Suc index) d
   }"

definition abandon_held_continuations :: "'file DriverCore \<Rightarrow> 'file DriverCore option" where
  "abandon_held_continuations d = do {
     d \<leftarrow> abandon_loop (unat (dc_queue_capacity d)) 0 d;
     flush_deferred d
   }"

section \<open>Files\<close>

definition reserve_file :: "'file DriverCore \<Rightarrow> (FileId option \<times> 'file DriverCore) option" where
  "reserve_file d = do {
     d \<leftarrow> flush_deferred d;
     (fid, files) \<leftarrow> FileTable_open (dc_files d) (dc_id d);
     Some (fid, d\<lparr>dc_files := files\<rparr>)
   }"

definition is_closed :: "'file DriverCore \<Rightarrow> FileId \<Rightarrow> (bool \<times> 'file DriverCore) option" where
  "is_closed d fid = do {
     d \<leftarrow> flush_deferred d;
     assert_own d fid;
     closed \<leftarrow> FileTable_is_closed (dc_files d) fid;
     Some (closed, d)
   }"

definition abort_file :: "'file DriverCore \<Rightarrow> FileId \<Rightarrow> 'file DriverCore option" where
  "abort_file d fid = do {
     assert_own d fid;
     files \<leftarrow> FileTable_abort_open (dc_files d) fid;
     Some (d\<lparr>dc_files := files\<rparr>)
   }"

text \<open>\<open>open_with_direct_io\<close>: \<open>opened\<close> is the answer of the open system call and \<open>probed\<close> that of the
  direct-I/O probe; the eager backend's registration itself never fails.\<close>

definition open_with_direct_io :: "'file DriverCore \<Rightarrow> IoError + 'file \<Rightarrow> IoError + IoMode \<Rightarrow>
    ((FileRegistrationError + FileHandle) \<times> 'file DriverCore) option" where
  "open_with_direct_io d opened probed = do {
     (reserved, d) \<leftarrow> reserve_file d;
     (case reserved of
        None \<Rightarrow> Some (Inl AtCapacity, d)
      | Some fid \<Rightarrow>
          (case opened of
             Inl error \<Rightarrow> do { d \<leftarrow> abort_file d fid; Some (Inl (Io error), d) }
           | Inr f \<Rightarrow>
               (case probed of
                  Inl error \<Rightarrow> do { d \<leftarrow> abort_file d fid; Some (Inl (Io error), d) }
                | Inr io_mode \<Rightarrow> do {
                    executor \<leftarrow> Eager_register_file (dc_executor d) (slot fid) f;
                    Some (Inr (FileHandle_from_parts fid io_mode), d\<lparr>dc_executor := executor\<rparr>)
                  })))
   }"

definition close_locked :: "'file DriverCore \<Rightarrow> FileId \<Rightarrow> (bool \<times> 'file DriverCore) option" where
  "close_locked d fid = do {
     (retire_due, files) \<leftarrow> FileTable_close (dc_files d) fid;
     Some (retire_due, d\<lparr>dc_files := files\<rparr>)
   }"

definition close :: "'file DriverCore \<Rightarrow> FileHandle \<Rightarrow> 'file DriverCore option" where
  "close d fd = do {
     d \<leftarrow> flush_deferred d;
     let fid = handle_id fd;
     assert_own d fid;
     (retire_due, d) \<leftarrow> close_locked d fid;
     if retire_due then retire d fid else Some d
   }"

section \<open>Admission\<close>

definition admit :: "'file DriverCore \<Rightarrow> FileId \<Rightarrow> ((SubmitError + u32) \<times> 'file DriverCore) option" where
  "admit d fd = do {
     assert_own d fd;
     live \<leftarrow> FileTable_is_live (dc_files d) fd;
     if live then do {
       assert (length (dc_backlog d) + length (dc_deferred d) < 2 ^ 32);
       let retained = of_nat (length (dc_backlog d) + length (dc_deferred d));
       if FileTable_total_inflight (dc_files d) + retained \<ge> dc_queue_capacity d then Some (Inl Full, d)
       else (case slab_reserve (dc_slab d) of
               (None, slab) \<Rightarrow> Some (Inl Full, d\<lparr>dc_slab := slab\<rparr>)
             | (Some sl, slab) \<Rightarrow> Some (Inr sl, d\<lparr>dc_slab := slab\<rparr>))
     }
     else Some (Inl StaleHandle, d)
   }"

definition commit :: "'file DriverCore \<Rightarrow> u32 \<Rightarrow> OpEntry \<Rightarrow> (OpToken \<times> 'file DriverCore) option" where
  "commit d sl entry = do {
     (token, slab) \<leftarrow> slab_fill (dc_slab d) sl entry;
     slab \<leftarrow> (case oe_frame entry of
        Some (Vector v) \<Rightarrow> do {
          v \<leftarrow> ReadVector_bind v token;
          slab_update slab sl (entry\<lparr>oe_frame := Some (Vector v)\<rparr>)
        }
      | _ \<Rightarrow> Some slab);
     files \<leftarrow> FileTable_on_submit (dc_files d) (oe_fd entry);
     let position = dc_schedule d (length (dc_ready d));
     assert (position \<le> length (dc_ready d));
     Some (token, d\<lparr>dc_slab := slab, dc_files := files,
       dc_ready := take position (dc_ready d) @ sl # drop position (dc_ready d)\<rparr>)
   }"

definition offset_aligned :: "IoMode \<Rightarrow> u64 \<Rightarrow> bool option" where
  "offset_aligned mode offset =
     (case mode of
        Direct al \<Rightarrow> do { r \<leftarrow> Alignment_check al offset; Some (r = Inr ()) }
      | Buffered \<Rightarrow> Some True)"

definition read_entry :: "FileHandle \<Rightarrow> ReadDestination \<Rightarrow> FrameLease \<Rightarrow> u64 \<Rightarrow> u32 \<Rightarrow> u32 \<Rightarrow> OpEntry" where
  "read_entry fd frame lease file_offset dest len =
     \<lparr>oe_kind = Read, oe_sync_mode = FullSync, oe_fd = handle_id fd, oe_file_offset = file_offset,
      oe_frame = Some frame, oe_destination_offset = dest, oe_requested_len = len, oe_frame_lease = lease,
      oe_write_slot = None, oe_retries = 0, oe_io_mode = handle_mode fd, oe_state = Queued\<rparr>"

definition submit_read :: "'file DriverCore \<Rightarrow> FileHandle \<Rightarrow> ReadLease \<Rightarrow> u64 \<Rightarrow> u32 \<Rightarrow> u32 \<Rightarrow>
    ((SubmitError \<times> InFlightFrame + OpToken) \<times> 'file DriverCore) option" where
  "submit_read d fd lease file_offset dest len = do {
     d \<leftarrow> flush_deferred d;
     let (token, frame_lease, _) = ReadLease_split lease;
     assert (InFlightFrame_frame token < f_count (dc_arena d));
     let bytes = Eager_clean_bytes (f_granule (dc_arena d)) Read;
     assert (len > 0);
     assert (dest \<le> bytes);
     assert (len \<le> bytes - dest);
     aligned \<leftarrow> offset_aligned (handle_mode fd) file_offset;
     assert aligned;
     (admitted, d) \<leftarrow> admit d (handle_id fd);
     (case admitted of
        Inl error \<Rightarrow> Some (Inl (error, token), d)
      | Inr sl \<Rightarrow> do {
          (op, d) \<leftarrow> commit d sl (read_entry fd (Point token) frame_lease file_offset dest len);
          Some (Inr op, d)
        })
   }"

definition submit_raw_read :: "'file DriverCore \<Rightarrow> FileHandle \<Rightarrow> ReadFrameIdx \<Rightarrow> u64 \<Rightarrow>
    ((SubmitError + OpToken) \<times> 'file DriverCore) option" where
  "submit_raw_read d fd frame offset = do {
     let len = Eager_clean_bytes (f_granule (dc_arena d)) Read;
     assert (len > 0);
     (claimed, arena) \<leftarrow> claim_unidentified (dc_arena d) frame;
     token \<leftarrow> claimed;
     (r, d) \<leftarrow> submit_read (d\<lparr>dc_arena := arena\<rparr>) fd (LeaseRaw token) offset 0 len;
     (case r of
        Inl (error, token) \<Rightarrow> do {
          (_, arena) \<leftarrow> Frames_abort (dc_arena d) token;
          Some (Inl error, d\<lparr>dc_arena := arena\<rparr>)
        }
      | Inr op \<Rightarrow> Some (Inr op, d))
   }"

definition submit_write :: "'file DriverCore \<Rightarrow> FileHandle \<Rightarrow> WriteSlot \<Rightarrow> u64 \<Rightarrow>
    ((SubmitError \<times> WriteSlot + OpToken) \<times> 'file DriverCore) option" where
  "submit_write d fd buf offset = do {
     d \<leftarrow> flush_deferred d;
     assert_owner (dc_write_arena d) (dc_id d);
     aligned \<leftarrow> offset_aligned (handle_mode fd) offset;
     assert aligned;
     (admitted, d) \<leftarrow> admit d (handle_id fd);
     (case admitted of
        Inl error \<Rightarrow> Some (Inl (error, buf), d)
      | Inr sl \<Rightarrow> do {
          (op, d) \<leftarrow> commit d sl
            \<lparr>oe_kind = Write, oe_sync_mode = FullSync, oe_fd = handle_id fd, oe_file_offset = offset,
             oe_frame = None, oe_destination_offset = 0, oe_requested_len = wa_granule (dc_write_arena d),
             oe_frame_lease = Absent, oe_write_slot = Some (WriteSlot_into_index buf), oe_retries = 0,
             oe_io_mode = handle_mode fd, oe_state = Queued\<rparr>;
          Some (Inr op, d)
        })
   }"

definition submit_fsync :: "'file DriverCore \<Rightarrow> FileHandle \<Rightarrow> SyncMode \<Rightarrow> ((SubmitError + OpToken) \<times> 'file DriverCore) option" where
  "submit_fsync d fd mode = do {
     d \<leftarrow> flush_deferred d;
     (admitted, d) \<leftarrow> admit d (handle_id fd);
     (case admitted of
        Inl error \<Rightarrow> Some (Inl error, d)
      | Inr sl \<Rightarrow> do {
          (op, d) \<leftarrow> commit d sl
            \<lparr>oe_kind = Fsync, oe_sync_mode = mode, oe_fd = handle_id fd, oe_file_offset = 0,
             oe_frame = None, oe_destination_offset = 0, oe_requested_len = 0, oe_frame_lease = Absent,
             oe_write_slot = None, oe_retries = 0, oe_io_mode = handle_mode fd, oe_state = Queued\<rparr>;
          Some (Inr op, d)
        })
   }"

definition submit_read_vector :: "'file DriverCore \<Rightarrow> FileHandle \<Rightarrow> ReadVector \<Rightarrow> u64 \<Rightarrow> FrameLease \<Rightarrow>
    ((SubmitError \<times> ReadVector + OpToken) \<times> 'file DriverCore) option" where
  "submit_read_vector d fd v offset frame_lease = do {
     assert (rv_filled v = 0);
     assert (2 \<le> rv_count v \<and> rv_count v \<le> VECTOR_FRAMES_MAX);
     let len = remaining v;
     _ \<leftarrow> checked_add offset (ucast len);
     aligned \<leftarrow> offset_aligned (handle_mode fd) offset;
     assert aligned;
     granule_aligned \<leftarrow> offset_aligned (handle_mode fd) (ucast (f_granule (dc_arena d)));
     assert granule_aligned;
     (admitted, d) \<leftarrow> admit d (handle_id fd);
     (case admitted of
        Inl error \<Rightarrow> Some (Inl (error, v), d)
      | Inr sl \<Rightarrow> do {
          (vectors, v) \<leftarrow> prepare (dc_vectors d) (dc_arena d) sl v;
          (op, d) \<leftarrow> commit (d\<lparr>dc_vectors := vectors\<rparr>) sl (read_entry fd (Vector v) frame_lease offset 0 len);
          Some (Inr op, d)
        })
   }"

definition continue_read_vector :: "'file DriverCore \<Rightarrow> OpToken \<Rightarrow> ReadVector \<Rightarrow>
    ((IoError \<times> ReadVector + OpToken) \<times> 'file DriverCore) option" where
  "continue_read_vector d token v = do {
     assert (rv_operation v = Some token);
     live \<leftarrow> slab_contains (dc_slab d) token;
     assert live;
     entry \<leftarrow> slab_peek (dc_slab d) (OpToken_slot token);
     assert (oe_state entry = Continuation);
     assert (oe_requested_len entry = remaining v);
     a \<leftarrow> offset_aligned (oe_io_mode entry) (oe_file_offset entry);
     b \<leftarrow> offset_aligned (oe_io_mode entry) (ucast (destination_offset (dc_arena d) v));
     c \<leftarrow> offset_aligned (oe_io_mode entry) (ucast (remaining v));
     if \<not> (a \<and> b \<and> c) then do {
       d \<leftarrow> ReadContinuation_drop d token;
       Some (Inl (FromRaw 22, v), d)
     }
     else do {
       (vectors, v) \<leftarrow> prepare (dc_vectors d) (dc_arena d) (OpToken_slot token) v;
       slab \<leftarrow> slab_update (dc_slab d) (OpToken_slot token)
         (entry\<lparr>oe_frame := Some (Vector v), oe_state := Queued, oe_retries := 0\<rparr>);
       assert (length (dc_ready d) < unat (dc_queue_capacity d));
       Some (Inr token, d\<lparr>dc_vectors := vectors, dc_slab := slab, dc_ready := dc_ready d @ [OpToken_slot token]\<rparr>)
     }
   }"

section \<open>Completion\<close>

definition release_frame :: "Frames \<Rightarrow> FrameLease \<Rightarrow> ReadDestination option \<Rightarrow> (ReadDestination option \<times> Frames) option" where
  "release_frame F lease frame =
     (case lease of
        Raw \<Rightarrow> do {
          token \<leftarrow> frame;
          F \<leftarrow> (case token of
             Point f \<Rightarrow> map_option snd (Frames_abort F f)
           | Vector v \<Rightarrow> ReadVector_drop v F);
          Some (None, F)
        }
      | _ \<Rightarrow> Some (frame, F))"

definition release_write_slot :: "ArenaState \<Rightarrow> OpEntry \<Rightarrow> ArenaState option" where
  "release_write_slot a entry =
     (case oe_write_slot entry of Some w \<Rightarrow> map_option snd (ArenaState_release a w) | None \<Rightarrow> Some a)"

text \<open>The terminal part of \<open>finish_attempt\<close>.\<close>

definition finish_reclaim :: "'file DriverCore \<Rightarrow> u32 \<Rightarrow> IoError + u32 \<Rightarrow> ReadDestination option \<Rightarrow>
    ((Completion \<times> FileId option) \<times> 'file DriverCore) option" where
  "finish_reclaim d sl result dest = do {
     ((token, entry), slab) \<leftarrow> slab_reclaim (dc_slab d) sl;
     (due, files) \<leftarrow> FileTable_on_complete (dc_files d) (oe_fd entry);
     (dest, arena) \<leftarrow> release_frame (dc_arena d) (oe_frame_lease entry) dest;
     write_arena \<leftarrow> release_write_slot (dc_write_arena d) entry;
     Some ((\<lparr>co_token = token, co_kind = oe_kind entry, co_result = result, co_frame = dest, co_continuation = None\<rparr>,
            if due then Some (oe_fd entry) else None),
           d\<lparr>dc_slab := slab, dc_files := files, dc_arena := arena, dc_write_arena := write_arena\<rparr>)
   }"

definition finish_attempt :: "'file DriverCore \<Rightarrow> u32 \<Rightarrow> IoError + u32 \<Rightarrow> ReadDestination option \<Rightarrow>
    ((Completion \<times> FileId option) \<times> 'file DriverCore) option" where
  "finish_attempt d sl result destination = do {
     token \<leftarrow> slab_token (dc_slab d) sl;
     entry \<leftarrow> slab_peek (dc_slab d) sl;
     assert (oe_state entry = Active);
     let dest = (case destination of Some x \<Rightarrow> Some x | None \<Rightarrow> oe_frame entry);
     let entry = entry\<lparr>oe_frame := None\<rparr>;
     (case dest of
        Some (Vector v) \<Rightarrow> do {
          let bytes = (case result of Inr b \<Rightarrow> b | Inl _ \<Rightarrow> 0);
          assert (bytes \<le> oe_requested_len entry);
          v \<leftarrow> record_completion v bytes;
          if bytes > 0 \<and> bytes < oe_requested_len entry then do {
            file_offset \<leftarrow> checked_add (oe_file_offset entry) (ucast bytes);
            slab \<leftarrow> slab_update (dc_slab d) sl (entry\<lparr>oe_file_offset := file_offset,
              oe_requested_len := oe_requested_len entry - bytes,
              oe_destination_offset := destination_offset (dc_arena d) v, oe_state := Continuation\<rparr>);
            Some ((\<lparr>co_token = token, co_kind = oe_kind entry, co_result = result,
                    co_frame = Some (Vector v), co_continuation = Some token\<rparr>, None),
                  d\<lparr>dc_slab := slab\<rparr>)
          }
          else if oe_frame_lease entry = Pool then do {
            let outcome = (case result of Inr b \<Rightarrow> Inr b
              | Inl error \<Rightarrow> Inl (case raw_os_error error of Some e \<Rightarrow> e | None \<Rightarrow> EIO));
            slab \<leftarrow> slab_update (dc_slab d) sl (entry\<lparr>oe_state := Terminal outcome\<rparr>);
            Some ((\<lparr>co_token = token, co_kind = oe_kind entry, co_result = result,
                    co_frame = Some (Vector v), co_continuation = Some token\<rparr>, None),
                  d\<lparr>dc_slab := slab\<rparr>)
          }
          else finish_reclaim d sl result (Some (Vector v))
        }
      | _ \<Rightarrow> finish_reclaim d sl result dest)
   }"

definition drain_completion_backlog :: "nat \<Rightarrow> 'file DriverCore \<Rightarrow> Completion list \<times> 'file DriverCore" where
  "drain_completion_backlog capacity d =
     (take capacity (dc_backlog d), d\<lparr>dc_backlog := drop capacity (dc_backlog d)\<rparr>)"

section \<open>The eager poll\<close>

text \<open>\<open>staging\<close> is the memory of the write arena.\<close>

definition prepare_next :: "(nat \<Rightarrow> u8) \<Rightarrow> 'file DriverCore \<Rightarrow> ((u32 \<times> OpKind \<times> OpContext) option \<times> 'file DriverCore) option" where
  "prepare_next staging d =
     (case dc_ready d of
        [] \<Rightarrow> Some (None, d)
      | sl # rest \<Rightarrow> do {
          entry \<leftarrow> slab_peek (dc_slab d) sl;
          assert (oe_state entry = Queued);
          let entry = entry\<lparr>oe_state := Active\<rparr>;
          (ctx, entry) \<leftarrow> (case oe_kind entry of
             Read \<Rightarrow> do {
               frame \<leftarrow> oe_frame entry;
               Some (OpContext_read (oe_fd entry) (oe_file_offset entry) frame (oe_destination_offset entry)
                       (oe_requested_len entry), entry\<lparr>oe_frame := None\<rparr>)
             }
           | Fsync \<Rightarrow> Some (OpContext_fsync (oe_fd entry) (oe_sync_mode entry), entry)
           | Write \<Rightarrow> do {
               write_slot \<leftarrow> oe_write_slot entry;
               source \<leftarrow> region (dc_write_arena d) write_slot (oe_destination_offset entry) (oe_requested_len entry);
               ctx \<leftarrow> OpContext_write (oe_fd entry) (oe_file_offset entry) (oe_destination_offset entry)
                 (map staging [source..<source + unat (oe_requested_len entry)]);
               Some (ctx, entry)
             });
          slab \<leftarrow> slab_update (dc_slab d) sl entry;
          Some (Some (sl, oe_kind entry, ctx), d\<lparr>dc_ready := rest, dc_slab := slab\<rparr>)
        })"

definition publish_locked :: "'file DriverCore \<Rightarrow> u32 \<Rightarrow> int + u32 \<Rightarrow> ReadDestination option \<Rightarrow>
    ((Completion \<times> FileId option) \<times> 'file DriverCore) option" where
  "publish_locked d sl outcome frame = finish_attempt d sl (map_sum FromRaw id outcome) frame"

definition publish :: "'file DriverCore \<Rightarrow> u32 \<Rightarrow> int + u32 \<Rightarrow> ReadDestination option \<Rightarrow> Completion list \<Rightarrow>
    (Completion list \<times> 'file DriverCore) option" where
  "publish d sl outcome frame out = do {
     ((completion, retiring), d) \<leftarrow> publish_locked d sl outcome frame;
     d \<leftarrow> (case retiring of Some fd \<Rightarrow> retire d fd | None \<Rightarrow> Some d);
     Some (out @ [completion], d)
   }"

definition publish_to_backlog_locked :: "'file DriverCore \<Rightarrow> u32 \<Rightarrow> int + u32 \<Rightarrow> ReadDestination option \<Rightarrow>
    (FileId option \<times> 'file DriverCore) option" where
  "publish_to_backlog_locked d sl outcome frame = do {
     ((completion, retiring), d) \<leftarrow> finish_attempt d sl (map_sum FromRaw id outcome) frame;
     assert (length (dc_backlog d) < unat (dc_queue_capacity d));
     Some (retiring, d\<lparr>dc_backlog := dc_backlog d @ [completion]\<rparr>)
   }"

definition publish_to_backlog :: "'file DriverCore \<Rightarrow> u32 \<Rightarrow> int + u32 \<Rightarrow> ReadDestination option \<Rightarrow> 'file DriverCore option" where
  "publish_to_backlog d sl outcome frame = do {
     (retiring, d) \<leftarrow> publish_to_backlog_locked d sl outcome frame;
     (case retiring of Some fd \<Rightarrow> retire d fd | None \<Rightarrow> Some d)
   }"

text \<open>\<open>backend sl\<close> answers the attempts of the operation in slot \<open>sl\<close>.\<close>

definition pump_one_to_backlog :: "bool \<Rightarrow> (u32 \<Rightarrow> nat \<Rightarrow> OpContext \<Rightarrow> Attempt) \<Rightarrow> (nat \<Rightarrow> u8) \<Rightarrow> 'file DriverCore \<Rightarrow>
    (bool \<times> 'file DriverCore) option" where
  "pump_one_to_backlog linux backend staging d = do {
     (prepared, d) \<leftarrow> prepare_next staging d;
     (case prepared of
        None \<Rightarrow> Some (False, d)
      | Some (sl, kind, ctx) \<Rightarrow> do {
          (outcome, frame, _) \<leftarrow> execute linux (dc_retry_bound d) (backend sl) kind ctx;
          d \<leftarrow> publish_to_backlog d sl outcome frame;
          Some (True, d)
        })
   }"

primrec poll_loop :: "bool \<Rightarrow> (u32 \<Rightarrow> nat \<Rightarrow> OpContext \<Rightarrow> Attempt) \<Rightarrow> (nat \<Rightarrow> u8) \<Rightarrow> nat \<Rightarrow> Completion list \<Rightarrow> 'file DriverCore \<Rightarrow>
    (Completion list \<times> 'file DriverCore) option" where
  "poll_loop linux backend staging 0 out d = Some (out, d)"
| "poll_loop linux backend staging (Suc n) out d = do {
     (prepared, d) \<leftarrow> prepare_next staging d;
     (case prepared of
        None \<Rightarrow> Some (out, d)
      | Some (sl, kind, ctx) \<Rightarrow> do {
          (outcome, frame, _) \<leftarrow> execute linux (dc_retry_bound d) (backend sl) kind ctx;
          (out, d) \<leftarrow> publish d sl outcome frame out;
          poll_loop linux backend staging n out d
        })
   }"

definition poll :: "bool \<Rightarrow> (u32 \<Rightarrow> nat \<Rightarrow> OpContext \<Rightarrow> Attempt) \<Rightarrow> (nat \<Rightarrow> u8) \<Rightarrow> nat \<Rightarrow> 'file DriverCore \<Rightarrow>
    (Completion list \<times> 'file DriverCore) option" where
  "poll linux backend staging capacity d = do {
     assert (capacity > 0);
     d \<leftarrow> flush_deferred d;
     let (out, d) = drain_completion_backlog capacity d;
     poll_loop linux backend staging (capacity - length out) out d
   }"

section \<open>The ring poll\<close>

datatype Sqe =
    SqeRead u64 u32 InFlightFrame u64 u32 u32
  | SqeReadVector u64 FileId ReadVector u64
  | SqeFsync u64 u32 SyncMode
  | SqeWrite u64 u32 nat u32 u64 u32

definition fill_entry :: "ArenaState \<Rightarrow> u64 \<Rightarrow> OpEntry \<Rightarrow> Sqe option" where
  "fill_entry arena ud entry =
     (case oe_kind entry of
        Read \<Rightarrow> do {
          frame \<leftarrow> oe_frame entry;
          Some (case frame of
             Point f \<Rightarrow> SqeRead ud (slot (oe_fd entry)) f (oe_file_offset entry) (oe_destination_offset entry) (oe_requested_len entry)
           | Vector v \<Rightarrow> SqeReadVector ud (oe_fd entry) v (oe_file_offset entry))
        }
      | Fsync \<Rightarrow> Some (SqeFsync ud (slot (oe_fd entry)) (oe_sync_mode entry))
      | Write \<Rightarrow> do {
          write_slot \<leftarrow> oe_write_slot entry;
          source \<leftarrow> region arena write_slot (oe_destination_offset entry) (oe_requested_len entry);
          Some (SqeWrite ud (slot (oe_fd entry)) source (oe_destination_offset entry) (oe_file_offset entry) (oe_requested_len entry))
        })"

primrec fill_ring_loop :: "nat \<Rightarrow> 'file DriverCore \<Rightarrow> (Sqe list \<times> 'file DriverCore) option" where
  "fill_ring_loop 0 d = Some ([], d)"
| "fill_ring_loop (Suc n) d =
     (case dc_ready d of
        [] \<Rightarrow> Some ([], d)
      | sl # rest \<Rightarrow> do {
          token \<leftarrow> slab_token (dc_slab d) sl;
          entry \<leftarrow> slab_peek (dc_slab d) sl;
          assert (oe_state entry = Queued);
          slab \<leftarrow> slab_update (dc_slab d) sl (entry\<lparr>oe_state := Active\<rparr>);
          sqe \<leftarrow> fill_entry (dc_write_arena d) (user_data token) entry;
          (sqes, d) \<leftarrow> fill_ring_loop n (d\<lparr>dc_ready := rest, dc_slab := slab\<rparr>);
          Some (sqe # sqes, d)
        })"

definition fill_ring :: "u32 \<Rightarrow> 'file DriverCore \<Rightarrow> (Sqe list \<times> 'file DriverCore) option" where
  "fill_ring cap d = fill_ring_loop (unat cap) d"

text \<open>The sink \<open>reap_ring_locked\<close> hands one completion-queue entry to: the completion it emits, if
  any, and the file whose retirement became due.\<close>

definition reap_cqe :: "bool \<Rightarrow> u64 \<Rightarrow> int \<Rightarrow> 'file DriverCore \<Rightarrow>
    ((Completion \<times> FileId option) option \<times> 'file DriverCore) option" where
  "reap_cqe linux ud raw d = do {
     let echoed = OpToken ud;
     live \<leftarrow> slab_contains (dc_slab d) echoed;
     assert live;
     let sl = OpToken_slot echoed;
     entry \<leftarrow> slab_peek (dc_slab d) sl;
     (progress, entry) \<leftarrow> ring_progress linux entry raw (dc_retry_bound d);
     (case progress of
        Resubmit \<Rightarrow> do {
          slab \<leftarrow> slab_update (dc_slab d) sl (entry\<lparr>oe_state := Queued\<rparr>);
          Some (None, d\<lparr>dc_slab := slab, dc_ready := dc_ready d @ [sl]\<rparr>)
        }
      | RingTerminal result \<Rightarrow> do {
          slab \<leftarrow> slab_update (dc_slab d) sl entry;
          (emitted, d) \<leftarrow> finish_attempt (d\<lparr>dc_slab := slab\<rparr>) sl result None;
          Some (Some emitted, d)
        })
   }"

text \<open>\<open>reap_ring\<close> over the entries the kernel has posted: the first pass stops after the first file
  that is due for retirement, the second drains the rest; the retirements run afterwards.\<close>

primrec reap_pass :: "bool \<Rightarrow> bool \<Rightarrow> (u64 \<times> int) list \<Rightarrow> 'file DriverCore \<Rightarrow>
    (Completion list \<times> FileId list \<times> (u64 \<times> int) list \<times> 'file DriverCore) option" where
  "reap_pass linux stop [] d = Some ([], [], [], d)"
| "reap_pass linux stop (c # cs) d = do {
     (emitted, d) \<leftarrow> reap_cqe linux (fst c) (snd c) d;
     (case emitted of
        None \<Rightarrow> reap_pass linux stop cs d
      | Some (completion, None) \<Rightarrow> do {
          (out, retires, rest, d) \<leftarrow> reap_pass linux stop cs d;
          Some (completion # out, retires, rest, d)
        }
      | Some (completion, Some fd) \<Rightarrow>
          if stop then Some ([completion], [fd], cs, d)
          else do {
            (out, retires, rest, d) \<leftarrow> reap_pass linux stop cs d;
            Some (completion # out, fd # retires, rest, d)
          })
   }"

primrec retire_all :: "FileId list \<Rightarrow> 'file DriverCore \<Rightarrow> 'file DriverCore option" where
  "retire_all [] d = Some d"
| "retire_all (fd # fds) d = do { d \<leftarrow> retire d fd; retire_all fds d }"

definition reap_ring :: "bool \<Rightarrow> u32 \<Rightarrow> (u64 \<times> int) list \<Rightarrow> 'file DriverCore \<Rightarrow>
    (Completion list \<times> (u64 \<times> int) list \<times> 'file DriverCore) option" where
  "reap_ring linux limit cqes d = do {
     assert (limit > 0);
     let visible = take (unat limit) cqes;
     (out, first_retire, rest, d) \<leftarrow> reap_pass linux True visible d;
     (out', retires, rest, d) \<leftarrow>
       (if first_retire = [] then Some ([], [], rest, d) else reap_pass linux False rest d);
     assert (length (first_retire @ retires) \<le> length (ft_slots (dc_files d)));
     d \<leftarrow> retire_all (first_retire @ retires) d;
     Some (out @ out', rest @ drop (unat limit) cqes, d)
   }"

definition poll_ring_progress :: "bool \<Rightarrow> nat \<Rightarrow> (u64 \<times> int) list \<Rightarrow> 'file DriverCore \<Rightarrow>
    (Completion list \<times> Sqe list \<times> (u64 \<times> int) list \<times> 'file DriverCore) option" where
  "poll_ring_progress linux capacity cqes d = do {
     assert (capacity > 0);
     d \<leftarrow> flush_deferred d;
     let (out, d) = drain_completion_backlog capacity d;
     if length out = capacity then Some (out, [], cqes, d)
     else do {
       assert (capacity - length out < 2 ^ 32);
       let cap = of_nat (capacity - length out);
       (sqes, d) \<leftarrow> fill_ring cap d;
       (reaped, cqes, d) \<leftarrow> reap_ring linux cap cqes d;
       Some (out @ reaped, sqes, cqes, d)
     }
   }"

end
