(* ===== verification/Driver_System.thy ===== *)
theory Driver_System
  imports Driver "HOL-Library.Disjoint_Sets" "HOL-Library.Multiset"
begin

text \<open>
  The driver as a concurrent system: the locked phases of \<open>Driver\<close> as steps of any number of
  threads, with the executions, continuation leases, unfinished opens and retirements that live
  outside the mutex.  The invariant and the properties of submission, completion and close.
\<close>

section \<open>The system\<close>

text \<open>\<open>ds_active\<close> maps a slot under execution to the destination its context holds (the ring leaves it
  in the entry); \<open>ds_leases\<close> are the continuation leases of completions a caller received; \<open>ds_opening\<close> the files
  reserved but not yet registered; \<open>ds_retiring\<close> the retirements a locked phase reported due;
  \<open>ds_finishing\<close> those whose backend file is already gone; \<open>ds_writers\<close> the write slots clients hold.
  \<open>ds_issued\<close> and \<open>ds_finished\<close> record the tokens handed out and those whose slot was reclaimed.\<close>

record 'file driver_sys =
  ds_core :: "'file DriverCore"
  ds_active :: "u32 \<Rightarrow> ReadDestination option option"
  ds_leases :: "OpToken set"
  ds_opening :: "FileId list"
  ds_retiring :: "FileId list"
  ds_finishing :: "FileId list"
  ds_writers :: "u32 set"
  ds_issued :: "OpToken list"
  ds_finished :: "OpToken list"

definition due :: "FileId option \<Rightarrow> FileId list" where
  "due retiring = (case retiring of Some fd \<Rightarrow> [fd] | None \<Rightarrow> [])"

text \<open>An entry as the submit functions build it.\<close>

definition submitted_entry :: "'file DriverCore \<Rightarrow> u32 set \<Rightarrow> OpEntry \<Rightarrow> bool" where
  "submitted_entry d writers e \<longleftrightarrow> oe_state e = Queued \<and> oe_retries e = 0 \<and>
     (case oe_kind e of
        Read \<Rightarrow> oe_frame e \<noteq> None \<and> oe_write_slot e = None
          \<and> (\<forall>v. oe_frame e = Some (Vector v) \<longrightarrow> rv_operation v = None \<and> oe_requested_len e = remaining v
                \<and> uint (oe_file_offset e) + uint (oe_requested_len e) < 2 ^ 64)
      | Write \<Rightarrow> oe_frame e = None \<and> oe_frame_lease e = Absent \<and> oe_destination_offset e = 0
          \<and> oe_requested_len e = wa_granule (dc_write_arena d) \<and> (\<exists>w \<in> writers. oe_write_slot e = Some w)
      | Fsync \<Rightarrow> oe_frame e = None \<and> oe_frame_lease e = Absent \<and> oe_write_slot e = None)"

inductive driver_step :: "'file driver_sys \<Rightarrow> 'file driver_sys \<Rightarrow> bool" where
  st_reserve: "FileTable_open (dc_files (ds_core s)) (dc_id (ds_core s)) = Some (Some fid, files) \<Longrightarrow>
    driver_step s (s\<lparr>ds_core := (ds_core s)\<lparr>dc_files := files\<rparr>, ds_opening := fid # ds_opening s\<rparr>)"
| st_register: "fid \<in> set (ds_opening s) \<Longrightarrow> Eager_register_file (dc_executor (ds_core s)) (slot fid) f = Some ex \<Longrightarrow>
    driver_step s (s\<lparr>ds_core := (ds_core s)\<lparr>dc_executor := ex\<rparr>, ds_opening := remove1 fid (ds_opening s)\<rparr>)"
| st_abort: "fid \<in> set (ds_opening s) \<Longrightarrow> abort_file (ds_core s) fid = Some d \<Longrightarrow>
    driver_step s (s\<lparr>ds_core := d, ds_opening := remove1 fid (ds_opening s)\<rparr>)"
| st_close: "fid \<notin> set (ds_opening s) \<Longrightarrow> driver fid = dc_id (ds_core s) \<Longrightarrow> close_locked (ds_core s) fid = Some (idle, d) \<Longrightarrow>
    driver_step s (s\<lparr>ds_core := d, ds_retiring := (if idle then [fid] else []) @ ds_retiring s\<rparr>)"
| st_retire_file: "fid \<in> set (ds_retiring s) \<Longrightarrow> Eager_retire_file (dc_executor (ds_core s)) (slot fid) = Some ex \<Longrightarrow>
    driver_step s (s\<lparr>ds_core := (ds_core s)\<lparr>dc_executor := ex\<rparr>, ds_retiring := remove1 fid (ds_retiring s),
      ds_finishing := fid # ds_finishing s\<rparr>)"
| st_finish_retire: "fid \<in> set (ds_finishing s) \<Longrightarrow> FileTable_finish_retire (dc_files (ds_core s)) fid = Some files \<Longrightarrow>
    driver_step s (s\<lparr>ds_core := (ds_core s)\<lparr>dc_files := files\<rparr>, ds_finishing := remove1 fid (ds_finishing s)\<rparr>)"
| st_submit: "oe_fd e \<notin> set (ds_opening s) \<Longrightarrow> submitted_entry (ds_core s) (ds_writers s) e \<Longrightarrow>
    admit (ds_core s) (oe_fd e) = Some (Inr sl, d1) \<Longrightarrow>
    commit d1 sl e = Some (token, d2) \<Longrightarrow>
    driver_step s (s\<lparr>ds_core := d2, ds_writers := ds_writers s - set_option (oe_write_slot e),
      ds_issued := token # ds_issued s\<rparr>)"
| st_prepare: "prepare_next staging (ds_core s) = Some (Some (sl, kind, ctx), d) \<Longrightarrow>
    driver_step s (s\<lparr>ds_core := d, ds_active := (ds_active s)(sl \<mapsto> cx_frame ctx)\<rparr>)"
| st_fill: "fill_ring_loop 1 (ds_core s) = Some ([sqe], d) \<Longrightarrow> sl = hd (dc_ready (ds_core s)) \<Longrightarrow>
    driver_step s (s\<lparr>ds_core := d, ds_active := (ds_active s)(sl \<mapsto> None)\<rparr>)"
| st_resubmit: "ds_active s sl = Some None \<Longrightarrow> slab_token (dc_slab (ds_core s)) sl = Some token \<Longrightarrow>
    reap_cqe linux (user_data token) raw (ds_core s) = Some (None, d) \<Longrightarrow>
    driver_step s (s\<lparr>ds_core := d, ds_active := (ds_active s)(sl := None)\<rparr>)"
| st_publish: "ds_active s sl = Some frame \<Longrightarrow> finish_attempt (ds_core s) sl result frame = Some ((completion, retiring), d) \<Longrightarrow>
    driver_step s (s\<lparr>ds_core := d, ds_active := (ds_active s)(sl := None),
      ds_leases := ds_leases s \<union> set_option (co_continuation completion),
      ds_retiring := due retiring @ ds_retiring s,
      ds_finished := (if co_continuation completion = None then [co_token completion] else []) @ ds_finished s\<rparr>)"
| st_publish_backlog: "ds_active s sl = Some frame \<Longrightarrow>
    finish_attempt (ds_core s) sl result frame = Some ((completion, retiring), d) \<Longrightarrow>
    length (dc_backlog d) < unat (dc_queue_capacity d) \<Longrightarrow>
    driver_step s (s\<lparr>ds_core := d\<lparr>dc_backlog := dc_backlog d @ [completion]\<rparr>, ds_active := (ds_active s)(sl := None),
      ds_retiring := due retiring @ ds_retiring s,
      ds_finished := (if co_continuation completion = None then [co_token completion] else []) @ ds_finished s\<rparr>)"
| st_drop_lease: "token \<in> ds_leases s \<Longrightarrow> ReadContinuation_drop (ds_core s) token = Some d \<Longrightarrow>
    driver_step s (s\<lparr>ds_core := d, ds_leases := ds_leases s - {token}, ds_finished := token # ds_finished s\<rparr>)"
| st_continue: "token \<in> ds_leases s \<Longrightarrow> continue_read_vector (ds_core s) token v = Some (Inr token, d) \<Longrightarrow>
    driver_step s (s\<lparr>ds_core := d, ds_leases := ds_leases s - {token}\<rparr>)"
| st_pop_deferred: "dc_deferred (ds_core s) = completion # rest \<Longrightarrow>
    driver_step s (s\<lparr>ds_core := (ds_core s)\<lparr>dc_deferred := rest\<rparr>,
      ds_retiring := (if df_retire completion then [df_fd completion] else []) @ ds_retiring s\<rparr>)"
| st_drain: "drain_completion_backlog n (ds_core s) = (out, d) \<Longrightarrow>
    driver_step s (s\<lparr>ds_core := d, ds_leases := ds_leases s \<union> {t. Some t \<in> co_continuation ` set out}\<rparr>)"
| st_write_alloc: "ArenaState_alloc (dc_write_arena (ds_core s)) = Some (Some w, a) \<Longrightarrow>
    driver_step s (s\<lparr>ds_core := (ds_core s)\<lparr>dc_write_arena := a\<rparr>, ds_writers := insert (ws_slot w) (ds_writers s)\<rparr>)"
| st_write_drop: "w \<in> ds_writers s \<Longrightarrow> ArenaState_release (dc_write_arena (ds_core s)) w = Some (notified, a) \<Longrightarrow>
    driver_step s (s\<lparr>ds_core := (ds_core s)\<lparr>dc_write_arena := a\<rparr>, ds_writers := ds_writers s - {w}\<rparr>)"
| st_arena: "driver_step s (s\<lparr>ds_core := (ds_core s)\<lparr>dc_arena := F, dc_vectors := vs\<rparr>\<rparr>)"

section \<open>Invariant\<close>

abbreviation ops :: "'file DriverCore \<Rightarrow> u32 \<Rightarrow> OpEntry option" where
  "ops d \<equiv> slab_peek (dc_slab d)"

definition in_state :: "(u32 \<Rightarrow> OpEntry option) \<Rightarrow> (OpState \<Rightarrow> bool) \<Rightarrow> u32 set" where
  "in_state P Q = {sl. \<exists>e. P sl = Some e \<and> Q (oe_state e)}"

fun leased :: "OpState \<Rightarrow> bool" where
  "leased Continuation \<longleftrightarrow> True"
| "leased (Terminal _) \<longleftrightarrow> True"
| "leased _ \<longleftrightarrow> False"

definition on_file :: "(u32 \<Rightarrow> OpEntry option) \<Rightarrow> nat \<Rightarrow> u32 set" where
  "on_file P i = {sl. \<exists>e. P sl = Some e \<and> unat (slot (oe_fd e)) = i}"

definition backlog_tokens :: "Completion list \<Rightarrow> OpToken list" where
  "backlog_tokens cs = map (the \<circ> co_continuation) (filter (\<lambda>c. co_continuation c \<noteq> None) cs)"

definition due_files :: "'file driver_sys \<Rightarrow> FileId list" where
  "due_files s = map df_fd (filter df_retire (dc_deferred (ds_core s))) @ ds_retiring s @ ds_finishing s"

text \<open>The files: every operation runs on a file whose slot still carries its identity and that the
  backend still holds; the in-flight counts are exact; the due retirements are exactly the idle
  closing files, each once.\<close>

definition files_inv :: "'file driver_sys \<Rightarrow> bool" where
  "files_inv s \<longleftrightarrow> (let d = ds_core s; t = dc_files d; P = ops d in
     ft_inv t
     \<and> (\<forall>sl e. P sl = Some e \<longrightarrow> (\<exists>fs. ft_at t (oe_fd e) = Some fs \<and> \<not> fd_reusable fs) \<and> oe_fd e \<notin> set (ds_opening s)
          \<and> driver (oe_fd e) = dc_id d)
     \<and> (\<forall>i < length (ft_slots t). unat (fd_inflight (ft_slots t ! i)) = card (on_file P i)))"

definition due_inv :: "'file driver_sys \<Rightarrow> bool" where
  "due_inv s \<longleftrightarrow> (let d = ds_core s; t = dc_files d in
     distinct (due_files s) \<and> distinct (ds_opening s)
     \<and> (\<forall>fid \<in> set (due_files s). driver fid = dc_id d \<and>
          (\<exists>fs. ft_at t fid = Some fs \<and> fd_state fs = Closing \<and> fd_inflight fs = 0))
     \<and> (\<forall>i < length (ft_slots t). fd_state (ft_slots t ! i) = Closing \<longrightarrow> fd_inflight (ft_slots t ! i) = 0 \<longrightarrow>
          i \<in> (unat \<circ> slot) ` set (due_files s))
     \<and> (\<forall>fid \<in> set (ds_opening s). driver fid = dc_id d \<and>
          (\<exists>fs. ft_at t fid = Some fs \<and> fd_state fs = Open \<and> fd_inflight fs = 0)))"

definition backend_inv :: "'file driver_sys \<Rightarrow> bool" where
  "backend_inv s \<longleftrightarrow> (let d = ds_core s; t = dc_files d; fs = eg_files (dc_executor d) in
     length fs = length (ft_slots t)
     \<and> (\<forall>i < length fs. fs ! i = None \<longleftrightarrow> fd_reusable (ft_slots t ! i)
          \<or> i \<in> (unat \<circ> slot) ` set (ds_opening s @ ds_finishing s)))"

text \<open>The operations: each is queued once, executed once, or leased, and the completions retained
  inside the driver fit its capacity.\<close>

definition ops_inv :: "'file driver_sys \<Rightarrow> bool" where
  "ops_inv s \<longleftrightarrow> (let d = ds_core s; P = ops d in
     slab_inv (dc_slab d) \<and> length (slab_slots (dc_slab d)) = unat (dc_queue_capacity d)
     \<and> unat (dc_queue_capacity d) < 2 ^ 31
     \<and> distinct (dc_ready d) \<and> set (dc_ready d) = in_state P (\<lambda>st. st = Queued)
     \<and> dom (ds_active s) = in_state P (\<lambda>st. st = Active)
     \<and> distinct (backlog_tokens (dc_backlog d)) \<and> ds_leases s \<inter> set (backlog_tokens (dc_backlog d)) = {}
     \<and> ds_leases s \<union> set (backlog_tokens (dc_backlog d))
         = (\<lambda>sl. OpToken_new sl (slab_gen (dc_slab d) sl)) ` in_state P leased
     \<and> card (dom P) + length (filter (\<lambda>c. co_continuation c = None) (dc_backlog d)) + length (dc_deferred d)
         \<le> unat (dc_queue_capacity d))"

definition tokens_inv :: "'file driver_sys \<Rightarrow> bool" where
  "tokens_inv s \<longleftrightarrow> distinct (ds_issued s) \<and> distinct (ds_finished s) \<and> set (ds_finished s) \<subseteq> set (ds_issued s)
     \<and> slab_live (dc_slab (ds_core s)) = set (ds_issued s) - set (ds_finished s)
     \<and> set (ds_issued s) \<subseteq> slab_spent (dc_slab (ds_core s))"

text \<open>The resources an entry owns.\<close>

definition entry_frame :: "'file driver_sys \<Rightarrow> u32 \<Rightarrow> OpEntry \<Rightarrow> ReadDestination option" where
  "entry_frame s sl e = (case ds_active s sl of Some (Some f) \<Rightarrow> Some f | _ \<Rightarrow> oe_frame e)"

definition entry_res :: "u32 \<Rightarrow> ReadDestination option \<Rightarrow> OpEntry \<Rightarrow> bool" where
  "entry_res granule frame e \<longleftrightarrow>
     (case oe_kind e of
        Read \<Rightarrow> oe_write_slot e = None
          \<and> (if leased (oe_state e) then oe_frame e = None \<and> uint (oe_file_offset e) + uint (oe_requested_len e) < 2 ^ 64
             else frame \<noteq> None)
          \<and> (\<forall>v. frame = Some (Vector v) \<longrightarrow> oe_requested_len e = remaining v
               \<and> uint (oe_file_offset e) + uint (oe_requested_len e) < 2 ^ 64)
      | Write \<Rightarrow> frame = None \<and> \<not> leased (oe_state e) \<and> oe_frame_lease e = Absent \<and> oe_write_slot e \<noteq> None
          \<and> unat (oe_destination_offset e) + unat (oe_requested_len e) = unat granule
      | Fsync \<Rightarrow> frame = None \<and> \<not> leased (oe_state e) \<and> oe_frame_lease e = Absent \<and> oe_write_slot e = None)"

definition source_slots :: "(u32 \<Rightarrow> OpEntry option) \<Rightarrow> u32 \<Rightarrow> u32 option" where
  "source_slots P sl = Option.bind (P sl) oe_write_slot"

definition resources_inv :: "'file driver_sys \<Rightarrow> bool" where
  "resources_inv s \<longleftrightarrow> (let P = ops (ds_core s); a = dc_write_arena (ds_core s) in
     arena_inv a
     \<and> ds_writers s \<subseteq> arena_slots a - arena_free a
     \<and> ran (source_slots P) \<subseteq> arena_slots a - arena_free a - ds_writers s
     \<and> inj_on (source_slots P) (dom (source_slots P))
     \<and> (\<forall>sl e. P sl = Some e \<longrightarrow> entry_res (wa_granule a) (entry_frame s sl e) e))"

definition driver_inv :: "'file driver_sys \<Rightarrow> bool" where
  "driver_inv s \<longleftrightarrow> files_inv s \<and> due_inv s \<and> backend_inv s \<and> ops_inv s \<and> tokens_inv s \<and> resources_inv s"

section \<open>Files and their operations\<close>

lemma ft_at_put: "ft_at t fid = Some fs \<Longrightarrow> fd_generation fs' = fd_generation fs \<Longrightarrow>
    ft_at (ft_put t (unat (slot fid)) fs') fid' =
      (if slot fid' = slot fid then (if generation fid' = generation fid then Some fs' else None) else ft_at t fid')"
  by (auto simp: ft_at_def unat_slot_eq dest!: ft_at_SomeD split: if_splits)

lemma same_slot: "ft_at t a = Some fs \<Longrightarrow> ft_at t b = Some fs' \<Longrightarrow> slot a = slot b \<Longrightarrow> driver a = driver b \<Longrightarrow> a = b"
  by (auto simp: ft_at_def split: if_splits intro: FileId_eqI)

lemma on_file_insert: "P sl = None \<Longrightarrow>
    on_file (P(sl \<mapsto> e)) i = (if unat (slot (oe_fd e)) = i then insert sl (on_file P i) else on_file P i)"
  by (auto simp: on_file_def)

lemma on_file_update: "P sl = Some e \<Longrightarrow> oe_fd e' = oe_fd e \<Longrightarrow> on_file (P(sl \<mapsto> e')) i = on_file P i"
  by (auto simp: on_file_def)

lemma on_file_remove: "on_file (P(sl := None)) i = on_file P i - {sl}"
  by (auto simp: on_file_def)

lemma on_file_mem: "P sl = Some e \<Longrightarrow> sl \<in> on_file P i \<longleftrightarrow> unat (slot (oe_fd e)) = i"
  by (auto simp: on_file_def)

lemma on_file_fresh: "P sl = None \<Longrightarrow> sl \<notin> on_file P i"
  by (simp add: on_file_def)

lemma finite_u32: "finite (A :: u32 set)"
  by (rule finite)

lemma files_invD:
  assumes "files_inv s" "ops (ds_core s) sl = Some e"
  obtains fs where "ft_at (dc_files (ds_core s)) (oe_fd e) = Some fs" "\<not> fd_reusable fs" "0 < fd_inflight fs"
    "oe_fd e \<notin> set (ds_opening s)" "driver (oe_fd e) = dc_id (ds_core s)"
proof -
  let ?t = "dc_files (ds_core s)" and ?P = "ops (ds_core s)"
  obtain fs where fs: "ft_at ?t (oe_fd e) = Some fs" "\<not> fd_reusable fs" "oe_fd e \<notin> set (ds_opening s)"
    "driver (oe_fd e) = dc_id (ds_core s)"
    using assms unfolding files_inv_def Let_def by blast
  have "unat (fd_inflight fs) = card (on_file ?P (unat (slot (oe_fd e))))"
    using assms(1) ft_at_SomeD [OF fs(1)] unfolding files_inv_def Let_def by auto
  moreover have "sl \<in> on_file ?P (unat (slot (oe_fd e)))"
    using assms(2) by (simp add: on_file_mem)
  ultimately have "0 < unat (fd_inflight fs)"
    by (metis card_gt_0_iff empty_iff finite_u32)
  then show thesis
    using that fs by (simp add: word_less_nat_alt)
qed

text \<open>The total the admission test reads is the number of occupied slots.\<close>

lemma unat_sum_list: "sum_list (map unat ws) < 2 ^ LENGTH('a) \<Longrightarrow> unat (sum_list ws) = sum_list (map unat ws)"
  for ws :: "'a::len word list"
  by (induction ws) (auto simp: unat_add_small)

lemma card_dom_files:
  assumes "files_inv s"
  shows "card (dom (ops (ds_core s))) = (\<Sum>i < length (ft_slots (dc_files (ds_core s))). card (on_file (ops (ds_core s)) i))"
proof -
  let ?P = "ops (ds_core s)" and ?n = "length (ft_slots (dc_files (ds_core s)))"
  have "dom ?P = (\<Union>i \<in> {..<?n}. on_file ?P i)"
  proof (intro set_eqI iffI)
    fix sl assume "sl \<in> dom ?P"
    then obtain e where e: "?P sl = Some e"
      by blast
    obtain fs where "ft_at (dc_files (ds_core s)) (oe_fd e) = Some fs"
      by (rule files_invD [OF assms e])
    then have "unat (slot (oe_fd e)) < ?n"
      by (auto dest: ft_at_SomeD)
    then show "sl \<in> (\<Union>i \<in> {..<?n}. on_file ?P i)"
      using e by (auto simp: on_file_def)
  qed (auto simp: on_file_def)
  moreover have "disjoint_family_on (on_file ?P) {..<?n}"
    by (auto simp: disjoint_family_on_def on_file_def)
  ultimately show ?thesis
    by (simp add: card_UN_disjoint' finite_u32)
qed

lemma total_inflight_eq:
  assumes "files_inv s" "ops_inv s"
  shows "unat (FileTable_total_inflight (dc_files (ds_core s))) = card (dom (ops (ds_core s)))"
proof -
  let ?slots = "ft_slots (dc_files (ds_core s))" and ?P = "ops (ds_core s)"
  have "sum_list (map unat (map fd_inflight ?slots)) = (\<Sum>i < length ?slots. unat (fd_inflight (?slots ! i)))"
    by (simp add: sum_list_sum_nth atLeast0LessThan o_def)
  also have "\<dots> = (\<Sum>i < length ?slots. card (on_file ?P i))"
    using assms(1) by (intro sum.cong) (auto simp: files_inv_def Let_def)
  finally have sum: "sum_list (map unat (map fd_inflight ?slots)) = card (dom ?P)"
    using card_dom_files [OF assms(1)] by simp
  moreover have "card (dom ?P) < 2 ^ 32"
    using assms(2) by (simp add: ops_inv_def Let_def)
  ultimately show ?thesis
    unfolding FileTable_total_inflight_def by (subst unat_sum_list) simp_all
qed

section \<open>Effects of the locked phases\<close>

lemma slab_issue_tokens:
  assumes "slab_inv s" "slab_reserve s = (Some sl, s1)" "slab_fill s1 sl p = Some (t, s')"
  shows "slab_live s' = insert t (slab_live s)" "t \<notin> slab_spent s" "insert t (slab_spent s) \<subseteq> slab_spent s'"
proof -
  have "slab_issue s p = Some (Some t, s')"
    using assms(2,3) by (simp add: slab_issue_def)
  from slab_tokens.issue_fresh [OF assms(1) this]
  show "slab_live s' = insert t (slab_live s)" "t \<notin> slab_spent s" "insert t (slab_spent s) \<subseteq> slab_spent s'"
    by blast+
qed

lemma slab_update_effect:
  assumes "slab_inv s" "slab_peek s sl = Some q" "slab_update s sl p = Some s'"
  shows "slab_inv s'" "slab_peek s' = (slab_peek s)(sl \<mapsto> p)" "slab_gen s' = slab_gen s"
    "length (slab_slots s') = length (slab_slots s)" "slab_live s' = slab_live s" "slab_spent s' = slab_spent s"
proof -
  show m: "slab_inv s'" "slab_peek s' = (slab_peek s)(sl \<mapsto> p)" "slab_gen s' = slab_gen s"
    "length (slab_slots s') = length (slab_slots s)"
    using assms(3) by (auto intro: slab_update_map [OF assms(1,2), of p])
  show "slab_live s' = slab_live s" "slab_spent s' = slab_spent s"
    using assms(2) by (simp_all add: slab_live_eq slab_spent_eq m(2-4) insert_absorb domI)
qed

lemma slab_update_defined: "slab_peek s sl = Some q \<Longrightarrow> \<exists>s'. slab_update s sl p = Some s'"
  by (auto simp: slab_update_def slab_peek_def bind_Some_iff)

lemma slab_reclaim_effect:
  assumes "slab_inv s" "slab_reclaim s sl = Some ((t, p), s')"
  shows "slab_inv s'" "slab_peek s sl = Some p" "slab_peek s' = (slab_peek s)(sl := None)" "slab_gen s' = slab_gen s"
    "length (slab_slots s') = length (slab_slots s)" "t = OpToken_new sl (slab_gen s sl)"
    "slab_live s' = slab_live s - {t}" "slab_spent s' = slab_spent s" "t \<in> slab_live s"
proof -
  show p: "slab_peek s sl = Some p"
    using assms(2) by (auto simp: slab_reclaim_def slab_peek_def bind_Some_iff Let_def)
  show m: "slab_inv s'" "slab_peek s' = (slab_peek s)(sl := None)" "slab_gen s' = slab_gen s"
    "length (slab_slots s') = length (slab_slots s)" "t = OpToken_new sl (slab_gen s sl)"
    using assms(2) by (auto intro: slab_reclaim_map [OF assms(1) p])
  show "slab_spent s' = slab_spent s" "t \<in> slab_live s"
    using p by (auto simp: slab_live_eq slab_spent_eq m(3-5))
  show "slab_live s' = slab_live s - {t}"
    by (auto simp: slab_live_eq m(2,3,5))
qed

text \<open>Admission and commit under one lock.\<close>

lemma submit_effect:
  assumes inv: "slab_inv (dc_slab d)" and a: "admit d (oe_fd e) = Some (Inr sl, d1)" and c: "commit d1 sl e = Some (token, d2)"
  obtains fs fr slab pos where
    "ft_at (dc_files d) (oe_fd e) = Some fs" "fd_state fs = Open" "fd_inflight fs < - 1" "driver (oe_fd e) = dc_id d"
    "FileTable_total_inflight (dc_files d) + of_nat (length (dc_backlog d) + length (dc_deferred d)) < dc_queue_capacity d"
    "ops d sl = None" "slab_peek slab = (ops d)(sl \<mapsto> e\<lparr>oe_frame := fr\<rparr>)" "slab_inv slab"
    "length (slab_slots slab) = length (slab_slots (dc_slab d))" "token = OpToken_new sl (slab_gen slab sl)"
    "\<And>i. i \<noteq> sl \<Longrightarrow> slab_gen slab i = slab_gen (dc_slab d) i"
    "slab_live slab = insert token (slab_live (dc_slab d))" "token \<notin> slab_spent (dc_slab d)"
    "insert token (slab_spent (dc_slab d)) \<subseteq> slab_spent slab"
    "fr = oe_frame e \<or> (\<exists>v. oe_frame e = Some (Vector v) \<and> fr = Some (Vector (v\<lparr>rv_operation := Some token\<rparr>)))"
    "d2 = d\<lparr>dc_slab := slab, dc_files := ft_put (dc_files d) (unat (slot (oe_fd e))) (fs\<lparr>fd_inflight := fd_inflight fs + 1\<rparr>),
       dc_ready := take pos (dc_ready d) @ sl # drop pos (dc_ready d)\<rparr>"
proof -
  obtain slab0 where live: "FileTable_is_live (dc_files d) (oe_fd e) = Some True" "driver (oe_fd e) = dc_id d"
    and tot: "\<not> FileTable_total_inflight (dc_files d) + of_nat (length (dc_backlog d) + length (dc_deferred d)) \<ge> dc_queue_capacity d"
    and r: "slab_reserve (dc_slab d) = (Some sl, slab0)" and d1: "d1 = d\<lparr>dc_slab := slab0\<rparr>"
    using a by (auto simp: admit_def assert_own_def bind_Some_iff Let_def split: if_splits prod.splits option.splits)
  obtain slab1 slab2 files where f: "slab_fill slab0 sl e = Some (token, slab1)"
    and b: "(case oe_frame e of
        Some (Vector v) \<Rightarrow> do { v \<leftarrow> ReadVector_bind v token; slab_update slab1 sl (e\<lparr>oe_frame := Some (Vector v)\<rparr>) }
      | _ \<Rightarrow> Some slab1) = Some slab2"
    and sub: "FileTable_on_submit (dc_files d) (oe_fd e) = Some files"
    and d2: "d2 = d\<lparr>dc_slab := slab2, dc_files := files,
      dc_ready := take (dc_schedule d (length (dc_ready d))) (dc_ready d) @ sl # drop (dc_schedule d (length (dc_ready d))) (dc_ready d)\<rparr>"
    using c unfolding commit_def d1 by (auto simp: bind_Some_iff Let_def)
  note m = slab_issue_map [OF inv r f] slab_issue_tokens [OF inv r f]
  obtain fs where fs: "ft_at (dc_files d) (oe_fd e) = Some fs" "fd_state fs = Open"
    using live(1) by (auto simp: FileTable_is_live_def ft_at_def bind_Some_iff)
  have inf: "fd_inflight fs < - 1"
    using sub fs(1) by (auto simp: FileTable_on_submit_def bind_Some_iff dest!: ft_at_SomeD)
  have files: "files = ft_put (dc_files d) (unat (slot (oe_fd e))) (fs\<lparr>fd_inflight := fd_inflight fs + 1\<rparr>)"
    using sub FileTable_on_submit_at [OF fs(1) inf] by simp
  have p1: "slab_peek slab1 sl = Some e"
    by (simp add: m(3))
  obtain fr where fr: "slab_peek slab2 = (ops d)(sl \<mapsto> e\<lparr>oe_frame := fr\<rparr>)" "slab_inv slab2" "slab_gen slab2 = slab_gen slab1"
    "length (slab_slots slab2) = length (slab_slots slab1)" "slab_live slab2 = slab_live slab1" "slab_spent slab2 = slab_spent slab1"
    "fr = oe_frame e \<or> (\<exists>v. oe_frame e = Some (Vector v) \<and> fr = Some (Vector (v\<lparr>rv_operation := Some token\<rparr>)))"
  proof (cases "\<exists>v. oe_frame e = Some (Vector v)")
    case True
    then obtain v where v: "oe_frame e = Some (Vector v)" "slab_update slab1 sl (e\<lparr>oe_frame := Some (Vector (v\<lparr>rv_operation := Some token\<rparr>))\<rparr>) = Some slab2"
      using b by (auto simp: ReadVector_bind_def bind_Some_iff)
    show thesis
      using slab_update_effect [OF m(1) p1 v(2)] v(1) m(3) by (intro that) auto
  next
    case False
    then have "slab2 = slab1"
      using b by (auto split: option.splits ReadDestination.splits)
    then show thesis
      using m(1,3) that [of "oe_frame e"] by simp
  qed
  show thesis
    using that [OF fs inf live(2) _ m(2) fr(1,2) _ _ _ _ _ _ fr(7)] tot m(4-10) fr d2 files by (simp add: not_le)
qed

lemma prepare_effect:
  assumes inv: "slab_inv (dc_slab d)" and p: "prepare_next staging d = Some (Some (sl, kind, ctx), d')"
  obtains e e' slab rest where "dc_ready d = sl # rest" "ops d sl = Some e" "oe_state e = Queued"
    "slab_update (dc_slab d) sl e' = Some slab" "d' = d\<lparr>dc_ready := rest, dc_slab := slab\<rparr>"
    "e' = e\<lparr>oe_state := Active, oe_frame := (if oe_kind e = Read then None else oe_frame e)\<rparr>"
    "cx_frame ctx = (if oe_kind e = Read then oe_frame e else None)"
proof -
  obtain rest where rest: "dc_ready d = sl # rest"
    using p by (auto simp: prepare_next_def bind_Some_iff Let_def split: list.splits)
  obtain e where e: "ops d sl = Some e" "oe_state e = Queued"
    using p by (auto simp: prepare_next_def rest bind_Some_iff Let_def)
  note unfold = prepare_next_def rest e bind_Some_iff Let_def OpContext_read_def OpContext_fsync_def OpContext_write_def
  show thesis
  proof (cases "oe_kind e")
    case Read
    then show ?thesis
      using p by (auto simp: unfold intro!: that [OF rest e])
  next
    case Write
    then show ?thesis
      using p by (auto simp: unfold intro!: that [OF rest e])
  next
    case Fsync
    then show ?thesis
      using p by (auto simp: unfold intro!: that [OF rest e])
  qed
qed

lemma fill_effect:
  assumes "fill_ring_loop 1 d = Some ([sqe], d')"
  obtains e slab rest sl where "dc_ready d = sl # rest" "ops d sl = Some e" "oe_state e = Queued"
    "slab_update (dc_slab d) sl (e\<lparr>oe_state := Active\<rparr>) = Some slab" "d' = d\<lparr>dc_ready := rest, dc_slab := slab\<rparr>"
  using assms by (auto simp: bind_Some_iff split: list.splits)

lemma ring_progress_keeps:
  assumes "ring_progress linux e raw bound = Some (progress, e')"
  shows "oe_fd e' = oe_fd e" "oe_kind e' = oe_kind e" "oe_frame e' = oe_frame e" "oe_frame_lease e' = oe_frame_lease e"
    "oe_write_slot e' = oe_write_slot e" "oe_state e' = oe_state e"
    "oe_kind e \<noteq> Write \<Longrightarrow> oe_requested_len e' = oe_requested_len e \<and> oe_file_offset e' = oe_file_offset e"
    "unat (oe_destination_offset e) + unat (oe_requested_len e) < 2 ^ 32 \<Longrightarrow>
      unat (oe_destination_offset e') + unat (oe_requested_len e') = unat (oe_destination_offset e) + unat (oe_requested_len e)"
proof -
  show "oe_fd e' = oe_fd e" "oe_kind e' = oe_kind e" "oe_frame e' = oe_frame e" "oe_frame_lease e' = oe_frame_lease e"
    "oe_write_slot e' = oe_write_slot e" "oe_state e' = oe_state e"
    "oe_kind e \<noteq> Write \<Longrightarrow> oe_requested_len e' = oe_requested_len e \<and> oe_file_offset e' = oe_file_offset e"
    using assms by (auto simp: ring_progress_def bind_Some_iff Let_def split: if_splits)
  show "unat (oe_destination_offset e') + unat (oe_requested_len e') = unat (oe_destination_offset e) + unat (oe_requested_len e)"
    if "unat (oe_destination_offset e) + unat (oe_requested_len e) < 2 ^ 32"
  proof (cases "oe_destination_offset e' = oe_destination_offset e")
    case True
    then have "oe_requested_len e' = oe_requested_len e"
      using assms by (auto simp: ring_progress_def bind_Some_iff Let_def split: if_splits)
    with True show ?thesis by simp
  next
    case False
    then obtain b where b: "oe_destination_offset e' = oe_destination_offset e + b" "oe_requested_len e' = oe_requested_len e - b"
      "b \<le> oe_requested_len e"
      using assms by (auto simp: ring_progress_def bind_Some_iff Let_def split: if_splits)
    then have "unat (oe_destination_offset e + b) = unat (oe_destination_offset e) + unat b"
      using that by (intro unat_add_small) (simp add: word_le_nat_alt)
    then show ?thesis
      using b by (simp add: unat_sub_le word_le_nat_alt)
  qed
qed

lemma resubmit_effect:
  assumes inv: "slab_inv (dc_slab d)" and t: "slab_token (dc_slab d) sl = Some token"
    and r: "reap_cqe linux (user_data token) raw d = Some (None, d')"
  obtains e e' slab where "ops d sl = Some e" "ring_progress linux e raw (dc_retry_bound d) = Some (Resubmit, e')"
    "slab_update (dc_slab d) sl (e'\<lparr>oe_state := Queued\<rparr>) = Some slab" "d' = d\<lparr>dc_slab := slab, dc_ready := dc_ready d @ [sl]\<rparr>"
proof -
  have tok: "OpToken (user_data token) = token" "OpToken_slot token = sl"
    using t by (auto simp: slab_token_def bind_Some_iff)
  obtain e progress e' where e: "ops d sl = Some e" "ring_progress linux e raw (dc_retry_bound d) = Some (progress, e')"
    using r by (auto simp: reap_cqe_def bind_Some_iff Let_def tok)
  show thesis
    using r that e by (cases progress) (auto simp: reap_cqe_def bind_Some_iff Let_def tok)
qed

lemma finish_reclaim_effect:
  assumes inv: "slab_inv (dc_slab d)" and f: "finish_reclaim d sl result dest = Some ((completion, retiring), d')"
  obtains e slab fs arena wa where "slab_reclaim (dc_slab d) sl = Some ((co_token completion, e), slab)"
    "co_continuation completion = None" "ft_at (dc_files d) (oe_fd e) = Some fs" "0 < fd_inflight fs"
    "retiring = (if fd_inflight fs = 1 \<and> fd_state fs = Closing then Some (oe_fd e) else None)"
    "release_write_slot (dc_write_arena d) e = Some wa"
    "d' = d\<lparr>dc_slab := slab, dc_files := ft_put (dc_files d) (unat (slot (oe_fd e))) (fs\<lparr>fd_inflight := fd_inflight fs - 1\<rparr>),
       dc_arena := arena, dc_write_arena := wa\<rparr>"
proof -
  obtain e slab is_due files arena wa where r: "slab_reclaim (dc_slab d) sl = Some ((co_token completion, e), slab)"
    "co_continuation completion = None" "FileTable_on_complete (dc_files d) (oe_fd e) = Some (is_due, files)"
    "retiring = (if is_due then Some (oe_fd e) else None)" "release_write_slot (dc_write_arena d) e = Some wa"
    "d' = d\<lparr>dc_slab := slab, dc_files := files, dc_arena := arena, dc_write_arena := wa\<rparr>"
    using f by (auto simp: finish_reclaim_def bind_Some_iff)
  obtain fs where fs: "ft_at (dc_files d) (oe_fd e) = Some fs" "0 < fd_inflight fs"
    using r(3) by (auto simp: FileTable_on_complete_def bind_Some_iff ft_at_def Let_def)
  show thesis
    using r FileTable_on_complete_at [OF fs] by (intro that [OF r(1,2) fs]) auto
qed

lemma finish_attempt_cases:
  assumes inv: "slab_inv (dc_slab d)" and f: "finish_attempt d sl result destination = Some ((completion, retiring), d')"
  obtains (lease) e e' slab v where "ops d sl = Some e" "oe_state e = Active"
      "(case destination of Some x \<Rightarrow> Some x | None \<Rightarrow> oe_frame e) = Some (Vector v)"
      "slab_update (dc_slab d) sl e' = Some slab" "d' = d\<lparr>dc_slab := slab\<rparr>" "retiring = None"
      "co_token completion = OpToken_new sl (slab_gen (dc_slab d) sl)" "co_continuation completion = Some (co_token completion)"
      "oe_fd e' = oe_fd e" "oe_kind e' = oe_kind e" "oe_write_slot e' = oe_write_slot e" "leased (oe_state e')" "oe_frame e' = None"
      "uint (oe_file_offset e') + uint (oe_requested_len e') = uint (oe_file_offset e) + uint (oe_requested_len e)"
  | (final) e slab fs arena wa where "ops d sl = Some e" "oe_state e = Active"
      "slab_reclaim (dc_slab d) sl = Some ((co_token completion, e), slab)" "co_continuation completion = None"
      "ft_at (dc_files d) (oe_fd e) = Some fs" "0 < fd_inflight fs"
      "retiring = (if fd_inflight fs = 1 \<and> fd_state fs = Closing then Some (oe_fd e) else None)"
      "release_write_slot (dc_write_arena d) e = Some wa"
      "d' = d\<lparr>dc_slab := slab, dc_files := ft_put (dc_files d) (unat (slot (oe_fd e))) (fs\<lparr>fd_inflight := fd_inflight fs - 1\<rparr>),
         dc_arena := arena, dc_write_arena := wa\<rparr>"
proof -
  obtain e where e: "ops d sl = Some e" "oe_state e = Active"
    using f by (auto simp: finish_attempt_def bind_Some_iff Let_def)
  have tok: "slab_token (dc_slab d) sl = Some (OpToken_new sl (slab_gen (dc_slab d) sl))"
    using e(1) by (auto simp: slab_token_def slab_gen_def slab_peek_eq split: if_splits)
  define dest where "dest = (case destination of Some x \<Rightarrow> Some x | None \<Rightarrow> oe_frame e)"
  have reclaim: thesis if r: "finish_reclaim d sl result dest' = Some ((completion, retiring), d')" for dest'
  proof -
    obtain e0 slab fs arena wa where *: "slab_reclaim (dc_slab d) sl = Some ((co_token completion, e0), slab)"
      "co_continuation completion = None" "ft_at (dc_files d) (oe_fd e0) = Some fs" "0 < fd_inflight fs"
      "retiring = (if fd_inflight fs = 1 \<and> fd_state fs = Closing then Some (oe_fd e0) else None)"
      "release_write_slot (dc_write_arena d) e0 = Some wa"
      "d' = d\<lparr>dc_slab := slab, dc_files := ft_put (dc_files d) (unat (slot (oe_fd e0))) (fs\<lparr>fd_inflight := fd_inflight fs - 1\<rparr>),
         dc_arena := arena, dc_write_arena := wa\<rparr>"
      by (rule finish_reclaim_effect [OF inv r])
    have "e0 = e"
      using slab_reclaim_effect(2) [OF inv *(1)] e(1) by simp
    then show thesis
      using final [OF e] * by blast
  qed
  show thesis
  proof (cases "\<exists>v. dest = Some (Vector v)")
    case False
    then have "finish_reclaim d sl result dest = Some ((completion, retiring), d')"
      using f by (cases dest) (auto simp: finish_attempt_def e tok Let_def simp flip: dest_def split: ReadDestination.splits)
    then show thesis
      by (rule reclaim)
  next
    case True
    then obtain v0 where v0: "dest = Some (Vector v0)"
      by blast
    define bytes where "bytes = (case result of Inr b \<Rightarrow> b | Inl _ \<Rightarrow> 0)"
    obtain v where v: "bytes \<le> oe_requested_len e" "record_completion v0 bytes = Some v"
      using f by (auto simp: finish_attempt_def e tok Let_def v0 bind_Some_iff simp flip: dest_def bytes_def)
    note body = finish_attempt_def e tok Let_def v0 v dest_def [symmetric] bytes_def [symmetric] bind_Some_iff
    show thesis
    proof (cases "bytes > 0 \<and> bytes < oe_requested_len e")
      case True
      then obtain off slab where off: "checked_add (oe_file_offset e) (ucast bytes) = Some off"
        and u: "slab_update (dc_slab d) sl (e\<lparr>oe_frame := None, oe_file_offset := off,
              oe_requested_len := oe_requested_len e - bytes,
              oe_destination_offset := destination_offset (dc_arena d) v, oe_state := Continuation\<rparr>) = Some slab"
        and rest: "d' = d\<lparr>dc_slab := slab\<rparr>" "retiring = None" "co_token completion = OpToken_new sl (slab_gen (dc_slab d) sl)"
          "co_continuation completion = Some (co_token completion)"
        using f by (auto simp: body)
      have "unat off = unat (oe_file_offset e) + unat bytes"
        using off unat_add_small [of "oe_file_offset e" "ucast bytes"] unat_ucast_64 [of bytes]
        by (simp only: checked_add_Some)
      then have "uint off = uint (oe_file_offset e) + uint bytes"
        by (simp only: uint_nat of_nat_add)
      moreover have "uint (oe_requested_len e - bytes) = uint (oe_requested_len e) - uint bytes"
        using v(1) unat_sub_le [OF v(1)] by (simp only: uint_nat word_le_nat_alt of_nat_diff)
      ultimately show thesis
        using lease [OF e v0 [unfolded dest_def] u rest] by simp
    next
      case False
      show thesis
      proof (cases "oe_frame_lease e = Pool")
        case True
        then obtain outcome slab where "slab_update (dc_slab d) sl (e\<lparr>oe_frame := None, oe_state := Terminal outcome\<rparr>) = Some slab"
          "d' = d\<lparr>dc_slab := slab\<rparr>" "retiring = None" "co_token completion = OpToken_new sl (slab_gen (dc_slab d) sl)"
          "co_continuation completion = Some (co_token completion)"
          using f False by (auto simp: body)
        then show thesis
          by (rule lease [OF e v0 [unfolded dest_def]]) simp_all
      next
        case lease: False
        then have "finish_reclaim d sl result (Some (Vector v)) = Some ((completion, retiring), d')"
          using f False by (auto simp: body)
        then show thesis
          by (rule reclaim)
      qed
    qed
  qed
qed

lemma live_slot: "t \<in> slab_live s \<Longrightarrow> unat (OpToken_slot t) < length (slab_slots s) \<and> slab_contains s t = Some True"
proof -
  assume t: "t \<in> slab_live s"
  then have "unat (OpToken_slot t) < length (slab_slots s)"
    by (auto simp: slab_live_def)
  then show ?thesis
    using t by (simp add: slab_contains_iff)
qed

lemma leased_case: "(case st of Continuation \<Rightarrow> True | Terminal _ \<Rightarrow> True | _ \<Rightarrow> False) = leased st"
  by (cases st) simp_all

lemma drop_effect:
  assumes inv: "slab_inv (dc_slab d)" and t: "token \<in> slab_live (dc_slab d)" and r: "ReadContinuation_drop d token = Some d'"
  obtains e slab fs outcome sl where "ops d sl = Some e" "leased (oe_state e)"
    "slab_reclaim (dc_slab d) sl = Some ((token, e), slab)"
    "ft_at (dc_files d) (oe_fd e) = Some fs" "0 < fd_inflight fs"
    "d' = d\<lparr>dc_slab := slab, dc_files := ft_put (dc_files d) (unat (slot (oe_fd e))) (fs\<lparr>fd_inflight := fd_inflight fs - 1\<rparr>),
       dc_deferred := dc_deferred d @ [\<lparr>df_fd = oe_fd e, df_retire = (fd_inflight fs = 1 \<and> fd_state fs = Closing), df_outcome = outcome\<rparr>]\<rparr>"
proof -
  obtain t0 e slab is_due files outcome where e: "ops d (OpToken_slot token) = Some e" "leased (oe_state e)"
    "slab_reclaim (dc_slab d) (OpToken_slot token) = Some ((t0, e), slab)"
    "FileTable_on_complete (dc_files d) (oe_fd e) = Some (is_due, files)"
    "d' = d\<lparr>dc_slab := slab, dc_files := files,
      dc_deferred := dc_deferred d @ [\<lparr>df_fd = oe_fd e, df_retire = is_due, df_outcome = outcome\<rparr>]\<rparr>"
  proof -
    obtain e where e: "ops d (OpToken_slot token) = Some e" "leased (oe_state e)"
      "release_read_lease d (OpToken_slot token) = Some d'"
      using r live_slot [OF t] by (auto simp: ReadContinuation_drop_def bind_Some_iff leased_case)
    show thesis
      using e(3) slab_reclaim_effect(2) [OF inv] e(1,2)
      by (auto simp: release_read_lease_def bind_Some_iff intro!: that [OF e(1,2)])
  qed
  have "t0 = token"
    using slab_reclaim_effect(6) [OF inv e(3)] t by (auto simp: slab_live_eq)
  obtain fs where fs: "ft_at (dc_files d) (oe_fd e) = Some fs" "0 < fd_inflight fs"
    using e(4) by (auto simp: FileTable_on_complete_def bind_Some_iff ft_at_def Let_def)
  show thesis
    using e FileTable_on_complete_at [OF fs] \<open>t0 = token\<close> by (intro that [OF e(1,2) _ fs]) auto
qed

lemma continue_effect:
  assumes r: "continue_read_vector d token v = Some (Inr token, d')"
  obtains e v' slab vs where "ops d (OpToken_slot token) = Some e" "oe_state e = Continuation"
    "oe_requested_len e = remaining v'"
    "slab_update (dc_slab d) (OpToken_slot token) (e\<lparr>oe_frame := Some (Vector v'), oe_state := Queued, oe_retries := 0\<rparr>) = Some slab"
    "d' = d\<lparr>dc_vectors := vs, dc_slab := slab, dc_ready := dc_ready d @ [OpToken_slot token]\<rparr>"
proof -
  obtain e vs v' slab where e: "ops d (OpToken_slot token) = Some e" "oe_state e = Continuation" "oe_requested_len e = remaining v"
    "prepare (dc_vectors d) (dc_arena d) (OpToken_slot token) v = Some (vs, v')"
    "slab_update (dc_slab d) (OpToken_slot token) (e\<lparr>oe_frame := Some (Vector v'), oe_state := Queued, oe_retries := 0\<rparr>) = Some slab"
    "d' = d\<lparr>dc_vectors := vs, dc_slab := slab, dc_ready := dc_ready d @ [OpToken_slot token]\<rparr>"
    using r by (auto simp: continue_read_vector_def bind_Some_iff split: if_splits)
  have "remaining v' = remaining v"
    using e(4) by (auto simp: prepare_def bind_Some_iff Let_def remaining_def)
  then show thesis
    using e that by metis
qed

end
