(* ===== verification/Driver_Inv.thy ===== *)
theory Driver_Inv
  imports Driver_System
begin

text \<open>
  Each part of the driver invariant is preserved by the effects the locked phases have on it: the
  files and their due retirements, the backend's file array, the queues and leases, the tokens,
  and the frames and write slots the entries own.
\<close>

section \<open>In-flight counts and due retirements\<close>

lemma files_inv_update:
  assumes "files_inv s" "ops (ds_core s) sl = Some e" "oe_fd e' = oe_fd e" "ops (ds_core s') = (ops (ds_core s))(sl \<mapsto> e')"
    and "dc_files (ds_core s') = dc_files (ds_core s)" "dc_id (ds_core s') = dc_id (ds_core s)" "ds_opening s' = ds_opening s"
  shows "files_inv s'"
  using assms(1-3) on_file_update [of "ops (ds_core s)" sl e e'] unfolding files_inv_def assms(4-7) Let_def by auto

lemma files_inv_insert:
  assumes "files_inv s" "ops (ds_core s) sl = None" "ops (ds_core s') = (ops (ds_core s))(sl \<mapsto> e)"
    and "ft_at (dc_files (ds_core s)) (oe_fd e) = Some fs" "fd_state fs = Open" "fd_inflight fs < - 1"
    and "dc_files (ds_core s') = ft_put (dc_files (ds_core s)) (unat (slot (oe_fd e))) (fs\<lparr>fd_inflight := fd_inflight fs + 1\<rparr>)"
    and "dc_id (ds_core s') = dc_id (ds_core s)" "ds_opening s' = ds_opening s"
    and "oe_fd e \<notin> set (ds_opening s)" "driver (oe_fd e) = dc_id (ds_core s)"
  shows "files_inv s'"
proof -
  let ?t = "dc_files (ds_core s)" and ?P = "ops (ds_core s)"
  note at = ft_at_SomeD [OF assms(4)]
  have inv: "ft_inv ?t" and cnt: "\<And>i. i < length (ft_slots ?t) \<Longrightarrow> unat (fd_inflight (ft_slots ?t ! i)) = card (on_file ?P i)"
    and old: "\<And>sl e. ?P sl = Some e \<Longrightarrow> (\<exists>fs. ft_at ?t (oe_fd e) = Some fs \<and> \<not> fd_reusable fs) \<and> oe_fd e \<notin> set (ds_opening s) \<and> driver (oe_fd e) = dc_id (ds_core s)"
    using assms(1) unfolding files_inv_def Let_def by blast+
  have "ft_inv (dc_files (ds_core s'))"
    unfolding assms(7) using assms(5) by (intro ft_put_inv [OF inv]) simp
  moreover have "\<exists>fs'. ft_at (dc_files (ds_core s')) fid = Some fs' \<and> \<not> fd_reusable fs'"
    if "\<exists>fs. ft_at ?t fid = Some fs \<and> \<not> fd_reusable fs" for fid
    unfolding assms(7) using that assms(4,5) ft_at_put [OF assms(4), of "fs\<lparr>fd_inflight := fd_inflight fs + 1\<rparr>" fid]
    by (auto simp: ft_at_def split: if_splits)
  moreover have "unat (fd_inflight (ft_slots (dc_files (ds_core s')) ! i)) = card (on_file (?P(sl \<mapsto> e)) i)"
    if "i < length (ft_slots ?t)" for i
    unfolding assms(7) using at that cnt [OF that] below_max_Suc [OF assms(6)] on_file_fresh [where P = ?P, OF assms(2)]
    by (auto simp: on_file_insert [where P = ?P, OF assms(2)] finite_u32)
  ultimately show ?thesis
    unfolding files_inv_def Let_def assms(3,8,9) using old assms(4,5,10,11) by (auto simp: assms(7))
qed

lemma files_inv_remove:
  assumes "files_inv s" "ops (ds_core s) sl = Some e" "ops (ds_core s') = (ops (ds_core s))(sl := None)"
    and "ft_at (dc_files (ds_core s)) (oe_fd e) = Some fs" "0 < fd_inflight fs"
    and "dc_files (ds_core s') = ft_put (dc_files (ds_core s)) (unat (slot (oe_fd e))) (fs\<lparr>fd_inflight := fd_inflight fs - 1\<rparr>)"
    and "dc_id (ds_core s') = dc_id (ds_core s)" "ds_opening s' = ds_opening s"
  shows "files_inv s'"
proof -
  let ?t = "dc_files (ds_core s)" and ?P = "ops (ds_core s)"
  note at = ft_at_SomeD [OF assms(4)]
  have inv: "ft_inv ?t" and cnt: "\<And>i. i < length (ft_slots ?t) \<Longrightarrow> unat (fd_inflight (ft_slots ?t ! i)) = card (on_file ?P i)"
    and old: "\<And>sl e. ?P sl = Some e \<Longrightarrow> (\<exists>fs. ft_at ?t (oe_fd e) = Some fs \<and> \<not> fd_reusable fs) \<and> oe_fd e \<notin> set (ds_opening s) \<and> driver (oe_fd e) = dc_id (ds_core s)"
    using assms(1) unfolding files_inv_def Let_def by blast+
  have busy: "\<not> fd_reusable fs"
    using old [OF assms(2)] assms(4) by auto
  have "ft_inv (dc_files (ds_core s'))"
    unfolding assms(6) using busy by (intro ft_put_inv [OF inv]) simp
  moreover have "\<exists>fs'. ft_at (dc_files (ds_core s')) fid = Some fs' \<and> \<not> fd_reusable fs'"
    if "\<exists>fs. ft_at ?t fid = Some fs \<and> \<not> fd_reusable fs" for fid
    unfolding assms(6) using that assms(4) busy ft_at_put [OF assms(4), of "fs\<lparr>fd_inflight := fd_inflight fs - 1\<rparr>" fid]
    by (auto simp: ft_at_def split: if_splits)
  moreover have "unat (fd_inflight (ft_slots (dc_files (ds_core s')) ! i)) = card (on_file (?P(sl := None)) i)"
    if "i < length (ft_slots ?t)" for i
  proof -
    have "unat (fd_inflight fs - 1) = unat (fd_inflight fs) - 1"
      using assms(5) by (intro unat_minus_one) auto
    then show ?thesis
      unfolding assms(6) using at that cnt [OF that] on_file_mem [where P = ?P, OF assms(2)]
      by (auto simp: on_file_remove finite_u32)
  qed
  ultimately show ?thesis
    unfolding files_inv_def Let_def assms(3,7,8) using old by (auto simp: assms(6))
qed

lemma due_inv_put:
  assumes inv: "due_inv s" and files: "dc_files (ds_core s') = ft_put (dc_files (ds_core s)) i fs'" "i < length (ft_slots (dc_files (ds_core s)))"
    and id: "dc_id (ds_core s') = dc_id (ds_core s)"
    and dist: "distinct (due_files s')" "distinct (ds_opening s')"
    and keep: "\<And>x. unat (slot x) \<noteq> i \<Longrightarrow> x \<in> set (due_files s') \<longleftrightarrow> x \<in> set (due_files s)"
    and keepo: "\<And>x. unat (slot x) \<noteq> i \<Longrightarrow> x \<in> set (ds_opening s') \<Longrightarrow> x \<in> set (ds_opening s)"
    and here: "\<And>x. unat (slot x) = i \<Longrightarrow> x \<in> set (due_files s') \<Longrightarrow>
      generation x = fd_generation fs' \<and> driver x = dc_id (ds_core s) \<and> fd_state fs' = Closing \<and> fd_inflight fs' = 0"
    and hereo: "\<And>x. unat (slot x) = i \<Longrightarrow> x \<in> set (ds_opening s') \<Longrightarrow>
      generation x = fd_generation fs' \<and> driver x = dc_id (ds_core s) \<and> fd_state fs' = Open \<and> fd_inflight fs' = 0"
    and idle: "fd_state fs' = Closing \<Longrightarrow> fd_inflight fs' = 0 \<Longrightarrow> \<exists>x \<in> set (due_files s'). unat (slot x) = i"
  shows "due_inv s'"
proof -
  let ?t = "dc_files (ds_core s)" and ?t' = "dc_files (ds_core s')"
  have at: "ft_at ?t' x = (if unat (slot x) = i then (if generation x = fd_generation fs' then Some fs' else None) else ft_at ?t x)" for x
    unfolding files(1) using files(2) by (simp add: ft_at_def)
  have old: "driver x = dc_id (ds_core s) \<and> (\<exists>fs. ft_at ?t x = Some fs \<and> fd_state fs = Closing \<and> fd_inflight fs = 0)"
    if "x \<in> set (due_files s)" for x
    using inv that unfolding due_inv_def Let_def by blast
  have oldo: "driver x = dc_id (ds_core s) \<and> (\<exists>fs. ft_at ?t x = Some fs \<and> fd_state fs = Open \<and> fd_inflight fs = 0)"
    if "x \<in> set (ds_opening s)" for x
    using inv that unfolding due_inv_def Let_def by blast
  have conv: "j \<in> (unat \<circ> slot) ` set (due_files s)"
    if "j < length (ft_slots ?t)" "fd_state (ft_slots ?t ! j) = Closing" "fd_inflight (ft_slots ?t ! j) = 0" for j
    using inv that unfolding due_inv_def Let_def by blast
  have 1: "driver x = dc_id (ds_core s) \<and> (\<exists>fs. ft_at ?t' x = Some fs \<and> fd_state fs = Closing \<and> fd_inflight fs = 0)"
    if x: "x \<in> set (due_files s')" for x
    using x here [of x] keep [of x] old [of x] by (cases "unat (slot x) = i") (auto simp: at)
  have 2: "driver x = dc_id (ds_core s) \<and> (\<exists>fs. ft_at ?t' x = Some fs \<and> fd_state fs = Open \<and> fd_inflight fs = 0)"
    if x: "x \<in> set (ds_opening s')" for x
    using x hereo [of x] keepo [of x] oldo [of x] by (cases "unat (slot x) = i") (auto simp: at)
  have 3: "j \<in> (unat \<circ> slot) ` set (due_files s')"
    if j: "j < length (ft_slots ?t')" "fd_state (ft_slots ?t' ! j) = Closing" "fd_inflight (ft_slots ?t' ! j) = 0" for j
  proof (cases "j = i")
    case True
    then show ?thesis
      using idle j(2,3) files(2) by (auto simp: files(1))
  next
    case False
    then obtain x where "x \<in> set (due_files s)" "unat (slot x) = j"
      using conv [of j] j files(2) by (auto simp: files(1))
    then show ?thesis
      using keep [of x] False by auto
  qed
  show ?thesis
    unfolding due_inv_def Let_def id using dist 1 2 3 by blast
qed

lemma due_inv_same:
  assumes "due_inv s" "dc_files (ds_core s') = dc_files (ds_core s)" "dc_id (ds_core s') = dc_id (ds_core s)"
    and "mset (due_files s') = mset (due_files s)" "distinct (ds_opening s')" "set (ds_opening s') \<subseteq> set (ds_opening s)"
  shows "due_inv s'"
  using assms(1,5,6) mset_eq_setD [OF assms(4)] mset_eq_imp_distinct_iff [OF assms(4)]
  unfolding due_inv_def Let_def assms(2,3) by auto

lemma due_file:
  assumes "due_inv s" "x \<in> set (due_files s)"
  obtains fs where "ft_at (dc_files (ds_core s)) x = Some fs" "fd_state fs = Closing" "fd_inflight fs = 0" "driver x = dc_id (ds_core s)"
  using assms unfolding due_inv_def Let_def by blast

lemma opening_file:
  assumes "due_inv s" "x \<in> set (ds_opening s)"
  obtains fs where "ft_at (dc_files (ds_core s)) x = Some fs" "fd_state fs = Open" "fd_inflight fs = 0" "driver x = dc_id (ds_core s)"
  using assms unfolding due_inv_def Let_def by blast

lemma due_slot_distinct:
  assumes "due_inv s" "x \<in> set (due_files s)" "y \<in> set (due_files s)" "slot x = slot y"
  shows "x = y"
  using assms by (metis due_file same_slot)

lemma opening_slot_distinct:
  assumes "due_inv s" "x \<in> set (ds_opening s)" "y \<in> set (ds_opening s)" "slot x = slot y"
  shows "x = y"
  using assms by (metis opening_file same_slot)

lemma busy_not_due:
  assumes "due_inv s" "ft_at (dc_files (ds_core s)) fd = Some fs" "fd_state fs \<noteq> Closing \<or> fd_inflight fs \<noteq> 0"
    and "unat (slot x) = unat (slot fd)"
  shows "x \<notin> set (due_files s)"
  using assms by (metis due_file ft_at_SomeD)

lemma handle_not_opening:
  assumes "due_inv s" "ft_at (dc_files (ds_core s)) fd = Some fs" "driver fd = dc_id (ds_core s)" "fd \<notin> set (ds_opening s)"
    and "unat (slot x) = unat (slot fd)"
  shows "x \<notin> set (ds_opening s)"
  using assms by (metis opening_file same_slot unat_slot_eq)

lemma due_distinct: "due_inv s \<Longrightarrow> distinct (due_files s) \<and> distinct (ds_opening s)"
  by (simp add: due_inv_def Let_def)

text \<open>Counting an operation in and out.\<close>

lemma due_inv_submit:
  assumes inv: "due_inv s" and at: "ft_at (dc_files (ds_core s)) fd = Some fs" "fd_state fs = Open" "driver fd = dc_id (ds_core s)"
    and files: "dc_files (ds_core s') = ft_put (dc_files (ds_core s)) (unat (slot fd)) (fs\<lparr>fd_inflight := fd_inflight fs + 1\<rparr>)"
    and same: "dc_id (ds_core s') = dc_id (ds_core s)" "due_files s' = due_files s" "ds_opening s' = ds_opening s" "fd \<notin> set (ds_opening s)"
  shows "due_inv s'"
proof (rule due_inv_put [OF inv files _ same(1)])
  show "unat (slot fd) < length (ft_slots (dc_files (ds_core s)))"
    using at(1) by (auto dest: ft_at_SomeD)
qed (use at same due_distinct [OF inv] busy_not_due [OF inv at(1)] handle_not_opening [OF inv at(1,3) same(4)] in auto)

lemma due_inv_complete:
  assumes inv: "due_inv s" and at: "ft_at (dc_files (ds_core s)) fd = Some fs" "0 < fd_inflight fs" "driver fd = dc_id (ds_core s)"
    and files: "dc_files (ds_core s') = ft_put (dc_files (ds_core s)) (unat (slot fd)) (fs\<lparr>fd_inflight := fd_inflight fs - 1\<rparr>)"
    and same: "dc_id (ds_core s') = dc_id (ds_core s)" "ds_opening s' = ds_opening s" "fd \<notin> set (ds_opening s)"
    and due: "mset (due_files s') = mset ((if fd_inflight fs = 1 \<and> fd_state fs = Closing then [fd] else []) @ due_files s)"
  shows "due_inv s'"
proof -
  have not_due: "x \<notin> set (due_files s)" if "unat (slot x) = unat (slot fd)" for x
    using at(2) by (intro busy_not_due [OF inv at(1) _ that]) auto
  have set: "set (due_files s') = set ((if fd_inflight fs = 1 \<and> fd_state fs = Closing then [fd] else []) @ due_files s)"
    using mset_eq_setD [OF due] .
  have dist: "distinct (due_files s')"
    using mset_eq_imp_distinct_iff [OF due] due_distinct [OF inv] not_due [of fd]
    by (cases "fd_inflight fs = 1 \<and> fd_state fs = Closing") auto
  have one: "fd_inflight fs - 1 = 0 \<longleftrightarrow> fd_inflight fs = 1"
    by auto
  show ?thesis
  proof (rule due_inv_put [OF inv files _ same(1) dist])
    show "unat (slot fd) < length (ft_slots (dc_files (ds_core s)))"
      using at(1) by (auto dest: ft_at_SomeD)
  qed (use at ft_at_SomeD [OF at(1)] same one set not_due due_distinct [OF inv] handle_not_opening [OF inv at(1,3) same(3)] in
      \<open>auto split: if_splits\<close>)
qed

section \<open>Files opened and closed\<close>

lemma files_inv_put:
  assumes inv: "files_inv s" and same: "ops (ds_core s') = ops (ds_core s)" "dc_id (ds_core s') = dc_id (ds_core s)"
    and files: "dc_files (ds_core s') = ft_put (dc_files (ds_core s)) i fs'" "i < length (ft_slots (dc_files (ds_core s)))"
    and inflight: "fd_inflight fs' = fd_inflight (ft_slots (dc_files (ds_core s)) ! i)"
    and reusable: "fd_reusable fs' \<Longrightarrow> fd_inflight fs' = 0"
    and used: "fd_inflight fs' \<noteq> 0 \<Longrightarrow> fd_generation fs' = fd_generation (ft_slots (dc_files (ds_core s)) ! i)"
    and newly: "\<And>x. x \<in> set (ds_opening s') \<Longrightarrow> x \<in> set (ds_opening s) \<or> unat (slot x) = i \<and> fd_inflight fs' = 0"
  shows "files_inv s'"
proof -
  let ?t = "dc_files (ds_core s)" and ?P = "ops (ds_core s)"
  have ft: "ft_inv ?t" and cnt: "\<And>i. i < length (ft_slots ?t) \<Longrightarrow> unat (fd_inflight (ft_slots ?t ! i)) = card (on_file ?P i)"
    using inv unfolding files_inv_def Let_def by blast+
  have "(\<exists>fs. ft_at (ft_put ?t i fs') (oe_fd e) = Some fs \<and> \<not> fd_reusable fs) \<and> oe_fd e \<notin> set (ds_opening s')
      \<and> driver (oe_fd e) = dc_id (ds_core s)" if e: "?P sl = Some e" for sl e
  proof -
    obtain fs where fs: "ft_at ?t (oe_fd e) = Some fs" "\<not> fd_reusable fs" "0 < fd_inflight fs"
      "oe_fd e \<notin> set (ds_opening s)" "driver (oe_fd e) = dc_id (ds_core s)"
      by (rule files_invD [OF inv e])
    have "fd_inflight fs' \<noteq> 0" if "unat (slot (oe_fd e)) = i"
      using fs(1,3) inflight that by (auto dest!: ft_at_SomeD)
    then show ?thesis
      using fs files(2) newly used reusable by (fastforce simp: ft_at_def split: if_splits)
  qed
  moreover have "ft_inv (ft_put ?t i fs')"
    by (rule ft_put_inv [OF ft reusable])
  moreover have "unat (fd_inflight (ft_slots (ft_put ?t i fs') ! j)) = card (on_file ?P j)" if "j < length (ft_slots ?t)" for j
    using cnt [OF that] files(2) inflight by auto
  ultimately show ?thesis
    unfolding files_inv_def Let_def same files(1) by simp
qed

lemma files_inv_same:
  assumes "files_inv s" "ops (ds_core s') = ops (ds_core s)" "dc_id (ds_core s') = dc_id (ds_core s)"
    "dc_files (ds_core s') = dc_files (ds_core s)" "set (ds_opening s') \<subseteq> set (ds_opening s)"
  shows "files_inv s'"
  using assms(1,5) unfolding files_inv_def Let_def assms(2-4) by blast

lemma backend_inv_put:
  assumes inv: "backend_inv s" and files: "dc_files (ds_core s') = ft_put (dc_files (ds_core s)) i fs'" "i < length (ft_slots (dc_files (ds_core s)))"
    and same: "dc_executor (ds_core s') = dc_executor (ds_core s)"
    and keep: "\<And>x. unat (slot x) \<noteq> i \<Longrightarrow> x \<in> set (ds_opening s' @ ds_finishing s') \<longleftrightarrow> x \<in> set (ds_opening s @ ds_finishing s)"
    and here: "fd_reusable (ft_slots (dc_files (ds_core s)) ! i) \<or> (\<exists>x \<in> set (ds_opening s @ ds_finishing s). unat (slot x) = i)
      \<longleftrightarrow> fd_reusable fs' \<or> (\<exists>x \<in> set (ds_opening s' @ ds_finishing s'). unat (slot x) = i)"
  shows "backend_inv s'"
proof -
  have "fd_reusable (ft_slots (dc_files (ds_core s)) ! j) \<or> j \<in> (unat \<circ> slot) ` set (ds_opening s @ ds_finishing s)
      \<longleftrightarrow> fd_reusable (ft_slots (dc_files (ds_core s')) ! j) \<or> j \<in> (unat \<circ> slot) ` set (ds_opening s' @ ds_finishing s')"
    if "j < length (ft_slots (dc_files (ds_core s)))" for j
  proof (cases "j = i")
    case True
    have img: "i \<in> (unat \<circ> slot) ` A \<longleftrightarrow> (\<exists>x \<in> A. unat (slot x) = i)" for A :: "FileId set"
      by auto
    show ?thesis
      using here files(2) unfolding True img files(1) by simp
  next
    case False
    then have "j \<in> (unat \<circ> slot) ` set (ds_opening s @ ds_finishing s) \<longleftrightarrow> j \<in> (unat \<circ> slot) ` set (ds_opening s' @ ds_finishing s')"
      using keep unfolding image_iff by (metis comp_apply)
    then show ?thesis
      using False files(2) unfolding files(1) by simp
  qed
  then show ?thesis
    using inv unfolding backend_inv_def Let_def same by (simp add: files(1))
qed

lemma backend_inv_same:
  assumes "backend_inv s" "dc_files (ds_core s') = dc_files (ds_core s)" "dc_executor (ds_core s') = dc_executor (ds_core s)"
    "ds_opening s' = ds_opening s" "ds_finishing s' = ds_finishing s"
  shows "backend_inv s'"
  using assms by (simp add: backend_inv_def Let_def)

text \<open>The in-flight counts do not matter to the backend.\<close>

lemma backend_inv_count:
  assumes inv: "backend_inv s" and at: "ft_at (dc_files (ds_core s)) fd = Some fs" and st: "fd_state fs' = fd_state fs"
    and files: "dc_files (ds_core s') = ft_put (dc_files (ds_core s)) (unat (slot fd)) fs'"
    and same: "dc_executor (ds_core s') = dc_executor (ds_core s)" "ds_opening s' = ds_opening s" "ds_finishing s' = ds_finishing s"
  shows "backend_inv s'"
proof (rule backend_inv_put [OF inv files _ same(1)])
  show "unat (slot fd) < length (ft_slots (dc_files (ds_core s)))"
    using at by (auto dest: ft_at_SomeD)
qed (use ft_at_SomeD [OF at] st same(2,3) in auto)

lemma backend_inv_exec:
  assumes inv: "backend_inv s" and files: "dc_files (ds_core s') = dc_files (ds_core s)"
    and ex: "eg_files (dc_executor (ds_core s')) = (eg_files (dc_executor (ds_core s)))[i := y]"
    and keep: "\<And>x. unat (slot x) \<noteq> i \<Longrightarrow> x \<in> set (ds_opening s' @ ds_finishing s') \<longleftrightarrow> x \<in> set (ds_opening s @ ds_finishing s)"
    and here: "y = None \<longleftrightarrow> fd_reusable (ft_slots (dc_files (ds_core s)) ! i) \<or> (\<exists>x \<in> set (ds_opening s' @ ds_finishing s'). unat (slot x) = i)"
  shows "backend_inv s'"
proof -
  have img: "j \<in> (unat \<circ> slot) ` A \<longleftrightarrow> (\<exists>x \<in> A. unat (slot x) = j)" for A :: "FileId set" and j
    by auto
  have off: "j \<in> (unat \<circ> slot) ` set (ds_opening s @ ds_finishing s) \<longleftrightarrow> j \<in> (unat \<circ> slot) ` set (ds_opening s' @ ds_finishing s')"
    if "j \<noteq> i" for j
    using keep that unfolding img by metis
  have "(eg_files (dc_executor (ds_core s)))[i := y] ! j = None
      \<longleftrightarrow> fd_reusable (ft_slots (dc_files (ds_core s)) ! j) \<or> j \<in> (unat \<circ> slot) ` set (ds_opening s' @ ds_finishing s')"
    if j: "j < length (eg_files (dc_executor (ds_core s)))" for j
  proof (cases "j = i")
    case True
    then show ?thesis
      using here j unfolding img by simp
  next
    case False
    then show ?thesis
      using inv j off [OF False] unfolding backend_inv_def Let_def by simp
  qed
  then show ?thesis
    using inv unfolding backend_inv_def Let_def files ex by simp
qed

lemma reusable_unused:
  assumes "due_inv s" "fd_reusable (ft_slots (dc_files (ds_core s)) ! unat (slot x))"
  shows "x \<notin> set (due_files s)" "x \<notin> set (ds_opening s)"
proof -
  show "x \<notin> set (due_files s)"
    using assms(2) by (auto elim!: due_file [OF assms(1)] dest!: ft_at_SomeD)
  show "x \<notin> set (ds_opening s)"
    using assms(2) by (auto elim!: opening_file [OF assms(1)] dest!: ft_at_SomeD)
qed

lemma finishing_due: "x \<in> set (ds_finishing s) \<Longrightarrow> x \<in> set (due_files s)"
  by (simp add: due_files_def)

definition file_invs :: "'file driver_sys \<Rightarrow> bool" where
  "file_invs s \<longleftrightarrow> files_inv s \<and> due_inv s \<and> backend_inv s"

lemma file_invs_reserve:
  assumes inv: "file_invs s" and op: "FileTable_open (dc_files (ds_core s)) (dc_id (ds_core s)) = Some (Some fid, files)"
  shows "file_invs (s\<lparr>ds_core := (ds_core s)\<lparr>dc_files := files\<rparr>, ds_opening := fid # ds_opening s\<rparr>)" (is "file_invs ?s")
proof -
  let ?t = "dc_files (ds_core s)" and ?fs = "\<lparr>fd_generation = generation fid, fd_state = Open, fd_inflight = 0\<rparr>"
  have i: "files_inv s" "due_inv s" "backend_inv s"
    using inv by (simp_all add: file_invs_def)
  have ft: "ft_inv ?t"
    using i(1) by (simp add: files_inv_def Let_def)
  obtain fs where o: "unat (slot fid) < length (ft_slots ?t)" "fs = ft_slots ?t ! unat (slot fid)" "fd_reusable fs"
    "driver fid = dc_id (ds_core s)" "files = ft_put ?t (unat (slot fid)) ?fs"
    by (rule FileTable_open_Some [OF op ft])
  have none: "x \<notin> set (due_files s) \<and> x \<notin> set (ds_opening s) \<and> x \<notin> set (ds_finishing s)" if "unat (slot x) = unat (slot fid)" for x
    using reusable_unused [OF i(2), of x] o(2,3) that finishing_due [of x s] by auto
  have zero: "fd_inflight fs = 0"
    using ft o(2,3) nth_mem [OF o(1)] by (auto simp: ft_inv_def)
  have due: "due_files ?s = due_files s"
    by (simp add: due_files_def)
  have "files_inv ?s"
    by (rule files_inv_put [OF i(1), where fs' = ?fs and i = "unat (slot fid)"]) (use o zero in auto)
  moreover have "due_inv ?s"
    by (rule due_inv_put [OF i(2), where fs' = ?fs and i = "unat (slot fid)"]) (use o none due due_distinct [OF i(2)] in auto)
  moreover have "backend_inv ?s"
    by (rule backend_inv_put [OF i(3), where fs' = ?fs and i = "unat (slot fid)"]) (use o in auto)
  ultimately show ?thesis
    by (simp add: file_invs_def)
qed

lemma file_invs_abort:
  assumes inv: "file_invs s" and fid: "fid \<in> set (ds_opening s)" and ab: "abort_file (ds_core s) fid = Some d"
  shows "file_invs (s\<lparr>ds_core := d, ds_opening := remove1 fid (ds_opening s)\<rparr>)" (is "file_invs ?s")
proof -
  let ?t = "dc_files (ds_core s)"
  have i: "files_inv s" "due_inv s" "backend_inv s"
    using inv by (simp_all add: file_invs_def)
  obtain fs where at: "ft_at ?t fid = Some fs" "fd_state fs = Open" "fd_inflight fs = 0"
    by (rule opening_file [OF i(2) fid])
  note fs = ft_at_SomeD [OF at(1)]
  have d: "d = (ds_core s)\<lparr>dc_files := ft_put ?t (unat (slot fid)) (fs\<lparr>fd_state := Free\<rparr>)\<rparr>"
    using ab by (auto simp: abort_file_def bind_Some_iff FileTable_abort_open_at [OF at])
  have none: "x \<notin> set (due_files s) \<and> (x \<in> set (ds_opening s) \<longrightarrow> x = fid)" if "unat (slot x) = unat (slot fid)" for x
    using busy_not_due [OF i(2) at(1) _ that] opening_slot_distinct [OF i(2) _ fid, of x] that at(2) by (auto simp: unat_slot_eq)
  have due: "due_files ?s = due_files s"
    by (simp add: due_files_def d)
  note dist = due_distinct [OF i(2)]
  have "files_inv ?s"
    by (rule files_inv_put [OF i(1), where fs' = "fs\<lparr>fd_state := Free\<rparr>" and i = "unat (slot fid)"])
      (use fs at dist in \<open>auto simp: d\<close>)
  moreover have "due_inv ?s"
    by (rule due_inv_put [OF i(2), where fs' = "fs\<lparr>fd_state := Free\<rparr>" and i = "unat (slot fid)"])
      (use fs at none due dist in \<open>auto simp: d\<close>)
  moreover have "backend_inv ?s"
    by (rule backend_inv_put [OF i(3), where fs' = "fs\<lparr>fd_state := Free\<rparr>" and i = "unat (slot fid)"])
      (use fs fid dist in \<open>auto simp: d\<close>)
  ultimately show ?thesis
    by (simp add: file_invs_def)
qed

lemma file_invs_close:
  assumes inv: "file_invs s" and fid: "fid \<notin> set (ds_opening s)" "driver fid = dc_id (ds_core s)"
    and cl: "close_locked (ds_core s) fid = Some (idle, d)"
  shows "file_invs (s\<lparr>ds_core := d, ds_retiring := (if idle then [fid] else []) @ ds_retiring s\<rparr>)" (is "file_invs ?s")
proof -
  let ?t = "dc_files (ds_core s)"
  have i: "files_inv s" "due_inv s" "backend_inv s"
    using inv by (simp_all add: file_invs_def)
  obtain fs where at: "ft_at ?t fid = Some fs" "fd_state fs = Open" and idle: "idle = (fd_inflight fs = 0)"
    and d: "d = (ds_core s)\<lparr>dc_files := ft_put ?t (unat (slot fid)) (fs\<lparr>fd_state := Closing\<rparr>)\<rparr>"
    using cl by (auto simp: close_locked_def bind_Some_iff FileTable_close_Some)
  note fs = ft_at_SomeD [OF at(1)]
  have none: "x \<notin> set (due_files s) \<and> x \<notin> set (ds_opening s) \<and> x \<notin> set (ds_finishing s)" if "unat (slot x) = unat (slot fid)" for x
    using busy_not_due [OF i(2) at(1) _ that] handle_not_opening [OF i(2) at(1) fid(2,1) that] at(2) finishing_due [of x s] by auto
  have due: "mset (due_files ?s) = mset ((if idle then [fid] else []) @ due_files s)"
    by (simp add: due_files_def d)
  note dist = due_distinct [OF i(2)] and set = mset_eq_setD [OF due]
  have dd: "distinct (due_files ?s)"
    using mset_eq_imp_distinct_iff [OF due] dist none [of fid] by auto
  obtain s' where s': "s' = ?s" by blast
  have f: "dc_files (ds_core s') = ft_put ?t (unat (slot fid)) (fs\<lparr>fd_state := Closing\<rparr>)" "dc_id (ds_core s') = dc_id (ds_core s)"
    "ds_opening s' = ds_opening s" "distinct (due_files s')" "set (due_files s') = set ((if idle then [fid] else []) @ due_files s)"
    using dd set by (simp_all add: s' d)
  have "files_inv ?s"
    by (rule files_inv_put [OF i(1), where fs' = "fs\<lparr>fd_state := Closing\<rparr>" and i = "unat (slot fid)"])
      (use fs at in \<open>auto simp: d\<close>)
  moreover have "due_inv s'"
    by (rule due_inv_put [OF i(2) f(1) _ f(2,4)]) (use fs at none dist idle fid in \<open>auto simp: f(3,5) split: if_splits\<close>)
  moreover have "backend_inv ?s"
    by (rule backend_inv_put [OF i(3), where fs' = "fs\<lparr>fd_state := Closing\<rparr>" and i = "unat (slot fid)"])
      (use fs at none in \<open>auto simp: d\<close>)
  ultimately show ?thesis
    by (simp add: file_invs_def s')
qed

lemma file_invs_register:
  assumes inv: "file_invs s" and fid: "fid \<in> set (ds_opening s)"
    and reg: "Eager_register_file (dc_executor (ds_core s)) (slot fid) f = Some ex"
  shows "file_invs (s\<lparr>ds_core := (ds_core s)\<lparr>dc_executor := ex\<rparr>, ds_opening := remove1 fid (ds_opening s)\<rparr>)" (is "file_invs ?s")
proof -
  have i: "files_inv s" "due_inv s" "backend_inv s"
    using inv by (simp_all add: file_invs_def)
  obtain fs where at: "ft_at (dc_files (ds_core s)) fid = Some fs" "fd_state fs = Open" "fd_inflight fs = 0"
    by (rule opening_file [OF i(2) fid])
  note fs = ft_at_SomeD [OF at(1)] and dist = due_distinct [OF i(2)]
  have none: "x \<notin> set (ds_finishing s) \<and> (x \<in> set (ds_opening s) \<longrightarrow> x = fid)" if "unat (slot x) = unat (slot fid)" for x
    using busy_not_due [OF i(2) at(1) _ that] opening_slot_distinct [OF i(2) _ fid, of x] that at(2) finishing_due [of x s]
    by (auto simp: unat_slot_eq)
  have ex: "eg_files ex = (eg_files (dc_executor (ds_core s)))[unat (slot fid) := Some f]"
    using reg by (auto simp: Eager_register_file_def bind_Some_iff)
  have "files_inv ?s"
    by (rule files_inv_same [OF i(1)]) (use dist in auto)
  moreover have "due_inv ?s"
    by (rule due_inv_same [OF i(2)]) (use dist in \<open>auto simp: due_files_def\<close>)
  moreover have "backend_inv ?s"
    by (rule backend_inv_exec [OF i(3), where i = "unat (slot fid)" and y = "Some f"]) (use dist ex fs at none in auto)
  ultimately show ?thesis
    by (simp add: file_invs_def)
qed

lemma file_invs_retire:
  assumes inv: "file_invs s" and fid: "fid \<in> set (ds_retiring s)"
    and ret: "Eager_retire_file (dc_executor (ds_core s)) (slot fid) = Some ex"
  shows "file_invs (s\<lparr>ds_core := (ds_core s)\<lparr>dc_executor := ex\<rparr>, ds_retiring := remove1 fid (ds_retiring s),
      ds_finishing := fid # ds_finishing s\<rparr>)" (is "file_invs ?s")
proof -
  have i: "files_inv s" "due_inv s" "backend_inv s"
    using inv by (simp_all add: file_invs_def)
  have ex: "eg_files ex = (eg_files (dc_executor (ds_core s)))[unat (slot fid) := None]"
    using ret by (auto simp: Eager_retire_file_def bind_Some_iff)
  have "files_inv ?s"
    by (rule files_inv_same [OF i(1)]) auto
  moreover have "due_inv ?s"
    by (rule due_inv_same [OF i(2)]) (use due_distinct [OF i(2)] fid in \<open>auto simp: due_files_def\<close>)
  moreover have "backend_inv ?s"
    by (rule backend_inv_exec [OF i(3), where i = "unat (slot fid)" and y = None]) (use ex in auto)
  ultimately show ?thesis
    by (simp add: file_invs_def)
qed

lemma file_invs_finish_retire:
  assumes inv: "file_invs s" and fid: "fid \<in> set (ds_finishing s)"
    and fin: "FileTable_finish_retire (dc_files (ds_core s)) fid = Some files"
  shows "file_invs (s\<lparr>ds_core := (ds_core s)\<lparr>dc_files := files\<rparr>, ds_finishing := remove1 fid (ds_finishing s)\<rparr>)" (is "file_invs ?s")
proof -
  let ?t = "dc_files (ds_core s)"
  have i: "files_inv s" "due_inv s" "backend_inv s"
    using inv by (simp_all add: file_invs_def)
  obtain fs where at: "ft_at ?t fid = Some fs" "fd_state fs = Closing" "fd_inflight fs = 0"
    by (rule due_file [OF i(2) finishing_due [OF fid]])
  note fs = ft_at_SomeD [OF at(1)] and dist = due_distinct [OF i(2)]
  have files: "files = ft_put ?t (unat (slot fid)) (fs\<lparr>fd_state := Closed\<rparr>)"
    using fin by (simp add: FileTable_finish_retire_at [OF at])
  have due: "mset (due_files ?s) = mset (due_files s) - {#fid#}"
    using fid by (simp add: due_files_def)
  then have "mset (due_files ?s) = mset (remove1 fid (due_files s))"
    by simp
  note f = mset_eq_setD [OF this] mset_eq_imp_distinct_iff [OF this]
  obtain s' where s': "s' = ?s" by blast
  have g: "dc_files (ds_core s') = ft_put ?t (unat (slot fid)) (fs\<lparr>fd_state := Closed\<rparr>)" "dc_id (ds_core s') = dc_id (ds_core s)"
    "ds_opening s' = ds_opening s" "distinct (due_files s')" "set (due_files s') = set (due_files s) - {fid}"
    using f dist by (simp_all add: s' files)
  have none: "x \<notin> set (ds_opening s) \<and> (x \<in> set (due_files s) \<longrightarrow> x = fid)" if "unat (slot x) = unat (slot fid)" for x
    using due_slot_distinct [OF i(2) _ finishing_due [OF fid], of x] that fs at(2)
    by (auto simp: unat_slot_eq elim!: opening_file [OF i(2)] dest!: ft_at_SomeD)
  have "files_inv ?s"
    by (rule files_inv_put [OF i(1), where fs' = "fs\<lparr>fd_state := Closed\<rparr>" and i = "unat (slot fid)"])
      (use fs at in \<open>auto simp: files\<close>)
  moreover have "due_inv s'"
    by (rule due_inv_put [OF i(2) g(1) _ g(2,4)]) (use fs none dist in \<open>auto simp: g(3,5)\<close>)
  moreover have "distinct (ds_finishing s)"
    using dist by (simp add: due_files_def)
  then have "backend_inv ?s"
    by (intro backend_inv_put [OF i(3), where fs' = "fs\<lparr>fd_state := Closed\<rparr>" and i = "unat (slot fid)"])
      (use fs fid in \<open>auto simp: files\<close>)
  ultimately show ?thesis
    by (simp add: file_invs_def s')
qed

section \<open>Operations queued, executed, leased\<close>

lemma in_state_update: "in_state (P(sl \<mapsto> e)) Q = (if Q (oe_state e) then insert sl (in_state P Q) else in_state P Q - {sl})"
  by (auto simp: in_state_def)

lemma in_state_remove: "in_state (P(sl := None)) Q = in_state P Q - {sl}"
  by (auto simp: in_state_def)

lemma in_state_mem: "P sl = Some e \<Longrightarrow> sl \<in> in_state P Q \<longleftrightarrow> Q (oe_state e)"
  by (auto simp: in_state_def)

lemma in_state_fresh: "P sl = None \<Longrightarrow> sl \<notin> in_state P Q"
  by (auto simp: in_state_def)

lemma ops_invD:
  assumes "ops_inv s"
  shows "slab_inv (dc_slab (ds_core s))" "length (slab_slots (dc_slab (ds_core s))) = unat (dc_queue_capacity (ds_core s))"
    "unat (dc_queue_capacity (ds_core s)) < 2 ^ 31"
    "distinct (dc_ready (ds_core s))" "set (dc_ready (ds_core s)) = in_state (ops (ds_core s)) (\<lambda>st. st = Queued)"
    "dom (ds_active s) = in_state (ops (ds_core s)) (\<lambda>st. st = Active)"
    "distinct (backlog_tokens (dc_backlog (ds_core s)))" "ds_leases s \<inter> set (backlog_tokens (dc_backlog (ds_core s))) = {}"
    "ds_leases s \<union> set (backlog_tokens (dc_backlog (ds_core s)))
         = (\<lambda>sl. OpToken_new sl (slab_gen (dc_slab (ds_core s)) sl)) ` in_state (ops (ds_core s)) leased"
    "card (dom (ops (ds_core s))) + length (filter (\<lambda>c. co_continuation c = None) (dc_backlog (ds_core s))) + length (dc_deferred (ds_core s))
         \<le> unat (dc_queue_capacity (ds_core s))"
  using assms unfolding ops_inv_def Let_def by - ((elim conjE, assumption)+)

lemma ops_invI:
  assumes "slab_inv (dc_slab (ds_core s))" "length (slab_slots (dc_slab (ds_core s))) = unat (dc_queue_capacity (ds_core s))"
    "unat (dc_queue_capacity (ds_core s)) < 2 ^ 31"
    "distinct (dc_ready (ds_core s))" "set (dc_ready (ds_core s)) = in_state (ops (ds_core s)) (\<lambda>st. st = Queued)"
    "dom (ds_active s) = in_state (ops (ds_core s)) (\<lambda>st. st = Active)"
    "distinct (backlog_tokens (dc_backlog (ds_core s)))" "ds_leases s \<inter> set (backlog_tokens (dc_backlog (ds_core s))) = {}"
    "ds_leases s \<union> set (backlog_tokens (dc_backlog (ds_core s)))
         = (\<lambda>sl. OpToken_new sl (slab_gen (dc_slab (ds_core s)) sl)) ` in_state (ops (ds_core s)) leased"
    "card (dom (ops (ds_core s))) + length (filter (\<lambda>c. co_continuation c = None) (dc_backlog (ds_core s))) + length (dc_deferred (ds_core s))
         \<le> unat (dc_queue_capacity (ds_core s))"
  shows "ops_inv s"
  using assms unfolding ops_inv_def Let_def by (intro conjI)

text \<open>Queued to executing.\<close>

lemma ops_inv_start:
  assumes inv: "ops_inv s" and ready: "dc_ready (ds_core s) = sl # rest"
    and e: "ops (ds_core s) sl = Some e" "oe_state e = Queued"
    and u: "slab_update (dc_slab (ds_core s)) sl e' = Some slab" and e': "oe_state e' = Active"
  shows "ops_inv (s\<lparr>ds_core := (ds_core s)\<lparr>dc_ready := rest, dc_slab := slab\<rparr>, ds_active := (ds_active s)(sl \<mapsto> x)\<rparr>)"
proof -
  note o = ops_invD [OF inv] and m = slab_update_effect [OF ops_invD(1) [OF inv] e(1) u]
  have "sl \<notin> in_state (ops (ds_core s)) leased"
    using e by (simp add: in_state_mem)
  then show ?thesis
    using o ready e' e(1) by (intro ops_invI) (simp_all add: m in_state_update insert_absorb domI, auto)
qed

text \<open>Back into the queue: a resubmitted attempt, or a continued vector.\<close>

lemma ops_inv_resubmit:
  assumes inv: "ops_inv s" and e: "ops (ds_core s) sl = Some e" "oe_state e = Active"
    and u: "slab_update (dc_slab (ds_core s)) sl e' = Some slab" and e': "oe_state e' = Queued"
  shows "ops_inv (s\<lparr>ds_core := (ds_core s)\<lparr>dc_slab := slab, dc_ready := dc_ready (ds_core s) @ [sl]\<rparr>, ds_active := (ds_active s)(sl := None)\<rparr>)"
proof -
  note o = ops_invD [OF inv] and m = slab_update_effect [OF ops_invD(1) [OF inv] e(1) u]
  have "sl \<notin> in_state (ops (ds_core s)) leased" "sl \<notin> in_state (ops (ds_core s)) (\<lambda>st. st = Queued)"
    using e by (simp_all add: in_state_mem)
  then show ?thesis
    using o e' e(1) by (intro ops_invI) (simp_all add: m in_state_update insert_absorb domI)
qed

lemma lease_slot:
  assumes "ops_inv s" "token \<in> ds_leases s"
  obtains e where "ops (ds_core s) (OpToken_slot token) = Some e" "leased (oe_state e)"
    "token = OpToken_new (OpToken_slot token) (slab_gen (dc_slab (ds_core s)) (OpToken_slot token))"
    "token \<in> slab_live (dc_slab (ds_core s))"
proof -
  let ?g = "slab_gen (dc_slab (ds_core s))"
  have "token \<in> (\<lambda>sl. OpToken_new sl (slab_gen (dc_slab (ds_core s)) sl)) ` in_state (ops (ds_core s)) leased"
    using ops_invD(9) [OF assms(1)] assms(2) by blast
  then obtain sl e where "token = OpToken_new sl (?g sl)" "ops (ds_core s) sl = Some e" "leased (oe_state e)"
    by (auto simp: in_state_def)
  then show thesis
    using that by (auto simp: slab_live_eq intro: imageI domI)
qed

lemma token_image_remove:
  "(\<lambda>sl. OpToken_new sl (g sl)) ` (A - {i}) = (\<lambda>sl. OpToken_new sl (g sl)) ` A - {OpToken_new i (g i)}"
  by auto

lemma ops_inv_continue:
  assumes inv: "ops_inv s" and t: "token \<in> ds_leases s" and e: "ops (ds_core s) (OpToken_slot token) = Some e"
    and u: "slab_update (dc_slab (ds_core s)) (OpToken_slot token) e' = Some slab" and e': "oe_state e' = Queued"
  shows "ops_inv (s\<lparr>ds_core := (ds_core s)\<lparr>dc_vectors := vs, dc_slab := slab, dc_ready := dc_ready (ds_core s) @ [OpToken_slot token]\<rparr>,
    ds_leases := ds_leases s - {token}\<rparr>)"
proof -
  note o = ops_invD [OF inv] and m = slab_update_effect [OF ops_invD(1) [OF inv] e u]
  have l: "leased (oe_state e)" "token = OpToken_new (OpToken_slot token) (slab_gen (dc_slab (ds_core s)) (OpToken_slot token))"
    by (rule lease_slot [OF inv t], use e in simp)+
  have "OpToken_slot token \<notin> in_state (ops (ds_core s)) (\<lambda>st. st = Queued)" "OpToken_slot token \<notin> in_state (ops (ds_core s)) (\<lambda>st. st = Active)"
    using l(1) e by (auto simp: in_state_mem)
  moreover have "ds_leases s - {token} \<union> set (backlog_tokens (dc_backlog (ds_core s)))
      = (ds_leases s \<union> set (backlog_tokens (dc_backlog (ds_core s)))) - {token}"
    using t o(8) by blast
  ultimately show ?thesis
    using o e' e l(2) by (intro ops_invI) (simp_all add: m in_state_update insert_absorb domI token_image_remove, blast)
qed

text \<open>The retained completions, and the admission test that bounds them.\<close>

lemma length_backlog:
  "length cs = length (filter (\<lambda>c. co_continuation c = None) cs) + length (backlog_tokens cs)"
  using sum_length_filter_compl [of "\<lambda>c. co_continuation c = None" cs] by (simp add: backlog_tokens_def)

lemma backlog_tokens_append: "backlog_tokens (cs @ [c]) = backlog_tokens cs @ (case co_continuation c of None \<Rightarrow> [] | Some t \<Rightarrow> [t])"
  by (auto simp: backlog_tokens_def split: option.splits)

lemma backlog_tokens_bound:
  assumes "ops_inv s"
  shows "length (backlog_tokens (dc_backlog (ds_core s))) \<le> card (in_state (ops (ds_core s)) leased)"
proof -
  let ?P = "ops (ds_core s)" and ?ts = "backlog_tokens (dc_backlog (ds_core s))" and ?g = "slab_gen (dc_slab (ds_core s))"
  have "length ?ts = card (set ?ts)"
    using ops_invD(7) [OF assms] by (simp add: distinct_card)
  also have "\<dots> \<le> card ((\<lambda>sl. OpToken_new sl (?g sl)) ` in_state ?P leased)"
    using ops_invD(9) [OF assms] by (intro card_mono) (auto simp: finite_u32)
  also have "\<dots> \<le> card (in_state ?P leased)"
    by (rule card_image_le) (rule finite_u32)
  finally show ?thesis .
qed

lemma card_in_state: "card (in_state P Q) \<le> card (dom P)"
  by (rule card_mono [OF finite_u32]) (auto simp: in_state_def)

lemma retained_bound:
  assumes "files_inv s" "ops_inv s"
    and "FileTable_total_inflight (dc_files (ds_core s)) + of_nat (length (dc_backlog (ds_core s)) + length (dc_deferred (ds_core s)))
      < dc_queue_capacity (ds_core s)"
  shows "card (dom (ops (ds_core s))) + length (dc_backlog (ds_core s)) + length (dc_deferred (ds_core s)) < unat (dc_queue_capacity (ds_core s))"
proof -
  let ?d = "ds_core s"
  let ?n = "length (dc_backlog ?d) + length (dc_deferred ?d)"
  have "card (dom (ops ?d)) + ?n < 2 ^ 32"
    using ops_invD(3,10) [OF assms(2)] length_backlog [of "dc_backlog ?d"] backlog_tokens_bound [OF assms(2)]
      card_in_state [of "ops ?d" leased] by simp
  then have "unat (of_nat ?n :: u32) = ?n" "card (dom (ops ?d)) + ?n < 2 ^ LENGTH(32)"
    by (simp_all add: unat_of_nat take_bit_nat_eq_self del: of_nat_add)
  then have "unat (FileTable_total_inflight (dc_files ?d) + of_nat ?n) = card (dom (ops ?d)) + ?n"
    using total_inflight_eq [OF assms(1,2)] by (metis unat_add_small)
  then show ?thesis
    using assms(3) by (simp add: word_less_nat_alt)
qed

lemma insert_at: "set (take n xs @ x # drop n xs) = insert x (set xs)"
  "distinct (take n xs @ x # drop n xs) \<longleftrightarrow> x \<notin> set xs \<and> distinct xs"
proof -
  show m: "set (take n xs @ x # drop n xs) = insert x (set xs)"
    by (metis append_take_drop_id list.set(2) set_append Un_insert_right)
  have "mset (take n xs @ x # drop n xs) = mset (x # xs)"
    by (metis append_take_drop_id mset.simps(2) mset_append union_mset_add_mset_right)
  then show "distinct (take n xs @ x # drop n xs) \<longleftrightarrow> x \<notin> set xs \<and> distinct xs"
    by (metis distinct.simps(2) mset_eq_imp_distinct_iff)
qed

lemma ops_inv_submit:
  assumes inv: "files_inv s" "ops_inv s"
    and tot: "FileTable_total_inflight (dc_files (ds_core s)) + of_nat (length (dc_backlog (ds_core s)) + length (dc_deferred (ds_core s)))
      < dc_queue_capacity (ds_core s)"
    and P: "ops (ds_core s) sl = None" "slab_peek slab = (ops (ds_core s))(sl \<mapsto> e)" "oe_state e = Queued"
    and slab: "slab_inv slab" "length (slab_slots slab) = length (slab_slots (dc_slab (ds_core s)))"
    and gen: "\<And>i. i \<noteq> sl \<Longrightarrow> slab_gen slab i = slab_gen (dc_slab (ds_core s)) i"
    and core: "d = (ds_core s)\<lparr>dc_slab := slab, dc_files := files,
       dc_ready := take pos (dc_ready (ds_core s)) @ sl # drop pos (dc_ready (ds_core s))\<rparr>"
  shows "ops_inv (s\<lparr>ds_core := d, ds_writers := W, ds_issued := I\<rparr>)"
proof -
  note o = ops_invD [OF inv(2)]
  have fresh: "sl \<notin> in_state (ops (ds_core s)) Q" for Q
    using P(1) by (rule in_state_fresh)
  have img: "(\<lambda>i. OpToken_new i (slab_gen slab i)) ` in_state (ops (ds_core s)) leased
      = (\<lambda>i. OpToken_new i (slab_gen (dc_slab (ds_core s)) i)) ` in_state (ops (ds_core s)) leased"
    by (rule image_cong) (use fresh [of leased] gen in \<open>metis\<close>)+
  have card: "card (dom ((ops (ds_core s))(sl \<mapsto> e))) = Suc (card (dom (ops (ds_core s))))"
    using P(1) by (simp add: finite_u32 domIff)
  have cap: "Suc (card (dom (ops (ds_core s)))) + length (filter (\<lambda>c. co_continuation c = None) (dc_backlog (ds_core s)))
      + length (dc_deferred (ds_core s)) \<le> unat (dc_queue_capacity (ds_core s))"
    using retained_bound [OF inv tot] length_filter_le [of "\<lambda>c. co_continuation c = None" "dc_backlog (ds_core s)"] by linarith
  show ?thesis
    using o slab P(3) fresh cap by (intro ops_invI) (simp_all add: core P(2) in_state_update img card insert_at del: dom_fun_upd set_append distinct_append)
qed

text \<open>A completion: the operation keeps its slot behind a lease, or gives it up.\<close>

lemma ops_inv_lease:
  assumes inv: "ops_inv s" and e: "ops (ds_core s) sl = Some e" "oe_state e = Active"
    and u: "slab_update (dc_slab (ds_core s)) sl e' = Some slab" and e': "leased (oe_state e')"
    and t: "token = OpToken_new sl (slab_gen (dc_slab (ds_core s)) sl)"
  shows "ops_inv (s\<lparr>ds_core := (ds_core s)\<lparr>dc_slab := slab\<rparr>, ds_active := (ds_active s)(sl := None), ds_leases := ds_leases s \<union> {token},
      ds_retiring := R, ds_finished := F\<rparr>)"
    and "co_continuation c = Some token \<Longrightarrow>
      ops_inv (s\<lparr>ds_core := (ds_core s)\<lparr>dc_slab := slab, dc_backlog := dc_backlog (ds_core s) @ [c]\<rparr>, ds_active := (ds_active s)(sl := None),
      ds_retiring := R, ds_finished := F\<rparr>)"
proof -
  note o = ops_invD [OF inv] and m = slab_update_effect [OF ops_invD(1) [OF inv] e(1) u]
  have not: "sl \<notin> in_state (ops (ds_core s)) leased" "sl \<notin> in_state (ops (ds_core s)) (\<lambda>st. st = Queued)"
    using e by (simp_all add: in_state_mem)
  have e'': "oe_state e' \<noteq> Queued" "oe_state e' \<noteq> Active"
    using e' by auto
  have new: "token \<notin> ds_leases s" "token \<notin> set (backlog_tokens (dc_backlog (ds_core s)))"
    using o(9) not(1) by (auto simp: t dest!: equalityD1)
  show "ops_inv (s\<lparr>ds_core := (ds_core s)\<lparr>dc_slab := slab\<rparr>, ds_active := (ds_active s)(sl := None), ds_leases := ds_leases s \<union> {token},
      ds_retiring := R, ds_finished := F\<rparr>)"
    using o new e(1) e' e'' not by (intro ops_invI) (simp_all add: m in_state_update insert_absorb domI t [symmetric])
  show "ops_inv (s\<lparr>ds_core := (ds_core s)\<lparr>dc_slab := slab, dc_backlog := dc_backlog (ds_core s) @ [c]\<rparr>, ds_active := (ds_active s)(sl := None),
      ds_retiring := R, ds_finished := F\<rparr>)" if "co_continuation c = Some token"
    using o new e(1) e' e'' not that
    by (intro ops_invI) (simp_all add: m in_state_update insert_absorb domI backlog_tokens_append t [symmetric])
qed

lemma card_remove: "P sl = Some e \<Longrightarrow> Suc (card (dom (P(sl := None)))) = card (dom P)" for P :: "u32 \<Rightarrow> OpEntry option"
  by (simp only: dom_fun_upd simp_thms if_True card_Suc_Diff1 [OF finite_u32 domI])

lemma ops_inv_final:
  assumes inv: "ops_inv s" and e: "ops (ds_core s) sl = Some e" "oe_state e = Active"
    and r: "slab_reclaim (dc_slab (ds_core s)) sl = Some ((token, e), slab)" and c: "co_continuation c = None"
    and core: "d = (ds_core s)\<lparr>dc_slab := slab, dc_files := files, dc_arena := F, dc_write_arena := wa\<rparr>"
  shows "ops_inv (s\<lparr>ds_core := d, ds_active := (ds_active s)(sl := None), ds_retiring := R, ds_finished := fin\<rparr>)"
    and "ops_inv (s\<lparr>ds_core := d\<lparr>dc_backlog := dc_backlog d @ [c]\<rparr>, ds_active := (ds_active s)(sl := None), ds_retiring := R, ds_finished := fin\<rparr>)"
proof -
  note o = ops_invD [OF inv] and m = slab_reclaim_effect [OF ops_invD(1) [OF inv] r]
  have not: "in_state (ops (ds_core s)) leased - {sl} = in_state (ops (ds_core s)) leased"
    "in_state (ops (ds_core s)) (\<lambda>st. st = Queued) - {sl} = in_state (ops (ds_core s)) (\<lambda>st. st = Queued)"
    using e by (simp_all add: in_state_mem)
  note card = card_remove [of "ops (ds_core s)", OF e(1)]
  show "ops_inv (s\<lparr>ds_core := d, ds_active := (ds_active s)(sl := None), ds_retiring := R, ds_finished := fin\<rparr>)"
    using o card by (intro ops_invI) (simp_all add: core m in_state_remove not del: dom_fun_upd, simp_all)
  show "ops_inv (s\<lparr>ds_core := d\<lparr>dc_backlog := dc_backlog d @ [c]\<rparr>, ds_active := (ds_active s)(sl := None), ds_retiring := R, ds_finished := fin\<rparr>)"
    using o card by (intro ops_invI) (simp_all add: core m in_state_remove not c backlog_tokens_append del: dom_fun_upd, simp_all)
qed

lemma ops_inv_drop:
  assumes inv: "ops_inv s" and t: "token \<in> ds_leases s"
    and r: "slab_reclaim (dc_slab (ds_core s)) (OpToken_slot token) = Some ((token, e), slab)"
    and core: "d = (ds_core s)\<lparr>dc_slab := slab, dc_files := files, dc_arena := F, dc_deferred := dc_deferred (ds_core s) @ [c]\<rparr>"
  shows "ops_inv (s\<lparr>ds_core := d, ds_leases := ds_leases s - {token}, ds_finished := fin\<rparr>)"
proof -
  note o = ops_invD [OF inv] and m = slab_reclaim_effect [OF ops_invD(1) [OF inv] r]
  have l: "leased (oe_state e)"
    by (rule lease_slot [OF inv t]) (use m(2) in simp)
  have not: "in_state (ops (ds_core s)) (\<lambda>st. st = Active) - {OpToken_slot token} = in_state (ops (ds_core s)) (\<lambda>st. st = Active)"
    "in_state (ops (ds_core s)) (\<lambda>st. st = Queued) - {OpToken_slot token} = in_state (ops (ds_core s)) (\<lambda>st. st = Queued)"
    using l m(2) by (auto simp: in_state_def)
  note card = card_remove [of "ops (ds_core s)", OF m(2)]
  have "ds_leases s - {token} \<union> set (backlog_tokens (dc_backlog (ds_core s)))
      = (ds_leases s \<union> set (backlog_tokens (dc_backlog (ds_core s)))) - {token}"
    using t o(8) by blast
  then show ?thesis
    using o card m(6) by (intro ops_invI) (simp_all add: core m(1,3-5) in_state_remove not token_image_remove del: dom_fun_upd, blast)
qed

lemma ops_inv_drain:
  assumes inv: "ops_inv s" and dr: "drain_completion_backlog n (ds_core s) = (out, d)"
  shows "ops_inv (s\<lparr>ds_core := d, ds_leases := ds_leases s \<union> {t. Some t \<in> co_continuation ` set out}\<rparr>)"
proof -
  note o = ops_invD [OF inv]
  obtain k where d: "d = (ds_core s)\<lparr>dc_backlog := drop k (dc_backlog (ds_core s))\<rparr>" "out = take k (dc_backlog (ds_core s))"
    using dr by (auto simp: drain_completion_backlog_def Let_def)
  have s: "backlog_tokens (dc_backlog (ds_core s)) = backlog_tokens out @ backlog_tokens (dc_backlog d)"
    unfolding d backlog_tokens_def by (simp flip: map_append filter_append)
  have f: "length (filter (\<lambda>c. co_continuation c = None) (dc_backlog d))
      \<le> length (filter (\<lambda>c. co_continuation c = None) (dc_backlog (ds_core s)))"
    using arg_cong [OF append_take_drop_id [of k "dc_backlog (ds_core s)"], of "\<lambda>xs. length (filter (\<lambda>c. co_continuation c = None) xs)"]
    by (simp add: d del: append_take_drop_id)
  have out: "{t. Some t \<in> co_continuation ` set out} = set (backlog_tokens out)"
    by (induction out) (auto simp: backlog_tokens_def)
  show ?thesis
    using o f d(1) unfolding s out by (intro ops_invI) (auto simp: Un_ac)
qed

section \<open>Tokens\<close>

lemma tokens_inv_same:
  assumes "tokens_inv s" "slab_live (dc_slab (ds_core s')) = slab_live (dc_slab (ds_core s))"
    "slab_spent (dc_slab (ds_core s')) = slab_spent (dc_slab (ds_core s))" "ds_issued s' = ds_issued s" "ds_finished s' = ds_finished s"
  shows "tokens_inv s'"
  using assms by (simp add: tokens_inv_def)

lemma tokens_inv_submit:
  assumes "tokens_inv s" "slab_live (dc_slab (ds_core s')) = insert token (slab_live (dc_slab (ds_core s)))"
    "token \<notin> slab_spent (dc_slab (ds_core s))" "insert token (slab_spent (dc_slab (ds_core s))) \<subseteq> slab_spent (dc_slab (ds_core s'))"
    "ds_issued s' = token # ds_issued s" "ds_finished s' = ds_finished s"
  shows "tokens_inv s'"
  using assms unfolding tokens_inv_def by auto

lemma tokens_inv_finish:
  assumes "tokens_inv s" "slab_live (dc_slab (ds_core s')) = slab_live (dc_slab (ds_core s)) - {token}"
    "token \<in> slab_live (dc_slab (ds_core s))" "slab_spent (dc_slab (ds_core s')) = slab_spent (dc_slab (ds_core s))"
    "ds_issued s' = ds_issued s" "ds_finished s' = token # ds_finished s"
  shows "tokens_inv s'"
  using assms unfolding tokens_inv_def by auto

section \<open>Frames and write slots\<close>

lemma source_slots_upd: "source_slots (P(sl := x)) = (source_slots P)(sl := Option.bind x oe_write_slot)"
  by (auto simp: source_slots_def)

lemma resources_same:
  assumes "resources_inv s" "ops (ds_core s') = ops (ds_core s)" "dc_write_arena (ds_core s') = dc_write_arena (ds_core s)"
    "ds_writers s' = ds_writers s" "ds_active s' = ds_active s"
  shows "resources_inv s'"
  using assms(1) unfolding resources_inv_def entry_frame_def Let_def assms(2-5) .

lemma entry_frame_other: "ds_active s' i = ds_active s i \<Longrightarrow> entry_frame s' i e = entry_frame s i e"
  by (simp add: entry_frame_def)

lemma resources_update:
  assumes inv: "resources_inv s" and e: "ops (ds_core s) sl = Some e" and P: "ops (ds_core s') = (ops (ds_core s))(sl \<mapsto> e')"
    and a: "dc_write_arena (ds_core s') = dc_write_arena (ds_core s)" "ds_writers s' = ds_writers s"
    and w: "oe_write_slot e' = oe_write_slot e" and act: "\<And>i. i \<noteq> sl \<Longrightarrow> ds_active s' i = ds_active s i"
    and res: "entry_res (wa_granule (dc_write_arena (ds_core s))) (entry_frame s' sl e') e'"
  shows "resources_inv s'"
proof -
  have sl: "source_slots (ops (ds_core s')) = source_slots (ops (ds_core s))"
    using e w by (auto simp: P source_slots_def)
  have "entry_res (wa_granule (dc_write_arena (ds_core s))) (entry_frame s' i x) x" if "ops (ds_core s') i = Some x" for i x
    using that inv res entry_frame_other [OF act [of i], of x] by (cases "i = sl") (simp_all add: P resources_inv_def Let_def)
  then show ?thesis
    using inv unfolding resources_inv_def Let_def a sl by blast
qed

lemma release_granule: "ArenaState_release a w = Some (n, a') \<Longrightarrow> wa_granule a' = wa_granule a"
  by (auto simp: ArenaState_release_def bind_Some_iff Let_def split: if_splits)

lemma alloc_granule: "arena_inv a \<Longrightarrow> ArenaState_alloc a = Some (w, a') \<Longrightarrow> wa_granule a' = wa_granule a"
  using alloc_within_loop_cases [of a 0 "unat (of_nat (length (wa_free a)) :: u32)"]
  by (auto simp: ArenaState_alloc_def alloc_within_def arena_inv_def)

lemma resources_remove:
  assumes inv: "resources_inv s" and e: "ops (ds_core s) sl = Some e" and P: "ops (ds_core s') = (ops (ds_core s))(sl := None)"
    and a: "release_write_slot (dc_write_arena (ds_core s)) e = Some (dc_write_arena (ds_core s'))" "ds_writers s' = ds_writers s"
    and act: "\<And>i. i \<noteq> sl \<Longrightarrow> ds_active s' i = ds_active s i"
  shows "resources_inv s'"
proof -
  let ?P = "ops (ds_core s)" and ?a = "dc_write_arena (ds_core s)" and ?a' = "dc_write_arena (ds_core s')"
  note r = inv [unfolded resources_inv_def Let_def]
  have wsl: "source_slots ?P sl = oe_write_slot e"
    using e by (simp add: source_slots_def)
  have a': "wa_granule ?a' = wa_granule ?a \<and> arena_inv ?a' \<and> arena_slots ?a' = arena_slots ?a
      \<and> arena_free ?a' = arena_free ?a \<union> set_option (oe_write_slot e)"
  proof (cases "oe_write_slot e")
    case None
    then show ?thesis using a r by (simp add: release_write_slot_def)
  next
    case (Some w)
    then have "w \<in> arena_slots ?a" "w \<notin> arena_free ?a" "arena_give ?a w = Some ?a'"
      using a r wsl by (auto simp: release_write_slot_def arena_give_def ran_def)
    then show ?thesis
      using write_slots.give_back [of ?a w] r a Some by (auto simp: release_write_slot_def release_granule)
  qed
  have ran: "ran ((source_slots ?P)(sl := None)) \<subseteq> ran (source_slots ?P) - set_option (oe_write_slot e)"
    using r wsl by (auto simp: ran_def dom_def inj_on_def split: if_splits)
  have w: "set_option (oe_write_slot e) \<subseteq> ran (source_slots ?P)"
    using wsl by (auto simp: ran_def)
  have "entry_res (wa_granule ?a) (entry_frame s' i x) x" if "ops (ds_core s') i = Some x" for i x
    using that r entry_frame_other [OF act [of i], of x] by (simp add: P split: if_splits)
  moreover have "inj_on ((source_slots ?P)(sl := None)) (dom ((source_slots ?P)(sl := None)))"
    using r by (auto simp: inj_on_def)
  ultimately show ?thesis
    unfolding resources_inv_def Let_def a using a' r ran w by (auto simp: P source_slots_upd)
qed

lemma resources_submit:
  assumes inv: "resources_inv s" and P: "ops (ds_core s) sl = None" "ops (ds_core s') = (ops (ds_core s))(sl \<mapsto> e)"
    and a: "dc_write_arena (ds_core s') = dc_write_arena (ds_core s)" "ds_writers s' = ds_writers s - set_option (oe_write_slot e)"
    and w: "set_option (oe_write_slot e) \<subseteq> ds_writers s" and act: "ds_active s' = ds_active s"
    and res: "entry_res (wa_granule (dc_write_arena (ds_core s))) (entry_frame s' sl e) e"
  shows "resources_inv s'"
proof -
  let ?P = "ops (ds_core s)"
  note r = inv [unfolded resources_inv_def Let_def]
  have none: "source_slots ?P sl = None"
    using P(1) by (simp add: source_slots_def)
  have new: "set_option (oe_write_slot e) \<inter> ran (source_slots ?P) = {}"
    using r w by blast
  have "ran ((source_slots ?P)(sl := oe_write_slot e)) \<subseteq> ran (source_slots ?P) \<union> set_option (oe_write_slot e)"
    by (auto simp: ran_def split: if_splits)
  also have "\<dots> \<subseteq> arena_slots (dc_write_arena (ds_core s)) - arena_free (dc_write_arena (ds_core s)) - (ds_writers s - set_option (oe_write_slot e))"
    using r w by blast
  finally have "ran ((source_slots ?P)(sl := oe_write_slot e))
    \<subseteq> arena_slots (dc_write_arena (ds_core s)) - arena_free (dc_write_arena (ds_core s)) - (ds_writers s - set_option (oe_write_slot e))" .
  moreover have "inj_on ((source_slots ?P)(sl := oe_write_slot e)) (dom ((source_slots ?P)(sl := oe_write_slot e)))"
    using r none new by (auto simp: inj_on_def ran_def dom_def)
  moreover have "entry_res (wa_granule (dc_write_arena (ds_core s))) (entry_frame s' i x) x" if "ops (ds_core s') i = Some x" for i x
    using that r res entry_frame_other [of s' i s x] by (cases "i = sl") (simp_all add: P act)
  moreover have "ds_writers s - set_option (oe_write_slot e) \<subseteq> arena_slots (dc_write_arena (ds_core s)) - arena_free (dc_write_arena (ds_core s))"
    using r by blast
  ultimately show ?thesis
    unfolding resources_inv_def Let_def a using r by (simp add: P source_slots_upd)
qed

lemma resources_arena:
  assumes inv: "resources_inv s" and P: "ops (ds_core s') = ops (ds_core s)" "ds_active s' = ds_active s"
    and a: "arena_inv (dc_write_arena (ds_core s'))" "wa_granule (dc_write_arena (ds_core s')) = wa_granule (dc_write_arena (ds_core s))"
      "ds_writers s' \<subseteq> arena_slots (dc_write_arena (ds_core s')) - arena_free (dc_write_arena (ds_core s'))"
      "ran (source_slots (ops (ds_core s))) \<subseteq> arena_slots (dc_write_arena (ds_core s')) - arena_free (dc_write_arena (ds_core s')) - ds_writers s'"
  shows "resources_inv s'"
  using inv a entry_frame_other [of s' _ s] unfolding resources_inv_def Let_def P by simp

lemma resources_alloc:
  assumes inv: "resources_inv s" and al: "ArenaState_alloc (dc_write_arena (ds_core s)) = Some (Some w, a)"
  shows "resources_inv (s\<lparr>ds_core := (ds_core s)\<lparr>dc_write_arena := a\<rparr>, ds_writers := insert (ws_slot w) (ds_writers s)\<rparr>)"
proof -
  note r = inv [unfolded resources_inv_def Let_def]
  have "arena_lend (dc_write_arena (ds_core s)) = Some (Some (ws_slot w), a)"
    using al by (simp add: arena_lend_def WriteSlot_into_index_def)
  from write_slots.lend_free [OF _ this] r write_slots.free_subset [of "dc_write_arena (ds_core s)"]
  show ?thesis
    using alloc_granule [OF _ al] by (intro resources_arena [OF inv]) auto
qed

lemma resources_give:
  assumes inv: "resources_inv s" and w: "w \<in> ds_writers s" and g: "ArenaState_release (dc_write_arena (ds_core s)) w = Some (n, a)"
  shows "resources_inv (s\<lparr>ds_core := (ds_core s)\<lparr>dc_write_arena := a\<rparr>, ds_writers := ds_writers s - {w}\<rparr>)"
proof -
  note r = inv [unfolded resources_inv_def Let_def]
  have "arena_give (dc_write_arena (ds_core s)) w = Some a"
    using g by (simp add: arena_give_def)
  moreover have "w \<in> arena_slots (dc_write_arena (ds_core s))" "w \<notin> arena_free (dc_write_arena (ds_core s))"
    using r w by blast+
  ultimately have a: "arena_free a = insert w (arena_free (dc_write_arena (ds_core s)))" "arena_inv a"
    "arena_slots a = arena_slots (dc_write_arena (ds_core s))"
    using write_slots.give_back [of "dc_write_arena (ds_core s)" w] r by auto
  have "ran (source_slots (ops (ds_core s))) \<subseteq> arena_slots (dc_write_arena (ds_core s)) - insert w (arena_free (dc_write_arena (ds_core s))) - (ds_writers s - {w})"
    "ds_writers s - {w} \<subseteq> arena_slots (dc_write_arena (ds_core s)) - insert w (arena_free (dc_write_arena (ds_core s)))"
    using r w by blast+
  then show ?thesis
    using release_granule [OF g] by (intro resources_arena [OF inv]) (simp_all add: a)
qed

end
