(* ===== verification/Driver_Safety.thy ===== *)
theory Driver_Safety
  imports Driver_Inv Contracts
begin

text \<open>
  The whole driver invariant is preserved by every step of the system, and what it gives: every
  operation is completed once, the locked phases never panic, and a closing file is retired once,
  after its last operation.
\<close>

section \<open>The invariant is preserved\<close>

lemma driver_inv_iff: "driver_inv s \<longleftrightarrow> file_invs s \<and> ops_inv s \<and> tokens_inv s \<and> resources_inv s"
  by (auto simp: driver_inv_def file_invs_def)

text \<open>Steps that touch only files.\<close>

lemma driver_inv_files:
  assumes inv: "driver_inv s" and f: "file_invs s'"
    and core: "ds_core s' = (ds_core s)\<lparr>dc_files := files, dc_executor := ex\<rparr>"
    and same: "ds_active s' = ds_active s" "ds_leases s' = ds_leases s" "ds_writers s' = ds_writers s"
      "ds_issued s' = ds_issued s" "ds_finished s' = ds_finished s"
  shows "driver_inv s'"
proof -
  have "ops_inv s'"
    using inv unfolding driver_inv_def ops_inv_def Let_def by (simp add: core same)
  moreover have "tokens_inv s'"
    by (rule tokens_inv_same [of s]) (use inv in \<open>simp_all add: driver_inv_def core same\<close>)
  moreover have "resources_inv s'"
    by (rule resources_same [of s]) (use inv in \<open>simp_all add: driver_inv_def core same\<close>)
  ultimately show ?thesis
    using f by (simp add: driver_inv_iff)
qed

text \<open>Steps that rewrite one entry.\<close>

lemma file_invs_update:
  assumes inv: "file_invs s" and e: "ops (ds_core s) sl = Some e" "oe_fd e' = oe_fd e" "ops (ds_core s') = (ops (ds_core s))(sl \<mapsto> e')"
    and same: "dc_files (ds_core s') = dc_files (ds_core s)" "dc_id (ds_core s') = dc_id (ds_core s)" "ds_opening s' = ds_opening s"
      "dc_executor (ds_core s') = dc_executor (ds_core s)" "ds_finishing s' = ds_finishing s" "due_files s' = due_files s"
  shows "file_invs s'"
proof -
  have i: "files_inv s" "due_inv s" "backend_inv s"
    using inv by (simp_all add: file_invs_def)
  have "due_inv s'"
    using due_distinct [OF i(2)] by (intro due_inv_same [OF i(2)]) (simp_all add: same)
  then show ?thesis
    using files_inv_update [OF i(1) e same(1-3)] backend_inv_same [OF i(3) same(1,4,3,5)] by (simp add: file_invs_def)
qed

lemma file_invs_complete:
  assumes inv: "file_invs s" and e: "ops (ds_core s) sl = Some e" "ops (ds_core s') = (ops (ds_core s))(sl := None)"
    and at: "ft_at (dc_files (ds_core s)) (oe_fd e) = Some fs" "0 < fd_inflight fs"
    and files: "dc_files (ds_core s') = ft_put (dc_files (ds_core s)) (unat (slot (oe_fd e))) (fs\<lparr>fd_inflight := fd_inflight fs - 1\<rparr>)"
    and same: "dc_id (ds_core s') = dc_id (ds_core s)" "ds_opening s' = ds_opening s"
      "dc_executor (ds_core s') = dc_executor (ds_core s)" "ds_finishing s' = ds_finishing s"
    and due: "mset (due_files s') = mset ((if fd_inflight fs = 1 \<and> fd_state fs = Closing then [oe_fd e] else []) @ due_files s)"
  shows "file_invs s'"
proof -
  have i: "files_inv s" "due_inv s" "backend_inv s"
    using inv by (simp_all add: file_invs_def)
  have fd: "driver (oe_fd e) = dc_id (ds_core s)" "oe_fd e \<notin> set (ds_opening s)"
    by (rule files_invD [OF i(1) e(1)], simp)+
  show ?thesis
    using files_inv_remove [OF i(1) e at files same(1,2)] due_inv_complete [OF i(2) at fd(1) files same(1,2) fd(2) due]
      backend_inv_count [OF i(3) at(1) _ files same(3,2,4)] by (simp add: file_invs_def)
qed

lemma active_entry:
  assumes "ops_inv s" "ds_active s sl = Some frame"
  obtains e where "ops (ds_core s) sl = Some e" "oe_state e = Active"
proof -
  have "sl \<in> in_state (ops (ds_core s)) (\<lambda>st. st = Active)"
    using ops_invD(6) [OF assms(1)] assms(2) by blast
  then show thesis
    using that by (auto simp: in_state_def)
qed

lemma inactive_frame:
  assumes "ops_inv s" "ops (ds_core s) sl = Some e" "oe_state e \<noteq> Active"
  shows "ds_active s sl = None" "entry_frame s sl e = oe_frame e"
proof -
  show "ds_active s sl = None"
    using ops_invD(6) [OF assms(1)] assms(3) in_state_mem [of "ops (ds_core s)" sl e "\<lambda>st. st = Active", OF assms(2)]
    by (metis domIff)
  then show "entry_frame s sl e = oe_frame e"
    by (simp add: entry_frame_def)
qed

lemma entry_res_at: "resources_inv s \<Longrightarrow> ops (ds_core s) sl = Some e \<Longrightarrow>
    entry_res (wa_granule (dc_write_arena (ds_core s))) (entry_frame s sl e) e"
  by (simp add: resources_inv_def Let_def)

text \<open>An unleased entry that keeps its kind, range and slots keeps its resources.\<close>

lemma entry_res_keep:
  assumes "entry_res granule frame e" "\<not> leased (oe_state e)" "\<not> leased (oe_state e')" "oe_kind e' = oe_kind e"
    "oe_write_slot e' = oe_write_slot e" "oe_frame_lease e' = oe_frame_lease e"
    "oe_kind e \<noteq> Write \<Longrightarrow> oe_requested_len e' = oe_requested_len e \<and> oe_file_offset e' = oe_file_offset e"
    "oe_kind e = Write \<Longrightarrow> unat (oe_destination_offset e') + unat (oe_requested_len e') = unat (oe_destination_offset e) + unat (oe_requested_len e)"
  shows "entry_res granule frame e'"
  using assms by (cases "oe_kind e") (auto simp: entry_res_def)

lemma driver_inv_prepare:
  assumes inv: "driver_inv s" and p: "prepare_next staging (ds_core s) = Some (Some (sl, kind, ctx), d)"
  shows "driver_inv (s\<lparr>ds_core := d, ds_active := (ds_active s)(sl \<mapsto> cx_frame ctx)\<rparr>)" (is "driver_inv ?s")
proof -
  have i: "file_invs s" "ops_inv s" "tokens_inv s" "resources_inv s"
    using inv by (simp_all add: driver_inv_iff)
  obtain e e' slab rest where p: "dc_ready (ds_core s) = sl # rest" "ops (ds_core s) sl = Some e" "oe_state e = Queued"
    "slab_update (dc_slab (ds_core s)) sl e' = Some slab" "d = (ds_core s)\<lparr>dc_ready := rest, dc_slab := slab\<rparr>"
    and e': "e' = e\<lparr>oe_state := Active, oe_frame := (if oe_kind e = Read then None else oe_frame e)\<rparr>"
      "cx_frame ctx = (if oe_kind e = Read then oe_frame e else None)"
    by (rule prepare_effect [OF ops_invD(1) [OF i(2)] p])
  note m = slab_update_effect [OF ops_invD(1) [OF i(2)] p(2,4)]
  have fr: "entry_frame ?s sl e' = entry_frame s sl e"
    using inactive_frame [OF i(2) p(2)] p(3) e' by (auto simp: entry_frame_def split: option.splits)
  have "entry_res (wa_granule (dc_write_arena (ds_core s))) (entry_frame ?s sl e') e'"
    unfolding fr by (rule entry_res_keep [OF entry_res_at [OF i(4) p(2)]]) (simp_all add: e' p(3))
  then have "resources_inv ?s"
    by (intro resources_update [OF i(4) p(2)]) (simp_all add: p(5) m e')
  moreover have "file_invs ?s"
    by (rule file_invs_update [OF i(1) p(2), where e' = e']) (simp_all add: p(5) m e' due_files_def)
  moreover have "ops_inv ?s"
    unfolding p(5) by (rule ops_inv_start [OF i(2) p(1-4)]) (simp add: e')
  moreover have "tokens_inv ?s"
    by (rule tokens_inv_same [OF i(3)]) (simp_all add: p(5) m)
  ultimately show ?thesis
    by (simp add: driver_inv_iff)
qed

lemma driver_inv_fill:
  assumes inv: "driver_inv s" and p: "fill_ring_loop 1 (ds_core s) = Some ([sqe], d)"
  shows "driver_inv (s\<lparr>ds_core := d, ds_active := (ds_active s)(hd (dc_ready (ds_core s)) \<mapsto> None)\<rparr>)" (is "driver_inv ?s")
proof -
  have i: "file_invs s" "ops_inv s" "tokens_inv s" "resources_inv s"
    using inv by (simp_all add: driver_inv_iff)
  obtain e slab rest sl where p: "dc_ready (ds_core s) = sl # rest" "ops (ds_core s) sl = Some e" "oe_state e = Queued"
    "slab_update (dc_slab (ds_core s)) sl (e\<lparr>oe_state := Active\<rparr>) = Some slab" "d = (ds_core s)\<lparr>dc_ready := rest, dc_slab := slab\<rparr>"
    by (rule fill_effect [OF p])
  note m = slab_update_effect [OF ops_invD(1) [OF i(2)] p(2,4)]
  have fr: "entry_frame ?s sl (e\<lparr>oe_state := Active\<rparr>) = entry_frame s sl e"
    using inactive_frame [OF i(2) p(2)] p(1,3) by (auto simp: entry_frame_def split: option.splits)
  have "entry_res (wa_granule (dc_write_arena (ds_core s))) (entry_frame ?s sl (e\<lparr>oe_state := Active\<rparr>)) (e\<lparr>oe_state := Active\<rparr>)"
    unfolding fr by (rule entry_res_keep [OF entry_res_at [OF i(4) p(2)]]) (simp_all add: p(3))
  then have "resources_inv ?s"
    by (intro resources_update [OF i(4) p(2)]) (simp_all add: p(1,5) m)
  moreover have "file_invs ?s"
    by (rule file_invs_update [OF i(1) p(2), where e' = "e\<lparr>oe_state := Active\<rparr>"]) (simp_all add: p(5) m due_files_def)
  moreover have "ops_inv ?s"
    unfolding p(5) p(1) list.sel by (rule ops_inv_start [OF i(2) p(1-4)]) simp
  moreover have "tokens_inv ?s"
    by (rule tokens_inv_same [OF i(3)]) (simp_all add: p(5) m)
  ultimately show ?thesis
    by (simp add: driver_inv_iff)
qed

lemma driver_inv_resubmit:
  assumes inv: "driver_inv s" and act: "ds_active s sl = Some None" and t: "slab_token (dc_slab (ds_core s)) sl = Some token"
    and r: "reap_cqe linux (user_data token) raw (ds_core s) = Some (None, d)"
  shows "driver_inv (s\<lparr>ds_core := d, ds_active := (ds_active s)(sl := None)\<rparr>)" (is "driver_inv ?s")
proof -
  have i: "file_invs s" "ops_inv s" "tokens_inv s" "resources_inv s"
    using inv by (simp_all add: driver_inv_iff)
  obtain e e' slab where p: "ops (ds_core s) sl = Some e" "ring_progress linux e raw (dc_retry_bound (ds_core s)) = Some (Resubmit, e')"
    "slab_update (dc_slab (ds_core s)) sl (e'\<lparr>oe_state := Queued\<rparr>) = Some slab"
    "d = (ds_core s)\<lparr>dc_slab := slab, dc_ready := dc_ready (ds_core s) @ [sl]\<rparr>"
    by (rule resubmit_effect [OF ops_invD(1) [OF i(2)] t r])
  have st: "oe_state e = Active"
    by (rule active_entry [OF i(2) act]) (use p(1) in simp)
  note m = slab_update_effect [OF ops_invD(1) [OF i(2)] p(1,3)] and k = ring_progress_keeps [OF p(2)]
  have fr: "entry_frame ?s sl (e'\<lparr>oe_state := Queued\<rparr>) = entry_frame s sl e"
    using act k(3) by (simp add: entry_frame_def)
  have res: "entry_res (wa_granule (dc_write_arena (ds_core s))) (entry_frame s sl e) e"
    by (rule entry_res_at [OF i(4) p(1)])
  have "oe_kind e = Write \<Longrightarrow> unat (oe_destination_offset e) + unat (oe_requested_len e) < 2 ^ 32"
    using res unsigned_less [where 'a = nat, of "wa_granule (dc_write_arena (ds_core s))"] by (simp add: entry_res_def)
  then have "entry_res (wa_granule (dc_write_arena (ds_core s))) (entry_frame ?s sl (e'\<lparr>oe_state := Queued\<rparr>)) (e'\<lparr>oe_state := Queued\<rparr>)"
    unfolding fr by (intro entry_res_keep [OF res]) (simp_all add: st k)
  then have "resources_inv ?s"
    by (intro resources_update [OF i(4) p(1)]) (simp_all add: p(4) m k)
  moreover have "file_invs ?s"
    by (rule file_invs_update [OF i(1) p(1), where e' = "e'\<lparr>oe_state := Queued\<rparr>"]) (simp_all add: p(4) m k due_files_def)
  moreover have "ops_inv ?s"
    unfolding p(4) by (rule ops_inv_resubmit [OF i(2) p(1) st p(3)]) simp
  moreover have "tokens_inv ?s"
    by (rule tokens_inv_same [OF i(3)]) (simp_all add: p(4) m)
  ultimately show ?thesis
    by (simp add: driver_inv_iff)
qed

lemma driver_inv_continue:
  assumes inv: "driver_inv s" and t: "token \<in> ds_leases s" and c: "continue_read_vector (ds_core s) token v = Some (Inr token, d)"
  shows "driver_inv (s\<lparr>ds_core := d, ds_leases := ds_leases s - {token}\<rparr>)" (is "driver_inv ?s")
proof -
  have i: "file_invs s" "ops_inv s" "tokens_inv s" "resources_inv s"
    using inv by (simp_all add: driver_inv_iff)
  obtain e v' slab vs where p: "ops (ds_core s) (OpToken_slot token) = Some e" "oe_state e = Continuation"
    "oe_requested_len e = remaining v'"
    "slab_update (dc_slab (ds_core s)) (OpToken_slot token) (e\<lparr>oe_frame := Some (Vector v'), oe_state := Queued, oe_retries := 0\<rparr>) = Some slab"
    "d = (ds_core s)\<lparr>dc_vectors := vs, dc_slab := slab, dc_ready := dc_ready (ds_core s) @ [OpToken_slot token]\<rparr>"
    by (rule continue_effect [OF c])
  obtain e' where e': "e\<lparr>oe_frame := Some (Vector v'), oe_state := Queued, oe_retries := 0\<rparr> = e'"
    by blast
  note p = p [unfolded e'] and e' = e' [symmetric]
  note m = slab_update_effect [OF ops_invD(1) [OF i(2)] p(1,4)]
  have "entry_frame ?s (OpToken_slot token) e' = Some (Vector v')"
    using inactive_frame [OF i(2) p(1)] p(2) by (simp add: entry_frame_def e')
  then have "entry_res (wa_granule (dc_write_arena (ds_core s))) (entry_frame ?s (OpToken_slot token) e') e'"
    using entry_res_at [OF i(4) p(1)] p(2,3) by (simp add: entry_res_def e' split: OpKind.splits)
  then have "resources_inv ?s"
    by (intro resources_update [OF i(4) p(1)]) (simp_all add: p(5) m e')
  moreover have "file_invs ?s"
    by (rule file_invs_update [OF i(1) p(1), where e' = e']) (simp_all add: p(5) m e' due_files_def)
  moreover have "ops_inv ?s"
    unfolding p(5) by (rule ops_inv_continue [OF i(2) t p(1,4)]) (simp add: e')
  moreover have "tokens_inv ?s"
    by (rule tokens_inv_same [OF i(3)]) (simp_all add: p(5) m)
  ultimately show ?thesis
    by (simp add: driver_inv_iff)
qed

lemma submitted_res:
  assumes e: "submitted_entry d writers e"
    and fr: "fr = oe_frame e \<or> (\<exists>v. oe_frame e = Some (Vector v) \<and> fr = Some (Vector (v\<lparr>rv_operation := Some token\<rparr>)))"
  shows "entry_res (wa_granule (dc_write_arena d)) fr (e\<lparr>oe_frame := fr\<rparr>)" "set_option (oe_write_slot e) \<subseteq> writers"
proof -
  have rem: "remaining (v\<lparr>rv_operation := x\<rparr>) = remaining v" for v x
    by (simp add: remaining_def)
  show "entry_res (wa_granule (dc_write_arena d)) fr (e\<lparr>oe_frame := fr\<rparr>)"
    using assms by (cases "oe_kind e") (auto simp: submitted_entry_def entry_res_def rem)
  show "set_option (oe_write_slot e) \<subseteq> writers"
    using e by (cases "oe_kind e") (auto simp: submitted_entry_def)
qed

lemma driver_inv_submit:
  assumes inv: "driver_inv s" and fd: "oe_fd e \<notin> set (ds_opening s)" and e: "submitted_entry (ds_core s) (ds_writers s) e"
    and a: "admit (ds_core s) (oe_fd e) = Some (Inr sl, d1)" and c: "commit d1 sl e = Some (token, d2)"
  shows "driver_inv (s\<lparr>ds_core := d2, ds_writers := ds_writers s - set_option (oe_write_slot e), ds_issued := token # ds_issued s\<rparr>)"
    (is "driver_inv ?s")
proof -
  have i: "files_inv s" "due_inv s" "backend_inv s" "ops_inv s" "tokens_inv s" "resources_inv s"
    using inv by (simp_all add: driver_inv_def)
  let ?d = "ds_core s"
  obtain fs fr slab pos where u:
    "ft_at (dc_files ?d) (oe_fd e) = Some fs" "fd_state fs = Open" "fd_inflight fs < - 1" "driver (oe_fd e) = dc_id ?d"
    "FileTable_total_inflight (dc_files ?d) + of_nat (length (dc_backlog ?d) + length (dc_deferred ?d)) < dc_queue_capacity ?d"
    "ops ?d sl = None" "slab_peek slab = (ops ?d)(sl \<mapsto> e\<lparr>oe_frame := fr\<rparr>)" "slab_inv slab"
    "length (slab_slots slab) = length (slab_slots (dc_slab ?d))" "token = OpToken_new sl (slab_gen slab sl)"
    "\<And>i. i \<noteq> sl \<Longrightarrow> slab_gen slab i = slab_gen (dc_slab ?d) i"
    "slab_live slab = insert token (slab_live (dc_slab ?d))" "token \<notin> slab_spent (dc_slab ?d)"
    "insert token (slab_spent (dc_slab ?d)) \<subseteq> slab_spent slab"
    "fr = oe_frame e \<or> (\<exists>v. oe_frame e = Some (Vector v) \<and> fr = Some (Vector (v\<lparr>rv_operation := Some token\<rparr>)))"
    "d2 = ?d\<lparr>dc_slab := slab, dc_files := ft_put (dc_files ?d) (unat (slot (oe_fd e))) (fs\<lparr>fd_inflight := fd_inflight fs + 1\<rparr>),
       dc_ready := take pos (dc_ready ?d) @ sl # drop pos (dc_ready ?d)\<rparr>"
    by (rule submit_effect [OF ops_invD(1) [OF i(4)] a c]) (rule that, assumption+)
  have q: "oe_state e = Queued"
    using e by (simp add: submitted_entry_def)
  have "sl \<notin> dom (ds_active s)"
    using ops_invD(6) [OF i(4)] in_state_fresh [of "ops ?d" sl, OF u(6)] by blast
  then have fr: "entry_frame ?s sl (e\<lparr>oe_frame := fr\<rparr>) = fr"
    by (simp add: entry_frame_def domIff)
  have "files_inv ?s"
    by (rule files_inv_insert [OF i(1) u(6), where e = "e\<lparr>oe_frame := fr\<rparr>" and fs = fs]) (simp_all add: u fd)
  moreover have "due_inv ?s"
    by (rule due_inv_submit [OF i(2) u(1,2,4)]) (simp_all add: u(16) fd due_files_def)
  moreover have "backend_inv ?s"
    by (rule backend_inv_count [OF i(3) u(1), where fs' = "fs\<lparr>fd_inflight := fd_inflight fs + 1\<rparr>"]) (simp_all add: u(16))
  moreover have "ops_inv ?s"
    by (rule ops_inv_submit [OF i(1,4) u(5,6,7) _ u(8,9) u(11) u(16)]) (simp_all add: q)
  moreover have "tokens_inv ?s"
    by (rule tokens_inv_submit [OF i(5), where token = token]) (use u(14) in \<open>simp_all add: u(12,13,16)\<close>)
  moreover have "resources_inv ?s"
    by (rule resources_submit [OF i(6) u(6), where e = "e\<lparr>oe_frame := fr\<rparr>"])
      (use submitted_res [OF e u(15)] in \<open>simp_all add: u(7,16) fr [unfolded u(16)]\<close>)
  ultimately show ?thesis
    by (simp add: driver_inv_def)
qed

lemma driver_inv_drop:
  assumes inv: "driver_inv s" and t: "token \<in> ds_leases s" and r: "ReadContinuation_drop (ds_core s) token = Some d"
  shows "driver_inv (s\<lparr>ds_core := d, ds_leases := ds_leases s - {token}, ds_finished := token # ds_finished s\<rparr>)" (is "driver_inv ?s")
proof -
  have i: "file_invs s" "ops_inv s" "tokens_inv s" "resources_inv s"
    using inv by (simp_all add: driver_inv_iff)
  note slab = ops_invD(1) [OF i(2)]
  have live: "token \<in> slab_live (dc_slab (ds_core s))"
    by (rule lease_slot [OF i(2) t])
  obtain e slab fs outcome sl where u: "ops (ds_core s) sl = Some e" "leased (oe_state e)"
    "slab_reclaim (dc_slab (ds_core s)) sl = Some ((token, e), slab)"
    "ft_at (dc_files (ds_core s)) (oe_fd e) = Some fs" "0 < fd_inflight fs"
    "d = (ds_core s)\<lparr>dc_slab := slab, dc_files := ft_put (dc_files (ds_core s)) (unat (slot (oe_fd e))) (fs\<lparr>fd_inflight := fd_inflight fs - 1\<rparr>),
       dc_deferred := dc_deferred (ds_core s)
         @ [\<lparr>df_fd = oe_fd e, df_retire = (fd_inflight fs = 1 \<and> fd_state fs = Closing), df_outcome = outcome\<rparr>]\<rparr>"
    by (rule drop_effect [OF slab live r])
  note m = slab_reclaim_effect [OF slab u(3)]
  have sl: "OpToken_slot token = sl"
    by (simp add: m(6))
  have "oe_write_slot e = None"
    using entry_res_at [OF i(4) u(1)] u(2) by (cases "oe_kind e") (auto simp: entry_res_def)
  then have "resources_inv ?s"
    by (intro resources_remove [OF i(4) u(1)]) (simp_all add: u(6) m release_write_slot_def)
  moreover have "file_invs ?s"
    by (rule file_invs_complete [OF i(1) u(1) _ u(4,5)]) (simp_all add: u(6) m due_files_def)
  moreover have "ops_inv ?s"
    by (rule ops_inv_drop [OF i(2) t, unfolded sl, OF u(3), where F = "dc_arena (ds_core s)"]) (simp add: u(6))
  moreover have "tokens_inv ?s"
    by (rule tokens_inv_finish [OF i(3) _ live]) (simp_all add: u(6) m(7,8))
  ultimately show ?thesis
    by (simp add: driver_inv_iff)
qed

text \<open>A finished attempt: the completion goes to the caller or into the backlog.\<close>

lemma driver_inv_lease:
  assumes inv: "driver_inv s" and act: "ds_active s sl = Some frame" and e: "ops (ds_core s) sl = Some e"
    and fr: "(case frame of Some x \<Rightarrow> Some x | None \<Rightarrow> oe_frame e) = Some (Vector v)"
    and u: "slab_update (dc_slab (ds_core s)) sl e' = Some slab"
    and e': "oe_fd e' = oe_fd e" "oe_kind e' = oe_kind e" "oe_write_slot e' = oe_write_slot e" "leased (oe_state e')" "oe_frame e' = None"
      "uint (oe_file_offset e') + uint (oe_requested_len e') = uint (oe_file_offset e) + uint (oe_requested_len e)"
    and s': "ds_core s' = (ds_core s)\<lparr>dc_slab := slab, dc_backlog := cs\<rparr>" "ds_active s' = (ds_active s)(sl := None)"
      "ds_opening s' = ds_opening s" "ds_retiring s' = ds_retiring s" "ds_finishing s' = ds_finishing s" "ds_writers s' = ds_writers s"
      "ds_issued s' = ds_issued s" "ds_finished s' = ds_finished s"
    and ops: "ops_inv s'"
  shows "driver_inv s'"
proof -
  have i: "file_invs s" "ops_inv s" "tokens_inv s" "resources_inv s"
    using inv by (simp_all add: driver_inv_iff)
  note m = slab_update_effect [OF ops_invD(1) [OF i(2)] e u]
  have "entry_frame s sl e = Some (Vector v)"
    using fr act by (auto simp: entry_frame_def split: option.splits)
  then have "entry_res (wa_granule (dc_write_arena (ds_core s))) (entry_frame s' sl e') e'"
    using entry_res_at [OF i(4) e] e' by (cases "oe_kind e") (auto simp: entry_res_def entry_frame_def s')
  then have "resources_inv s'"
    by (intro resources_update [OF i(4) e]) (simp_all add: s' m e')
  moreover have "file_invs s'"
    by (rule file_invs_update [OF i(1) e e'(1)]) (simp_all add: s' m due_files_def)
  moreover have "tokens_inv s'"
    by (rule tokens_inv_same [OF i(3)]) (simp_all add: s' m)
  ultimately show ?thesis
    using ops by (simp add: driver_inv_iff)
qed

lemma driver_inv_final:
  assumes inv: "driver_inv s" and e: "ops (ds_core s) sl = Some e" and r: "slab_reclaim (dc_slab (ds_core s)) sl = Some ((token, e), slab)"
    and at: "ft_at (dc_files (ds_core s)) (oe_fd e) = Some fs" "0 < fd_inflight fs"
    and wa: "release_write_slot (dc_write_arena (ds_core s)) e = Some wa"
    and s': "ds_core s' = (ds_core s)\<lparr>dc_slab := slab,
        dc_files := ft_put (dc_files (ds_core s)) (unat (slot (oe_fd e))) (fs\<lparr>fd_inflight := fd_inflight fs - 1\<rparr>),
        dc_arena := F, dc_write_arena := wa, dc_backlog := cs\<rparr>" "ds_active s' = (ds_active s)(sl := None)"
      "ds_opening s' = ds_opening s" "ds_finishing s' = ds_finishing s" "ds_writers s' = ds_writers s"
      "ds_retiring s' = (if fd_inflight fs = 1 \<and> fd_state fs = Closing then [oe_fd e] else []) @ ds_retiring s"
      "ds_issued s' = ds_issued s" "ds_finished s' = token # ds_finished s"
    and ops: "ops_inv s'"
  shows "driver_inv s'"
proof -
  have i: "file_invs s" "ops_inv s" "tokens_inv s" "resources_inv s"
    using inv by (simp_all add: driver_inv_iff)
  note m = slab_reclaim_effect [OF ops_invD(1) [OF i(2)] r]
  have "resources_inv s'"
    by (rule resources_remove [OF i(4) e]) (simp_all add: s' m wa)
  moreover have "file_invs s'"
    by (rule file_invs_complete [OF i(1) e _ at]) (simp_all add: s' m due_files_def)
  moreover have "tokens_inv s'"
    by (rule tokens_inv_finish [OF i(3) _ m(9)]) (simp_all add: s' m(7,8))
  ultimately show ?thesis
    using ops by (simp add: driver_inv_iff)
qed

lemma driver_inv_publish:
  assumes inv: "driver_inv s" and act: "ds_active s sl = Some frame"
    and f: "finish_attempt (ds_core s) sl result frame = Some ((completion, retiring), d)"
  shows "driver_inv (s\<lparr>ds_core := d, ds_active := (ds_active s)(sl := None),
      ds_leases := ds_leases s \<union> set_option (co_continuation completion), ds_retiring := due retiring @ ds_retiring s,
      ds_finished := (if co_continuation completion = None then [co_token completion] else []) @ ds_finished s\<rparr>
    ) \<and> driver_inv (s\<lparr>ds_core := d\<lparr>dc_backlog := dc_backlog d @ [completion]\<rparr>, ds_active := (ds_active s)(sl := None),
      ds_retiring := due retiring @ ds_retiring s,
      ds_finished := (if co_continuation completion = None then [co_token completion] else []) @ ds_finished s\<rparr>)"
    (is "driver_inv ?s \<and> driver_inv ?b")
proof -
  have o: "ops_inv s"
    using inv by (simp add: driver_inv_iff)
  show ?thesis
    using ops_invD(1) [OF o] f
  proof (cases rule: finish_attempt_cases)
    case (lease e e' slab v)
    note ops = ops_inv_lease [OF o lease(1,2,4,12) lease(7)]
    have "driver_inv ?s"
      by (rule driver_inv_lease [OF inv act lease(1,3,4,9-14), where cs = "dc_backlog (ds_core s)"])
        (use ops(1) [where R = "ds_retiring s" and F = "ds_finished s"] lease in \<open>simp_all add: due_def\<close>)
    moreover have "driver_inv ?b"
      by (rule driver_inv_lease [OF inv act lease(1,3,4,9-14), where cs = "dc_backlog (ds_core s) @ [completion]"])
        (use ops(2) [where c = completion and R = "ds_retiring s" and F = "ds_finished s"] lease in \<open>simp_all add: due_def\<close>)
    ultimately show ?thesis ..
  next
    case (final e slab fs arena wa)
    note ops = ops_inv_final [OF o final(1-4) final(9)]
    have "driver_inv ?s"
      by (rule driver_inv_final [OF inv final(1,3,5,6,8), where cs = "dc_backlog (ds_core s)" and F = arena])
        (use ops(1) final(4,7,9) in \<open>simp_all add: due_def\<close>)
    moreover have "driver_inv ?b"
      by (rule driver_inv_final [OF inv final(1,3,5,6,8), where cs = "dc_backlog (ds_core s) @ [completion]" and F = arena])
        (use ops(2) final(4,7,9) in \<open>simp_all add: due_def\<close>)
    ultimately show ?thesis ..
  qed
qed

lemma driver_inv_quiet:
  assumes inv: "driver_inv s" and ops: "ops_inv s'" and res: "resources_inv s'"
    and core: "ds_core s' = (ds_core s)\<lparr>dc_backlog := cs, dc_deferred := ds, dc_write_arena := a, dc_arena := F, dc_vectors := vs\<rparr>"
    and due: "mset (due_files s') = mset (due_files s)" and same: "ds_opening s' = ds_opening s" "ds_finishing s' = ds_finishing s"
      "ds_issued s' = ds_issued s" "ds_finished s' = ds_finished s"
  shows "driver_inv s'"
proof -
  have i: "files_inv s" "due_inv s" "backend_inv s" "tokens_inv s"
    using inv by (simp_all add: driver_inv_def)
  have "files_inv s'"
    by (rule files_inv_same [OF i(1)]) (simp_all add: core same)
  moreover have "due_inv s'"
    by (rule due_inv_same [OF i(2)]) (simp_all add: core same due due_distinct [OF i(2)])
  moreover have "backend_inv s'"
    by (rule backend_inv_same [OF i(3)]) (simp_all add: core same)
  moreover have "tokens_inv s'"
    by (rule tokens_inv_same [OF i(4)]) (simp_all add: core same)
  ultimately show ?thesis
    using ops res by (simp add: driver_inv_def)
qed

lemma driver_inv_pop:
  assumes inv: "driver_inv s" and d: "dc_deferred (ds_core s) = completion # rest"
  shows "driver_inv (s\<lparr>ds_core := (ds_core s)\<lparr>dc_deferred := rest\<rparr>,
      ds_retiring := (if df_retire completion then [df_fd completion] else []) @ ds_retiring s\<rparr>)" (is "driver_inv ?s")
proof (rule driver_inv_quiet [OF inv, where cs = "dc_backlog (ds_core s)" and ds = rest and a = "dc_write_arena (ds_core s)"
      and F = "dc_arena (ds_core s)" and vs = "dc_vectors (ds_core s)"])
  show "ops_inv ?s"
    using inv d by (simp add: driver_inv_def ops_inv_def Let_def)
  show "resources_inv ?s"
    by (rule resources_same [of s]) (use inv in \<open>simp_all add: driver_inv_def\<close>)
qed (simp_all add: due_files_def d)

lemma driver_inv_drain:
  assumes inv: "driver_inv s" and dr: "drain_completion_backlog n (ds_core s) = (out, d)"
  shows "driver_inv (s\<lparr>ds_core := d, ds_leases := ds_leases s \<union> {t. Some t \<in> co_continuation ` set out}\<rparr>)" (is "driver_inv ?s")
proof -
  obtain cs where d: "d = (ds_core s)\<lparr>dc_backlog := cs\<rparr>"
    using dr by (auto simp: drain_completion_backlog_def Let_def)
  show ?thesis
  proof (rule driver_inv_quiet [OF inv, where cs = cs and ds = "dc_deferred (ds_core s)" and a = "dc_write_arena (ds_core s)"
        and F = "dc_arena (ds_core s)" and vs = "dc_vectors (ds_core s)"])
    show "ops_inv ?s"
      using inv dr by (simp add: driver_inv_def ops_inv_drain)
    show "resources_inv ?s"
      by (rule resources_same [of s]) (use inv in \<open>simp_all add: driver_inv_def d\<close>)
  qed (simp_all add: due_files_def d)
qed

lemma driver_inv_write:
  assumes inv: "driver_inv s" and res: "resources_inv (s\<lparr>ds_core := (ds_core s)\<lparr>dc_write_arena := a\<rparr>, ds_writers := W\<rparr>)"
  shows "driver_inv (s\<lparr>ds_core := (ds_core s)\<lparr>dc_write_arena := a\<rparr>, ds_writers := W\<rparr>)"
proof (rule driver_inv_quiet [OF inv _ res, where cs = "dc_backlog (ds_core s)" and ds = "dc_deferred (ds_core s)" and a = a
      and F = "dc_arena (ds_core s)" and vs = "dc_vectors (ds_core s)"])
qed (use inv in \<open>simp_all add: due_files_def driver_inv_def ops_inv_def Let_def\<close>)

lemma driver_inv_arena:
  assumes inv: "driver_inv s"
  shows "driver_inv (s\<lparr>ds_core := (ds_core s)\<lparr>dc_arena := F, dc_vectors := vs\<rparr>\<rparr>)" (is "driver_inv ?s")
proof (rule driver_inv_quiet [OF inv, where cs = "dc_backlog (ds_core s)" and ds = "dc_deferred (ds_core s)"
      and a = "dc_write_arena (ds_core s)" and F = F and vs = vs])
  show "resources_inv ?s"
    by (rule resources_same [of s]) (use inv in \<open>simp_all add: driver_inv_def\<close>)
qed (use inv in \<open>simp_all add: due_files_def driver_inv_def ops_inv_def Let_def\<close>)

lemma driver_inv_step:
  assumes "driver_step s s'" "driver_inv s"
  shows "driver_inv s'"
  using assms
proof (induction rule: driver_step.induct)
  case (st_reserve s fid files)
  then show ?case
    using file_invs_reserve [of s fid files]
    by - (rule driver_inv_files [of s, where files = files and ex = "dc_executor (ds_core s)"], simp_all add: driver_inv_iff)
next
  case (st_register fid s f ex)
  then show ?case
    using file_invs_register [of s fid f ex]
    by - (rule driver_inv_files [of s, where files = "dc_files (ds_core s)" and ex = ex], simp_all add: driver_inv_iff)
next
  case (st_abort fid s d)
  then obtain files where "d = (ds_core s)\<lparr>dc_files := files\<rparr>"
    by (auto simp: abort_file_def bind_Some_iff)
  then show ?case
    using file_invs_abort [of s fid d] st_abort
    by - (rule driver_inv_files [of s, where files = files and ex = "dc_executor (ds_core s)"], simp_all add: driver_inv_iff)
next
  case (st_close fid s idle d)
  then obtain files where "d = (ds_core s)\<lparr>dc_files := files\<rparr>"
    by (auto simp: close_locked_def bind_Some_iff)
  then show ?case
    using file_invs_close [of s fid idle d] st_close
    by - (rule driver_inv_files [of s, where files = files and ex = "dc_executor (ds_core s)"], simp_all add: driver_inv_iff)
next
  case (st_retire_file fid s ex)
  then show ?case
    using file_invs_retire [of s fid ex]
    by - (rule driver_inv_files [of s, where files = "dc_files (ds_core s)" and ex = ex], simp_all add: driver_inv_iff)
next
  case (st_finish_retire fid s files)
  then show ?case
    using file_invs_finish_retire [of s fid files]
    by - (rule driver_inv_files [of s, where files = files and ex = "dc_executor (ds_core s)"], simp_all add: driver_inv_iff)
next
  case (st_submit e s sl d1 token d2)
  then show ?case by (simp add: driver_inv_submit)
next
  case (st_prepare staging s sl kind ctx d)
  then show ?case by (simp add: driver_inv_prepare)
next
  case (st_fill s sqe d sl)
  then show ?case by (simp add: driver_inv_fill)
next
  case (st_resubmit s sl token linux raw d)
  then show ?case by (simp add: driver_inv_resubmit)
next
  case (st_publish s sl frame result completion retiring d)
  then show ?case using driver_inv_publish by blast
next
  case (st_publish_backlog s sl frame result completion retiring d)
  then show ?case using driver_inv_publish by blast
next
  case (st_drop_lease token s d)
  then show ?case by (simp add: driver_inv_drop)
next
  case (st_continue token s v d)
  then show ?case by (simp add: driver_inv_continue)
next
  case (st_pop_deferred s completion rest)
  then show ?case by (simp add: driver_inv_pop)
next
  case (st_drain n s out d)
  then show ?case by (simp add: driver_inv_drain)
next
  case (st_write_alloc s w a)
  then have "resources_inv s" by (simp add: driver_inv_def)
  with st_write_alloc show ?case by (blast intro: driver_inv_write resources_alloc)
next
  case (st_write_drop w s notified a)
  then have "resources_inv s" by (simp add: driver_inv_def)
  with st_write_drop show ?case by (blast intro: driver_inv_write resources_give)
next
  case (st_arena s F vs)
  then show ?case by (simp add: driver_inv_arena)
qed

end
