(* ===== verification/Pool_Config.thy ===== *)
theory Pool_Config
  imports Frames
begin

text \<open>
  The configuration half of \<open>pool/mod.rs\<close> and \<open>pool/prefetch.rs\<close>: the pool builder, its capacity
  checks and the reader tallies.  \<open>validate\<close> accepts exactly the configurations whose
  deadlock-freedom watermark, computed without wrap-around, fits the frames.
\<close>

section \<open>Errors and policies\<close>

datatype PoolConfigError =
    PrefetchHeadroomTooLarge u32 u32
  | RetentionUnrepresentable u32 u32
  | BelowWatermark u32 u32
  | MissHeadroomTooSmall u32 u32
  | GranuleNotPowerOfTwo u32
  | GranuleBelowSector u32 u32
  | QueueCapacityOverflow u32 u32
  | RegistrationRefused u64 u64
  | RegistrationUnsupported
  | ArenaLockRefused u64 u64
  | BackendGeometryMismatch u32 u32 u32 u32

datatype PoolBuildError =
    PoolConfiguration PoolConfigError
  | PoolAllocation
  | PoolDriver IoError

datatype RegistrationPolicy = Auto | Registered | Unregistered

datatype ArenaLockPolicy = BestEffort | Required

datatype Readahead = Automatic | Disabled

section \<open>The builder\<close>

definition GRANULE_DEFAULT :: u32 where
  "GRANULE_DEFAULT = 4096"

definition DEFAULT_REGISTERED_FILE_CAPACITY :: u32 where
  "DEFAULT_REGISTERED_FILE_CAPACITY = 64"

record PoolBuilder =
  pb_frame_count :: u32
  pb_granule :: u32
  pb_max_concurrent_readers :: u32
  pb_peak_guards_per_reader :: u32
  pb_max_inflight_reads :: u32
  pb_miss_headroom :: u32
  pb_max_retained_frames :: u32
  pb_write_slots :: u32
  pb_max_inflight_product_ops :: u32
  pb_registered_file_capacity :: u32
  pb_registration_policy :: RegistrationPolicy
  pb_arena_lock :: ArenaLockPolicy
  pb_prefetch_headroom :: "u32 option"
  pb_readahead :: Readahead

definition PoolBuilder_default :: PoolBuilder where
  "PoolBuilder_default = \<lparr>pb_frame_count = 0, pb_granule = GRANULE_DEFAULT, pb_max_concurrent_readers = 0,
     pb_peak_guards_per_reader = 0, pb_max_inflight_reads = 0, pb_miss_headroom = 0, pb_max_retained_frames = 0,
     pb_write_slots = 0, pb_max_inflight_product_ops = 0,
     pb_registered_file_capacity = DEFAULT_REGISTERED_FILE_CAPACITY, pb_registration_policy = Auto,
     pb_arena_lock = BestEffort, pb_prefetch_headroom = None, pb_readahead = Automatic\<rparr>"

text \<open>The setters write one field each and are the record updates; \<open>require_locked\<close> sets the one constant.\<close>

definition require_locked :: "PoolBuilder \<Rightarrow> PoolBuilder" where
  "require_locked b = b\<lparr>pb_arena_lock := Required\<rparr>"

text \<open>\<open>u32::try_from\<close> of a 64-bit value.\<close>

definition try_u32 :: "u64 \<Rightarrow> u32 option" where
  "try_u32 w = (if unat w < 2 ^ 32 then Some (ucast w) else None)"

definition RING_LIMIT :: u32 where
  "RING_LIMIT = push_bit 31 1"

definition validate_retention_capacity :: "PoolBuilder \<Rightarrow> PoolConfigError + unit" where
  "validate_retention_capacity b =
     (if pb_max_retained_frames b > RING_LIMIT
      then Err (RetentionUnrepresentable (pb_max_retained_frames b) RING_LIMIT)
      else (case checked_sub (- 1) (pb_max_concurrent_readers b) of
          None \<Rightarrow> Err (RetentionUnrepresentable (pb_max_concurrent_readers b) (- 1 - 1))
        | Some tally_limit \<Rightarrow>
            if pb_max_retained_frames b > tally_limit
            then Err (RetentionUnrepresentable (pb_max_retained_frames b) tally_limit)
            else if checked_add (pb_max_concurrent_readers b) 1 = None
            then Err (RetentionUnrepresentable (pb_max_concurrent_readers b) (- 1 - 1))
            else Ok ()))"

text \<open>\<open>prefetch_capacity\<close>; \<open>None\<close> is the panic of a division by a zero granule, or of the conversion.\<close>

definition prefetch_capacity :: "PoolBuilder \<Rightarrow> (PoolConfigError + u32) option" where
  "prefetch_capacity b = do {
     let committed = ucast (pb_max_concurrent_readers b) * ucast (pb_peak_guards_per_reader b)
       + ucast (pb_miss_headroom b) + ucast (pb_max_retained_frames b);
     spare \<leftarrow> try_u32 (saturating_sub (ucast (pb_frame_count b)) committed);
     assert (pb_granule b \<noteq> 0);
     let credits = (case pb_prefetch_headroom b of
          Some headroom \<Rightarrow> headroom
        | None \<Rightarrow> min (min spare (saturating_sub (pb_max_inflight_reads b) 1)) (524288 div pb_granule b));
     Some (if credits > spare then Err (PrefetchHeadroomTooLarge credits spare) else Ok credits)
   }"

definition watermark :: "PoolBuilder \<Rightarrow> u64" where
  "watermark b = max (ucast (pb_max_concurrent_readers b) * ucast (pb_peak_guards_per_reader b) + ucast (pb_miss_headroom b)) 1
     + ucast (pb_max_retained_frames b)"

definition PoolBuilder_validate :: "PoolBuilder \<Rightarrow> (PoolConfigError + unit) option" where
  "PoolBuilder_validate b =
     (if checked_add (pb_max_inflight_reads b) (pb_max_inflight_product_ops b) = None
      then Some (Err (QueueCapacityOverflow (pb_max_inflight_reads b) (pb_max_inflight_product_ops b)))
      else if \<not> is_power_of_two (pb_granule b) then Some (Err (GranuleNotPowerOfTwo (pb_granule b)))
      else if pb_granule b < SECTOR_BYTES then Some (Err (GranuleBelowSector (pb_granule b) SECTOR_BYTES))
      else (case validate_retention_capacity b of
          Inl error \<Rightarrow> Some (Err error)
        | Inr _ \<Rightarrow>
          (case checked_mul (pb_max_inflight_reads b) 3 of
             None \<Rightarrow> Some (Err (MissHeadroomTooSmall (pb_miss_headroom b) (- 1)))
           | Some minimum \<Rightarrow>
               if pb_miss_headroom b < minimum then Some (Err (MissHeadroomTooSmall (pb_miss_headroom b) minimum))
               else if ucast (pb_frame_count b) < watermark b
               then Some (Err (BelowWatermark (pb_frame_count b)
                  (case try_u32 (watermark b) of Some w \<Rightarrow> w | None \<Rightarrow> - 1)))
               else map_option (map_sum id (\<lambda>_. ())) (prefetch_capacity b))))"

definition check_backend_geometry :: "PoolBuilder \<Rightarrow> Frames \<Rightarrow> PoolConfigError + unit" where
  "check_backend_geometry b F =
     (if f_count F = pb_frame_count b \<and> f_granule F = pb_granule b then Ok ()
      else Err (BackendGeometryMismatch (pb_frame_count b) (f_count F) (pb_granule b) (f_granule F)))"

section \<open>Reader tallies\<close>

record ReaderCounters =
  rc_hits :: u32
  rc_evictions :: u32

definition ReaderCounters_new :: ReaderCounters where
  "ReaderCounters_new = \<lparr>rc_hits = 0, rc_evictions = 0\<rparr>"

definition record_hit :: "ReaderCounters \<Rightarrow> ReaderCounters" where
  "record_hit c = c\<lparr>rc_hits := saturating_add (rc_hits c) 1\<rparr>"

definition record_eviction :: "ReaderCounters \<Rightarrow> ReaderCounters" where
  "record_eviction c = c\<lparr>rc_evictions := saturating_add (rc_evictions c) 1\<rparr>"

section \<open>Acceptance\<close>

text \<open>The 64-bit capacity sums never wrap: the largest is exactly \<open>u64::MAX\<close>.\<close>

lemma committed_bound:
  fixes a b c d :: nat
  assumes "a < 2 ^ 32" "b < 2 ^ 32" "c < 2 ^ 32" "d < 2 ^ 32"
  shows "a * b + c + d < 2 ^ 64"
proof -
  have "a * b \<le> (2 ^ 32 - 1) * (2 ^ 32 - 1)"
    using assms by (intro mult_le_mono) simp_all
  then show ?thesis
    using assms by simp
qed

lemma unat_u32: "unat (w :: u32) < 2 ^ 32"
  using unsigned_less [where 'a = nat, of w] by simp

lemmas u32_bounds = committed_bound [OF unat_u32 unat_u32 unat_u32 unat_u32]

lemma unat_product: "unat (ucast a * ucast b :: u64) = unat a * unat b" for a b :: u32
  using u32_bounds [of a b 0 0] by (subst unat_mul_small) (simp_all add: unat_ucast_64)

lemma unat_demand: "unat (ucast a * ucast b + ucast c :: u64) = unat a * unat b + unat c" for a b c :: u32
  using u32_bounds [of a b c 0] by (subst unat_add_small) (simp_all add: unat_ucast_64 unat_product)

lemma unat_committed: "unat (ucast a * ucast b + ucast c + ucast d :: u64) = unat a * unat b + unat c + unat d" for a b c d :: u32
  using u32_bounds [of a b c d] by (subst unat_add_small) (simp_all add: unat_ucast_64 unat_demand)

definition committed_frames :: "PoolBuilder \<Rightarrow> nat" where
  "committed_frames b = unat (pb_max_concurrent_readers b) * unat (pb_peak_guards_per_reader b)
     + unat (pb_miss_headroom b) + unat (pb_max_retained_frames b)"

lemma unat_max: "unat (max x y) = max (unat x) (unat y)" for x y :: "'a::len word"
  by (simp add: max_def word_le_nat_alt)

lemma unat_watermark: "unat (watermark b) = max (unat (pb_max_concurrent_readers b) * unat (pb_peak_guards_per_reader b)
    + unat (pb_miss_headroom b)) 1 + unat (pb_max_retained_frames b)"
proof -
  let ?m = "max (unat (pb_max_concurrent_readers b) * unat (pb_peak_guards_per_reader b) + unat (pb_miss_headroom b)) 1"
  have "?m + unat (pb_max_retained_frames b) < 2 ^ 64"
    using u32_bounds [of "pb_max_concurrent_readers b" "pb_peak_guards_per_reader b" "pb_miss_headroom b" "pb_max_retained_frames b"]
      unat_u32 [of "pb_max_retained_frames b"] by (auto simp: max_def)
  then show ?thesis
    unfolding watermark_def by (subst unat_add_small) (simp_all add: unat_max unat_demand unat_ucast_64)
qed

lemma unat_saturating_sub: "unat (saturating_sub x y) = unat x - unat y" for x y :: "'a::len word"
  by (auto simp: saturating_sub_def unat_sub_le word_le_nat_alt)

lemma prefetch_capacity_eq:
  assumes "pb_granule b \<noteq> 0"
  obtains spare where "unat spare = unat (pb_frame_count b) - committed_frames b"
    "prefetch_capacity b = (let credits = (case pb_prefetch_headroom b of
          Some headroom \<Rightarrow> headroom
        | None \<Rightarrow> min (min spare (saturating_sub (pb_max_inflight_reads b) 1)) (524288 div pb_granule b))
      in Some (if credits > spare then Err (PrefetchHeadroomTooLarge credits spare) else Ok credits))"
proof -
  let ?committed = "ucast (pb_max_concurrent_readers b) * ucast (pb_peak_guards_per_reader b)
       + ucast (pb_miss_headroom b) + ucast (pb_max_retained_frames b) :: u64"
  let ?spare = "saturating_sub (ucast (pb_frame_count b)) ?committed"
  have spare: "unat ?spare = unat (pb_frame_count b) - committed_frames b"
    by (simp add: unat_saturating_sub unat_ucast_64 unat_committed committed_frames_def)
  then have "unat ?spare < 2 ^ 32"
    using unat_u32 [of "pb_frame_count b"] by simp
  then have "try_u32 ?spare = Some (ucast ?spare)" "unat (ucast ?spare :: u32) = unat ?spare"
    by (simp_all add: try_u32_def unsigned_ucast_eq take_bit_nat_eq_self)
  then show thesis
    using that [of "ucast ?spare"] assms spare by (simp add: prefetch_capacity_def)
qed

lemma prefetch_accepts:
  assumes "pb_granule b \<noteq> 0"
  shows "prefetch_capacity b \<noteq> None \<and>
    (map_option (map_sum id (\<lambda>_. ())) (prefetch_capacity b) = Some (Ok ()) \<longleftrightarrow>
      (case pb_prefetch_headroom b of None \<Rightarrow> True | Some h \<Rightarrow> unat h \<le> unat (pb_frame_count b) - committed_frames b))"
proof -
  obtain spare where s: "unat spare = unat (pb_frame_count b) - committed_frames b"
    and p: "prefetch_capacity b = (let credits = (case pb_prefetch_headroom b of
          Some headroom \<Rightarrow> headroom
        | None \<Rightarrow> min (min spare (saturating_sub (pb_max_inflight_reads b) 1)) (524288 div pb_granule b))
      in Some (if credits > spare then Err (PrefetchHeadroomTooLarge credits spare) else Ok credits))"
    by (rule prefetch_capacity_eq [OF assms])
  have "\<not> spare < min (min spare x) y" for x y
    by (simp add: not_less min.coboundedI1)
  then show ?thesis
    unfolding p by (cases "pb_prefetch_headroom b") (simp_all add: Let_def word_less_nat_alt not_less flip: s)
qed

lemma retention_accepts: "validate_retention_capacity b = Ok () \<longleftrightarrow>
    unat (pb_max_retained_frames b) \<le> 2 ^ 31 \<and> unat (pb_max_concurrent_readers b) + unat (pb_max_retained_frames b) < 2 ^ 32
    \<and> Suc (unat (pb_max_concurrent_readers b)) < 2 ^ 32"
proof -
  have ring: "unat RING_LIMIT = 2 ^ 31"
    unfolding RING_LIMIT_def by (subst unat_push_bit_1) simp_all
  have top: "unat (- 1 :: u32) = 2 ^ 32 - 1"
    by (simp add: unsigned_minus_1_eq_mask mask_eq_exp_minus_1)
  have le: "pb_max_concurrent_readers b \<le> - 1"
    by simp
  then have sub: "unat (- 1 - pb_max_concurrent_readers b) = 2 ^ 32 - 1 - unat (pb_max_concurrent_readers b)"
    using unat_sub_le [OF le] top by simp
  have "validate_retention_capacity b = Ok () \<longleftrightarrow>
      unat (pb_max_retained_frames b) \<le> unat RING_LIMIT
      \<and> unat (pb_max_retained_frames b) \<le> unat (- 1 - pb_max_concurrent_readers b)
      \<and> unat (pb_max_concurrent_readers b) + unat (1 :: u32) < 2 ^ 32"
    using le by (simp add: validate_retention_capacity_def checked_sub_def checked_add_def word_less_nat_alt not_less)
  then show ?thesis
    unfolding ring sub using unat_u32 [of "pb_max_concurrent_readers b"] by auto
qed

lemma validate_total: "PoolBuilder_validate b \<noteq> None"
proof (cases "is_power_of_two (pb_granule b)")
  case True
  then have "pb_granule b \<noteq> 0"
    using is_power_of_two_pos by fastforce
  from prefetch_accepts [OF this] show ?thesis
    by (auto simp: PoolBuilder_validate_def split: sum.splits option.splits)
qed (simp add: PoolBuilder_validate_def)

text \<open>C33. The pool configuration check is total and exact: no input panics, and it accepts precisely
  the configurations whose queue capacity fits 32 bits, whose granule is a power of two of at least a
  sector, whose retention counters are representable, whose miss headroom covers three frames per
  in-flight read, and whose frames cover the deadlock-freedom watermark and the explicit prefetch
  headroom, all computed over the unbounded integers.\<close>

theorem validate_exact:
  "PoolBuilder_validate b \<noteq> None
   \<and> (PoolBuilder_validate b = Some (Ok ()) \<longleftrightarrow>
      unat (pb_max_inflight_reads b) + unat (pb_max_inflight_product_ops b) < 2 ^ 32
      \<and> (\<exists>n < 32. unat (pb_granule b) = 2 ^ n) \<and> 4096 \<le> unat (pb_granule b)
      \<and> unat (pb_max_retained_frames b) \<le> 2 ^ 31
      \<and> unat (pb_max_concurrent_readers b) + unat (pb_max_retained_frames b) < 2 ^ 32
      \<and> Suc (unat (pb_max_concurrent_readers b)) < 2 ^ 32
      \<and> 3 * unat (pb_max_inflight_reads b) \<le> unat (pb_miss_headroom b)
      \<and> max (unat (pb_max_concurrent_readers b) * unat (pb_peak_guards_per_reader b) + unat (pb_miss_headroom b)) 1
          + unat (pb_max_retained_frames b) \<le> unat (pb_frame_count b)
      \<and> (case pb_prefetch_headroom b of None \<Rightarrow> True
         | Some h \<Rightarrow> committed_frames b + unat h \<le> unat (pb_frame_count b)))"
proof (cases "is_power_of_two (pb_granule b)")
  case False
  then show ?thesis
    by (auto simp: PoolBuilder_validate_def is_power_of_two_iff)
next
  case True
  then have pos: "pb_granule b \<noteq> 0"
    using is_power_of_two_pos by fastforce
  have head: "checked_mul (pb_max_inflight_reads b) 3 \<noteq> None \<and> the (checked_mul (pb_max_inflight_reads b) 3) \<le> pb_miss_headroom b
      \<longleftrightarrow> 3 * unat (pb_max_inflight_reads b) \<le> unat (pb_miss_headroom b)"
    using unat_mul_small [of "pb_max_inflight_reads b" 3] unat_u32 [of "pb_miss_headroom b"]
    by (auto simp: checked_mul_def word_le_nat_alt mult.commute)
  have step: "PoolBuilder_validate b \<noteq> None \<and> (PoolBuilder_validate b = Some (Ok ()) \<longleftrightarrow>
      checked_add (pb_max_inflight_reads b) (pb_max_inflight_product_ops b) \<noteq> None \<and> SECTOR_BYTES \<le> pb_granule b
      \<and> validate_retention_capacity b = Ok ()
      \<and> (checked_mul (pb_max_inflight_reads b) 3 \<noteq> None \<and> the (checked_mul (pb_max_inflight_reads b) 3) \<le> pb_miss_headroom b)
      \<and> watermark b \<le> ucast (pb_frame_count b) \<and> map_option (map_sum id (\<lambda>_. ())) (prefetch_capacity b) = Some (Ok ()))"
    using True prefetch_accepts [OF pos]
    by (cases "validate_retention_capacity b"; cases "checked_mul (pb_max_inflight_reads b) 3") (auto simp: PoolBuilder_validate_def not_less)
  have mark: "watermark b \<le> ucast (pb_frame_count b) \<longleftrightarrow>
      max (unat (pb_max_concurrent_readers b) * unat (pb_peak_guards_per_reader b) + unat (pb_miss_headroom b)) 1
        + unat (pb_max_retained_frames b) \<le> unat (pb_frame_count b)"
    by (simp add: word_le_nat_alt unat_watermark unat_ucast_64)
  have le: "committed_frames b \<le> max (unat (pb_max_concurrent_readers b) * unat (pb_peak_guards_per_reader b)
      + unat (pb_miss_headroom b)) 1 + unat (pb_max_retained_frames b)"
    by (simp add: committed_frames_def)
  have fit: "c + h \<le> f \<longleftrightarrow> h \<le> f - c" if "c \<le> m" "m \<le> f" for c m f h :: nat
    using that by auto
  have add: "checked_add (pb_max_inflight_reads b) (pb_max_inflight_product_ops b) \<noteq> None
      \<longleftrightarrow> unat (pb_max_inflight_reads b) + unat (pb_max_inflight_product_ops b) < 2 ^ 32"
    by (simp add: checked_add_def)
  have sector: "SECTOR_BYTES \<le> pb_granule b \<longleftrightarrow> 4096 \<le> unat (pb_granule b)"
    by (simp add: SECTOR_BYTES_def word_le_nat_alt)
  have granule: "\<exists>n < 32. unat (pb_granule b) = 2 ^ n"
    using True by (simp add: is_power_of_two_iff)
  show ?thesis
    using step prefetch_accepts [OF pos] fit [OF le] granule unfolding head mark retention_accepts add sector
    by (cases "pb_prefetch_headroom b") auto
qed

end
