(* ===== verification/Driver_Build.thy ===== *)
theory Driver_Build
  imports Driver Pool_Config
begin

text \<open>
  Construction of the driver: \<open>DriverBuilder\<close>, the arena lock and the posture it selects, and the
  fixed storage of \<open>Shared\<close>, \<open>DriverCore\<close> and the eager backend.  What the host answers (whether an
  allocation or a lock succeeds, the memory-lock limit, the identity counter) is a \<open>BuildEnv\<close>.
\<close>

section \<open>Results inside panics\<close>

definition and_then :: "('e + 'a) option \<Rightarrow> ('a \<Rightarrow> ('e + 'b) option) \<Rightarrow> ('e + 'b) option" where
  "and_then m f = (case m of None \<Rightarrow> None | Some (Inl e) \<Rightarrow> Some (Inl e) | Some (Inr x) \<Rightarrow> f x)"

definition ok_or :: "'a option \<Rightarrow> 'e \<Rightarrow> 'e + 'a" where
  "ok_or m e = (case m of None \<Rightarrow> Inl e | Some x \<Rightarrow> Inr x)"

lemma and_then_Ok: "and_then m f = Some (Ok y) \<longleftrightarrow> (\<exists>x. m = Some (Ok x) \<and> f x = Some (Ok y))"
  by (auto simp: and_then_def split: option.splits sum.splits)

lemma and_then_Err: "and_then m f = Some (Err e) \<longleftrightarrow> m = Some (Err e) \<or> (\<exists>x. m = Some (Ok x) \<and> f x = Some (Err e))"
  by (auto simp: and_then_def split: option.splits sum.splits)

lemma ok_or_Ok [simp]: "ok_or m e = Ok x \<longleftrightarrow> m = Some x" "ok_or m e = Err e' \<longleftrightarrow> m = None \<and> e' = e"
  by (auto simp: ok_or_def split: option.splits)

section \<open>What the host answers\<close>

record BuildEnv =
  env_id :: u64
  env_write_arena :: bool
  env_slab :: bool
  env_deferred :: bool
  env_files :: bool
  env_ready :: bool
  env_backlog :: bool
  env_executor :: bool
  env_vectors :: bool
  env_retire :: bool
  env_batch :: bool
  env_lock_frames :: "int + unit"
  env_lock_staging :: "int + unit"
  env_memlock_limit :: u64

text \<open>\<open>next_driver_id\<close>: the process-wide counter, bumped once per construction.\<close>

definition next_driver_id :: "u64 \<Rightarrow> u64 \<times> u64" where
  "next_driver_id counter = (counter, counter + 1)"

section \<open>The arena lock\<close>

definition ENOMEM :: int where "ENOMEM = 12"

datatype ArenaLock = Locked | Refused int

definition into_guard :: "ArenaLock \<Rightarrow> bool" where
  "into_guard l = (case l of Locked \<Rightarrow> True | Refused _ \<Rightarrow> False)"

text \<open>\<open>ArenaLockGuard::try_lock\<close>, with which of the two arenas it leaves locked.\<close>

definition ArenaLockGuard_try_lock :: "int + unit \<Rightarrow> int + unit \<Rightarrow> (int + unit) \<times> bool \<times> bool" where
  "ArenaLockGuard_try_lock frames staging =
     (case frames of
        Inl errno \<Rightarrow> (Inl errno, False, False)
      | Inr _ \<Rightarrow> (case staging of
            Inl errno \<Rightarrow> (Inl errno, False, False)
          | Inr _ \<Rightarrow> (Inr (), True, True)))"

definition registration_policy_after_lock :: "ArenaLock \<Rightarrow> RegistrationPolicy \<Rightarrow> RegistrationPolicy" where
  "registration_policy_after_lock arena_lock policy =
     (if arena_lock = Refused ENOMEM \<and> policy = Auto then Unregistered else policy)"

definition Frames_span_len :: "Frames \<Rightarrow> nat" where
  "Frames_span_len F = unat (f_count F) * unat (f_granule F)"

definition arena_bytes :: "Frames \<Rightarrow> ArenaState \<Rightarrow> u64 option" where
  "arena_bytes F wa = do {
     assert (Frames_span_len F < 2 ^ 64);
     assert (wa_size wa < 2 ^ 64);
     checked_add (of_nat (Frames_span_len F)) (of_nat (wa_size wa))
   }"

datatype DriverBuildError =
    BuildAllocation
  | BuildDriver IoError
  | BuildConfiguration PoolConfigError

definition lock_arenas :: "BuildEnv \<Rightarrow> Frames \<Rightarrow> ArenaState \<Rightarrow> ArenaLockPolicy \<Rightarrow> (DriverBuildError + ArenaLock) option" where
  "lock_arenas env F wa policy = do {
     bytes \<leftarrow> arena_bytes F wa;
     Some (case fst (ArenaLockGuard_try_lock (env_lock_frames env) (env_lock_staging env)) of
         Inr _ \<Rightarrow> Ok Locked
       | Inl errno \<Rightarrow>
           if policy = Required then Err (BuildConfiguration (ArenaLockRefused bytes (env_memlock_limit env)))
           else Ok (Refused errno))
   }"

section \<open>Fixed storage\<close>

definition Eager_new :: "BuildEnv \<Rightarrow> Frames \<Rightarrow> u32 \<Rightarrow> RegistrationPolicy \<Rightarrow> (DriverBuildError + 'file EagerState) option" where
  "Eager_new env F file_capacity registration_policy = do {
     assert (f_count F > 0);
     assert (f_granule F > 0);
     Some (if registration_policy = Registered then Err (BuildConfiguration RegistrationUnsupported)
           else if \<not> env_executor env then Err BuildAllocation
           else Ok \<lparr>eg_files = replicate (unat file_capacity) None\<rparr>)
   }"

text \<open>The part of a driver core that \<open>Shared::try_new\<close> allocates.\<close>

record Shared =
  sh_slab :: "OpEntry CompletionSlab"
  sh_files :: FileTable
  sh_ready :: "u32 list"
  sh_backlog :: "Completion list"
  sh_deferred :: "DeferredCompletion list"

definition Shared_try_new :: "BuildEnv \<Rightarrow> u32 \<Rightarrow> u32 \<Rightarrow> Shared option" where
  "Shared_try_new env ready_capacity file_capacity = do {
     slab \<leftarrow> CompletionSlab_try_with_capacity (env_slab env) ready_capacity;
     deferred \<leftarrow> (if env_deferred env then Some [] else None);
     files \<leftarrow> FileTable_try_with_capacity (env_files env) file_capacity;
     ready \<leftarrow> (if env_ready env then Some [] else None);
     backlog \<leftarrow> (if env_backlog env then Some [] else None);
     Some \<lparr>sh_slab = slab, sh_files = files, sh_ready = ready, sh_backlog = backlog, sh_deferred = deferred\<rparr>
   }"

definition DriverCore_try_new :: "BuildEnv \<Rightarrow> Shared \<Rightarrow> 'file EagerState \<Rightarrow> ArenaState \<Rightarrow> Frames \<Rightarrow> u32 \<Rightarrow> u32 \<Rightarrow> u64 \<Rightarrow>
    (nat \<Rightarrow> nat) \<Rightarrow> 'file DriverCore option option" where
  "DriverCore_try_new env shared executor write_arena arena retry_bound queue_capacity ident schedule = do {
     assert (f_count arena > 0);
     assert (queue_capacity > 0);
     (case checked_add (ucast retry_bound) (1 :: u64) of
        None \<Rightarrow> Some None
      | Some attempts \<Rightarrow>
          (case checked_mul (ucast VECTOR_BYTES_MAX) attempts of
             None \<Rightarrow> Some None
           | Some vector_attempts_max \<Rightarrow> do {
               assert (vector_attempts_max \<ge> ucast VECTOR_BYTES_MAX);
               assert (length (ft_slots (sh_files shared)) < 2 ^ 32);
               (case VectorStorage_try_new (env_vectors env) queue_capacity of
                  None \<Rightarrow> Some None
                | Some vectors \<Rightarrow>
                    Some (if env_retire env \<and> env_batch env
                      then Some \<lparr>dc_slab = sh_slab shared, dc_files = sh_files shared, dc_ready = sh_ready shared,
                        dc_backlog = sh_backlog shared, dc_deferred = sh_deferred shared, dc_vectors = vectors,
                        dc_executor = executor, dc_write_arena = write_arena, dc_arena = arena,
                        dc_retry_bound = retry_bound, dc_queue_capacity = queue_capacity, dc_id = ident,
                        dc_schedule = schedule\<rparr>
                      else None))
             }))
   }"

section \<open>The builder\<close>

record DriverBuilder =
  db_queue_capacity :: u32
  db_frames :: u32
  db_frame_bytes :: u32
  db_write_slots :: u32
  db_retry_bound :: u32
  db_registered_file_capacity :: u32
  db_registration_policy :: RegistrationPolicy
  db_arena_lock :: ArenaLockPolicy
  db_teardown_budget :: nat

text \<open>Durations are in milliseconds.\<close>

definition DEFAULT_TEARDOWN_BUDGET :: nat where
  "DEFAULT_TEARDOWN_BUDGET = 60000"

definition DriverBuilder_default :: DriverBuilder where
  "DriverBuilder_default = \<lparr>db_queue_capacity = 1, db_frames = 1, db_frame_bytes = 4096, db_write_slots = 1,
     db_retry_bound = 0, db_registered_file_capacity = DEFAULT_REGISTERED_FILE_CAPACITY,
     db_registration_policy = Auto, db_arena_lock = BestEffort, db_teardown_budget = DEFAULT_TEARDOWN_BUDGET\<rparr>"

record 'file Driver =
  drv_core :: "'file DriverCore"
  drv_arena_lock :: bool
  drv_teardown_budget :: nat

definition build_with_frames :: "BuildEnv \<Rightarrow> (nat \<Rightarrow> nat) \<Rightarrow> DriverBuilder \<Rightarrow> Frames \<Rightarrow> (DriverBuildError + 'file Driver) option" where
  "build_with_frames env schedule b frames = do {
     assert (f_count frames = db_frames b);
     assert (f_granule frames = db_frame_bytes b);
     assert (db_teardown_budget b \<noteq> 0);
     let ident = fst (next_driver_id (env_id env));
     and_then (map_option (\<lambda>a. ok_or a BuildAllocation)
         (ArenaState_try_preallocated (env_write_arena env) (db_write_slots b) (db_frame_bytes b) ident)) (\<lambda>write_arena.
     and_then (Some (ok_or (Shared_try_new env (db_queue_capacity b) (db_registered_file_capacity b)) BuildAllocation)) (\<lambda>shared.
     and_then (lock_arenas env frames write_arena (db_arena_lock b)) (\<lambda>arena_lock.
     and_then (Eager_new env frames (db_registered_file_capacity b)
         (registration_policy_after_lock arena_lock (db_registration_policy b))) (\<lambda>executor.
     and_then (map_option (\<lambda>c. ok_or c BuildAllocation)
         (DriverCore_try_new env shared executor write_arena frames (db_retry_bound b) (db_queue_capacity b) ident schedule)) (\<lambda>core.
       Some (Ok \<lparr>drv_core = core, drv_arena_lock = into_guard arena_lock, drv_teardown_budget = db_teardown_budget b\<rparr>))))))
   }"

text \<open>\<open>build\<close>: the public builder, whose configuration refusals are unreachable.\<close>

definition DriverBuilder_build :: "BuildEnv \<Rightarrow> (nat \<Rightarrow> nat) \<Rightarrow> bool \<Rightarrow> u32 \<Rightarrow> DriverBuilder \<Rightarrow> (IoError + 'file Driver) option" where
  "DriverBuilder_build env schedule mapped fresh b = do {
     assert (db_queue_capacity b > 0);
     assert (db_frames b > 0);
     assert (db_frame_bytes b > 0);
     assert (db_write_slots b > 0);
     frames \<leftarrow> Frames_try_preallocated mapped fresh (db_frames b) (db_frame_bytes b);
     result \<leftarrow> (case frames of Some f \<Rightarrow> build_with_frames env schedule b f | None \<Rightarrow> Some (Err BuildAllocation));
     (case result of
        Inr d \<Rightarrow> Some (Ok d)
      | Inl BuildAllocation \<Rightarrow> Some (Err (FromKind OutOfMemory []))
      | Inl (BuildDriver error) \<Rightarrow> Some (Err error)
      | Inl (BuildConfiguration _) \<Rightarrow> None)
   }"

text \<open>The driver a pool builder constructs: \<open>PoolBuilder::build\<close> up to the pool's own storage.\<close>

definition PoolBuilder_driver :: "PoolBuilder \<Rightarrow> DriverBuilder" where
  "PoolBuilder_driver b = DriverBuilder_default\<lparr>db_frames := pb_frame_count b, db_frame_bytes := pb_granule b,
     db_queue_capacity := max (saturating_add (pb_max_inflight_reads b) (pb_max_inflight_product_ops b)) 1,
     db_write_slots := max (pb_write_slots b) 1, db_registered_file_capacity := pb_registered_file_capacity b,
     db_registration_policy := pb_registration_policy b, db_arena_lock := pb_arena_lock b\<rparr>"

definition PoolBuilder_build_driver :: "BuildEnv \<Rightarrow> (nat \<Rightarrow> nat) \<Rightarrow> bool \<Rightarrow> u32 \<Rightarrow> PoolBuilder \<Rightarrow>
    (PoolBuildError + Frames \<times> 'file Driver) option" where
  "PoolBuilder_build_driver env schedule mapped fresh b =
     and_then (map_option (map_sum PoolConfiguration id) (PoolBuilder_validate b)) (\<lambda>_.
     and_then (map_option (\<lambda>f. ok_or f PoolAllocation) (Frames_try_preallocated mapped fresh (pb_frame_count b) (pb_granule b))) (\<lambda>frames.
     and_then (map_option (map_sum (\<lambda>error. case error of
           BuildAllocation \<Rightarrow> PoolAllocation
         | BuildDriver error \<Rightarrow> PoolDriver error
         | BuildConfiguration error \<Rightarrow> PoolConfiguration error) id)
       (build_with_frames env schedule (PoolBuilder_driver b) frames)) (\<lambda>d.
       Some (Ok (frames, d)))))"

section \<open>Opening and creating files\<close>

definition EMFILE :: int where "EMFILE = 24"

definition file_registration_error_into_io :: "FileRegistrationError \<Rightarrow> IoError" where
  "file_registration_error_into_io error = (case error of AtCapacity \<Rightarrow> FromRaw EMFILE | Io e \<Rightarrow> e)"

text \<open>\<open>opened\<close> is the answer of the open system call; \<open>create_with_direct_io\<close> differs from
  \<open>open_with_direct_io\<close> only in the flags of that call.\<close>

definition create_with_direct_io :: "'file DriverCore \<Rightarrow> IoError + 'file \<Rightarrow> IoError + IoMode \<Rightarrow>
    ((FileRegistrationError + FileHandle) \<times> 'file DriverCore) option" where
  "create_with_direct_io d created probed = open_with_direct_io d created probed"

definition Driver_open :: "'file DriverCore \<Rightarrow> IoError + 'file \<Rightarrow> IoError + IoMode \<Rightarrow> ((IoError + FileHandle) \<times> 'file DriverCore) option" where
  "Driver_open d opened probed = map_option (map_prod (map_sum file_registration_error_into_io id) id) (open_with_direct_io d opened probed)"

section \<open>A built driver\<close>

lemma Shared_try_new_Some:
  assumes "Shared_try_new env n m = Some shared"
  shows "CompletionSlab_try_with_capacity True n = Some (sh_slab shared)" "FileTable_try_with_capacity True m = Some (sh_files shared)"
    "sh_ready shared = []" "sh_backlog shared = []" "sh_deferred shared = []"
  using assms by (auto simp: Shared_try_new_def bind_Some_iff CompletionSlab_try_with_capacity_def FileTable_try_with_capacity_def split: if_splits)

lemma Eager_new_Ok: "Eager_new env F n policy = Some (Ok ex) \<Longrightarrow> eg_files ex = replicate (unat n) None"
  by (auto simp: Eager_new_def bind_Some_iff split: if_splits)

lemma DriverCore_try_new_Some:
  assumes "DriverCore_try_new env shared ex wa F r q ident sched = Some (Some d)"
  shows "dc_slab d = sh_slab shared" "dc_files d = sh_files shared" "dc_ready d = sh_ready shared" "dc_backlog d = sh_backlog shared"
    "dc_deferred d = sh_deferred shared" "dc_executor d = ex" "dc_write_arena d = wa" "dc_arena d = F" "dc_queue_capacity d = q"
    "dc_retry_bound d = r" "dc_id d = ident" "dc_schedule d = sched"
  using assms by (auto simp: DriverCore_try_new_def bind_Some_iff split: option.splits if_splits)

lemma build_with_frames_Ok:
  assumes "build_with_frames env sched b F = Some (Ok drv)"
  obtains wa shared where "ArenaState_try_preallocated True (db_write_slots b) (db_frame_bytes b) (env_id env) = Some (Some wa)"
    "Shared_try_new env (db_queue_capacity b) (db_registered_file_capacity b) = Some shared"
    "dc_slab (drv_core drv) = sh_slab shared" "dc_files (drv_core drv) = sh_files shared" "dc_ready (drv_core drv) = []"
    "dc_backlog (drv_core drv) = []" "dc_deferred (drv_core drv) = []" "dc_write_arena (drv_core drv) = wa"
    "eg_files (dc_executor (drv_core drv)) = replicate (unat (db_registered_file_capacity b)) None"
    "dc_queue_capacity (drv_core drv) = db_queue_capacity b" "dc_arena (drv_core drv) = F"
proof -
  obtain wa shared lock ex core where wa: "ArenaState_try_preallocated (env_write_arena env) (db_write_slots b) (db_frame_bytes b) (env_id env) = Some (Some wa)"
    and sh: "Shared_try_new env (db_queue_capacity b) (db_registered_file_capacity b) = Some shared"
    and ex: "Eager_new env F (db_registered_file_capacity b) (registration_policy_after_lock lock (db_registration_policy b)) = Some (Ok ex)"
    and core: "DriverCore_try_new env shared ex wa F (db_retry_bound b) (db_queue_capacity b) (env_id env) sched = Some (Some core)"
    and d: "drv_core drv = core"
    using assms by (auto simp: build_with_frames_def bind_Some_iff Let_def and_then_Ok next_driver_id_def)
  have "ArenaState_try_preallocated True (db_write_slots b) (db_frame_bytes b) (env_id env) = Some (Some wa)"
    using wa by (auto simp: ArenaState_try_preallocated_def bind_Some_iff Let_def split: if_splits)
  then show thesis
    using that [OF _ sh] DriverCore_try_new_Some [OF core] Shared_try_new_Some [OF sh] Eager_new_Ok [OF ex] d by simp
qed

section \<open>Building never panics\<close>

lemma and_then_total: "m \<noteq> None \<Longrightarrow> (\<And>x. m = Some (Ok x) \<Longrightarrow> f x \<noteq> None) \<Longrightarrow> and_then m f \<noteq> None"
  by (auto simp: and_then_def split: option.splits sum.splits)

lemma power_of_two_le:
  assumes "is_power_of_two (g :: u32)"
  shows "unat g \<le> 2 ^ 31"
proof -
  obtain n where "n < 32" "unat g = 2 ^ n"
    using assms by (auto simp: is_power_of_two_iff)
  then show ?thesis
    using power_increasing [of n 31 "2 :: nat"] by simp
qed

lemma span_bound:
  fixes g n :: u32
  assumes "is_power_of_two g"
  shows "unat n * unat g \<le> 2 ^ 63 - unat g" "unat n * unat g < 2 ^ 63"
proof -
  have "Suc (unat n) \<le> 2 ^ 32"
    using unat_u32 [of n] by simp
  then have "Suc (unat n) * unat g \<le> 2 ^ 32 * 2 ^ 31"
    by (rule mult_le_mono) (rule power_of_two_le [OF assms])
  then have "unat g + unat n * unat g \<le> 2 ^ 63"
    by simp
  then show "unat n * unat g \<le> 2 ^ 63 - unat g" "unat n * unat g < 2 ^ 63"
    using is_power_of_two_pos [OF assms] by simp_all
qed

lemma lock_arenas_total:
  assumes "is_power_of_two (f_granule F)" "is_power_of_two (wa_granule wa)" "wa_size wa = unat (n :: u32) * unat (wa_granule wa)"
  shows "lock_arenas env F wa policy \<noteq> None"
proof -
  have b: "Frames_span_len F < 2 ^ 63" "wa_size wa < 2 ^ 63"
    using span_bound(2) [OF assms(1), of "f_count F"] span_bound(2) [OF assms(2), of n] assms(3) by (simp_all add: Frames_span_len_def)
  then have "unat (of_nat (Frames_span_len F) :: u64) = Frames_span_len F" "unat (of_nat (wa_size wa) :: u64) = wa_size wa"
    by (simp_all add: unat_of_nat take_bit_nat_eq_self)
  then have "arena_bytes F wa \<noteq> None"
    using b by (simp add: arena_bytes_def checked_add_def)
  then show ?thesis
    by (auto simp: lock_arenas_def)
qed

lemma build_with_frames_total:
  assumes geo: "f_count F = db_frames b" "f_granule F = db_frame_bytes b" and pos: "db_frames b > 0" "db_queue_capacity b > 0" "db_write_slots b > 0"
    and g: "is_power_of_two (db_frame_bytes b)" and budget: "db_teardown_budget b \<noteq> 0"
  shows "(build_with_frames env sched b F :: (DriverBuildError + 'file Driver) option) \<noteq> None"
proof -
  let ?arena = "ArenaState_try_preallocated (env_write_arena env) (db_write_slots b) (db_frame_bytes b) (env_id env)"
  have a: "?arena = Some (if env_write_arena env then Some \<lparr>wa_free = replicate (unat (db_write_slots b)) True,
      wa_size = unat (db_write_slots b) * unat (db_frame_bytes b), wa_granule = db_frame_bytes b, wa_owner = env_id env, wa_waiters = 0\<rparr> else None)"
    using span_bound [OF g, of "db_write_slots b"] pos(3) g by (simp add: ArenaState_try_preallocated_def Let_def)
  have lock: "lock_arenas env F wa policy \<noteq> None" if "?arena = Some (Some wa)" for wa policy
    using that g geo by (intro lock_arenas_total [where n = "db_write_slots b"]) (auto simp: a split: if_splits)
  have gp: "db_frame_bytes b > 0"
    using is_power_of_two_pos [OF g] by (simp add: word_less_nat_alt)
  have eager: "(Eager_new env F n policy :: (DriverBuildError + 'file EagerState) option) \<noteq> None" for n policy
    using geo pos gp by (simp add: Eager_new_def)
  have core: "DriverCore_try_new env shared ex wa F (db_retry_bound b) (db_queue_capacity b) ident sched \<noteq> None"
    if sh: "Shared_try_new env (db_queue_capacity b) (db_registered_file_capacity b) = Some shared" for shared wa ident and ex :: "'file EagerState"
  proof -
    have len: "length (ft_slots (sh_files shared)) < 2 ^ 32"
      using ft_new(3) [OF Shared_try_new_Some(2) [OF sh]] unat_u32 [of "db_registered_file_capacity b"] by simp
    have big: "ucast VECTOR_BYTES_MAX \<le> (x :: u64)" if "checked_mul (ucast VECTOR_BYTES_MAX) y = Some x" "checked_add (ucast r) 1 = Some y" for x y and r :: u32
    proof -
      have y: "1 \<le> unat y"
        using that(2) by (auto simp: checked_add_Some unat_add_small)
      have "unat x = unat (ucast VECTOR_BYTES_MAX :: u64) * unat y"
        using that(1) by (auto simp: checked_mul_Some unat_mul_small)
      then show ?thesis
        using mult_le_mono2 [OF y, of "unat (ucast VECTOR_BYTES_MAX :: u64)"] by (simp add: word_le_nat_alt)
    qed
    show ?thesis
      using geo pos len big [of _ _ "db_retry_bound b"] by (auto simp: DriverCore_try_new_def split: option.splits)
  qed
  show ?thesis
    unfolding build_with_frames_def Let_def next_driver_id_def fst_conv
      assert_bind_holds [OF geo(1)] assert_bind_holds [OF geo(2)] assert_bind_holds [OF budget]
  proof (intro and_then_total)
    show "map_option (\<lambda>m. ok_or m BuildAllocation) ?arena \<noteq> None"
      by (simp add: a)
  qed (use lock eager core in \<open>simp_all del: not_None_eq\<close>)
qed

lemma validated_geometry:
  assumes "PoolBuilder_validate b = Some (Ok ())"
  shows "is_power_of_two (pb_granule b)" "SECTOR_BYTES \<le> pb_granule b" "0 < pb_frame_count b"
proof -
  show "is_power_of_two (pb_granule b)" "SECTOR_BYTES \<le> pb_granule b"
    using assms by (auto simp: PoolBuilder_validate_def split: if_splits)
  have "watermark b \<le> ucast (pb_frame_count b)"
    using assms by (auto simp: PoolBuilder_validate_def not_less split: if_splits sum.splits option.splits)
  then have "1 \<le> unat (pb_frame_count b)"
    using unat_watermark [of b] by (auto simp: word_le_nat_alt unat_ucast_64)
  then show "0 < pb_frame_count b"
    by (simp add: word_less_nat_alt)
qed

lemma try_preallocated_total:
  assumes "count > 0" "is_power_of_two granule" "SECTOR_BYTES \<le> granule"
  shows "Frames_try_preallocated mapped fresh count granule \<noteq> None"
    "Frames_try_preallocated mapped fresh count granule = Some (Some F) \<Longrightarrow> f_count F = count \<and> f_granule F = granule"
  using assms by (auto simp: Frames_try_preallocated_def split: if_splits)

lemma Auto_never_refused:
  assumes "db_registration_policy b = Auto" "db_arena_lock b = BestEffort"
  shows "build_with_frames env sched b F \<noteq> Some (Err (BuildConfiguration error))"
proof
  have lock: "lock_arenas env F wa BestEffort \<noteq> Some (Err e)" for wa e
    by (auto simp: lock_arenas_def bind_Some_iff split: sum.splits)
  have eager: "Eager_new env F n (registration_policy_after_lock l Auto) \<noteq> Some (Err (BuildConfiguration error))" for n l
    by (auto simp: Eager_new_def registration_policy_after_lock_def bind_Some_iff split: if_splits)
  assume "build_with_frames env sched b F = Some (Err (BuildConfiguration error))"
  then show False
    using assms lock eager by (auto simp: build_with_frames_def and_then_Err Let_def bind_Some_iff)
qed


definition sample_env :: BuildEnv where
  "sample_env = \<lparr>env_id = 7, env_write_arena = True, env_slab = True, env_deferred = True, env_files = True, env_ready = True,
     env_backlog = True, env_executor = True, env_vectors = True, env_retire = True, env_batch = True,
     env_lock_frames = Inl 12, env_lock_staging = Inr (), env_memlock_limit = 65536\<rparr>"


end
