(* ===== verification/Driver_Props.thy ===== *)
theory Driver_Props
  imports Driver_Safety Driver_Build
begin

text \<open>
  What the driver invariant gives over every history of a built driver: each accepted operation is
  in exactly one place until it is finished once, the locked phases do not panic, files outlive
  their operations, and the completions retained inside the driver fit its capacity.
\<close>

section \<open>Histories\<close>

definition initial_sys :: "'file DriverCore \<Rightarrow> 'file driver_sys" where
  "initial_sys d = \<lparr>ds_core = d, ds_active = Map.empty, ds_leases = {}, ds_opening = [], ds_retiring = [], ds_finishing = [],
     ds_writers = {}, ds_issued = [], ds_finished = []\<rparr>"

definition driver_start :: "'file driver_sys \<Rightarrow> bool" where
  "driver_start s \<longleftrightarrow> (\<exists>env sched b F drv. build_with_frames env sched b F = Some (Ok drv)
     \<and> unat (db_queue_capacity b) < 2 ^ 31 \<and> s = initial_sys (drv_core drv))"

lemma fresh_peek:
  assumes "CompletionSlab_try_with_capacity True n = Some slab"
  shows "slab_peek slab = Map.empty"
  using assms by (auto simp: CompletionSlab_try_with_capacity_def slab_peek_eq fun_eq_iff)

lemma driver_inv_start:
  assumes "driver_start s"
  shows "driver_inv s"
proof -
  obtain env sched b F drv where b: "build_with_frames env sched b F = Some (Ok drv)" and q: "unat (db_queue_capacity b) < 2 ^ 31"
    and s: "s = initial_sys (drv_core drv)"
    using assms by (auto simp: driver_start_def)
  obtain wa shared where d: "ArenaState_try_preallocated True (db_write_slots b) (db_frame_bytes b) (env_id env) = Some (Some wa)"
    "Shared_try_new env (db_queue_capacity b) (db_registered_file_capacity b) = Some shared"
    "dc_slab (drv_core drv) = sh_slab shared" "dc_files (drv_core drv) = sh_files shared" "dc_ready (drv_core drv) = []"
    "dc_backlog (drv_core drv) = []" "dc_deferred (drv_core drv) = []" "dc_write_arena (drv_core drv) = wa"
    "eg_files (dc_executor (drv_core drv)) = replicate (unat (db_registered_file_capacity b)) None"
    "dc_queue_capacity (drv_core drv) = db_queue_capacity b" "dc_arena (drv_core drv) = F"
    by (rule build_with_frames_Ok [OF b])
  note sh = Shared_try_new_Some [OF d(2)]
  note slab = slab_inv_new [OF sh(1)] fresh_peek [OF sh(1)] and files = ft_new [OF sh(2)]
  have t: "sh_files shared = \<lparr>ft_slots = replicate (unat (db_registered_file_capacity b)) \<lparr>fd_generation = 0, fd_state = Free, fd_inflight = 0\<rparr>\<rparr>"
    using sh(2) by (simp add: FileTable_try_with_capacity_def)
  have "files_inv s" "due_inv s" "backend_inv s"
    using files by (simp_all add: s initial_sys_def files_inv_def due_inv_def backend_inv_def Let_def d slab on_file_def due_files_def t)
  moreover have "ops_inv s"
    using slab q by (simp add: s initial_sys_def ops_inv_def Let_def d in_state_def backlog_tokens_def)
  moreover have "source_slots (\<lambda>_. None) = Map.empty"
    by (simp add: source_slots_def fun_eq_iff)
  then have "tokens_inv s" "resources_inv s"
    using slab arena_new [OF d(1)] by (simp_all add: s initial_sys_def tokens_inv_def resources_inv_def Let_def d)
  ultimately show ?thesis
    by (simp add: driver_inv_def)
qed

interpretation driver_runs: guarded_system driver_start driver_step driver_inv
  by unfold_locales (auto intro: driver_inv_start driver_inv_step)

section \<open>Every operation is in one place\<close>

text \<open>C13. An operation the driver accepted is never lost and never completed twice.  Over every
  interleaving of submissions, executions, reaps, completions, continuations and closes: tokens are
  handed out once and finished at most once; and a token that is not finished has a live slab entry
  which is either queued (once), or executing, or behind one continuation lease or backlog entry,
  and never two of these.\<close>

theorem operations_exactly_once:
  assumes "reachable driver_start driver_step s"
  shows "distinct (ds_issued s) \<and> distinct (ds_finished s) \<and> set (ds_finished s) \<subseteq> set (ds_issued s)
    \<and> (\<forall>token \<in> set (ds_issued s) - set (ds_finished s).
        \<exists>e. ops (ds_core s) (OpToken_slot token) = Some e \<and> slab_contains (dc_slab (ds_core s)) token = Some True
          \<and> (count_list (dc_ready (ds_core s)) (OpToken_slot token) = (if oe_state e = Queued then 1 else 0))
          \<and> (ds_active s (OpToken_slot token) \<noteq> None \<longleftrightarrow> oe_state e = Active)
          \<and> (token \<in> ds_leases s \<or> token \<in> set (backlog_tokens (dc_backlog (ds_core s))) \<longleftrightarrow> oe_state e \<noteq> Queued \<and> oe_state e \<noteq> Active)
          \<and> \<not> (token \<in> ds_leases s \<and> token \<in> set (backlog_tokens (dc_backlog (ds_core s))))
          \<and> distinct (backlog_tokens (dc_backlog (ds_core s))))"
proof -
  let ?d = "ds_core s"
  have inv: "driver_inv s"
    using assms by (rule driver_runs.reachable_inv)
  then have t: "tokens_inv s" and o: "ops_inv s"
    by (simp_all add: driver_inv_def)
  note o' = ops_invD [OF o]
  have "\<exists>e. ops ?d (OpToken_slot token) = Some e \<and> slab_contains (dc_slab ?d) token = Some True
          \<and> (count_list (dc_ready ?d) (OpToken_slot token) = (if oe_state e = Queued then 1 else 0))
          \<and> (ds_active s (OpToken_slot token) \<noteq> None \<longleftrightarrow> oe_state e = Active)
          \<and> (token \<in> ds_leases s \<or> token \<in> set (backlog_tokens (dc_backlog ?d)) \<longleftrightarrow> oe_state e \<noteq> Queued \<and> oe_state e \<noteq> Active)
          \<and> \<not> (token \<in> ds_leases s \<and> token \<in> set (backlog_tokens (dc_backlog ?d))) \<and> distinct (backlog_tokens (dc_backlog ?d))"
    if tok: "token \<in> set (ds_issued s) - set (ds_finished s)" for token
  proof -
    have live: "token \<in> slab_live (dc_slab ?d)"
      using t tok by (simp add: tokens_inv_def)
    then obtain sl e where sl: "token = OpToken_new sl (slab_gen (dc_slab ?d) sl)" "ops ?d sl = Some e"
      by (auto simp: slab_live_eq)
    have st: "sl \<in> in_state (ops ?d) Q \<longleftrightarrow> Q (oe_state e)" for Q
      using sl(2) by (rule in_state_mem)
    have ready: "count_list (dc_ready ?d) sl = (if oe_state e = Queued then 1 else 0)"
      using o'(4,5) st [of "\<lambda>x. x = Queued"] by (simp add: distinct_count_atmost_1 count_list_0_iff flip: count_mset)
    have act: "ds_active s sl \<noteq> None \<longleftrightarrow> oe_state e = Active"
      using o'(6) st [of "\<lambda>x. x = Active"] by (metis domIff)
    have "token \<in> (\<lambda>sl. OpToken_new sl (slab_gen (dc_slab ?d) sl)) ` in_state (ops ?d) leased \<longleftrightarrow> leased (oe_state e)"
      unfolding sl(1) st [of leased, symmetric] by auto
    moreover have "leased (oe_state e) \<longleftrightarrow> oe_state e \<noteq> Queued \<and> oe_state e \<noteq> Active"
      by (cases "oe_state e") simp_all
    ultimately have lease: "token \<in> ds_leases s \<or> token \<in> set (backlog_tokens (dc_backlog ?d)) \<longleftrightarrow> oe_state e \<noteq> Queued \<and> oe_state e \<noteq> Active"
      using o'(9) by blast
    show ?thesis
      using sl ready act lease live_slot [OF live] o'(7,8) by auto
  qed
  then show ?thesis
    using t by (simp add: tokens_inv_def)
qed

section \<open>The locked phases do not panic\<close>

lemma prepare_total:
  assumes inv: "driver_inv s"
  shows "prepare_next staging (ds_core s) \<noteq> None"
proof (cases "dc_ready (ds_core s)")
  case Nil
  then show ?thesis by (simp add: prepare_next_def)
next
  case (Cons sl rest)
  let ?d = "ds_core s"
  have o: "ops_inv s" and r: "resources_inv s"
    using inv by (simp_all add: driver_inv_def)
  have "sl \<in> in_state (ops ?d) (\<lambda>st. st = Queued)"
    using ops_invD(5) [OF o] Cons by auto
  then obtain e where e: "ops ?d sl = Some e" "oe_state e = Queued"
    by (auto simp: in_state_def)
  have res: "entry_res (wa_granule (dc_write_arena ?d)) (oe_frame e) e"
    using entry_res_at [OF r e(1)] inactive_frame [OF o e(1)] e(2) by simp
  obtain upd where upd: "\<And>e'. slab_update (dc_slab ?d) sl e' = Some (upd e')"
    using slab_update_defined [OF e(1)] by metis
  show ?thesis
  proof (cases "oe_kind e")
    case Read
    then obtain f where "oe_frame e = Some f"
      using res e(2) by (auto simp: entry_res_def)
    then show ?thesis
      using Read e upd by (auto simp: prepare_next_def Cons Let_def)
  next
    case Write
    then obtain w where w: "oe_write_slot e = Some w" "unat (oe_destination_offset e) + unat (oe_requested_len e) = unat (wa_granule (dc_write_arena ?d))"
      using res by (auto simp: entry_res_def)
    have "w \<in> ran (source_slots (ops ?d))"
      using w(1) e(1) by (intro ranI [where a = sl]) (simp add: source_slots_def)
    then have a: "arena_inv (dc_write_arena ?d)" "w \<in> arena_slots (dc_write_arena ?d)"
      using r unfolding resources_inv_def Let_def by blast+
    have "region (dc_write_arena ?d) w (oe_destination_offset e) (oe_requested_len e) \<noteq> None"
      using w(2) a(2) by (subst region_Some [OF a(1)]) (auto simp: arena_slots_def word_le_nat_alt unat_sub_le)
    then show ?thesis
      using Write e upd w(1) unat_u32 [of "oe_requested_len e"] by (auto simp: prepare_next_def Cons Let_def OpContext_write_def)
  next
    case Fsync
    then show ?thesis
      using e upd by (auto simp: prepare_next_def Cons Let_def)
  qed
qed

lemma deferred_room:
  assumes "ops_inv s" "ops (ds_core s) sl = Some e"
  shows "length (dc_deferred (ds_core s)) < unat (dc_queue_capacity (ds_core s))"
proof -
  have "0 < card (dom (ops (ds_core s)))"
    using assms(2) by (auto simp: card_gt_0_iff finite_u32)
  then show ?thesis
    using ops_invD(10) [OF assms(1)] by linarith
qed

lemma slab_reclaim_defined: "ops d sl = Some e \<Longrightarrow> slab_inv (dc_slab d) \<Longrightarrow> \<exists>t slab. slab_reclaim (dc_slab d) sl = Some ((t, e), slab)"
  by (rule slab_reclaim_map) blast+

lemma drop_total:
  assumes inv: "driver_inv s" and t: "token \<in> ds_leases s"
  shows "ReadContinuation_drop (ds_core s) token \<noteq> None"
proof -
  let ?d = "ds_core s"
  have o: "ops_inv s" and r: "resources_inv s" and f: "files_inv s"
    using inv by (simp_all add: driver_inv_def)
  obtain e where e: "ops ?d (OpToken_slot token) = Some e" "leased (oe_state e)" "token \<in> slab_live (dc_slab ?d)"
    by (rule lease_slot [OF o t])
  obtain t' slab where rec: "slab_reclaim (dc_slab ?d) (OpToken_slot token) = Some ((t', e), slab)"
    using slab_reclaim_defined [OF e(1) ops_invD(1) [OF o]] by blast
  obtain fs where fs: "ft_at (dc_files ?d) (oe_fd e) = Some fs" "0 < fd_inflight fs"
    by (rule files_invD [OF f e(1)])
  have frame: "oe_frame e = None"
    using entry_res_at [OF r e(1)] e(2) by (cases "oe_kind e") (auto simp: entry_res_def)
  show ?thesis
    using live_slot [OF e(3)] e(1,2) deferred_room [OF o e(1)] frame
    by (cases "oe_state e") (simp_all add: ReadContinuation_drop_def release_read_lease_def rec FileTable_on_complete_at [OF fs])
qed

lemma retire_total:
  assumes inv: "driver_inv s" and fid: "fid \<in> set (ds_retiring s)"
  obtains ex files where "Eager_retire_file (dc_executor (ds_core s)) (slot fid) = Some ex"
    "FileTable_finish_retire (dc_files (ds_core s)) fid = Some files"
proof -
  let ?d = "ds_core s"
  have i: "due_inv s" "backend_inv s"
    using inv by (simp_all add: driver_inv_def)
  have due: "fid \<in> set (due_files s)"
    using fid by (simp add: due_files_def)
  obtain fs where fs: "ft_at (dc_files ?d) fid = Some fs" "fd_state fs = Closing" "fd_inflight fs = 0"
    by (rule due_file [OF i(1) due])
  note at = ft_at_SomeD [OF fs(1)]
  have "unat (slot fid) \<notin> (unat \<circ> slot) ` set (ds_opening s @ ds_finishing s)"
  proof
    assume "unat (slot fid) \<in> (unat \<circ> slot) ` set (ds_opening s @ ds_finishing s)"
    then obtain x where x: "slot x = slot fid" "x \<in> set (ds_opening s) \<or> x \<in> set (ds_finishing s)"
      by (auto simp: unat_slot_eq)
    moreover have "x \<notin> set (ds_opening s)"
      using x(1) at fs(2) by (auto elim!: opening_file [OF i(1)] dest!: ft_at_SomeD)
    moreover have "x = fid" if "x \<in> set (ds_finishing s)"
      using due_slot_distinct [OF i(1) finishing_due [OF that] due x(1)] .
    moreover have "fid \<notin> set (ds_finishing s)"
      using due_distinct [OF i(1)] fid by (auto simp: due_files_def)
    ultimately show False by blast
  qed
  then have "eg_files (dc_executor ?d) ! unat (slot fid) \<noteq> None" "unat (slot fid) < length (eg_files (dc_executor ?d))"
    using i(2) at fs(2) unfolding backend_inv_def Let_def by auto
  then obtain ex where "Eager_retire_file (dc_executor ?d) (slot fid) = Some ex"
    by (simp add: Eager_retire_file_def)
  then show thesis
    using that FileTable_finish_retire_at [OF fs] by blast
qed

text \<open>Flushing the deferred completions is a sequence of steps of the system.\<close>

lemma flush_steps:
  assumes "driver_inv s"
  shows "\<exists>s'. flush_deferred_loop n (ds_core s) = Some (ds_core s') \<and> driver_step\<^sup>*\<^sup>* s s'"
  using assms
proof (induction n arbitrary: s)
  case 0
  then show ?case by auto
next
  case (Suc n)
  show ?case
  proof (cases "dc_deferred (ds_core s)")
    case Nil
    then show ?thesis by auto
  next
    case (Cons c rest)
    define s1 where "s1 = s\<lparr>ds_core := (ds_core s)\<lparr>dc_deferred := rest\<rparr>,
      ds_retiring := (if df_retire c then [df_fd c] else []) @ ds_retiring s\<rparr>"
    have step1: "driver_step s s1"
      unfolding s1_def by (rule st_pop_deferred [OF Cons])
    have inv1: "driver_inv s1"
      by (rule driver_inv_step [OF step1 Suc(2)])
    show ?thesis
    proof (cases "df_retire c")
      case False
      then have "flush_deferred_loop (Suc n) (ds_core s) = flush_deferred_loop n (ds_core s1)"
        by (simp add: Cons s1_def)
      then show ?thesis
        using Suc(1) [OF inv1] step1 by (metis converse_rtranclp_into_rtranclp)
    next
      case True
      then have fid: "df_fd c \<in> set (ds_retiring s1)"
        by (simp add: s1_def)
      obtain ex files where ret: "Eager_retire_file (dc_executor (ds_core s1)) (slot (df_fd c)) = Some ex"
        "FileTable_finish_retire (dc_files (ds_core s1)) (df_fd c) = Some files"
        by (rule retire_total [OF inv1 fid])
      define s2 where "s2 = s1\<lparr>ds_core := (ds_core s1)\<lparr>dc_executor := ex\<rparr>, ds_retiring := remove1 (df_fd c) (ds_retiring s1),
        ds_finishing := df_fd c # ds_finishing s1\<rparr>"
      define s3 where "s3 = s2\<lparr>ds_core := (ds_core s2)\<lparr>dc_files := files\<rparr>, ds_finishing := remove1 (df_fd c) (ds_finishing s2)\<rparr>"
      have step2: "driver_step s1 s2"
        unfolding s2_def by (rule st_retire_file [OF fid ret(1)])
      have step3: "driver_step s2 s3"
        unfolding s3_def by (rule st_finish_retire) (simp_all add: s2_def ret(2))
      have inv3: "driver_inv s3"
        using driver_inv_step step2 step3 inv1 by blast
      have "flush_deferred_loop (Suc n) (ds_core s) = flush_deferred_loop n (ds_core s3)"
        using ret True by (simp add: Cons s1_def s2_def s3_def retire_def)
      then show ?thesis
        using Suc(1) [OF inv3] step1 step2 step3 by (metis converse_rtranclp_into_rtranclp)
    qed
  qed
qed

lemma reachable_steps:
  assumes "step\<^sup>*\<^sup>* s s'" "reachable start step s"
  shows "reachable start step s'"
  using assms by (induction rule: rtranclp_induct) (auto intro: reachable.step)

lemma backlog_room:
  assumes o: "ops_inv s" and act: "ds_active s sl = Some frame"
  shows "length (dc_backlog (ds_core s)) < unat (dc_queue_capacity (ds_core s))"
proof -
  let ?P = "ops (ds_core s)"
  obtain e where e: "?P sl = Some e" "oe_state e = Active"
    by (rule active_entry [OF o act])
  have "sl \<notin> in_state ?P leased" "sl \<in> dom ?P"
    using e in_state_mem [of ?P sl e leased, OF e(1)] by auto
  moreover have "in_state ?P leased \<subseteq> dom ?P"
    by (auto simp: in_state_def)
  ultimately have "in_state ?P leased \<subset> dom ?P"
    by blast
  then have "card (in_state ?P leased) < card (dom ?P)"
    by (intro psubset_card_mono) (rule finite_u32)
  then show ?thesis
    using ops_invD(10) [OF o] backlog_tokens_bound [OF o] length_backlog [of "dc_backlog (ds_core s)"] by linarith
qed

lemma retained_small:
  assumes "ops_inv s"
  shows "length (dc_backlog (ds_core s)) + length (dc_deferred (ds_core s)) < 2 ^ 32"
  using ops_invD(3,10) [OF assms] length_backlog [of "dc_backlog (ds_core s)"] backlog_tokens_bound [OF assms]
    card_in_state [of "ops (ds_core s)" leased] by simp

lemma admit_total:
  assumes "ops_inv s" "driver fd = dc_id (ds_core s)" "unat (slot fd) < length (ft_slots (dc_files (ds_core s)))"
  shows "admit (ds_core s) fd \<noteq> None"
  using assms(2,3) retained_small [OF assms(1)]
  by (auto simp: admit_def assert_own_def FileTable_is_live_def Let_def split: prod.splits option.splits)

text \<open>C14. The locked phases never panic.  In every reachable state of the driver: preparing the next
  operation succeeds, and so do admission of any handle of this driver, dropping any continuation
  lease, and retiring any file reported due; flushing the deferred completions succeeds and ends in
  a reachable state; and the bounded backlog has room for the completion of every executing
  operation, and the deferred queue for every lease.\<close>

theorem locked_phases_total:
  assumes "reachable driver_start driver_step s"
  shows "prepare_next staging (ds_core s) \<noteq> None
    \<and> (\<forall>fd. driver fd = dc_id (ds_core s) \<and> unat (slot fd) < length (ft_slots (dc_files (ds_core s))) \<longrightarrow> admit (ds_core s) fd \<noteq> None)
    \<and> (\<forall>token \<in> ds_leases s. ReadContinuation_drop (ds_core s) token \<noteq> None)
    \<and> (\<forall>fid \<in> set (ds_retiring s). retire (ds_core s) fid \<noteq> None)
    \<and> (\<exists>s'. flush_deferred (ds_core s) = Some (ds_core s') \<and> reachable driver_start driver_step s')
    \<and> (\<forall>sl. ds_active s sl \<noteq> None \<longrightarrow> length (dc_backlog (ds_core s)) < unat (dc_queue_capacity (ds_core s)))
    \<and> (\<forall>token \<in> ds_leases s. length (dc_deferred (ds_core s)) < unat (dc_queue_capacity (ds_core s)))"
proof -
  have inv: "driver_inv s"
    using assms by (rule driver_runs.reachable_inv)
  then have o: "ops_inv s"
    by (simp add: driver_inv_def)
  have "retire (ds_core s) fid \<noteq> None" if fid: "fid \<in> set (ds_retiring s)" for fid
    by (rule retire_total [OF inv fid]) (simp add: retire_def)
  moreover have "length (dc_deferred (ds_core s)) < unat (dc_queue_capacity (ds_core s))" if t: "token \<in> ds_leases s" for token
    by (rule lease_slot [OF o t]) (rule deferred_room [OF o])
  ultimately show ?thesis
    using prepare_total [OF inv] admit_total [OF o] drop_total [OF inv] flush_steps [OF inv] reachable_steps [OF _ assms] backlog_room [OF o]
    unfolding flush_deferred_def by blast
qed

section \<open>Files outlive their operations\<close>

lemma busy_backend:
  assumes inv: "driver_inv s" and e: "ops (ds_core s) sl = Some e"
  shows "\<exists>f. nth_opt (eg_files (dc_executor (ds_core s))) (unat (slot (oe_fd e))) = Some (Some f)"
proof -
  let ?d = "ds_core s" and ?i = "unat (slot (oe_fd e))"
  have i: "files_inv s" "due_inv s" "backend_inv s"
    using inv by (simp_all add: driver_inv_def)
  obtain fs where fs: "ft_at (dc_files ?d) (oe_fd e) = Some fs" "\<not> fd_reusable fs" "0 < fd_inflight fs"
    "oe_fd e \<notin> set (ds_opening s)" "driver (oe_fd e) = dc_id ?d"
    by (rule files_invD [OF i(1) e])
  note at = ft_at_SomeD [OF fs(1)]
  have "x \<notin> set (ds_opening s) \<and> x \<notin> set (ds_finishing s)" if "unat (slot x) = ?i" for x
    using handle_not_opening [OF i(2) fs(1,5,4) that] busy_not_due [OF i(2) fs(1) _ that] fs(3) finishing_due [of x s]
    by (metis word_not_simps(1))
  then have "?i \<notin> (unat \<circ> slot) ` set (ds_opening s @ ds_finishing s)"
    by auto
  then show ?thesis
    using i(3) at fs(2) unfolding backend_inv_def Let_def by auto
qed

text \<open>C15. Files outlive their operations.  In every reachable state: each live operation's file slot
  still carries the operation's file identity, open or closing, and the backend still holds the
  file; its slot is never handed out by an open; each file slot counts exactly its live operations;
  and the retirements waiting to run are exactly the closing files without operations, each once.\<close>

theorem files_outlive_operations:
  assumes "reachable driver_start driver_step s"
  shows "(\<forall>sl e. ops (ds_core s) sl = Some e \<longrightarrow>
        (\<exists>fs f. ft_at (dc_files (ds_core s)) (oe_fd e) = Some fs \<and> (fd_state fs = Open \<or> fd_state fs = Closing) \<and> 0 < fd_inflight fs
          \<and> nth_opt (eg_files (dc_executor (ds_core s))) (unat (slot (oe_fd e))) = Some (Some f))
        \<and> (\<forall>fid files. FileTable_open (dc_files (ds_core s)) (dc_id (ds_core s)) = Some (Some fid, files) \<longrightarrow> slot fid \<noteq> slot (oe_fd e)))
    \<and> (\<forall>i < length (ft_slots (dc_files (ds_core s))). unat (fd_inflight (ft_slots (dc_files (ds_core s)) ! i)) = card (on_file (ops (ds_core s)) i))
    \<and> distinct (map (unat \<circ> slot) (due_files s))
    \<and> (unat \<circ> slot) ` set (due_files s)
        = {i. i < length (ft_slots (dc_files (ds_core s))) \<and> fd_state (ft_slots (dc_files (ds_core s)) ! i) = Closing
            \<and> fd_inflight (ft_slots (dc_files (ds_core s)) ! i) = 0}"
proof -
  let ?d = "ds_core s"
  have inv: "driver_inv s"
    using assms by (rule driver_runs.reachable_inv)
  have i: "files_inv s" "due_inv s" "backend_inv s"
    using inv by (simp_all add: driver_inv_def)
  have "(\<exists>fs f. ft_at (dc_files ?d) (oe_fd e) = Some fs \<and> (fd_state fs = Open \<or> fd_state fs = Closing) \<and> 0 < fd_inflight fs
          \<and> nth_opt (eg_files (dc_executor ?d)) (unat (slot (oe_fd e))) = Some (Some f))
      \<and> (\<forall>fid files. FileTable_open (dc_files ?d) (dc_id ?d) = Some (Some fid, files) \<longrightarrow> slot fid \<noteq> slot (oe_fd e))"
    if e: "ops ?d sl = Some e" for sl e
  proof -
    obtain fs where fs: "ft_at (dc_files ?d) (oe_fd e) = Some fs" "\<not> fd_reusable fs" "0 < fd_inflight fs"
      by (rule files_invD [OF i(1) e])
    have "slot fid \<noteq> slot (oe_fd e)" if op: "FileTable_open (dc_files ?d) (dc_id ?d) = Some (Some fid, files)" for fid files
      by (rule FileTable_open_Some [OF op]) (use i(1) fs(2) ft_at_SomeD [OF fs(1)] in \<open>auto simp: files_inv_def Let_def\<close>)
    moreover have "fd_state fs = Open \<or> fd_state fs = Closing"
      using fs(2) by (cases "fd_state fs") auto
    ultimately show ?thesis
      using fs busy_backend [OF inv e] by blast
  qed
  moreover have "inj_on (unat \<circ> slot) (set (due_files s))"
    using due_slot_distinct [OF i(2)] by (auto intro!: inj_onI simp: unat_slot_eq)
  moreover have "(unat \<circ> slot) ` set (due_files s)
      = {i. i < length (ft_slots (dc_files ?d)) \<and> fd_state (ft_slots (dc_files ?d) ! i) = Closing \<and> fd_inflight (ft_slots (dc_files ?d) ! i) = 0}"
  proof (intro equalityI subsetI)
    fix j assume "j \<in> (unat \<circ> slot) ` set (due_files s)"
    then show "j \<in> {i. i < length (ft_slots (dc_files ?d)) \<and> fd_state (ft_slots (dc_files ?d) ! i) = Closing \<and> fd_inflight (ft_slots (dc_files ?d) ! i) = 0}"
      by (auto elim!: due_file [OF i(2)] dest!: ft_at_SomeD)
  qed (use i(2) in \<open>auto simp: due_inv_def Let_def\<close>)
  moreover have "\<forall>i < length (ft_slots (dc_files ?d)). unat (fd_inflight (ft_slots (dc_files ?d) ! i)) = card (on_file (ops ?d) i)"
    using i(1) by (simp add: files_inv_def Let_def)
  ultimately show ?thesis
    using due_distinct [OF i(2)] by (simp add: distinct_map)
qed

section \<open>A history\<close>

text \<open>A one-slot driver opens a file, accepts a barrier and starts it.\<close>

definition sample_frames :: Frames where
  "sample_frames = \<lparr>f_states = [0], f_pages = [None], f_count = 1, f_granule = 4096, f_id = 1\<rparr>"

definition sample_core :: "FdSlot \<Rightarrow> bool option list \<Rightarrow> OpEntry CompletionSlab \<Rightarrow> u32 list \<Rightarrow> bool DriverCore" where
  "sample_core fs files slab ready = \<lparr>dc_slab = slab, dc_files = \<lparr>ft_slots = [fs]\<rparr>, dc_ready = ready, dc_backlog = [],
     dc_deferred = [], dc_vectors = \<lparr>vs_memory = replicate 32 \<lparr>iov_base = 0, iov_len = 0\<rparr>, vs_slots = 1\<rparr>,
     dc_executor = \<lparr>eg_files = files\<rparr>,
     dc_write_arena = \<lparr>wa_free = [True], wa_size = 4096, wa_granule = 4096, wa_owner = 7, wa_waiters = 0\<rparr>,
     dc_arena = sample_frames, dc_retry_bound = 0, dc_queue_capacity = 1, dc_id = 7, dc_schedule = (\<lambda>n. n)\<rparr>"

abbreviation free_fd :: FdSlot where
  "free_fd \<equiv> \<lparr>fd_generation = 0, fd_state = Free, fd_inflight = 0\<rparr>"

abbreviation free_slab :: "OpEntry CompletionSlab" where
  "free_slab \<equiv> \<lparr>slab_slots = [\<lparr>sl_generation = 0, sl_payload = None\<rparr>], slab_free = [0]\<rparr>"

lemma sample_build: "build_with_frames sample_env (\<lambda>n. n) (DriverBuilder_default\<lparr>db_registered_file_capacity := 1\<rparr>) sample_frames
    = Some (Ok \<lparr>drv_core = sample_core free_fd [None] free_slab [], drv_arena_lock = False, drv_teardown_budget = 60000\<rparr>)"
proof -
  have "is_power_of_two (4096 :: u32)"
    using is_power_of_two_exp [of 12, where 'a = 32] by simp
  then show ?thesis
    by (simp add: build_with_frames_def sample_env_def sample_frames_def DriverBuilder_default_def sample_core_def and_then_def ok_or_def
        next_driver_id_def ArenaState_try_preallocated_def Shared_try_new_def CompletionSlab_try_with_capacity_def
        FileTable_try_with_capacity_def lock_arenas_def arena_bytes_def Frames_span_len_def checked_add_def ArenaLockGuard_try_lock_def
        Eager_new_def registration_policy_after_lock_def ENOMEM_def DriverCore_try_new_def checked_mul_def VECTOR_BYTES_MAX_def
        VectorStorage_try_new_def VECTOR_FRAMES_MAX_def into_guard_def DEFAULT_TEARDOWN_BUDGET_def Let_def)
qed

definition sample_fid :: FileId where
  "sample_fid = FileId_new 7 0 1"

definition held_entry :: "OpState \<Rightarrow> OpEntry" where
  "held_entry st = \<lparr>oe_kind = Fsync, oe_sync_mode = FullSync, oe_fd = sample_fid, oe_file_offset = 0, oe_frame = None,
     oe_destination_offset = 0, oe_requested_len = 0, oe_frame_lease = Absent, oe_write_slot = None, oe_retries = 0,
     oe_io_mode = Buffered, oe_state = st\<rparr>"

definition held_slab :: "OpState \<Rightarrow> OpEntry CompletionSlab" where
  "held_slab st = \<lparr>slab_slots = [\<lparr>sl_generation = 1, sl_payload = Some (held_entry st)\<rparr>], slab_free = []\<rparr>"

abbreviation open_fd :: "u32 \<Rightarrow> FdSlot" where
  "open_fd n \<equiv> \<lparr>fd_generation = 1, fd_state = Open, fd_inflight = n\<rparr>"

definition held_sys :: "bool driver_sys" where
  "held_sys = (initial_sys (sample_core (open_fd 1) [Some True] (held_slab Active) []))
     \<lparr>ds_active := [0 \<mapsto> None], ds_issued := [OpToken_new 0 1]\<rparr>"

lemma sample_reachable: "reachable driver_start driver_step held_sys"
proof -
  let ?s0 = "initial_sys (sample_core free_fd [None] free_slab []) :: bool driver_sys"
  let ?s1 = "(initial_sys (sample_core (open_fd 0) [None] free_slab []))\<lparr>ds_opening := [sample_fid]\<rparr> :: bool driver_sys"
  let ?s2 = "initial_sys (sample_core (open_fd 0) [Some True] free_slab []) :: bool driver_sys"
  let ?s3 = "(initial_sys (sample_core (open_fd 1) [Some True] (held_slab Queued) [0]))\<lparr>ds_issued := [OpToken_new 0 1]\<rparr> :: bool driver_sys"
  note defs = initial_sys_def sample_core_def sample_fid_def FileId_new_def
  have top: "(0 :: u32) < - 1"
    by (simp add: word_less_nat_alt unsigned_minus_1_eq_mask mask_eq_exp_minus_1)
  have "driver_start ?s0"
    unfolding driver_start_def using sample_build
    by (intro exI [of _ sample_env] exI [of _ "\<lambda>n. n"] exI [of _ "DriverBuilder_default\<lparr>db_registered_file_capacity := 1\<rparr>"]
        exI [of _ sample_frames] exI [of _ "\<lparr>drv_core = sample_core free_fd [None] free_slab [], drv_arena_lock = False, drv_teardown_budget = 60000\<rparr>"])
      (simp add: DriverBuilder_default_def)
  then have 0: "reachable driver_start driver_step ?s0"
    by (rule reachable.start)
  have "FileTable_open (dc_files (ds_core ?s0)) (dc_id (ds_core ?s0)) = Some (Some sample_fid, \<lparr>ft_slots = [open_fd 0]\<rparr>)"
    by (simp add: defs FileTable_open_def FileTable_open_from.simps top)
  from reachable.step [OF 0, OF st_reserve [OF this]] have 1: "reachable driver_start driver_step ?s1"
    by (simp add: defs)
  have "Eager_register_file (dc_executor (ds_core ?s1)) (slot sample_fid) True = Some \<lparr>eg_files = [Some True]\<rparr>"
    by (simp add: defs Eager_register_file_def)
  from reachable.step [OF 1, OF st_register [OF _ this]] have 2: "reachable driver_start driver_step ?s2"
    by (simp add: defs)
  have a: "admit (ds_core ?s2) (oe_fd (held_entry Queued)) = Some (Inr 0, (ds_core ?s2)\<lparr>dc_slab := free_slab\<lparr>slab_free := []\<rparr>\<rparr>)"
    by (simp add: defs held_entry_def admit_def assert_own_def FileTable_is_live_def FileTable_total_inflight_def slab_reserve_def Let_def)
  have c: "commit ((ds_core ?s2)\<lparr>dc_slab := free_slab\<lparr>slab_free := []\<rparr>\<rparr>) 0 (held_entry Queued) = Some (OpToken_new 0 1, ds_core ?s3)"
    by (simp add: defs held_entry_def held_slab_def commit_def slab_fill_def FileTable_on_submit_def Let_def top)
  from reachable.step [OF 2, OF st_submit [OF _ _ a c]] have 3: "reachable driver_start driver_step ?s3"
    by (simp add: defs submitted_entry_def held_entry_def)
  have "prepare_next (\<lambda>_. 0) (ds_core ?s3) = Some (Some (0, Fsync, OpContext_fsync sample_fid FullSync), ds_core held_sys)"
    by (simp add: defs held_entry_def held_slab_def held_sys_def prepare_next_def slab_peek_def slab_update_def Let_def)
  from reachable.step [OF 3, OF st_prepare [OF this]] show ?thesis
    by (simp add: defs held_sys_def OpContext_fsync_def)
qed

lemmas sample_defs = held_sys_def initial_sys_def sample_core_def held_slab_def held_entry_def sample_fid_def

theorem operations_exactly_once_witness:
  "slab_contains (dc_slab (ds_core held_sys)) (OpToken_new 0 1) = Some True
   \<and> ds_active held_sys 0 = Some None \<and> OpToken_new 0 1 \<notin> ds_leases held_sys"
  using operations_exactly_once [OF sample_reachable] by (auto simp: sample_defs)

theorem locked_phases_total_witness:
  "prepare_next (\<lambda>_. 0) (ds_core held_sys) \<noteq> None \<and> admit (ds_core held_sys) sample_fid \<noteq> None
   \<and> length (dc_backlog (ds_core held_sys)) < 1"
  using locked_phases_total [OF sample_reachable, of "\<lambda>_. 0"] by (simp add: sample_defs FileId_new_def)

theorem files_outlive_operations_witness:
  "\<exists>fs. ft_at (dc_files (ds_core held_sys)) sample_fid = Some fs \<and> fd_state fs = Open \<and> fd_inflight fs = 1
     \<and> nth_opt (eg_files (dc_executor (ds_core held_sys))) 0 = Some (Some True)"
proof -
  have "ops (ds_core held_sys) 0 = Some (held_entry Active)"
    by (simp add: sample_defs slab_peek_def)
  from conjunct1 [OF files_outlive_operations [OF sample_reachable], rule_format, OF this] show ?thesis
    by (auto simp: sample_defs FileId_new_def ft_at_def)
qed

end
