(* ===== verification/Reclaim.thy ===== *)
theory Reclaim
  imports Frames Epoch
begin

text \<open>
  Reclamation under concurrency.  Readers run the lock-free pin of
  \<open>Pool::pin_owned\<close> and \<open>pin_with_resident_hint\<close> (\<open>pool/mod.rs\<close>) access by access:
  load the global epoch, publish it, look the page up or validate a hint, commit
  or abort, release.  The control plane, serialised by its lock, claims,
  publishes, maps, unmaps, evicts, scans the readers one slot at a time, advances
  the epoch and frees aged frames.  The step relation interleaves them
  arbitrarily over sequentially consistent memory, as the \<open>SeqCst\<close> fences of
  \<open>begin_pin\<close> and \<open>advance_epoch\<close> order the publication against the scan.  The
  page table appears through its contract, as a map; a hit is one of its atomic
  cell reads (theory \<open>Seqlock\<close>).  \<open>r_pub\<close> records the epoch in force when the
  reader published and influences no step.
\<close>

section \<open>The system\<close>

datatype reader_pc =
    PIdle | PLoaded PageId u64 | PBegun PageId bool | PFound PageId bool ReadFrameIdx

record reader_state =
  r_slot :: ReaderSlot
  r_pc :: reader_pc
  r_guards :: "(PageId \<times> ReadFrameIdx) list"
  r_pub :: u64

datatype control_pc =
    CIdle | CPublished PageId ReadFrameIdx | CUnmapped ReadFrameIdx | CEvicting ReadFrameIdx | CScan u64 nat

record ebr =
  frames :: Frames
  mapping :: "PageId \<rightharpoonup> ReadFrameIdx"
  epoch :: u64
  evict_queue :: EvictQueue
  readers :: "reader_state list"
  ctl :: control_pc

abbreviation set_reader :: "nat \<Rightarrow> reader_state \<Rightarrow> ebr \<Rightarrow> ebr" where
  "set_reader i r s \<equiv> s\<lparr>readers := (readers s)[i := r]\<rparr>"

inductive reader_step :: "ebr \<Rightarrow> reader_state \<Rightarrow> reader_state \<Rightarrow> bool" for s where
  r_load: "r_pc r = PIdle \<Longrightarrow> reader_step s r (r\<lparr>r_pc := PLoaded p (epoch s)\<rparr>)"
| r_begin: "r_pc r = PLoaded p e \<Longrightarrow> begin_pin (r_slot r) e = Some (first, sl) \<Longrightarrow>
    reader_step s r (r\<lparr>r_slot := sl, r_pc := PBegun p first, r_pub := (if first then epoch s else r_pub r)\<rparr>)"
| r_lookup: "r_pc r = PBegun p first \<Longrightarrow> mapping s p = Some f \<Longrightarrow>
    reader_step s r (r\<lparr>r_pc := PFound p first f\<rparr>)"
| r_hint: "r_pc r = PBegun p first \<Longrightarrow> validate_resident (frames s) f stamp = Some (Some p) \<Longrightarrow>
    reader_step s r (r\<lparr>r_pc := PFound p first f\<rparr>)"
| r_miss: "r_pc r = PBegun p first \<Longrightarrow> abort_pin (r_slot r) first = Some sl \<Longrightarrow>
    reader_step s r (r\<lparr>r_slot := sl, r_pc := PIdle\<rparr>)"
| r_commit: "r_pc r = PFound p first f \<Longrightarrow> commit_pin (r_slot r) first = Some sl \<Longrightarrow>
    reader_step s r (r\<lparr>r_slot := sl, r_pc := PIdle, r_guards := (p, f) # r_guards r\<rparr>)"
| r_release: "r_pc r = PIdle \<Longrightarrow> g \<in> set (r_guards r) \<Longrightarrow> release_guard (r_slot r) = Some sl \<Longrightarrow>
    reader_step s r (r\<lparr>r_slot := sl, r_guards := remove1 g (r_guards r)\<rparr>)"

inductive control_step :: "ebr \<Rightarrow> ebr \<Rightarrow> bool" where
  c_claim: "ctl s = CIdle \<Longrightarrow> Frames_claim (frames s) f p = Some (Some tok, F) \<Longrightarrow>
    control_step s (s\<lparr>frames := F\<rparr>)"
| c_abort: "ctl s = CIdle \<Longrightarrow> Frames_abort (frames s) tok = Some (f, F) \<Longrightarrow>
    control_step s (s\<lparr>frames := F\<rparr>)"
| c_publish: "ctl s = CIdle \<Longrightarrow> Frames_publish (frames s) tok = Some (f, F) \<Longrightarrow>
    exact_page F f = Some p \<Longrightarrow>
    control_step s (s\<lparr>frames := F, ctl := CPublished p f\<rparr>)"
| c_map: "ctl s = CPublished p f \<Longrightarrow>
    control_step s (s\<lparr>mapping := (mapping s)(p \<mapsto> f), ctl := CIdle\<rparr>)"
| c_unmap: "ctl s = CIdle \<Longrightarrow> mapping s p = Some f \<Longrightarrow>
    control_step s (s\<lparr>mapping := (mapping s)(p := None), ctl := CUnmapped f\<rparr>)"
| c_evict: "ctl s = CUnmapped f \<Longrightarrow> Frames_advance (frames s) f Evicting = Some F \<Longrightarrow>
    control_step s (s\<lparr>frames := F, ctl := CEvicting f\<rparr>)"
| c_push: "ctl s = CEvicting f \<Longrightarrow> EvictQueue_push (evict_queue s) f (epoch s) = Some q \<Longrightarrow>
    control_step s (s\<lparr>evict_queue := q, ctl := CIdle\<rparr>)"
| c_scan_begin: "ctl s = CIdle \<Longrightarrow> control_step s (s\<lparr>ctl := CScan (epoch s) 0\<rparr>)"
| c_scan: "ctl s = CScan e i \<Longrightarrow> i < length (readers s) \<Longrightarrow>
    permits_advance (r_slot (readers s ! i)) e = Some b \<Longrightarrow>
    control_step s (s\<lparr>ctl := (if b then CScan e (Suc i) else CIdle)\<rparr>)"
| c_advance: "ctl s = CScan e (length (readers s)) \<Longrightarrow>
    control_step s (s\<lparr>epoch := e + 1, ctl := CIdle\<rparr>)"

text \<open>The drains.  An aged head of the eviction queue is freed, or left evicted off the queue because
  a retained handle holds it (theory \<open>Retention_System\<close>); such a frame is freed later.\<close>

inductive reclaim_step :: "ebr \<Rightarrow> ebr \<Rightarrow> bool" where
  c_reclaim: "ctl s = CIdle \<Longrightarrow> eq_entries (evict_queue s) = (f, t) # rest \<Longrightarrow>
    \<not> saturating_add t 2 > epoch s \<Longrightarrow> Frames_advance (frames s) f Free = Some F \<Longrightarrow>
    reclaim_step s (s\<lparr>evict_queue := (evict_queue s)\<lparr>eq_entries := rest\<rparr>, frames := F\<rparr>)"
| c_hold: "ctl s = CIdle \<Longrightarrow> eq_entries (evict_queue s) = (f, t) # rest \<Longrightarrow>
    \<not> saturating_add t 2 > epoch s \<Longrightarrow>
    reclaim_step s (s\<lparr>evict_queue := (evict_queue s)\<lparr>eq_entries := rest\<rparr>\<rparr>)"
| c_free_held: "ctl s = CIdle \<Longrightarrow> f \<notin> fst ` set (eq_entries (evict_queue s)) \<Longrightarrow>
    Frames_advance (frames s) f Free = Some F \<Longrightarrow> reclaim_step s (s\<lparr>frames := F\<rparr>)"

inductive ebr_step :: "ebr \<Rightarrow> ebr \<Rightarrow> bool" where
  reader: "i < length (readers s) \<Longrightarrow> reader_step s (readers s ! i) r \<Longrightarrow> ebr_step s (set_reader i r s)"
| control: "control_step s s' \<Longrightarrow> ebr_step s s'"
| reclaim: "reclaim_step s s' \<Longrightarrow> ebr_step s s'"

definition ebr_start :: "ebr \<Rightarrow> bool" where
  "ebr_start s \<longleftrightarrow>
     frames_wf (frames s) \<and> (\<forall>w \<in> set (f_states (frames s)). w = 0)
     \<and> mapping s = Map.empty \<and> epoch s = 0 \<and> eq_entries (evict_queue s) = []
     \<and> readers s \<noteq> []
     \<and> (\<forall>r \<in> set (readers s). slot_quiet (r_slot r) \<and> r_pc r = PIdle \<and> r_guards r = [])
     \<and> ctl s = CIdle"

section \<open>Invariant\<close>

definition holding :: "reader_state \<Rightarrow> (PageId \<times> ReadFrameIdx) set" where
  "holding r = set (r_guards r) \<union> (case r_pc r of PFound p _ f \<Rightarrow> {(p, f)} | _ \<Rightarrow> {})"

fun pinning :: "reader_pc \<Rightarrow> bool option" where
  "pinning (PBegun p first) = Some first"
| "pinning (PFound p first f) = Some first"
| "pinning _ = None"

definition active :: "reader_state \<Rightarrow> bool" where
  "active r \<longleftrightarrow> pinning (r_pc r) \<noteq> None \<or> r_guards r \<noteq> []"

text \<open>A frame a reader holds is published with the reader's page and, once evicted, queued
  with a tag no older than the reader's publication.\<close>

definition frame_held :: "Frames \<Rightarrow> control_pc \<Rightarrow> EvictQueue \<Rightarrow> u64 \<Rightarrow> PageId \<times> ReadFrameIdx \<Rightarrow> bool" where
  "frame_held F c q pub = (\<lambda>(p, f).
     exact_page F f = Some p
     \<and> (st_of F (unat f) = Evicting \<longrightarrow>
          c = CEvicting f \<or> (\<exists>t. (f, t) \<in> set (eq_entries q) \<and> unat pub \<le> unat t)))"

fun scanned :: "control_pc \<Rightarrow> nat \<Rightarrow> bool" where
  "scanned (CScan e k) i \<longleftrightarrow> i < k"
| "scanned _ i \<longleftrightarrow> False"

definition slot_safe :: "u64 \<Rightarrow> control_pc \<Rightarrow> nat \<Rightarrow> reader_state \<Rightarrow> bool" where
  "slot_safe e c i r \<longleftrightarrow>
     unat (guard_count (r_slot r)) = length (r_guards r)
     \<and> (\<forall>first. pinning (r_pc r) = Some first \<longrightarrow> first = (r_guards r = []))
     \<and> (\<forall>p l. r_pc r = PLoaded p l \<longrightarrow> unat l \<le> unat e)
     \<and> (if active r
        then local_epoch (r_slot r) \<noteq> QUIESCENT
           \<and> unat (local_epoch (r_slot r)) \<le> unat (r_pub r) \<and> unat (r_pub r) \<le> unat e
           \<and> unat e \<le> Suc (unat (r_pub r))
           \<and> (scanned c i \<longrightarrow> unat e \<le> unat (r_pub r))
        else local_epoch (r_slot r) = QUIESCENT)"

definition reader_safe :: "ebr \<Rightarrow> nat \<Rightarrow> reader_state \<Rightarrow> bool" where
  "reader_safe s i r \<longleftrightarrow> slot_safe (epoch s) (ctl s) i r
     \<and> (\<forall>h \<in> holding r. frame_held (frames s) (ctl s) (evict_queue s) (r_pub r) h)"

fun ctl_safe :: "ebr \<Rightarrow> control_pc \<Rightarrow> bool" where
  "ctl_safe s (CPublished p f) \<longleftrightarrow> exact_page (frames s) f = Some p \<and> st_of (frames s) (unat f) = Resident"
| "ctl_safe s (CUnmapped f) \<longleftrightarrow> f \<notin> ran (mapping s)"
| "ctl_safe s (CEvicting f) \<longleftrightarrow> f \<notin> ran (mapping s) \<and> st_of (frames s) (unat f) = Evicting
     \<and> unat f < unat (f_count (frames s)) \<and> f \<notin> fst ` set (eq_entries (evict_queue s))"
| "ctl_safe s (CScan e k) \<longleftrightarrow> e = epoch s \<and> (0 < k \<longrightarrow> e \<noteq> QUIESCENT)"
| "ctl_safe s CIdle \<longleftrightarrow> True"

definition map_safe :: "ebr \<Rightarrow> bool" where
  "map_safe s \<longleftrightarrow> (\<forall>p f. mapping s p = Some f \<longrightarrow>
     exact_page (frames s) f = Some p \<and> st_of (frames s) (unat f) = Resident)"

definition queue_safe :: "ebr \<Rightarrow> bool" where
  "queue_safe s \<longleftrightarrow> distinct (map fst (eq_entries (evict_queue s)))
     \<and> (\<forall>(f, t) \<in> set (eq_entries (evict_queue s)).
          st_of (frames s) (unat f) = Evicting \<and> unat f < unat (f_count (frames s)) \<and> unat t \<le> unat (epoch s))"

definition ebr_safe :: "ebr \<Rightarrow> bool" where
  "ebr_safe s \<longleftrightarrow> frames_wf (frames s) \<and> readers s \<noteq> [] \<and> map_safe s \<and> queue_safe s \<and> ctl_safe s (ctl s)
     \<and> (\<forall>i < length (readers s). reader_safe s i (readers s ! i))"

text \<open>A scan past its first reader runs at a real epoch.\<close>

definition scan_ok :: "ebr \<Rightarrow> bool" where
  "scan_ok s \<longleftrightarrow> readers s \<noteq> [] \<and> (\<forall>e k. ctl s = CScan e k \<longrightarrow> e = epoch s \<and> (0 < k \<longrightarrow> e \<noteq> QUIESCENT))"

definition ebr_inv :: "ebr \<Rightarrow> bool" where
  "ebr_inv s \<longleftrightarrow> scan_ok s \<and> (epoch s \<noteq> QUIESCENT \<longrightarrow> ebr_safe s)"

section \<open>Reader steps\<close>

lemma begin_pin_Some:
  "begin_pin r e = Some (first, r') \<longleftrightarrow>
    e \<noteq> QUIESCENT \<and> first = (guard_count r = 0) \<and> r' = (if first then r\<lparr>local_epoch := e\<rparr> else r)"
  by (auto simp: begin_pin_def Let_def)

lemma commit_pin_Some:
  "commit_pin r first = Some r' \<Longrightarrow>
    unat (guard_count r') = Suc (unat (guard_count r)) \<and> local_epoch r' = local_epoch r"
  using unat_add_small [of "guard_count r" 1]
  by (auto simp: commit_pin_def bind_Some_iff checked_add_Some Let_def)

lemma abort_pin_Some:
  "abort_pin r first = Some r' \<Longrightarrow> guard_count r' = guard_count r
    \<and> local_epoch r' = (if first then QUIESCENT else local_epoch r)"
  by (auto simp: abort_pin_def split: if_splits)

lemma release_guard_Some:
  assumes "release_guard r = Some r'"
  shows "Suc (unat (guard_count r')) = unat (guard_count r)"
    "local_epoch r' = (if guard_count r' = 0 then QUIESCENT else local_epoch r)"
proof -
  have "guard_count r \<noteq> 0" "guard_count r' = guard_count r - 1"
    using assms by (auto simp: release_guard_def Let_def split: if_splits)
  then show "Suc (unat (guard_count r')) = unat (guard_count r)"
    using unat_minus_one [of "guard_count r"] unat_gt_0 [of "guard_count r"] by simp
  show "local_epoch r' = (if guard_count r' = 0 then QUIESCENT else local_epoch r)"
    using assms by (auto simp: release_guard_def Let_def split: if_splits)
qed

lemmas pin_effects = begin_pin_Some commit_pin_Some abort_pin_Some release_guard_Some

lemma guards_empty_iff:
  "slot_safe e c i r \<Longrightarrow> r_guards r = [] \<longleftrightarrow> guard_count (r_slot r) = 0"
  by (auto simp: slot_safe_def unat_eq_zero)

lemma slot_safe_step:
  assumes "slot_safe (epoch s) (ctl s) i r" "reader_step s r r'"
  shows "slot_safe (epoch s) (ctl s) i r'"
  using assms(2)
proof cases
  case (r_load p)
  then show ?thesis using assms(1) by (simp add: slot_safe_def active_def)
next
  case (r_begin p e first sl)
  then have "e \<noteq> QUIESCENT" "unat e \<le> unat (epoch s)" "first = (r_guards r = [])"
    "sl = (if first then (r_slot r)\<lparr>local_epoch := e\<rparr> else r_slot r)"
    using assms(1) guards_empty_iff [OF assms(1)] by (auto simp: begin_pin_Some slot_safe_def)
  then show ?thesis
    using assms(1) r_begin(1) by (cases "r_guards r = []") (simp_all add: slot_safe_def active_def)
next
  case (r_miss p first sl)
  then show ?thesis
    using assms(1) abort_pin_Some [OF r_miss(3)] by (auto simp: slot_safe_def active_def)
next
  case (r_commit p first f sl)
  then show ?thesis
    using assms(1) commit_pin_Some [OF r_commit(3)] by (auto simp: slot_safe_def active_def)
next
  case (r_release g sl)
  have ne: "r_guards r \<noteq> []" and count: "unat (guard_count sl) = length (remove1 g (r_guards r))"
    using assms(1) r_release(3) release_guard_Some(1) [OF r_release(4)]
    by (auto simp: slot_safe_def length_remove1)
  then have last: "remove1 g (r_guards r) = [] \<longleftrightarrow> guard_count sl = 0"
    by (metis length_0_conv unat_eq_zero)
  show ?thesis
  proof (cases "guard_count sl = 0")
    case True
    then show ?thesis
      using assms(1) r_release(1, 2) count last release_guard_Some(2) [OF r_release(4)]
      by (simp add: slot_safe_def active_def)
  next
    case False
    then show ?thesis
      using assms(1) r_release(1, 2) ne count last release_guard_Some(2) [OF r_release(4)]
      by (simp add: slot_safe_def active_def)
  qed
qed (use assms(1) in \<open>auto simp: slot_safe_def active_def\<close>)

lemma frame_held_resident:
  "exact_page F f = Some p \<Longrightarrow> st_of F (unat f) = Resident \<Longrightarrow> frame_held F c q pub (p, f)"
  by (simp add: frame_held_def)

text \<open>What a step makes a reader hold was held before, or is resident at this moment.\<close>

lemma holding_step:
  assumes "ebr_safe s" "reader_step s r r'" "h \<in> holding r'"
  shows "(h \<in> holding r \<and> (r_pub r' = r_pub r \<or> holding r' \<subseteq> set (r_guards r)))
    \<or> (exact_page (frames s) (snd h) = Some (fst h) \<and> st_of (frames s) (unat (snd h)) = Resident)"
  using assms(2)
proof cases
  case (r_lookup p first f)
  then show ?thesis
    using assms(1, 3) by (auto simp: holding_def ebr_safe_def map_safe_def)
next
  case (r_hint p first f stamp)
  have "frames_wf (frames s)"
    using assms(1) by (simp add: ebr_safe_def)
  then show ?thesis
    using r_hint assms(3) by (auto simp: holding_def validate_resident_Some exact_page_Some)
next
  case (r_release g sl)
  then show ?thesis
    using assms(3) set_remove1_subset [of g "r_guards r"] by (auto simp: holding_def)
qed (use assms(3) in \<open>auto simp: holding_def\<close>)

lemma reader_step_safe:
  assumes "ebr_safe s" "reader_safe s i r" "reader_step s r r'"
  shows "reader_safe s i r'"
proof -
  have slot: "slot_safe (epoch s) (ctl s) i r'"
    using slot_safe_step [OF _ assms(3)] assms(2) by (simp add: reader_safe_def)
  have "frame_held (frames s) (ctl s) (evict_queue s) (r_pub r') h" if h: "h \<in> holding r'" for h
  proof (cases "r_pub r' = r_pub r")
    case True
    then show ?thesis
      using holding_step [OF assms(1, 3) h] assms(2) frame_held_resident [of "frames s" "snd h" "fst h"]
      by (auto simp: reader_safe_def)
  next
    case False
    then have "r_guards r = []" "holding r' \<subseteq> set (r_guards r)"
      using assms(2, 3) guards_empty_iff [of "epoch s" "ctl s" i r]
      by (auto elim!: reader_step.cases simp: begin_pin_Some holding_def reader_safe_def)
    then show ?thesis using h by auto
  qed
  then show ?thesis
    using slot by (simp add: reader_safe_def)
qed


section \<open>Control steps\<close>

definition touches :: "ReadFrameIdx \<Rightarrow> Frames \<Rightarrow> Frames \<Rightarrow> bool" where
  "touches f F F' \<longleftrightarrow> frames_wf F' \<and> f_count F' = f_count F \<and> (\<forall>j. j \<noteq> unat f \<longrightarrow> frame_kept j F F')"

lemma touches_other:
  assumes "frames_wf F" "touches f F F'" "g \<noteq> f"
  shows "exact_page F' g = exact_page F g" "st_of F' (unat g) = st_of F (unat g)"
proof -
  have kept: "frame_kept (unat g) F F'"
    using assms by (auto simp: touches_def word_unat_eq_iff)
  then show "st_of F' (unat g) = st_of F (unat g)"
    by (simp add: frame_kept_def st_of_def)
  then have "exact_page F' g = Some p \<longleftrightarrow> exact_page F g = Some p" for p
    using assms kept by (simp add: touches_def exact_page_Some frame_kept_def)
  then show "exact_page F' g = exact_page F g"
    by (metis not_None_eq)
qed

lemma claim_touches:
  assumes "frames_wf F" "Frames_claim F f p = Some (Some tok, F')"
  shows "touches f F F'" "st_of F (unat f) = Free"
  using Frames_claim_Some [OF assms] assms(1)
  by (auto simp: touches_def frames_wf_def frame_kept_def)

lemma consume_touches:
  assumes "frames_wf F" "Frames_consume F tok to = Some (f, F')"
  shows "touches f F F'" "st_of F (unat f) = InFlight" "st_of F' (unat f) = to"
  using assms(2) assms(1) unfolding Frames_consume_Some [OF assms(1)]
  by (auto simp: touches_def frames_wf_def frame_kept_def)

lemma advance_touches:
  assumes "frames_wf F" "Frames_advance F f to = Some F'"
  shows "touches f F F'" "st_of F' (unat f) = to"
    "st_of F (unat f) = (if to = Evicting then Resident else Evicting)"
    "f_pages F' = f_pages F" "unat f < unat (f_count F)"
  using assms(2) assms(1) unfolding Frames_advance_Some [OF assms(1)]
  by (auto simp: touches_def frames_wf_def frame_kept_def)

lemma exact_page_state:
  "frames_wf F \<Longrightarrow> exact_page F f = Some p \<Longrightarrow> st_of F (unat f) = Resident \<or> st_of F (unat f) = Evicting"
  by (simp add: exact_page_Some)

text \<open>Rewriting a frame that is neither resident nor evicting disturbs nobody.\<close>

lemma unreferenced_touch:
  assumes "ebr_safe s" "touches f (frames s) F'"
    "st_of (frames s) (unat f) = Free \<or> st_of (frames s) (unat f) = InFlight" "ctl s = CIdle" "c = CIdle \<or> c = CPublished p g"
  shows "frames_wf F'" "map_safe (s\<lparr>frames := F', ctl := c\<rparr>)" "queue_safe (s\<lparr>frames := F', ctl := c\<rparr>)"
    "i < length (readers s) \<Longrightarrow> reader_safe (s\<lparr>frames := F', ctl := c\<rparr>) i (readers s ! i)"
proof -
  have wf: "frames_wf (frames s)" and maps: "map_safe s" and q: "queue_safe s"
    using assms(1) by (auto simp: ebr_safe_def)
  have ne: "g \<noteq> f" if "st_of (frames s) (unat g) = Resident \<or> st_of (frames s) (unat g) = Evicting" for g
    using that assms(3) by auto
  have held_ne: "g \<noteq> f" if "exact_page (frames s) g = Some p" for g p
    using ne exact_page_state [OF wf that] by blast
  note other = touches_other [OF wf assms(2)]
  show "frames_wf F'" using assms(2) by (simp add: touches_def)
  show "map_safe (s\<lparr>frames := F', ctl := c\<rparr>)"
    using maps other ne by (auto simp: map_safe_def)
  show "queue_safe (s\<lparr>frames := F', ctl := c\<rparr>)"
    using q other ne assms(2) by (fastforce simp: queue_safe_def touches_def)
  show "reader_safe (s\<lparr>frames := F', ctl := c\<rparr>) i (readers s ! i)" if i: "i < length (readers s)"
  proof -
    have safe: "reader_safe s i (readers s ! i)"
      using assms(1) i by (simp add: ebr_safe_def)
    have "frame_held F' c (evict_queue s) pub h" if "frame_held (frames s) CIdle (evict_queue s) pub h" for h pub
      using that other held_ne by (auto simp: frame_held_def)
    moreover have "scanned c i = scanned CIdle i"
      using assms(5) by auto
    ultimately show ?thesis
      using safe assms(4) by (auto simp: reader_safe_def slot_safe_def)
  qed
qed

lemma safe_frames_unreferenced:
  assumes "ebr_safe s" "touches f (frames s) F'"
    "st_of (frames s) (unat f) = Free \<or> st_of (frames s) (unat f) = InFlight" "ctl s = CIdle"
  shows "ebr_safe (s\<lparr>frames := F'\<rparr>)"
proof -
  have idle: "s\<lparr>frames := F'\<rparr> = s\<lparr>frames := F', ctl := CIdle\<rparr>"
    using assms(4) by (cases s) simp
  show ?thesis
    using unreferenced_touch [OF assms, of CIdle] assms(1) by (subst idle) (simp add: ebr_safe_def)
qed

lemma safe_publish:
  assumes "ebr_safe s" "ctl s = CIdle" "Frames_publish (frames s) tok = Some (f, F')" "exact_page F' f = Some p"
  shows "ebr_safe (s\<lparr>frames := F', ctl := CPublished p f\<rparr>)"
proof -
  have wf: "frames_wf (frames s)" using assms(1) by (simp add: ebr_safe_def)
  note t = consume_touches [OF wf assms(3) [unfolded Frames_publish_def]]
  show ?thesis
    using unreferenced_touch [OF assms(1) t(1) disjI2 [OF t(2)] assms(2), of "CPublished p f" p f] assms(1, 4) t(3)
    by (simp add: ebr_safe_def)
qed

text \<open>Control steps that leave the frames alone.\<close>

lemma reader_safe_cong:
  assumes "reader_safe s i r" "epoch s' = epoch s" "frames s' = frames s"
    "set (eq_entries (evict_queue s)) \<subseteq> set (eq_entries (evict_queue s'))"
    "scanned (ctl s') i \<longrightarrow> scanned (ctl s) i" "\<And>f. ctl s \<noteq> CEvicting f"
  shows "reader_safe s' i r"
proof -
  have "frame_held (frames s') (ctl s') (evict_queue s') (r_pub r) h"
    if "frame_held (frames s) (ctl s) (evict_queue s) (r_pub r) h" for h
    using that assms(3, 4, 6) by (auto simp: frame_held_def)
  then show ?thesis
    using assms(1, 2, 5) by (auto simp: reader_safe_def slot_safe_def)
qed

lemma readers_safe: "ebr_safe s \<Longrightarrow> i < length (readers s) \<Longrightarrow> reader_safe s i (readers s ! i)"
  by (simp add: ebr_safe_def)

lemma safe_map:
  assumes "ebr_safe s" "ctl s = CPublished p f"
  shows "ebr_safe (s\<lparr>mapping := (mapping s)(p \<mapsto> f), ctl := CIdle\<rparr>)" (is "ebr_safe ?s")
proof -
  have "reader_safe ?s i (readers s ! i)" if "i < length (readers s)" for i
    by (rule reader_safe_cong [OF readers_safe [OF assms(1) that]]) (use assms(2) in auto)
  then show ?thesis
    using assms by (auto simp: ebr_safe_def map_safe_def queue_safe_def)
qed

lemma safe_unmap:
  assumes "ebr_safe s" "ctl s = CIdle" "mapping s p = Some f"
  shows "ebr_safe (s\<lparr>mapping := (mapping s)(p := None), ctl := CUnmapped f\<rparr>)" (is "ebr_safe ?s")
proof -
  have "reader_safe ?s i (readers s ! i)" if "i < length (readers s)" for i
    by (rule reader_safe_cong [OF readers_safe [OF assms(1) that]]) (use assms(2) in auto)
  moreover have "q = p" if "mapping s q = Some f" for q
    using assms(1, 3) that by (metis ebr_safe_def map_safe_def option.inject)
  then have "f \<notin> ran ((mapping s)(p := None))"
    by (auto simp: ran_def)
  ultimately show ?thesis
    using assms by (auto simp: ebr_safe_def map_safe_def queue_safe_def)
qed

lemma safe_scan:
  assumes "ebr_safe s" "ctl s = CScan e k" "k < length (readers s)"
    "permits_advance (r_slot (readers s ! k)) e = Some b"
  shows "ebr_safe (s\<lparr>ctl := (if b then CScan e (Suc k) else CIdle)\<rparr>)" (is "ebr_safe ?s")
proof -
  have e: "e = epoch s" "e \<noteq> QUIESCENT" "b = (local_epoch (r_slot (readers s ! k)) \<in> {QUIESCENT, e})"
    using assms by (auto simp: ebr_safe_def permits_advance_def Let_def)
  have "reader_safe ?s i (readers s ! i)" if i: "i < length (readers s)" for i
  proof -
    have old: "reader_safe s i (readers s ! i)"
      using assms(1) i by (simp add: ebr_safe_def)
    show ?thesis
    proof (cases "b \<and> i = k")
      case True
      then have "active (readers s ! k) \<Longrightarrow> unat e \<le> unat (r_pub (readers s ! k))"
        using old e by (auto simp: reader_safe_def slot_safe_def)
      then show ?thesis
        using old True assms(2) e by (auto simp: reader_safe_def slot_safe_def frame_held_def)
    next
      case False
      then show ?thesis
        by (intro reader_safe_cong [OF old]) (use assms(2) in \<open>auto simp: less_Suc_eq\<close>)
    qed
  qed
  then show ?thesis
    using assms(1) e by (auto simp: ebr_safe_def map_safe_def queue_safe_def)
qed


lemma safe_evict:
  assumes "ebr_safe s" "ctl s = CUnmapped f" "Frames_advance (frames s) f Evicting = Some F'"
  shows "ebr_safe (s\<lparr>frames := F', ctl := CEvicting f\<rparr>)" (is "ebr_safe ?s")
proof -
  have wf: "frames_wf (frames s)" and maps: "map_safe s" and q: "queue_safe s" and unmapped: "f \<notin> ran (mapping s)"
    using assms(1, 2) by (auto simp: ebr_safe_def)
  note t = advance_touches [OF wf assms(3)]
  note other = touches_other [OF wf t(1)]
  have own: "exact_page F' f = exact_page (frames s) f"
    using t wf by (intro option.expand iffD1 [OF not_None_eq] ext)
      (auto simp: exact_page_def checked_index_def touches_def frames_wf_def from_word_st_of page_read_def)
  have "reader_safe ?s i (readers s ! i)" if "i < length (readers s)" for i
  proof -
    have "frame_held F' (CEvicting f) (evict_queue s) pub h"
      if "frame_held (frames s) (CUnmapped f) (evict_queue s) pub h" for pub h
      using that other own by (cases "snd h = f") (auto simp: frame_held_def)
    then show ?thesis
      using readers_safe [OF assms(1) that] assms(2) by (auto simp: reader_safe_def slot_safe_def)
  qed
  moreover have "queue_safe ?s"
  proof -
    have "g \<noteq> f" if "(g, t') \<in> set (eq_entries (evict_queue s))" for g t'
      using q that t(3) by (auto simp: queue_safe_def)
    then show ?thesis
      using q other t(1) by (fastforce simp: queue_safe_def touches_def)
  qed
  moreover have "map_safe ?s"
    using maps other unmapped by (fastforce simp: map_safe_def ran_def)
  moreover have "f \<notin> fst ` set (eq_entries (evict_queue s))"
    using q t(3) by (auto simp: queue_safe_def)
  ultimately show ?thesis
    using assms(1) t unmapped by (simp add: ebr_safe_def touches_def)
qed

lemma safe_push:
  assumes "ebr_safe s" "ctl s = CEvicting f" "EvictQueue_push (evict_queue s) f (epoch s) = Some q"
  shows "ebr_safe (s\<lparr>evict_queue := q, ctl := CIdle\<rparr>)" (is "ebr_safe ?s")
proof -
  have q: "eq_entries q = eq_entries (evict_queue s) @ [(f, epoch s)]"
    using assms(3) by (auto simp: EvictQueue_push_def)
  have ev: "st_of (frames s) (unat f) = Evicting" "f \<notin> fst ` set (eq_entries (evict_queue s))"
    "unat f < unat (f_count (frames s))"
    using assms(1, 2) by (auto simp: ebr_safe_def)
  have "reader_safe ?s i (readers s ! i)" if i: "i < length (readers s)" for i
  proof -
    have old: "reader_safe s i (readers s ! i)"
      using readers_safe [OF assms(1) i] .
    have "frame_held (frames s) CIdle q (r_pub (readers s ! i)) h" if h: "h \<in> holding (readers s ! i)" for h
    proof -
      have "active (readers s ! i)"
        using h by (auto simp: holding_def active_def split: reader_pc.splits)
      then have "unat (r_pub (readers s ! i)) \<le> unat (epoch s)"
        using old by (auto simp: reader_safe_def slot_safe_def)
      then show ?thesis
        using old h q assms(2) by (fastforce simp: reader_safe_def frame_held_def)
    qed
    then show ?thesis
      using old assms(2) by (auto simp: reader_safe_def slot_safe_def)
  qed
  moreover have "queue_safe ?s"
    using assms(1) q ev by (auto simp: ebr_safe_def queue_safe_def)
  ultimately show ?thesis
    using assms(1) by (simp add: ebr_safe_def map_safe_def)
qed

lemma safe_advance:
  assumes "ebr_safe s" "ctl s = CScan e (length (readers s))" "scan_ok s"
  shows "ebr_safe (s\<lparr>epoch := e + 1, ctl := CIdle\<rparr>)" (is "ebr_safe ?s")
proof -
  have e: "e = epoch s" "e \<noteq> QUIESCENT"
    using assms(2, 3) by (auto simp: scan_ok_def)
  then have suc: "unat (e + 1) = Suc (unat (epoch s))"
    using unat_Suc_epoch by simp
  have "reader_safe ?s i (readers s ! i)" if i: "i < length (readers s)" for i
    using readers_safe [OF assms(1) i] assms(2) i suc
    by (auto simp: reader_safe_def slot_safe_def frame_held_def)
  moreover have "queue_safe ?s"
    using assms(1) suc by (fastforce simp: ebr_safe_def queue_safe_def)
  ultimately show ?thesis
    using assms(1) by (simp add: ebr_safe_def map_safe_def)
qed


text \<open>An aged queue entry has no reader, and neither has an evicted frame off the queue.\<close>

lemma aged_unguarded:
  assumes "ebr_safe s" "epoch s \<noteq> QUIESCENT" "ctl s = CIdle" "(f, t) \<in> set (eq_entries (evict_queue s))"
    "\<not> saturating_add t 2 > epoch s" "i < length (readers s)" "h \<in> holding (readers s ! i)"
  shows "snd h \<noteq> f"
proof
  let ?r = "readers s ! i"
  assume h: "snd h = f"
  have q: "queue_safe s" and old: "reader_safe s i ?r"
    using assms(1) readers_safe [OF assms(1, 6)] by (auto simp: ebr_safe_def)
  have "active ?r"
    using assms(7) by (auto simp: holding_def active_def split: reader_pc.splits)
  then have "unat (epoch s) \<le> Suc (unat (r_pub ?r))"
    using old by (auto simp: reader_safe_def slot_safe_def)
  moreover have "unat t + 2 \<le> unat (epoch s)"
    using assms(2, 5) by (simp add: epoch_aged)
  moreover have "t' = t" if "(f, t') \<in> set (eq_entries (evict_queue s))" for t'
    using q that assms(4) by (auto simp: queue_safe_def dest: eq_key_imp_eq_value)
  moreover have "st_of (frames s) (unat f) = Evicting"
    using q assms(4) by (auto simp: queue_safe_def)
  ultimately show False
    using old assms(3, 7) h by (fastforce simp: reader_safe_def frame_held_def)
qed

lemma unqueued_unguarded:
  assumes "ebr_safe s" "ctl s = CIdle" "f \<notin> fst ` set (eq_entries (evict_queue s))"
    "st_of (frames s) (unat f) = Evicting" "i < length (readers s)" "h \<in> holding (readers s ! i)"
  shows "snd h \<noteq> f"
  using readers_safe [OF assms(1, 5)] assms(2, 3, 4, 6) by (force simp: reader_safe_def frame_held_def)

lemma safe_hold:
  assumes "ebr_safe s" "epoch s \<noteq> QUIESCENT" "ctl s = CIdle" "eq_entries (evict_queue s) = (f, t) # rest"
    "\<not> saturating_add t 2 > epoch s"
  shows "ebr_safe (s\<lparr>evict_queue := (evict_queue s)\<lparr>eq_entries := rest\<rparr>\<rparr>)" (is "ebr_safe ?s")
proof -
  have "reader_safe ?s i (readers s ! i)" if i: "i < length (readers s)" for i
  proof -
    have "frame_held (frames s) CIdle ((evict_queue s)\<lparr>eq_entries := rest\<rparr>) pub h"
      if "h \<in> holding (readers s ! i)" "frame_held (frames s) CIdle (evict_queue s) pub h" for h pub
      using aged_unguarded [OF assms(1-3) _ assms(5) i that(1), of f] that(2) assms(4)
      by (auto simp: frame_held_def)
    then show ?thesis
      using readers_safe [OF assms(1) i] assms(3) by (auto simp: reader_safe_def slot_safe_def)
  qed
  then show ?thesis
    using assms(1, 3, 4) by (auto simp: ebr_safe_def map_safe_def queue_safe_def)
qed

lemma safe_free_held:
  assumes "ebr_safe s" "ctl s = CIdle" "f \<notin> fst ` set (eq_entries (evict_queue s))"
    "Frames_advance (frames s) f Free = Some F'"
  shows "ebr_safe (s\<lparr>frames := F'\<rparr>)" (is "ebr_safe ?s")
proof -
  have wf: "frames_wf (frames s)" and maps: "map_safe s" and q: "queue_safe s"
    using assms(1) by (auto simp: ebr_safe_def)
  note tc = advance_touches [OF wf assms(4)]
  note other = touches_other [OF wf tc(1)]
  have "reader_safe ?s i (readers s ! i)" if i: "i < length (readers s)" for i
  proof -
    have "frame_held F' CIdle (evict_queue s) pub h"
      if "h \<in> holding (readers s ! i)" "frame_held (frames s) CIdle (evict_queue s) pub h" for h pub
      using unqueued_unguarded [OF assms(1-3) _ i that(1)] tc(3) that(2) other by (auto simp: frame_held_def)
    then show ?thesis
      using readers_safe [OF assms(1) i] assms(2) by (auto simp: reader_safe_def slot_safe_def)
  qed
  moreover have "queue_safe ?s"
  proof -
    have "g \<noteq> f" if "(g, t) \<in> set (eq_entries (evict_queue s))" for g t
      using assms(3) that by force
    then show ?thesis
      using q other tc(1) by (fastforce simp: queue_safe_def touches_def)
  qed
  moreover have "map_safe ?s"
  proof -
    have "g \<noteq> f" if "mapping s p = Some g" for g p
      using maps that tc(3) by (auto simp: map_safe_def)
    then show ?thesis
      using maps other by (auto simp: map_safe_def)
  qed
  ultimately show ?thesis
    using assms(1, 2) tc(1) by (simp add: ebr_safe_def touches_def)
qed

lemma safe_reclaim:
  assumes "ebr_safe s" "epoch s \<noteq> QUIESCENT" "ctl s = CIdle" "eq_entries (evict_queue s) = (f, t) # rest"
    "\<not> saturating_add t 2 > epoch s" "Frames_advance (frames s) f Free = Some F'"
  shows "ebr_safe (s\<lparr>evict_queue := (evict_queue s)\<lparr>eq_entries := rest\<rparr>, frames := F'\<rparr>)"
proof -
  have "f \<notin> fst ` set rest"
    using assms(1, 4) by (auto simp: ebr_safe_def queue_safe_def)
  then show ?thesis
    using safe_free_held [OF safe_hold [OF assms(1-5)], of f F'] assms(3, 6) by simp
qed

lemma reclaim_step_safe: "reclaim_step s s' \<Longrightarrow> ebr_safe s \<Longrightarrow> epoch s \<noteq> QUIESCENT \<Longrightarrow> ebr_safe s'"
  by (erule reclaim_step.cases) (simp_all add: safe_reclaim safe_hold safe_free_held)

lemma safe_scan_begin:
  assumes "ebr_safe s" "ctl s = CIdle"
  shows "ebr_safe (s\<lparr>ctl := CScan (epoch s) 0\<rparr>)" (is "ebr_safe ?s")
proof -
  have "reader_safe ?s i (readers s ! i)" if "i < length (readers s)" for i
    by (rule reader_safe_cong [OF readers_safe [OF assms(1) that]]) (use assms(2) in auto)
  then show ?thesis
    using assms(1) by (simp add: ebr_safe_def map_safe_def queue_safe_def)
qed

lemma control_step_safe:
  assumes "control_step s s'" "ebr_safe s" "scan_ok s" "epoch s \<noteq> QUIESCENT"
  shows "ebr_safe s'"
  using assms(1)
proof cases
  case (c_claim f p tok F)
  have wf: "frames_wf (frames s)" using assms(2) by (simp add: ebr_safe_def)
  show ?thesis
    using claim_touches [OF wf c_claim(3)] safe_frames_unreferenced assms(2) c_claim by blast
next
  case (c_abort tok f F)
  have wf: "frames_wf (frames s)" using assms(2) by (simp add: ebr_safe_def)
  show ?thesis
    using consume_touches [OF wf c_abort(3) [unfolded Frames_abort_def]] safe_frames_unreferenced
      assms(2) c_abort by blast
qed (use assms in \<open>simp_all add: safe_publish safe_map safe_unmap safe_evict safe_push safe_scan_begin
    safe_scan safe_advance\<close>)

lemma set_reader_safe:
  assumes "ebr_safe s" "i < length (readers s)" "reader_safe s i r"
  shows "ebr_safe (set_reader i r s)"
proof -
  have "reader_safe (set_reader i r s) j r' = reader_safe s j r'" for j r'
    by (simp add: reader_safe_def)
  moreover have "ctl_safe (set_reader i r s) c = ctl_safe s c" for c
    by (cases c) simp_all
  ultimately show ?thesis
    using assms by (auto simp: ebr_safe_def map_safe_def queue_safe_def nth_list_update)
qed


lemma step_scan_ok: "ebr_step s s' \<Longrightarrow> scan_ok s \<Longrightarrow> scan_ok s'"
proof (induction rule: ebr_step.induct)
  case (control s s')
  then show ?case
    by (cases rule: control_step.cases) (auto simp: scan_ok_def permits_advance_def)
next
  case (reclaim s s')
  then show ?case
    by (cases rule: reclaim_step.cases) (auto simp: scan_ok_def)
qed (simp add: scan_ok_def)

text \<open>The epoch never leaves the sentinel once it reached it: the scan asserts on it.\<close>

lemma step_epoch: "ebr_step s s' \<Longrightarrow> scan_ok s \<Longrightarrow> epoch s' \<noteq> QUIESCENT \<Longrightarrow> epoch s \<noteq> QUIESCENT"
proof (induction rule: ebr_step.induct)
  case (control s s')
  then show ?case
    by (cases rule: control_step.cases) (auto simp: scan_ok_def)
next
  case (reclaim s s')
  then show ?case
    by (cases rule: reclaim_step.cases) auto
qed simp

lemma start_safe:
  assumes "ebr_start s"
  shows "ebr_safe s"
proof -
  have "reader_safe s i (readers s ! i)" if "i < length (readers s)" for i
  proof -
    have "slot_quiet (r_slot (readers s ! i))" "r_pc (readers s ! i) = PIdle" "r_guards (readers s ! i) = []"
      using assms that by (auto simp: ebr_start_def)
    then show ?thesis
      by (simp add: reader_safe_def slot_safe_def holding_def active_def slot_quiet_def)
  qed
  then show ?thesis
    using assms by (simp add: ebr_start_def ebr_safe_def map_safe_def queue_safe_def)
qed

interpretation ebr: guarded_system ebr_start ebr_step ebr_inv
proof unfold_locales
  fix s assume "ebr_start s"
  then show "ebr_inv s"
    using start_safe by (simp add: ebr_inv_def scan_ok_def ebr_start_def)
next
  fix s s' assume inv: "ebr_inv s" and step: "ebr_step s s'"
  have ok: "scan_ok s" "scan_ok s'"
    using inv step_scan_ok [OF step] by (auto simp: ebr_inv_def)
  have "ebr_safe s'" if "epoch s' \<noteq> QUIESCENT"
  proof -
    have e: "epoch s \<noteq> QUIESCENT" "ebr_safe s"
      using step_epoch [OF step ok(1) that] inv by (auto simp: ebr_inv_def)
    from step show ?thesis
    proof cases
      case (reader i r)
      then show ?thesis
        using set_reader_safe [OF e(2)] reader_step_safe [OF e(2) readers_safe [OF e(2)]] by blast
    next
      case control
      then show ?thesis
        using control_step_safe e ok by blast
    next
      case reclaim
      then show ?thesis
        using reclaim_step_safe e by blast
    qed
  qed
  then show "ebr_inv s'"
    using ok by (simp add: ebr_inv_def)
qed

section \<open>Properties\<close>

lemma published_not_claimed:
  assumes "frames_wf F" "exact_page F f = Some p"
  shows "Frames_claim F f p' = Some (None, F)"
proof -
  have "unat f < unat (f_count F)" "st_of F (unat f) \<noteq> Free"
    using exact_page_Some [OF assms(1), of f p] assms(2) by auto
  then show ?thesis
    using assms(1) from_word_st_of [of F "unat f"]
    by (simp add: Frames_claim_def claim_unidentified_def checked_index_def frames_wf_def)
qed

text \<open>
  C3.  No frame is reused under a live guard.  In every interleaving of readers
  and the control plane, a frame a reader holds a guard on is still published
  with the very page the reader asked for: it has been neither freed nor claimed
  for another read, so the bytes behind the guard are that page's.  (The epoch
  counter has not reached its sentinel, \<open>2 ^ 64 - 1\<close> advances.)
\<close>

theorem guarded_frame_not_reused:
  assumes "reachable ebr_start ebr_step s" "epoch s \<noteq> QUIESCENT" "i < length (readers s)"
    "(page, f) \<in> set (r_guards (readers s ! i))"
  shows "exact_page (frames s) f = Some page \<and> Frames_claim (frames s) f p = Some (None, frames s)"
proof -
  have safe: "ebr_safe s"
    using ebr.reachable_inv [OF assms(1)] assms(2) by (simp add: ebr_inv_def)
  then have wf: "frames_wf (frames s)" by (simp add: ebr_safe_def)
  have page: "exact_page (frames s) f = Some page"
    using readers_safe [OF safe assms(3)] assms(4)
    by (auto simp: reader_safe_def holding_def frame_held_def)
  with published_not_claimed [OF wf page] show ?thesis
    by simp
qed

text \<open>
  C16.  The epoch scan never trips its ordering assertion: whenever the control
  plane examines a reader at the current epoch, \<open>permits_advance\<close> returns.
\<close>

theorem permits_advance_total:
  assumes "reachable ebr_start ebr_step s" "epoch s \<noteq> QUIESCENT" "i < length (readers s)"
  shows "permits_advance (r_slot (readers s ! i)) (epoch s) \<noteq> None"
proof -
  have safe: "ebr_safe s"
    using ebr.reachable_inv [OF assms(1)] assms(2) by (simp add: ebr_inv_def)
  have "slot_safe (epoch s) (ctl s) i (readers s ! i)"
    using readers_safe [OF safe assms(3)] by (simp add: reader_safe_def)
  then have "local_epoch (r_slot (readers s ! i)) = QUIESCENT \<or> local_epoch (r_slot (readers s ! i)) \<le> epoch s"
    by (auto simp: slot_safe_def word_le_nat_alt split: if_splits)
  then show ?thesis
    using assms(2) by (simp add: permits_advance_def Let_def assert_def)
qed


section \<open>A concrete run\<close>

text \<open>One frame, one reader: read a page in, pin it, evict it under the guard.\<close>

definition run_reader :: "u64 \<Rightarrow> u64 \<Rightarrow> reader_pc \<Rightarrow> (PageId \<times> ReadFrameIdx) list \<Rightarrow> reader_state" where
  "run_reader loc guards pc held =
     \<lparr>r_slot = \<lparr>rs_occupied = True, local_epoch = loc, guard_count = guards, peak_guards_per_reader = 2,
        rs_index = 0\<rparr>, r_pc = pc, r_guards = held, r_pub = 0\<rparr>"

definition run_state ::
  "u64 \<Rightarrow> PageId option \<Rightarrow> (PageId \<rightharpoonup> ReadFrameIdx) \<Rightarrow> (ReadFrameIdx \<times> u64) list \<Rightarrow> reader_state \<Rightarrow> control_pc \<Rightarrow> ebr" where
  "run_state w pg m q r c =
     \<lparr>frames = \<lparr>f_states = [w], f_pages = [pg], f_count = 1, f_granule = 4096, f_id = 1\<rparr>, mapping = m,
      epoch = 0, evict_queue = \<lparr>eq_entries = q, eq_capacity = 1\<rparr>, readers = [r], ctl = c\<rparr>"

lemmas run_simps = run_state_def run_reader_def word_defs from_tag_def frames_wf_def Let_def
  QUIESCENT_def mask_eq_exp_minus_1

lemma run_reachable:
  fixes p :: PageId
  defines "idle \<equiv> run_reader QUIESCENT 0 PIdle []" and "held \<equiv> run_reader 0 1 PIdle [(p, 0)]"
  shows "reachable ebr_start ebr_step (run_state 7 (Some p) Map.empty [(0, 0)] held CIdle)"
proof -
  let ?R = "reachable ebr_start ebr_step" and ?m = "[p \<mapsto> 0]"
  note ctl = reachable.step [where start = ebr_start and step = ebr_step, OF _ control]
  note rdr = reachable.step [where start = ebr_start and step = ebr_step, OF _ reader [of 0]]
  have "?R (run_state 0 None Map.empty [] idle CIdle)"
    by (rule reachable.start) (simp add: ebr_start_def slot_quiet_def idle_def run_simps)
  from ctl [OF this c_claim [of _ 0 p "\<lparr>token_arena = 1, token_frame = 1\<rparr>"]]
  have "?R (run_state 1 (Some p) Map.empty [] idle CIdle)"
    by (simp add: run_simps Frames_claim_def claim_unidentified_def checked_index_def FrameState_advance_def
        InFlightFrame_new_def checked_add_def)
  from ctl [OF this c_publish [of _ "\<lparr>token_arena = 1, token_frame = 1\<rparr>" 0 _ p]]
  have "?R (run_state 6 (Some p) Map.empty [] idle (CPublished p 0))"
    by (simp add: run_simps Frames_publish_def Frames_consume_def owned_index_def FrameState_advance_def
        advance_generation_def checked_add_def InFlightFrame_frame_def exact_page_def checked_index_def page_read_def)
  from ctl [OF this c_map [of _ p 0]] have "?R (run_state 6 (Some p) ?m [] idle CIdle)"
    by (simp add: run_simps)
  from rdr [OF this _ r_load [of _ _ p]]
  have "?R (run_state 6 (Some p) ?m [] (run_reader QUIESCENT 0 (PLoaded p 0) []) CIdle)"
    by (simp add: run_simps idle_def)
  from rdr [OF this _ r_begin [of _ p 0 True]]
  have "?R (run_state 6 (Some p) ?m [] (run_reader 0 0 (PBegun p True) []) CIdle)"
    by (simp add: run_simps begin_pin_def)
  from rdr [OF this _ r_lookup [of _ p True _ 0]]
  have "?R (run_state 6 (Some p) ?m [] (run_reader 0 0 (PFound p True 0) []) CIdle)"
    by (simp add: run_simps)
  from rdr [OF this _ r_commit [of _ p True 0]] have "?R (run_state 6 (Some p) ?m [] held CIdle)"
    by (simp add: run_simps commit_pin_def checked_add_def held_def)
  from ctl [OF this c_unmap [of _ p 0]] have "?R (run_state 6 (Some p) Map.empty [] held (CUnmapped 0))"
    by (simp add: run_simps)
  from ctl [OF this c_evict [of _ 0]] have "?R (run_state 7 (Some p) Map.empty [] held (CEvicting 0))"
    by (simp add: run_simps Frames_advance_def checked_index_def FrameState_advance_def advance_generation_def)
  from ctl [OF this c_push [of _ 0]] show ?thesis
    by (simp add: run_simps EvictQueue_push_def)
qed


definition evicted_under_guard :: ebr where
  "evicted_under_guard = run_state 7 (Some (sample_page 4)) Map.empty [(0, 0)]
     (run_reader 0 1 PIdle [(sample_page 4, 0)]) CIdle"

lemma evicted_under_guard_reachable: "reachable ebr_start ebr_step evicted_under_guard"
  unfolding evicted_under_guard_def by (rule run_reachable)

lemmas evicted_simps = evicted_under_guard_def run_state_def run_reader_def

theorem guarded_frame_not_reused_witness:
  "exact_page (frames evicted_under_guard) 0 = Some (sample_page 4)
   \<and> Frames_claim (frames evicted_under_guard) 0 (sample_page 5) = Some (None, frames evicted_under_guard)"
  by (rule guarded_frame_not_reused [OF evicted_under_guard_reachable, of 0])
    (simp_all add: evicted_simps QUIESCENT_def)

theorem permits_advance_total_witness:
  "permits_advance (r_slot (readers evicted_under_guard ! 0)) (epoch evicted_under_guard) \<noteq> None"
  by (rule permits_advance_total [OF evicted_under_guard_reachable]) (simp_all add: evicted_simps QUIESCENT_def)

end
