(* ===== verification/Wait_State.thy ===== *)
theory Wait_State
  imports Contracts
begin

text \<open>
  The generation latch of \<open>product.rs\<close> on which callers of the pool park: wakes bump a generation, a
  parked caller leaves when the generation moved past the one it armed, and a pending release of a
  retained frame keeps callers from parking.  Every operation below runs under the latch's lock; the
  condition variable and the platform event only make a parked caller look again.  The lifecycle
  counters of the pool are here too.
\<close>

section \<open>The latch\<close>

record WaitCounters =
  parks_entered :: u32
  parks_in_progress :: u32
  parks_exited :: u32
  wake_exits :: u32
  timeout_exits :: u32

record WaitGeneration =
  current :: u64
  consumed :: u64
  ring_pending :: bool

record WaitState =
  latch :: WaitGeneration
  ring_pending_hint :: bool
  counters :: WaitCounters

definition WaitState_default :: WaitState where
  "WaitState_default =
     \<lparr>latch = \<lparr>current = 0, consumed = 0, ring_pending = False\<rparr>, ring_pending_hint = False,
      counters = \<lparr>parks_entered = 0, parks_in_progress = 0, parks_exited = 0, wake_exits = 0, timeout_exits = 0\<rparr>\<rparr>"

definition wake :: "WaitState \<Rightarrow> WaitState" where
  "wake w = w\<lparr>latch := (latch w)\<lparr>current := current (latch w) + 1\<rparr>\<rparr>"

definition publish_ring_pending_and_wake_if_parked :: "WaitState \<Rightarrow> WaitState" where
  "publish_ring_pending_and_wake_if_parked w = (
     let w = w\<lparr>latch := (latch w)\<lparr>ring_pending := True\<rparr>, ring_pending_hint := True\<rparr> in
     if parks_in_progress (counters w) = 0 then w
     else w\<lparr>latch := (latch w)\<lparr>current := current (latch w) + 1\<rparr>\<rparr>)"

definition clear_ring_pending :: "WaitState \<Rightarrow> WaitState" where
  "clear_ring_pending w = w\<lparr>latch := (latch w)\<lparr>ring_pending := False\<rparr>, ring_pending_hint := False\<rparr>"

definition ring_may_be_pending :: "WaitState \<Rightarrow> bool" where
  "ring_may_be_pending w = ring_pending_hint w"

definition consume_current :: "WaitState \<Rightarrow> WaitState" where
  "consume_current w = w\<lparr>latch := (latch w)\<lparr>consumed := current (latch w)\<rparr>\<rparr>"

text \<open>\<open>begin_platform_wait\<close>: \<open>None\<close> is the early return, \<open>Some armed\<close> a parked caller.\<close>

definition begin_platform_wait :: "WaitState \<Rightarrow> u64 option \<times> WaitState" where
  "begin_platform_wait w = (
     let g = latch w; c = counters w in
     if current g \<noteq> consumed g then (None, w\<lparr>latch := g\<lparr>consumed := current g\<rparr>\<rparr>)
     else
       let armed = current g;
           w = w\<lparr>counters := c\<lparr>parks_in_progress := parks_in_progress c + 1\<rparr>\<rparr> in
       if ring_pending (latch w)
       then (None, w\<lparr>counters := (counters w)\<lparr>parks_in_progress := parks_in_progress (counters w) - 1\<rparr>\<rparr>)
       else (Some armed, w\<lparr>counters := (counters w)\<lparr>parks_entered := parks_entered (counters w) + 1\<rparr>\<rparr>))"

definition platform_woken :: "WaitState \<Rightarrow> u64 \<Rightarrow> bool" where
  "platform_woken w armed \<longleftrightarrow> current (latch w) \<noteq> armed"

datatype PlatformWaitOutcome = Progress | Deadline

text \<open>\<open>finish_platform_wait\<close> consumes the generation under the lock and updates the counters after
  releasing it.\<close>

definition finish_platform_lock :: "WaitState \<Rightarrow> u64 \<Rightarrow> bool \<times> WaitState" where
  "finish_platform_lock w armed = (
     let woken = (current (latch w) \<noteq> armed) in
     (woken, if woken then w\<lparr>latch := (latch w)\<lparr>consumed := current (latch w)\<rparr>\<rparr> else w))"

definition exit_park :: "bool \<Rightarrow> WaitState \<Rightarrow> WaitState" where
  "exit_park by_wake w = (
     let c = counters w;
         c = c\<lparr>parks_in_progress := parks_in_progress c - 1, parks_exited := parks_exited c + 1\<rparr> in
     w\<lparr>counters := (if by_wake then c\<lparr>wake_exits := wake_exits c + 1\<rparr>
                    else c\<lparr>timeout_exits := timeout_exits c + 1\<rparr>)\<rparr>)"

definition finish_platform_wait :: "WaitState \<Rightarrow> u64 \<Rightarrow> PlatformWaitOutcome \<Rightarrow> WaitState" where
  "finish_platform_wait w armed outcome = (
     let (woken, w) = finish_platform_lock w armed in exit_park (woken \<or> outcome = Progress) w)"

text \<open>The timed \<open>wait\<close> parks like the platform wait.  Each round of its loop re-examines the latch
  under the lock; \<open>expired\<close> is the clock's or the condition variable's verdict for the round, and
  \<open>None\<close> is another round.\<close>

definition wait_round :: "WaitState \<Rightarrow> u64 \<Rightarrow> bool \<Rightarrow> WaitState option" where
  "wait_round w armed expired =
     (if current (latch w) \<noteq> armed then Some (exit_park True (consume_current w))
      else if expired then Some (exit_park False w)
      else None)"

section \<open>Lifecycle counters\<close>

record LifecycleCounters =
  registered_readers :: u32
  reader_releases :: u32
  live_pending_interests :: u32
  pending_releases :: u32
  backend_ops_in_flight :: u32
  backend_completions :: u32
  quiesce_calls :: u32

definition register_reader_count :: "LifecycleCounters \<Rightarrow> LifecycleCounters" where
  "register_reader_count l = l\<lparr>registered_readers := registered_readers l + 1\<rparr>"

definition release_reader_count :: "LifecycleCounters \<Rightarrow> LifecycleCounters" where
  "release_reader_count l =
     l\<lparr>registered_readers := registered_readers l - 1, reader_releases := reader_releases l + 1\<rparr>"

definition register_pending :: "LifecycleCounters \<Rightarrow> LifecycleCounters" where
  "register_pending l = l\<lparr>live_pending_interests := live_pending_interests l + 1\<rparr>"

definition release_pending :: "LifecycleCounters \<Rightarrow> LifecycleCounters" where
  "release_pending l =
     l\<lparr>live_pending_interests := live_pending_interests l - 1, pending_releases := pending_releases l + 1\<rparr>"

section \<open>Callers and wakers\<close>

text \<open>A caller is out of the latch, parked (with the generation it armed and, as a ghost, the number
  of generations published since), or past the lock of \<open>finish_platform_wait\<close> with its counters still
  to update.\<close>

datatype waiter = Out | Parked u64 nat | Leaving bool

record latch_sys =
  wait_state :: WaitState
  waiters :: "waiter list"

fun age :: "waiter \<Rightarrow> waiter" where
  "age (Parked armed n) = Parked armed (Suc n)"
| "age w = w"

definition bumped :: "WaitState \<Rightarrow> WaitState \<Rightarrow> waiter list \<Rightarrow> waiter list" where
  "bumped w w' ws = (if current (latch w') = current (latch w) then ws else map age ws)"

inductive latch_step :: "latch_sys \<Rightarrow> latch_sys \<Rightarrow> bool" where
  l_wake: "latch_step s (s\<lparr>wait_state := wake (wait_state s), waiters := map age (waiters s)\<rparr>)"
| l_publish: "w = publish_ring_pending_and_wake_if_parked (wait_state s) \<Longrightarrow>
    latch_step s (s\<lparr>wait_state := w, waiters := bumped (wait_state s) w (waiters s)\<rparr>)"
| l_clear: "latch_step s (s\<lparr>wait_state := clear_ring_pending (wait_state s)\<rparr>)"
| l_consume: "latch_step s (s\<lparr>wait_state := consume_current (wait_state s)\<rparr>)"
| l_begin: "i < length (waiters s) \<Longrightarrow> waiters s ! i = Out \<Longrightarrow>
    begin_platform_wait (wait_state s) = (armed, w) \<Longrightarrow>
    latch_step s (s\<lparr>wait_state := w, waiters := (waiters s)[i := (case armed of None \<Rightarrow> Out | Some a \<Rightarrow> Parked a 0)]\<rparr>)"
| l_round: "i < length (waiters s) \<Longrightarrow> waiters s ! i = Parked armed n \<Longrightarrow>
    wait_round (wait_state s) armed expired = Some w \<Longrightarrow>
    latch_step s (s\<lparr>wait_state := w, waiters := (waiters s)[i := Out]\<rparr>)"
| l_finish: "i < length (waiters s) \<Longrightarrow> waiters s ! i = Parked armed n \<Longrightarrow>
    finish_platform_lock (wait_state s) armed = (woken, w) \<Longrightarrow>
    latch_step s (s\<lparr>wait_state := w, waiters := (waiters s)[i := Leaving (woken \<or> outcome = Progress)]\<rparr>)"
| l_leave: "i < length (waiters s) \<Longrightarrow> waiters s ! i = Leaving by_wake \<Longrightarrow>
    latch_step s (s\<lparr>wait_state := exit_park by_wake (wait_state s), waiters := (waiters s)[i := Out]\<rparr>)"

definition latch_start :: "latch_sys \<Rightarrow> bool" where
  "latch_start s \<longleftrightarrow> wait_state s = WaitState_default \<and> length (waiters s) < 2 ^ 32
     \<and> (\<forall>w \<in> set (waiters s). w = Out)"

section \<open>Invariant\<close>

fun in_park :: "waiter \<Rightarrow> bool" where
  "in_park Out = False"
| "in_park _ = True"

fun armed_ok :: "WaitState \<Rightarrow> waiter \<Rightarrow> bool" where
  "armed_ok w (Parked armed n) \<longleftrightarrow> current (latch w) = armed + of_nat n \<and> (ring_pending (latch w) \<longrightarrow> 0 < n)"
| "armed_ok w _ \<longleftrightarrow> True"

definition latch_inv :: "latch_sys \<Rightarrow> bool" where
  "latch_inv s \<longleftrightarrow> length (waiters s) < 2 ^ 32
     \<and> unat (parks_in_progress (counters (wait_state s))) = length (filter in_park (waiters s))
     \<and> (\<forall>x \<in> set (waiters s). armed_ok (wait_state s) x)
     \<and> ring_pending_hint (wait_state s) = ring_pending (latch (wait_state s))"

lemma in_park_age [simp]: "in_park (age w) = in_park w"
  by (cases w) simp_all

lemma in_park_comp_age [simp]: "in_park \<circ> age = in_park"
  by (simp add: fun_eq_iff)

lemma armed_ok_age: "armed_ok w x \<Longrightarrow> current (latch w') = current (latch w) + 1 \<Longrightarrow> armed_ok w' (age x)"
  by (cases x) simp_all

lemma armed_ok_same:
  "armed_ok w x \<Longrightarrow> current (latch w') = current (latch w) \<Longrightarrow>
    (ring_pending (latch w') \<longrightarrow> ring_pending (latch w)) \<Longrightarrow> armed_ok w' x"
  by (cases x) simp_all

text \<open>Steps by one caller.\<close>

lemma latch_inv_waiter:
  assumes "latch_inv s" "i < length (waiters s)" "armed_ok w x"
    "current (latch w) = current (latch (wait_state s))"
    "ring_pending (latch w) = ring_pending (latch (wait_state s))"
    "ring_pending_hint w = ring_pending_hint (wait_state s)"
    "unat (parks_in_progress (counters w)) + (if in_park (waiters s ! i) then 1 else 0)
      = unat (parks_in_progress (counters (wait_state s))) + (if in_park x then 1 else 0)"
  shows "latch_inv (s\<lparr>wait_state := w, waiters := (waiters s)[i := x]\<rparr>)"
proof -
  have "armed_ok w y" if "y \<in> set ((waiters s)[i := x])" for y
    using that assms(1, 3-5) armed_ok_same [of "wait_state s" y w]
    by (auto simp: latch_inv_def dest!: set_update_subset_insert [THEN subsetD])
  then show ?thesis
    using assms length_filter_update [OF assms(2), of in_park x] by (auto simp: latch_inv_def)
qed

text \<open>Steps that leave the callers alone or bump all of them.\<close>

lemma latch_inv_bump:
  assumes "latch_inv s" "current (latch w) = current (latch (wait_state s)) + 1"
    "counters w = counters (wait_state s)" "ring_pending_hint w = ring_pending (latch w)"
  shows "latch_inv (s\<lparr>wait_state := w, waiters := map age (waiters s)\<rparr>)"
  using assms armed_ok_age [of "wait_state s" _ w] by (auto simp: latch_inv_def)

lemma latch_inv_quiet:
  assumes "latch_inv s" "current (latch w) = current (latch (wait_state s))"
    "counters w = counters (wait_state s)" "ring_pending_hint w = ring_pending (latch w)"
    "ring_pending (latch w) \<longrightarrow> ring_pending (latch (wait_state s)) \<or> filter in_park (waiters s) = []"
  shows "latch_inv (s\<lparr>wait_state := w\<rparr>)"
proof -
  have "armed_ok w x" if "x \<in> set (waiters s)" for x
    using that assms by (cases x rule: waiter.exhaust) (auto simp: latch_inv_def filter_empty_conv)
  then show ?thesis
    using assms by (auto simp: latch_inv_def)
qed

lemma parked_counted:
  assumes "latch_inv s" "i < length (waiters s)" "in_park (waiters s ! i)"
  shows "parks_in_progress (counters (wait_state s)) \<noteq> 0"
proof -
  have "waiters s ! i \<in> set (filter in_park (waiters s))"
    using assms(2, 3) by simp
  then have "0 < length (filter in_park (waiters s))"
    by (metis length_pos_if_in_set)
  then show ?thesis
    using assms(1) by (metis latch_inv_def less_irrefl unat_eq_zero)
qed

lemma unat_minus_one_pos: "w \<noteq> 0 \<Longrightarrow> Suc (unat (w - 1)) = unat w" for w :: "'a::len word"
  using unat_minus_one [of w] unat_gt_0 [of w] by simp

lemma exit_park_simps [simp]:
  "latch (exit_park b w) = latch w" "ring_pending_hint (exit_park b w) = ring_pending_hint w"
  "parks_in_progress (counters (exit_park b w)) = parks_in_progress (counters w) - 1"
  by (simp_all add: exit_park_def Let_def)

lemma consume_current_simps [simp]:
  "current (latch (consume_current w)) = current (latch w)"
  "ring_pending (latch (consume_current w)) = ring_pending (latch w)"
  "ring_pending_hint (consume_current w) = ring_pending_hint w"
  "counters (consume_current w) = counters w"
  by (simp_all add: consume_current_def)

lemma latch_inv_begin:
  assumes "latch_inv s" "i < length (waiters s)" "waiters s ! i = Out"
    "begin_platform_wait (wait_state s) = (armed, w)"
  shows "latch_inv (s\<lparr>wait_state := w, waiters := (waiters s)[i := (case armed of None \<Rightarrow> Out | Some a \<Rightarrow> Parked a 0)]\<rparr>)"
proof -
  have "length (filter in_park (waiters s)) < length (waiters s)"
    using assms(2, 3) by (metis in_park.simps(1) length_filter_less nth_mem)
  then have "unat (parks_in_progress (counters (wait_state s))) + 1 < 2 ^ 32"
    using assms(1) by (simp add: latch_inv_def)
  then have "unat (parks_in_progress (counters (wait_state s)) + 1) = unat (parks_in_progress (counters (wait_state s))) + 1"
    using unat_add_small [of "parks_in_progress (counters (wait_state s))" 1] by simp
  then show ?thesis
    using assms(3, 4)
    by (intro latch_inv_waiter [OF assms(1, 2)])
      (auto simp: begin_platform_wait_def Let_def split: if_splits)
qed

lemma latch_inv_step:
  assumes inv: "latch_inv s" and step: "latch_step s s'"
  shows "latch_inv s'"
  using step
proof cases
  case l_wake
  then show ?thesis
    using latch_inv_bump [OF inv, of "wake (wait_state s)"] inv by (simp add: wake_def latch_inv_def)
next
  case (l_publish w)
  show ?thesis
  proof (cases "parks_in_progress (counters (wait_state s)) = 0")
    case True
    then have "filter in_park (waiters s) = []"
      using inv l_publish by (simp add: latch_inv_def)
    then have "latch_inv (s\<lparr>wait_state := w\<rparr>)"
      using inv l_publish True
      by (intro latch_inv_quiet) (auto simp: publish_ring_pending_and_wake_if_parked_def)
    then show ?thesis
      using inv l_publish True by (simp add: bumped_def publish_ring_pending_and_wake_if_parked_def)
  next
    case False
    then have "current (latch w) = current (latch (wait_state s)) + 1"
      "counters w = counters (wait_state s)" "ring_pending_hint w = ring_pending (latch w)"
      using inv l_publish by (auto simp: publish_ring_pending_and_wake_if_parked_def Let_def)
    then show ?thesis
      using latch_inv_bump inv l_publish by (auto simp: bumped_def)
  qed
next
  case l_clear
  then show ?thesis
    using inv latch_inv_quiet [OF inv, of "clear_ring_pending (wait_state s)"]
    by (simp add: clear_ring_pending_def)
next
  case l_consume
  then show ?thesis
    using inv latch_inv_quiet [OF inv, of "consume_current (wait_state s)"] by (simp add: latch_inv_def)
next
  case (l_begin i armed w)
  then show ?thesis
    using latch_inv_begin [OF inv] by simp
next
  case (l_round i armed n expired w)
  show ?thesis
    unfolding l_round(1) using l_round(2-) parked_counted [OF inv] unat_minus_one_pos [of "parks_in_progress (counters (wait_state s))"]
    by (intro latch_inv_waiter [OF inv]) (auto simp: wait_round_def split: if_splits)
next
  case (l_finish i armed n woken w outcome)
  show ?thesis
    unfolding l_finish(1) using l_finish(2-)
    by (intro latch_inv_waiter [OF inv]) (auto simp: finish_platform_lock_def Let_def split: if_splits)
next
  case (l_leave i by_wake)
  show ?thesis
    unfolding l_leave(1) using l_leave(2-) parked_counted [OF inv] unat_minus_one_pos [of "parks_in_progress (counters (wait_state s))"]
    by (intro latch_inv_waiter [OF inv]) auto
qed

interpretation latch_runs: guarded_system latch_start latch_step latch_inv
proof unfold_locales
  fix s assume "latch_start s"
  then show "latch_inv s"
    by (auto simp: latch_start_def latch_inv_def WaitState_default_def filter_empty_conv)
qed (rule latch_inv_step)

section \<open>Properties\<close>

text \<open>
  C19.  No wake-up is lost.  In every interleaving, a parked caller's latch has moved by exactly the
  generations published since it parked; a pending release means at least one was, so unless \<open>2 ^ 64\<close>
  wakes passed meanwhile its next look at the latch, the platform's or the timed one's, lets it go.
\<close>

theorem no_wakeup_lost:
  assumes "reachable latch_start latch_step s" "i < length (waiters s)" "waiters s ! i = Parked armed n" "n < 2 ^ 64"
  shows "(ring_pending (latch (wait_state s)) \<longrightarrow> 0 < n)
    \<and> (platform_woken (wait_state s) armed \<longleftrightarrow> 0 < n)
    \<and> (0 < n \<longrightarrow> wait_round (wait_state s) armed expired \<noteq> None)"
proof -
  have "armed_ok (wait_state s) (waiters s ! i)"
    using latch_runs.reachable_inv [OF assms(1)] assms(2) by (simp add: latch_inv_def)
  then have ok: "current (latch (wait_state s)) = armed + of_nat n" "ring_pending (latch (wait_state s)) \<longrightarrow> 0 < n"
    using assms(3) by auto
  have "(of_nat n :: u64) = 0 \<longleftrightarrow> n = 0"
    using assms(4) by (simp add: word_unat_eq_iff unsigned_of_nat take_bit_nat_eq_self_iff [THEN iffD2])
  then show ?thesis
    using ok by (simp add: platform_woken_def wait_round_def)
qed

text \<open>Two callers; one parks, then a release is published.\<close>

definition parked_sys :: latch_sys where
  "parked_sys =
     \<lparr>wait_state = \<lparr>latch = \<lparr>current = 1, consumed = 0, ring_pending = True\<rparr>, ring_pending_hint = True,
        counters = \<lparr>parks_entered = 1, parks_in_progress = 1, parks_exited = 0, wake_exits = 0, timeout_exits = 0\<rparr>\<rparr>,
      waiters = [Parked 0 1, Out]\<rparr>"

lemma parked_sys_reachable: "reachable latch_start latch_step parked_sys"
proof -
  let ?R = "reachable latch_start latch_step"
  let ?w = "WaitState_default\<lparr>counters := (counters WaitState_default)\<lparr>parks_in_progress := 1, parks_entered := 1\<rparr>\<rparr>"
  have "?R \<lparr>wait_state = WaitState_default, waiters = [Out, Out]\<rparr>"
    by (rule reachable.start) (simp add: latch_start_def)
  from reachable.step [OF this, OF l_begin [where i = 0 and armed = "Some 0" and w = ?w]]
  have "?R \<lparr>wait_state = ?w, waiters = [Parked 0 0, Out]\<rparr>"
    by (simp add: begin_platform_wait_def WaitState_default_def)
  from reachable.step [OF this, OF l_publish [OF refl]] show ?thesis
    by (simp add: parked_sys_def bumped_def publish_ring_pending_and_wake_if_parked_def WaitState_default_def)
qed

theorem no_wakeup_lost_witness:
  "ring_pending (latch (wait_state parked_sys)) \<and> platform_woken (wait_state parked_sys) 0"
  using no_wakeup_lost [OF parked_sys_reachable, of 0 0 1] by (simp add: parked_sys_def)

end
