(* ===== verification/Release_Ring.thy ===== *)
theory Release_Ring
  imports Contracts
begin

text \<open>
  The bounded multi-producer, single-consumer ring of last drops (\<open>ReleaseRing\<close> of
  \<open>pool/retention.rs\<close>), each operation also split into its atomic accesses.  \<open>ring_ok\<close> relates the
  slots to the list of claimed tickets, with the frame each will carry and whether it is published
  yet; the lemmas give the effect of every access on that list.
\<close>

section \<open>The release ring\<close>

definition RING_CAPACITY_MAX :: u32 where
  "RING_CAPACITY_MAX = push_bit 31 1"

record ReleaseSlot =
  slot_sequence :: u64
  slot_frame :: u32

record ReleaseRing =
  ring_slots :: "ReleaseSlot list"
  ring_tail :: u64
  ring_capacity :: u64
  ring_mask :: u64

text \<open>\<open>allocated\<close>: whether the slots could be allocated.\<close>

definition ReleaseRing_try_preallocated :: "bool \<Rightarrow> u32 \<Rightarrow> ReleaseRing option option" where
  "ReleaseRing_try_preallocated allocated max_retained = do {
     assert (max_retained > 0);
     assert (max_retained \<le> RING_CAPACITY_MAX);
     rounded \<leftarrow> checked_next_power_of_two max_retained;
     let capacity = max rounded 2;
     Some (if allocated
           then Some \<lparr>ring_slots = map (\<lambda>i. \<lparr>slot_sequence = of_nat i, slot_frame = 0\<rparr>) [0..<unat capacity],
                      ring_tail = 0, ring_capacity = ucast capacity, ring_mask = ucast (capacity - 1)\<rparr>
           else None)
   }"

definition ring_index :: "ReleaseRing \<Rightarrow> u64 \<Rightarrow> nat" where
  "ring_index r ticket = unat (ticket AND ring_mask r)"

definition ring_slot :: "ReleaseRing \<Rightarrow> u64 \<Rightarrow> ReleaseSlot option" where
  "ring_slot r ticket = nth_opt (ring_slots r) (ring_index r ticket)"

definition ring_update :: "ReleaseRing \<Rightarrow> u64 \<Rightarrow> (ReleaseSlot \<Rightarrow> ReleaseSlot) \<Rightarrow> ReleaseRing option" where
  "ring_update r ticket f = do {
     cell \<leftarrow> ring_slot r ticket;
     slots \<leftarrow> upd_opt (ring_slots r) (ring_index r ticket) (f cell);
     Some (r\<lparr>ring_slots := slots\<rparr>)
   }"

text \<open>\<open>push\<close>: claim a ticket, check the slot's sequence, store the frame, publish the sequence.\<close>

definition push_ticket :: "ReleaseRing \<Rightarrow> (u64 \<times> ReleaseRing) option" where
  "push_ticket r = do {
     let ticket = ring_tail r;
     assert (ticket \<noteq> - 1);
     Some (ticket, r\<lparr>ring_tail := ticket + 1\<rparr>)
   }"

definition push_check :: "ReleaseRing \<Rightarrow> u64 \<Rightarrow> unit option" where
  "push_check r ticket = do { cell \<leftarrow> ring_slot r ticket; assert (slot_sequence cell = ticket) }"

definition push_frame :: "ReleaseRing \<Rightarrow> u64 \<Rightarrow> u32 \<Rightarrow> ReleaseRing option" where
  "push_frame r ticket frame = ring_update r ticket (\<lambda>cell. cell\<lparr>slot_frame := frame\<rparr>)"

definition push_sequence :: "ReleaseRing \<Rightarrow> u64 \<Rightarrow> ReleaseRing option" where
  "push_sequence r ticket = ring_update r ticket (\<lambda>cell. cell\<lparr>slot_sequence := ticket + 1\<rparr>)"

definition ring_push :: "ReleaseRing \<Rightarrow> u32 \<Rightarrow> ReleaseRing option" where
  "ring_push r frame = do {
     (ticket, r) \<leftarrow> push_ticket r;
     push_check r ticket;
     r \<leftarrow> push_frame r ticket frame;
     push_sequence r ticket
   }"

definition is_ready :: "ReleaseRing \<Rightarrow> u64 \<Rightarrow> bool option" where
  "is_ready r consumer = do {
     assert (consumer \<noteq> - 1);
     cell \<leftarrow> ring_slot r consumer;
     Some (slot_sequence cell = consumer + 1)
   }"

text \<open>\<open>pop\<close>: the sequence load is that of \<open>is_ready\<close>; then the frame load, then the slot is handed
  to the ticket one lap later.\<close>

definition pop_frame :: "ReleaseRing \<Rightarrow> u64 \<Rightarrow> u32 option" where
  "pop_frame r cursor = map_option slot_frame (ring_slot r cursor)"

definition pop_advance :: "ReleaseRing \<Rightarrow> u64 \<Rightarrow> (u64 \<times> ReleaseRing) option" where
  "pop_advance r cursor = do {
     assert (cursor \<le> - 1 - ring_capacity r);
     r \<leftarrow> ring_update r cursor (\<lambda>cell. cell\<lparr>slot_sequence := cursor + ring_capacity r\<rparr>);
     Some (cursor + 1, r)
   }"

definition ring_pop :: "ReleaseRing \<Rightarrow> u64 \<Rightarrow> (u32 option \<times> u64 \<times> ReleaseRing) option" where
  "ring_pop r cursor = do {
     filled \<leftarrow> is_ready r cursor;
     if \<not> filled then Some (None, cursor, r)
     else do {
       frame \<leftarrow> pop_frame r cursor;
       (cursor, r) \<leftarrow> pop_advance r cursor;
       Some (Some frame, cursor, r)
     }
   }"

section \<open>The tickets of a ring\<close>

definition ring_shape :: "ReleaseRing \<Rightarrow> bool" where
  "ring_shape r \<longleftrightarrow> (\<exists>k < 32. unat (ring_capacity r) = 2 ^ k) \<and> ring_mask r = ring_capacity r - 1
     \<and> length (ring_slots r) = unat (ring_capacity r)"

definition ring_cell :: "ReleaseRing \<Rightarrow> nat \<Rightarrow> ReleaseSlot" where
  "ring_cell r t = ring_slots r ! (t mod unat (ring_capacity r))"

definition ring_ok :: "ReleaseRing \<Rightarrow> u64 \<Rightarrow> (u32 \<times> bool) list \<Rightarrow> bool" where
  "ring_ok r cursor q \<longleftrightarrow> ring_shape r
     \<and> unat cursor + length q = unat (ring_tail r) \<and> length q \<le> unat (ring_capacity r)
     \<and> (\<forall>j < unat (ring_capacity r).
          unat (slot_sequence (ring_cell r (unat cursor + j)))
            = unat cursor + j + (if j < length q \<and> snd (q ! j) then 1 else 0)
          \<and> (j < length q \<longrightarrow> snd (q ! j) \<longrightarrow> slot_frame (ring_cell r (unat cursor + j)) = fst (q ! j)))"

text \<open>Tickets stay clear of the end of their range.\<close>

definition ring_young :: "ReleaseRing \<Rightarrow> bool" where
  "ring_young r \<longleftrightarrow> unat (ring_tail r) + unat (ring_capacity r) < 2 ^ 64 - 1"

lemma capacity_pos: "ring_shape r \<Longrightarrow> 0 < unat (ring_capacity r)"
  by (auto simp: ring_shape_def)

lemma ring_index_mod: "ring_shape r \<Longrightarrow> ring_index r t = unat t mod unat (ring_capacity r)"
  unfolding ring_shape_def ring_index_def
  by (elim conjE exE) (simp add: unat_and_decr_power_of_two)

lemma ring_slot_cell: "ring_shape r \<Longrightarrow> ring_slot r t = Some (ring_cell r (unat t))"
  using capacity_pos [of r] by (simp add: ring_slot_def ring_index_mod ring_cell_def ring_shape_def)

lemma window_distinct:
  fixes c i j n :: nat
  assumes "i < n" "j < n" "(c + i) mod n = (c + j) mod n"
  shows "i = j"
proof (rule ccontr)
  assume "i \<noteq> j"
  then consider "i < j" | "j < i" by linarith
  then show False
  proof cases
    case 1
    then have "n dvd (c + j) - (c + i)"
      using assms(3) by (metis mod_eq_dvd_iff_nat nat_add_left_cancel_le order_less_imp_le)
    then show ?thesis
      using 1 assms(2) by (auto dest: dvd_imp_le)
  next
    case 2
    then have "n dvd (c + i) - (c + j)"
      using assms(3) by (metis mod_eq_dvd_iff_nat nat_add_left_cancel_le order_less_imp_le)
    then show ?thesis
      using 2 assms(1) by (auto dest: dvd_imp_le)
  qed
qed

lemma ring_update_Some:
  assumes "ring_shape r"
  obtains r' where "ring_update r t f = Some r'" "ring_shape r'" "ring_tail r' = ring_tail r"
    "ring_capacity r' = ring_capacity r"
    "\<forall>u. ring_cell r' u = (if u mod unat (ring_capacity r) = unat t mod unat (ring_capacity r)
        then f (ring_cell r u) else ring_cell r u)"
proof -
  let ?i = "unat t mod unat (ring_capacity r)"
  have i: "?i < length (ring_slots r)"
    using assms capacity_pos [OF assms] by (simp add: ring_shape_def)
  then have upd: "ring_update r t f = Some (r\<lparr>ring_slots := (ring_slots r)[?i := f (ring_slots r ! ?i)]\<rparr>)"
    using assms by (simp add: ring_update_def ring_slot_def ring_index_mod)
  show thesis
    by (rule that [OF upd]) (use assms i in \<open>auto simp: ring_shape_def ring_cell_def nth_list_update\<close>)
qed

lemma cell_window:
  assumes "ring_shape r" "i < unat (ring_capacity r)" "j < unat (ring_capacity r)"
  shows "(c + i) mod unat (ring_capacity r) = (c + j) mod unat (ring_capacity r) \<longleftrightarrow> i = j"
  using window_distinct [of i "unat (ring_capacity r)" j c] assms by auto

section \<open>Accesses\<close>

lemma ring_okD:
  assumes "ring_ok r c q"
  shows "ring_shape r" "unat c + length q = unat (ring_tail r)" "length q \<le> unat (ring_capacity r)"
    "j < unat (ring_capacity r) \<Longrightarrow> unat (slot_sequence (ring_cell r (unat c + j)))
      = unat c + j + (if j < length q \<and> snd (q ! j) then 1 else 0)"
    "j < length q \<Longrightarrow> snd (q ! j) \<Longrightarrow> slot_frame (ring_cell r (unat c + j)) = fst (q ! j)"
  using assms by (auto simp: ring_ok_def)

lemma push_ticket_ok:
  assumes "ring_ok r c q" "length q < unat (ring_capacity r)" "ring_tail r \<noteq> - 1"
  shows "push_ticket r = Some (ring_tail r, r\<lparr>ring_tail := ring_tail r + 1\<rparr>)"
    "ring_ok (r\<lparr>ring_tail := ring_tail r + 1\<rparr>) c (q @ [(f, False)])"
proof -
  show "push_ticket r = Some (ring_tail r, r\<lparr>ring_tail := ring_tail r + 1\<rparr>)"
    using assms(3) by (simp add: push_ticket_def Let_def)
  have "unat (ring_tail r + 1) = Suc (unat (ring_tail r))"
    using assms(3) by (intro below_max_Suc) (simp add: order_less_le)
  then show "ring_ok (r\<lparr>ring_tail := ring_tail r + 1\<rparr>) c (q @ [(f, False)])"
    using assms(1, 2) by (auto simp: ring_ok_def ring_shape_def ring_cell_def nth_append less_Suc_eq)
qed

text \<open>Accesses to the slot of a claimed ticket.\<close>

lemma claimed_ticket:
  assumes "ring_ok r c q" "j < length q" "ring_young r"
  shows "unat (c + of_nat j) = unat c + j" "c + of_nat j \<noteq> - 1"
proof -
  have "unat c + j < 2 ^ 64 - 1"
    using assms ring_okD(2) [OF assms(1)] by (simp add: ring_young_def)
  moreover from this have "unat (of_nat j :: u64) = j"
    by (intro unat_of_nat_below [of _ "- 1"]) (simp add: unsigned_minus_1_eq_mask mask_eq_exp_minus_1)
  ultimately show "unat (c + of_nat j) = unat c + j"
    using unat_add_small [of c "of_nat j"] by simp
  then show "c + of_nat j \<noteq> - 1"
    using \<open>unat c + j < 2 ^ 64 - 1\<close> by (auto simp: word_unat_eq_iff unsigned_minus_1_eq_mask mask_eq_exp_minus_1)
qed

lemma push_check_ok:
  assumes "ring_ok r c q" "j < length q" "\<not> snd (q ! j)" "ring_young r"
  shows "push_check r (c + of_nat j) = Some ()"
proof -
  have "slot_sequence (ring_cell r (unat c + j)) = c + of_nat j"
    using ring_okD(3) [OF assms(1)] ring_okD(4) [OF assms(1), of j] assms claimed_ticket [OF assms(1, 2, 4)]
    by (simp add: word_unat_eq_iff)
  then show ?thesis
    using ring_okD(1) [OF assms(1)] claimed_ticket [OF assms(1, 2, 4)]
    by (simp add: push_check_def ring_slot_cell)
qed

lemma push_frame_ok:
  assumes "ring_ok r c q" "j < length q" "\<not> snd (q ! j)" "ring_young r"
  obtains r' where "push_frame r (c + of_nat j) f = Some r'" "ring_ok r' c q" "ring_tail r' = ring_tail r"
    "ring_capacity r' = ring_capacity r"
    "\<And>i. i < unat (ring_capacity r) \<Longrightarrow> slot_frame (ring_cell r' (unat c + i))
      = (if i = j then f else slot_frame (ring_cell r (unat c + i)))"
proof -
  note ok = ring_okD [OF assms(1)]
  have j: "j < unat (ring_capacity r)"
    using assms(2) ok(3) by simp
  obtain r' where r': "push_frame r (c + of_nat j) f = Some r'" "ring_shape r'" "ring_tail r' = ring_tail r"
    "ring_capacity r' = ring_capacity r"
    "\<forall>u. ring_cell r' u = (if u mod unat (ring_capacity r) = unat (c + of_nat j) mod unat (ring_capacity r)
        then ring_cell r u\<lparr>slot_frame := f\<rparr> else ring_cell r u)"
    unfolding push_frame_def by (rule ring_update_Some [OF ok(1)])
  note cells = r'(5) [rule_format, unfolded claimed_ticket(1) [OF assms(1, 2, 4)]]
  have "ring_ok r' c q"
    using assms(1, 3) r'(2-4) j by (auto simp: ring_ok_def cells cell_window [OF ok(1) _ j])
  moreover have "slot_frame (ring_cell r' (unat c + i)) = (if i = j then f else slot_frame (ring_cell r (unat c + i)))"
    if "i < unat (ring_capacity r)" for i
    using cell_window [OF ok(1) that j] by (simp add: cells)
  ultimately show thesis
    using that r' by blast
qed

lemma push_sequence_ok:
  assumes "ring_ok r c q" "j < length q" "\<not> snd (q ! j)" "ring_young r"
    "slot_frame (ring_cell r (unat c + j)) = fst (q ! j)"
  obtains r' where "push_sequence r (c + of_nat j) = Some r'" "ring_ok r' c (q[j := (fst (q ! j), True)])"
    "ring_tail r' = ring_tail r" "ring_capacity r' = ring_capacity r"
    "\<And>i. slot_frame (ring_cell r' i) = slot_frame (ring_cell r i)"
proof -
  note ok = ring_okD [OF assms(1)]
  have j: "j < unat (ring_capacity r)"
    using assms(2) ok(3) by simp
  note t = claimed_ticket [OF assms(1, 2, 4)]
  have suc: "unat (c + of_nat j + 1) = Suc (unat c + j)"
    using below_max_Suc [of "c + of_nat j"] t by (simp add: order_less_le)
  obtain r' where r': "push_sequence r (c + of_nat j) = Some r'" "ring_shape r'" "ring_tail r' = ring_tail r"
    "ring_capacity r' = ring_capacity r"
    "\<forall>u. ring_cell r' u = (if u mod unat (ring_capacity r) = unat (c + of_nat j) mod unat (ring_capacity r)
        then ring_cell r u\<lparr>slot_sequence := c + of_nat j + 1\<rparr> else ring_cell r u)"
    unfolding push_sequence_def by (rule ring_update_Some [OF ok(1)])
  note cells = r'(5) [rule_format, unfolded t(1)]
  have "ring_ok r' c (q[j := (fst (q ! j), True)])"
    using assms(1, 2, 3, 5) r'(2-4) j
    by (auto simp: ring_ok_def cells cell_window [OF ok(1) _ j] suc nth_list_update)
  then show thesis
    using that r' cells by simp
qed

text \<open>The consumer.\<close>

lemma is_ready_ok:
  assumes "ring_ok r c q" "ring_young r"
  shows "is_ready r c = Some (q \<noteq> [] \<and> snd (hd q))"
proof -
  note ok = ring_okD [OF assms(1)]
  have c: "unat c < 2 ^ 64 - 1"
    using ok(2) assms(2) by (simp add: ring_young_def)
  then have max: "c \<noteq> - 1"
    by (auto simp: unsigned_minus_1_eq_mask mask_eq_exp_minus_1)
  then have suc: "unat (c + 1) = Suc (unat c)"
    using below_max_Suc [of c] by (simp add: order_less_le)
  have "unat (slot_sequence (ring_cell r (unat c))) = unat c + (if q \<noteq> [] \<and> snd (hd q) then 1 else 0)"
    using ok(4) [of 0] capacity_pos [OF ok(1)] by (cases q) simp_all
  then show ?thesis
    using max suc ok(1) by (auto simp: is_ready_def ring_slot_cell word_unat_eq_iff)
qed

lemma pop_frame_ok: "ring_ok r c ((f, True) # q) \<Longrightarrow> pop_frame r c = Some f"
  using ring_okD(1) [of r c] ring_okD(5) [of r c "(f, True) # q" 0]
  by (simp add: pop_frame_def ring_slot_cell)

lemma pop_advance_ok:
  assumes "ring_ok r c (x # q)" "ring_young r"
  obtains r' where "pop_advance r c = Some (c + 1, r')" "ring_ok r' (c + 1) q" "ring_tail r' = ring_tail r"
    "ring_capacity r' = ring_capacity r" "\<And>i. slot_frame (ring_cell r' i) = slot_frame (ring_cell r i)"
proof -
  note ok = ring_okD [OF assms(1)]
  let ?n = "unat (ring_capacity r)"
  have c: "unat c + ?n < 2 ^ 64 - 1"
    using ok(2) assms(2) by (simp add: ring_young_def)
  have top: "unat (- 1 - ring_capacity r) = 2 ^ 64 - 1 - ?n"
    using unat_sub_le [of "ring_capacity r" "- 1"] by (simp add: unsigned_minus_1_eq_mask mask_eq_exp_minus_1)
  have max: "c \<noteq> - 1" and le: "c \<le> - 1 - ring_capacity r"
    using c top by (auto simp: word_le_nat_alt unsigned_minus_1_eq_mask mask_eq_exp_minus_1)
  then have suc: "unat (c + 1) = Suc (unat c)"
    using below_max_Suc [of c] by (simp add: order_less_le)
  have lap: "unat (c + ring_capacity r) = unat c + ?n"
    using unat_add_small [of c "ring_capacity r"] c by simp
  obtain r' where r': "ring_update r c (\<lambda>cell. cell\<lparr>slot_sequence := c + ring_capacity r\<rparr>) = Some r'"
    "ring_shape r'" "ring_tail r' = ring_tail r" "ring_capacity r' = ring_capacity r"
    "\<forall>u. ring_cell r' u = (if u mod ?n = unat c mod ?n then ring_cell r u\<lparr>slot_sequence := c + ring_capacity r\<rparr>
        else ring_cell r u)"
    by (rule ring_update_Some [OF ok(1)])
  have "ring_ok r' (c + 1) q"
    unfolding ring_ok_def suc r'(3, 4)
  proof (intro conjI allI impI)
    fix j assume j: "j < ?n"
    show "unat (slot_sequence (ring_cell r' (Suc (unat c) + j)))
        = Suc (unat c) + j + (if j < length q \<and> snd (q ! j) then 1 else 0)"
    proof (cases "Suc j = ?n")
      case True
      then have "(Suc (unat c) + j) mod ?n = unat c mod ?n" "\<not> j < length q"
        using ok(3) by (simp_all flip: True) (metis True add_Suc_right mod_add_self2)
      then show ?thesis
        using True lap by (simp add: r'(5) [rule_format])
    next
      case False
      then have "(unat c + Suc j) mod ?n \<noteq> (unat c + 0) mod ?n"
        using j by (subst cell_window [OF ok(1)]) auto
      then show ?thesis
        using ok(4) [of "Suc j"] False j by (simp add: r'(5) [rule_format])
    qed
    assume q: "j < length q" "snd (q ! j)"
    then have "(unat c + Suc j) mod ?n \<noteq> (unat c + 0) mod ?n"
      using j ok(3) by (subst cell_window [OF ok(1)]) auto
    then show "slot_frame (ring_cell r' (Suc (unat c) + j)) = fst (q ! j)"
      using ok(5) [of "Suc j"] q by (simp add: r'(5) [rule_format])
  qed (use ok(2, 3) r'(2) in simp_all)
  then show thesis
    using that r' le by (simp add: pop_advance_def)
qed

lemma ReleaseRing_new_ok:
  assumes "ReleaseRing_try_preallocated allocated m = Some (Some r)"
  shows "ring_ok r 0 []" "unat m \<le> unat (ring_capacity r)" "ring_tail r = 0" "unat (ring_capacity r) \<le> 2 ^ 31"
proof -
  obtain p where p: "checked_next_power_of_two m = Some p"
    and r: "r = \<lparr>ring_slots = map (\<lambda>i. \<lparr>slot_sequence = of_nat i, slot_frame = 0\<rparr>) [0..<unat (max p 2)],
      ring_tail = 0, ring_capacity = ucast (max p 2), ring_mask = ucast (max p 2 - 1)\<rparr>"
    using assms by (auto simp: ReleaseRing_try_preallocated_def bind_Some_iff Let_def split: if_splits)
  obtain n where n: "n < 32" "unat p = 2 ^ n" and le: "unat m \<le> unat p"
    using checked_next_power_of_two_Some [OF p] by (auto simp: is_power_of_two_iff word_le_nat_alt)
  have cap: "unat (max p 2) = 2 ^ max n 1"
    using n by (auto simp: max_def word_le_nat_alt le_Suc_eq) (metis One_nat_def Suc_leI not_gr_zero power_0 power_increasing_iff
        one_less_numeral_iff power_one_right semiring_norm(76) le_antisym nat_le_linear)
  have cap64: "unat (ucast (max p 2) :: u64) = 2 ^ max n 1"
    using cap by (simp add: unat_ucast_64)
  show "unat m \<le> unat (ring_capacity r)"
    using le cap64 r n(2) by (auto intro: order_trans power_increasing)
  have "max n 1 \<le> 31"
    using n by simp
  then have "(2::nat) ^ max n 1 \<le> 2 ^ 31"
    by (intro power_increasing) simp_all
  then show "unat (ring_capacity r) \<le> 2 ^ 31"
    using cap64 r by simp
  show "ring_tail r = 0"
    by (simp add: r)
  have pos: "0 < unat (max p 2)"
    using cap by simp
  have "ucast (max p 2 - 1) = (ucast (max p 2) - 1 :: u64)"
  proof -
    have "max p 2 \<noteq> 0" and "(ucast (max p 2) :: u64) \<noteq> 0"
      using pos cap64 by (auto simp: word_unat_eq_iff)
    then show ?thesis
      using unat_minus_one [of "max p 2"] unat_minus_one [of "ucast (max p 2) :: u64"]
      by (simp add: word_unat_eq_iff unat_ucast_64)
  qed
  then have "ring_shape r"
    using cap cap64 n by (auto simp: ring_shape_def r intro: exI [of _ "max n 1"])
  moreover have "unat (slot_sequence (ring_slots r ! j)) = j" if "j < unat (ring_capacity r)" for j
    using unat_of_nat_below [OF that] that cap cap64 by (simp add: r)
  ultimately show "ring_ok r 0 []"
    by (simp add: ring_ok_def ring_cell_def) (simp add: r)
qed

lemma ReleaseRing_try_preallocated_total:
  assumes "0 < m" "m \<le> RING_CAPACITY_MAX"
  shows "\<exists>r. ReleaseRing_try_preallocated True m = Some (Some r)"
proof -
  have "31 \<in> set [0..<LENGTH(32)]"
    by simp
  then have "checked_next_power_of_two m \<noteq> None"
    unfolding checked_next_power_of_two_def find_None_iff set_map
    using assms(2) [unfolded RING_CAPACITY_MAX_def] by blast
  then show ?thesis
    using assms by (auto simp: ReleaseRing_try_preallocated_def Let_def)
qed

section \<open>Properties\<close>

datatype ring_op = RPush u32 | RPop

text \<open>A history on the ring and on the queue it stands for: the results of its pops.\<close>

fun run_ring :: "ring_op list \<Rightarrow> ReleaseRing \<Rightarrow> u64 \<Rightarrow> u32 option list option" where
  "run_ring [] r cursor = Some []"
| "run_ring (RPush f # ops) r cursor = do { r \<leftarrow> ring_push r f; run_ring ops r cursor }"
| "run_ring (RPop # ops) r cursor = do {
     (popped, cursor, r) \<leftarrow> ring_pop r cursor;
     outs \<leftarrow> run_ring ops r cursor;
     Some (popped # outs)
   }"

fun run_fifo :: "ring_op list \<Rightarrow> u32 list \<Rightarrow> u32 option list" where
  "run_fifo [] q = []"
| "run_fifo (RPush f # ops) q = run_fifo ops (q @ [f])"
| "run_fifo (RPop # ops) [] = None # run_fifo ops []"
| "run_fifo (RPop # ops) (f # q) = Some f # run_fifo ops q"

fun fifo_fits :: "nat \<Rightarrow> ring_op list \<Rightarrow> u32 list \<Rightarrow> bool" where
  "fifo_fits n [] q \<longleftrightarrow> True"
| "fifo_fits n (RPush f # ops) q \<longleftrightarrow> length q < n \<and> fifo_fits n ops (q @ [f])"
| "fifo_fits n (RPop # ops) q \<longleftrightarrow> fifo_fits n ops (tl q)"

abbreviation published :: "u32 list \<Rightarrow> (u32 \<times> bool) list" where
  "published q \<equiv> map (\<lambda>f. (f, True)) q"

lemma ring_push_ok:
  assumes "ring_ok r c (published q)" "length q < unat (ring_capacity r)" "unat (ring_tail r) + unat (ring_capacity r) + 1 < 2 ^ 64 - 1"
  obtains r' where "ring_push r f = Some r'" "ring_ok r' c (published (q @ [f]))"
    "unat (ring_tail r') = Suc (unat (ring_tail r))" "ring_capacity r' = ring_capacity r"
proof -
  let ?r = "r\<lparr>ring_tail := ring_tail r + 1\<rparr>" and ?q = "published q @ [(f, False)]"
  have max: "ring_tail r \<noteq> - 1"
    using assms(3) by (auto simp: unsigned_minus_1_eq_mask mask_eq_exp_minus_1)
  then have suc: "unat (ring_tail r + 1) = Suc (unat (ring_tail r))"
    by (intro below_max_Suc) (simp add: order_less_le)
  have ticket: "push_ticket r = Some (ring_tail r, ?r)" and ok: "ring_ok ?r c ?q"
    using push_ticket_ok(1) [OF assms(1) _ max] push_ticket_ok(2) [OF assms(1) _ max, of f] assms(2) by simp_all
  have young: "ring_young ?r"
    using assms(3) suc by (simp add: ring_young_def)
  have j: "length q < length ?q" "\<not> snd (?q ! length q)"
    by (simp_all add: nth_append)
  have t: "ring_tail r = c + of_nat (length q)"
    using claimed_ticket(1) [OF ok j(1) young] ring_okD(2) [OF assms(1)] by (simp add: word_unat_eq_iff)
  obtain r1 where r1: "push_frame ?r (c + of_nat (length q)) f = Some r1" "ring_ok r1 c ?q"
    "ring_tail r1 = ring_tail r + 1" "ring_capacity r1 = ring_capacity r"
    "slot_frame (ring_cell r1 (unat c + length q)) = f"
  proof (rule push_frame_ok [OF ok j young, of f])
    fix r'
    assume r': "push_frame ?r (c + of_nat (length q)) f = Some r'" "ring_ok r' c ?q" "ring_tail r' = ring_tail ?r"
      "ring_capacity r' = ring_capacity ?r"
      "\<And>i. i < unat (ring_capacity ?r) \<Longrightarrow> slot_frame (ring_cell r' (unat c + i))
        = (if i = length q then f else slot_frame (ring_cell ?r (unat c + i)))"
    show thesis
      by (rule that [OF r'(1, 2)]) (use r'(3, 4) r'(5) [of "length q"] assms(2) in simp_all)
  qed
  have young1: "ring_young r1"
    using young r1(3, 4) by (simp add: ring_young_def)
  obtain r2 where r2: "push_sequence r1 (c + of_nat (length q)) = Some r2" "ring_ok r2 c (?q[length q := (f, True)])"
    "ring_tail r2 = ring_tail r1" "ring_capacity r2 = ring_capacity r1"
    using push_sequence_ok [OF r1(2) j young1] r1(5) by (auto simp: nth_append)
  have "ring_push r f = Some r2"
    using ticket push_check_ok [OF ok j young] r1(1) r2(1) by (simp add: ring_push_def t)
  then show thesis
    using that r2 r1 suc by (simp add: list_update_append)
qed

lemma ring_pop_ok:
  assumes "ring_ok r c (published q)" "ring_young r"
  obtains r' c' where "ring_pop r c = Some (if q = [] then None else Some (hd q), c', r')"
    "ring_ok r' c' (published (tl q))" "ring_tail r' = ring_tail r" "ring_capacity r' = ring_capacity r"
proof (cases q)
  case Nil
  then show thesis
    using that [of c r] is_ready_ok [OF assms] assms(1) by (simp add: ring_pop_def)
next
  case (Cons f fs)
  then have ok: "ring_ok r c ((f, True) # published fs)"
    using assms(1) by simp
  obtain r' where "pop_advance r c = Some (c + 1, r')" "ring_ok r' (c + 1) (published fs)"
    "ring_tail r' = ring_tail r" "ring_capacity r' = ring_capacity r"
    by (rule pop_advance_ok [OF ok assms(2)]) (rule that, assumption+)
  then show thesis
    using that [of "c + 1" r'] is_ready_ok [OF ok assms(2)] pop_frame_ok [OF ok] Cons by (simp add: ring_pop_def)
qed

lemma run_ring_fifo:
  assumes "ring_ok r c (published q)" "unat (ring_tail r) + length ops + unat (ring_capacity r) < 2 ^ 64 - 1"
    "fifo_fits n ops q" "n \<le> unat (ring_capacity r)"
  shows "run_ring ops r c = Some (run_fifo ops q)"
  using assms
proof (induction ops arbitrary: r c q)
  case (Cons op ops)
  have young: "ring_young r"
    using Cons.prems(2) by (simp add: ring_young_def)
  show ?case
  proof (cases op)
    case (RPush f)
    obtain r' where "ring_push r f = Some r'" "ring_ok r' c (published (q @ [f]))"
      "unat (ring_tail r') = Suc (unat (ring_tail r))" "ring_capacity r' = ring_capacity r"
      by (rule ring_push_ok [OF Cons.prems(1), of f]) (use Cons.prems RPush in auto)
    then show ?thesis
      using Cons.IH [of r' c "q @ [f]"] Cons.prems RPush by simp
  next
    case RPop
    obtain r' c' where r': "ring_pop r c = Some (if q = [] then None else Some (hd q), c', r')"
      "ring_ok r' c' (published (tl q))" "ring_tail r' = ring_tail r" "ring_capacity r' = ring_capacity r"
      by (rule ring_pop_ok [OF Cons.prems(1) young])
    then have "run_ring ops r' c' = Some (run_fifo ops (tl q))"
      using Cons.IH [of r' c' "tl q"] Cons.prems RPop by simp
    then show ?thesis
      using r'(1) RPop by (cases q) simp_all
  qed
qed simp

text \<open>
  C20.  The release ring is a queue: whatever is pushed is popped exactly once and in order, and no
  assertion fires, over every history that never has more than \<open>max_retained_frames\<close> frames
  outstanding (the budget the ring was sized for) and ends before the tickets wrap.
\<close>

theorem release_ring_fifo:
  assumes "ReleaseRing_try_preallocated True max_retained = Some (Some r)"
    "fifo_fits (unat max_retained) ops []" "length ops < 2 ^ 63"
  shows "run_ring ops r 0 = Some (run_fifo ops [])"
  using ReleaseRing_new_ok [OF assms(1)] assms(2, 3) by (intro run_ring_fifo) simp_all

theorem release_ring_fifo_witness:
  "ReleaseRing_try_preallocated True 3 \<noteq> None
   \<and> run_ring [RPush 7, RPush 9, RPop, RPush 8, RPop, RPop, RPop] (the (the (ReleaseRing_try_preallocated True 3))) 0
     = Some [Some 7, Some 9, Some 8, None]"
proof -
  have "(3::u32) \<le> RING_CAPACITY_MAX"
    unfolding RING_CAPACITY_MAX_def by (simp add: word_le_nat_alt unat_push_bit_1)
  then obtain r where r: "ReleaseRing_try_preallocated True 3 = Some (Some r)"
    using ReleaseRing_try_preallocated_total [of 3] by auto
  show ?thesis
    using release_ring_fifo [OF r, of "[RPush 7, RPush 9, RPop, RPush 8, RPop, RPop, RPop]"] r by simp
qed

end
