(* ===== verification/Retention.thy ===== *)
theory Retention
  imports Epoch Wait_State Release_Ring
begin

text \<open>
  Retained frames (\<open>pool/retention.rs\<close>): a reader promotes a guard into a handle that outlives the
  epoch, the last drop of a handle on a frame already evicted hands the frame back through a
  multi-producer ring, and the mature drain of the eviction queue holds back frames with handles.

  Each frame has a word with a 16-bit handle count and the \<open>HELD\<close> bit.  The operations run
  concurrently, so each is given as the sequence of its atomic accesses: a program counter of
  \<open>retention_pc\<close> (promotion and release) or \<open>matured_pc\<close> (the mature drain) and a step function that
  performs the next access; \<open>None\<close> is a failed assertion.  The diagnostic counters are incremented
  with the access that decides on them.  Theory \<open>Retention_System\<close> interleaves the steps.
\<close>

section \<open>Retention state\<close>

definition HELD :: u32 where "HELD = push_bit 16 1"
definition COUNT_MASK :: u32 where "COUNT_MASK = 65535"

datatype RetainRefusedReason = Exhausted | FileRetiring

record Retention =
  words :: "u32 list"
  tags :: "u64 list"
  retiring :: "bool list"
  occupied_budget :: u32
  refused_budget :: u64
  refused_ceiling :: u64
  refused_contention :: u64
  refused_retiring :: u64
  retained_evictions_held :: u64
  release_ring :: "ReleaseRing option"
  wait :: WaitState
  max_retained_frames :: u32
  max_concurrent_readers :: u32
  frame_total :: u32

definition Retention_disabled :: "u32 \<Rightarrow> u32 \<Rightarrow> WaitState \<Rightarrow> Retention" where
  "Retention_disabled frames readers w =
     \<lparr>words = [], tags = [], retiring = [], occupied_budget = 0, refused_budget = 0, refused_ceiling = 0,
      refused_contention = 0, refused_retiring = 0, retained_evictions_held = 0, release_ring = None, wait = w,
      max_retained_frames = 0, max_concurrent_readers = readers, frame_total = frames\<rparr>"

text \<open>\<open>allocated\<close>: whether the four allocations succeed.\<close>

definition Retention_try_preallocated :: "bool \<Rightarrow> u32 \<Rightarrow> u32 \<Rightarrow> u32 \<Rightarrow> u32 \<Rightarrow> WaitState \<Rightarrow> Retention option option" where
  "Retention_try_preallocated allocated frames max_retained readers files w =
     (if max_retained = 0 then Some (Some (Retention_disabled frames readers w))
      else if \<not> allocated then Some None
      else do {
        ring \<leftarrow> ReleaseRing_try_preallocated allocated max_retained;
        Some (case ring of
            None \<Rightarrow> None
          | Some ring \<Rightarrow> Some
              \<lparr>words = replicate (unat frames) 0, tags = replicate (unat frames) 0,
               retiring = replicate (unat files) False, occupied_budget = 0, refused_budget = 0,
               refused_ceiling = 0, refused_contention = 0, refused_retiring = 0, retained_evictions_held = 0,
               release_ring = Some ring, wait = w, max_retained_frames = max_retained,
               max_concurrent_readers = readers, frame_total = frames\<rparr>)
      })"

definition is_disabled :: "Retention \<Rightarrow> bool" where
  "is_disabled R \<longleftrightarrow> max_retained_frames R = 0"

text \<open>The outer option is the panic of \<open>is_ready\<close>, the inner one the \<open>None\<close> of a disabled pool.\<close>

definition release_drain_needed :: "Retention \<Rightarrow> u64 \<Rightarrow> bool option option" where
  "release_drain_needed R consumer = (case release_ring R of
      None \<Rightarrow> Some None
    | Some ring \<Rightarrow> do { filled \<leftarrow> is_ready ring consumer; Some (Some (filled \<or> ring_may_be_pending (wait R))) })"

definition set_file_retiring :: "bool \<Rightarrow> Retention \<Rightarrow> u32 \<Rightarrow> Retention option" where
  "set_file_retiring flag R file_slot =
     (if is_disabled R then Some R
      else do {
        assert (unat file_slot < length (retiring R));
        flags \<leftarrow> upd_opt (retiring R) (unat file_slot) flag;
        Some (R\<lparr>retiring := flags\<rparr>)
      })"

definition mark_file_retiring :: "Retention \<Rightarrow> u32 \<Rightarrow> Retention option" where
  "mark_file_retiring = set_file_retiring True"

definition clear_file_retiring :: "Retention \<Rightarrow> u32 \<Rightarrow> Retention option" where
  "clear_file_retiring = set_file_retiring False"

definition word_load :: "Retention \<Rightarrow> ReadFrameIdx \<Rightarrow> u32 option" where
  "word_load R frame = nth_opt (words R) (unat frame)"

definition word_store :: "Retention \<Rightarrow> ReadFrameIdx \<Rightarrow> u32 \<Rightarrow> Retention option" where
  "word_store R frame w = do { ws \<leftarrow> upd_opt (words R) (unat frame) w; Some (R\<lparr>words := ws\<rparr>) }"

definition tag_load :: "Retention \<Rightarrow> ReadFrameIdx \<Rightarrow> u64 option" where
  "tag_load R frame = nth_opt (tags R) (unat frame)"

definition tag_store :: "Retention \<Rightarrow> ReadFrameIdx \<Rightarrow> u64 \<Rightarrow> Retention option" where
  "tag_store R frame t = do { ts \<leftarrow> upd_opt (tags R) (unat frame) t; Some (R\<lparr>tags := ts\<rparr>) }"

definition release_budget_unit :: "Retention \<Rightarrow> Retention option" where
  "release_budget_unit R = do {
     let previous = occupied_budget R;
     assert (previous > 0);
     Some (R\<lparr>occupied_budget := previous - 1\<rparr>)
   }"

section \<open>Promotion and release\<close>

text \<open>Who releases: the drop of a handle, or a promotion that found its file retiring.\<close>

datatype release_origin = Dropped | Rejected

text \<open>Promotion counters carry the frame, the file slot and the attempts left after this one.\<close>

datatype retention_pc =
    Ready
  | Attempt ReadFrameIdx u32 nat
  | Increment ReadFrameIdx u32 nat u32
  | Reserve ReadFrameIdx u32 nat
  | OverBudget ReadFrameIdx u32 nat
  | Recheck ReadFrameIdx u32 nat
  | FirstCount ReadFrameIdx u32 nat
  | Unreserve ReadFrameIdx u32 nat
  | RejectCheck ReadFrameIdx u32
  | Retained ReadFrameIdx
  | Refused RetainRefusedReason
  | Release ReadFrameIdx release_origin
  | LastDrop ReadFrameIdx release_origin
  | Push ReadFrameIdx release_origin
  | PushCheck ReadFrameIdx release_origin u64
  | PushFrame ReadFrameIdx release_origin u64
  | PushSequence ReadFrameIdx release_origin u64
  | Publish release_origin

definition promote :: "Retention \<Rightarrow> ReadFrameIdx \<Rightarrow> u32 \<Rightarrow> u32 \<Rightarrow> (retention_pc \<times> Retention) option" where
  "promote R frame file_slot readers =
     (if is_disabled R then Some (Refused Exhausted, R\<lparr>refused_budget := refused_budget R + 1\<rparr>)
      else do {
        attempts \<leftarrow> checked_add readers 1;
        Some (Attempt frame file_slot (unat attempts), R)
      })"

fun promote_once :: "Retention \<Rightarrow> ReadFrameIdx \<Rightarrow> u32 \<Rightarrow> nat \<Rightarrow> (retention_pc \<times> Retention) option" where
  "promote_once R frame file_slot 0 =
     Some (Refused Exhausted, R\<lparr>refused_contention := refused_contention R + 1\<rparr>)"
| "promote_once R frame file_slot (Suc n) = do {
     previous \<leftarrow> word_load R frame;
     assert (previous AND HELD = 0);
     let tally = previous AND COUNT_MASK;
     Some (if tally = COUNT_MASK
           then (Refused Exhausted, R\<lparr>refused_ceiling := refused_ceiling R + 1\<rparr>)
           else if tally > 0 then (Increment frame file_slot n previous, R)
           else (Reserve frame file_slot n, R))
   }"

definition compare_increment ::
  "Retention \<Rightarrow> ReadFrameIdx \<Rightarrow> u32 \<Rightarrow> nat \<Rightarrow> u32 \<Rightarrow> (retention_pc \<times> Retention) option" where
  "compare_increment R frame file_slot n previous = do {
     w \<leftarrow> word_load R frame;
     if w = previous then do { R \<leftarrow> word_store R frame (previous + 1); Some (RejectCheck frame file_slot, R) }
     else Some (Attempt frame file_slot n, R)
   }"

text \<open>\<open>reserve_then_promote\<close>: reserve a unit; over budget, give it back and look at the word again;
  else try the first count, giving the unit back if somebody was faster.\<close>

definition reserve_unit :: "Retention \<Rightarrow> ReadFrameIdx \<Rightarrow> u32 \<Rightarrow> nat \<Rightarrow> (retention_pc \<times> Retention) option" where
  "reserve_unit R frame file_slot n = do {
     let previous = occupied_budget R;
     let R = R\<lparr>occupied_budget := previous + 1\<rparr>;
     Some (if previous \<ge> max_retained_frames R then (OverBudget frame file_slot n, R)
           else (FirstCount frame file_slot n, R))
   }"

definition recheck_word :: "Retention \<Rightarrow> ReadFrameIdx \<Rightarrow> u32 \<Rightarrow> nat \<Rightarrow> (retention_pc \<times> Retention) option" where
  "recheck_word R frame file_slot n = do {
     w \<leftarrow> word_load R frame;
     Some (if w AND COUNT_MASK > 0 then (Attempt frame file_slot n, R)
           else (Refused Exhausted, R\<lparr>refused_budget := refused_budget R + 1\<rparr>))
   }"

definition first_count :: "Retention \<Rightarrow> ReadFrameIdx \<Rightarrow> u32 \<Rightarrow> nat \<Rightarrow> (retention_pc \<times> Retention) option" where
  "first_count R frame file_slot n = do {
     w \<leftarrow> word_load R frame;
     if w = 0 then do { R \<leftarrow> word_store R frame 1; Some (RejectCheck frame file_slot, R) }
     else Some (Unreserve frame file_slot n, R)
   }"

definition reject_retiring :: "Retention \<Rightarrow> ReadFrameIdx \<Rightarrow> u32 \<Rightarrow> (retention_pc \<times> Retention) option" where
  "reject_retiring R frame file_slot = do {
     flag \<leftarrow> nth_opt (retiring R) (unat file_slot);
     Some (if \<not> flag then (Retained frame, R) else (Release frame Rejected, R))
   }"

text \<open>A finished release returns to its caller.\<close>

fun released :: "Retention \<Rightarrow> release_origin \<Rightarrow> retention_pc \<times> Retention" where
  "released R Dropped = (Ready, R)"
| "released R Rejected = (Refused FileRetiring, R\<lparr>refused_retiring := refused_retiring R + 1\<rparr>)"

definition release_count :: "Retention \<Rightarrow> ReadFrameIdx \<Rightarrow> release_origin \<Rightarrow> (retention_pc \<times> Retention) option" where
  "release_count R frame origin = do {
     previous \<leftarrow> word_load R frame;
     R \<leftarrow> word_store R frame (previous - 1);
     assert (previous AND COUNT_MASK > 0);
     let rest = previous - 1;
     Some (if rest AND COUNT_MASK > 0 then released R origin
           else if rest AND HELD = 0 then (LastDrop frame origin, R)
           else (Push frame origin, R))
   }"

definition with_ring :: "Retention \<Rightarrow> (ReleaseRing \<Rightarrow> ('a \<times> ReleaseRing) option) \<Rightarrow> ('a \<times> Retention) option" where
  "with_ring R f = do {
     ring \<leftarrow> release_ring R;
     (x, ring) \<leftarrow> f ring;
     Some (x, R\<lparr>release_ring := Some ring\<rparr>)
   }"

definition release_publish :: "Retention \<Rightarrow> Retention" where
  "release_publish R = R\<lparr>wait := publish_ring_pending_and_wake_if_parked (wait R)\<rparr>"

text \<open>One atomic access of a promotion or a release.  \<open>Ready\<close>, \<open>Retained\<close> and \<open>Refused\<close> are results.\<close>

fun retention_step :: "Retention \<Rightarrow> retention_pc \<Rightarrow> (retention_pc \<times> Retention) option" where
  "retention_step R (Attempt frame file_slot n) = promote_once R frame file_slot n"
| "retention_step R (Increment frame file_slot n previous) = compare_increment R frame file_slot n previous"
| "retention_step R (Reserve frame file_slot n) = reserve_unit R frame file_slot n"
| "retention_step R (OverBudget frame file_slot n) =
     map_option (\<lambda>R. (Recheck frame file_slot n, R)) (release_budget_unit R)"
| "retention_step R (Recheck frame file_slot n) = recheck_word R frame file_slot n"
| "retention_step R (FirstCount frame file_slot n) = first_count R frame file_slot n"
| "retention_step R (Unreserve frame file_slot n) =
     map_option (\<lambda>R. (Attempt frame file_slot n, R)) (release_budget_unit R)"
| "retention_step R (RejectCheck frame file_slot) = reject_retiring R frame file_slot"
| "retention_step R (Release frame origin) = release_count R frame origin"
| "retention_step R (LastDrop frame origin) = map_option (\<lambda>R. released R origin) (release_budget_unit R)"
| "retention_step R (Push frame origin) =
     with_ring R (\<lambda>ring. map_option (\<lambda>(ticket, ring). (PushCheck frame origin ticket, ring)) (push_ticket ring))"
| "retention_step R (PushCheck frame origin ticket) =
     with_ring R (\<lambda>ring. map_option (\<lambda>_. (PushFrame frame origin ticket, ring)) (push_check ring ticket))"
| "retention_step R (PushFrame frame origin ticket) =
     with_ring R (\<lambda>ring. map_option (Pair (PushSequence frame origin ticket)) (push_frame ring ticket frame))"
| "retention_step R (PushSequence frame origin ticket) =
     with_ring R (\<lambda>ring. map_option (Pair (Publish origin)) (push_sequence ring ticket))"
| "retention_step R (Publish origin) = Some (released (release_publish R) origin)"
| "retention_step R Ready = None"
| "retention_step R (Retained _) = None"
| "retention_step R (Refused _) = None"

section \<open>The drains\<close>

text \<open>\<open>matured_outcome\<close> on a queue entry: load the word, store the tag, then exchange \<open>HELD\<close> in, at most
  once per handle that was counted.\<close>

datatype matured_pc = MLoad | MTag nat u32 | MExchange nat u32 | MOutcome FrameOutcome

fun matured_step :: "Retention \<Rightarrow> ReadFrameIdx \<Rightarrow> u64 \<Rightarrow> matured_pc \<Rightarrow> (matured_pc \<times> Retention) option" where
  "matured_step R frame t MLoad =
     (if is_disabled R then Some (MOutcome Freed, R)
      else do {
        previous \<leftarrow> word_load R frame;
        let attempts = previous AND COUNT_MASK;
        if attempts = 0 then do { assert (previous AND HELD = 0); Some (MOutcome Freed, R) }
        else Some (MTag (unat attempts) previous, R)
      })"
| "matured_step R frame t (MTag n previous) =
     map_option (\<lambda>R. (MExchange n previous, R)) (tag_store R frame t)"
| "matured_step R frame t (MExchange 0 previous) = None"
| "matured_step R frame t (MExchange (Suc n) previous) = do {
     assert (previous AND HELD = 0);
     let tally = previous AND COUNT_MASK;
     assert (tally > 0);
     observed \<leftarrow> word_load R frame;
     if observed = previous then do {
       R \<leftarrow> word_store R frame (previous OR HELD);
       Some (MOutcome Held, R\<lparr>retained_evictions_held := retained_evictions_held R + 1\<rparr>)
     }
     else do {
       assert (observed AND COUNT_MASK < tally);
       if observed AND COUNT_MASK = 0 then do { assert (observed AND HELD = 0); Some (MOutcome Freed, R) }
       else Some (MExchange n observed, R)
     }
   }"
| "matured_step R frame t (MOutcome out) = None"

text \<open>The body of \<open>drain_releases\<close> for one popped frame, up to the \<open>reclaim\<close> call.\<close>

definition drain_clear_pending :: "Retention \<Rightarrow> Retention" where
  "drain_clear_pending R = R\<lparr>wait := clear_ring_pending (wait R)\<rparr>"

definition drain_tag_check :: "Retention \<Rightarrow> ReadFrameIdx \<Rightarrow> u64 \<Rightarrow> unit option" where
  "drain_tag_check R frame pass_start_epoch = do {
     t \<leftarrow> tag_load R frame;
     assert (saturating_add t 2 \<le> pass_start_epoch)
   }"

definition drain_word :: "Retention \<Rightarrow> ReadFrameIdx \<Rightarrow> u32 option" where
  "drain_word R frame = do {
     w \<leftarrow> word_load R frame;
     assert (w AND COUNT_MASK = 0);
     assert (w AND HELD \<noteq> 0);
     Some w
   }"

definition drain_exchange :: "Retention \<Rightarrow> ReadFrameIdx \<Rightarrow> u32 \<Rightarrow> Retention option" where
  "drain_exchange R frame w = do {
     current \<leftarrow> word_load R frame;
     assert (current = w);
     word_store R frame (w AND NOT HELD)
   }"

section \<open>Words\<close>

lemma COUNT_MASK_mask: "COUNT_MASK = mask 16"
  by (simp add: COUNT_MASK_def mask_eq_exp_minus_1)

lemma unat_tally: "unat (w AND COUNT_MASK) = unat w mod 65536"
  by (simp add: COUNT_MASK_mask unsigned_take_bit_eq flip: take_bit_eq_mask take_bit_eq_mod)
    (simp add: take_bit_eq_mod)

lemma tally_simps [simp]:
  "w AND COUNT_MASK = 0 \<longleftrightarrow> unat w mod 65536 = 0"
  "0 < w AND COUNT_MASK \<longleftrightarrow> 0 < unat w mod 65536"
  "w AND COUNT_MASK = COUNT_MASK \<longleftrightarrow> unat w mod 65536 = 65535"
  "v AND COUNT_MASK < w AND COUNT_MASK \<longleftrightarrow> unat v mod 65536 < unat w mod 65536"
proof -
  have "unat COUNT_MASK = 65535"
    by (simp add: COUNT_MASK_def)
  then show "w AND COUNT_MASK = COUNT_MASK \<longleftrightarrow> unat w mod 65536 = 65535"
    by (simp add: word_unat_eq_iff unat_tally)
qed (simp_all add: word_unat_eq_iff word_less_nat_alt unat_tally)

lemma held_bit: "w AND HELD = 0 \<longleftrightarrow> \<not> bit w 16"
  by (simp add: HELD_def bit_iff_and_push_bit_not_eq_0)

lemma bit_16: "bit w 16 \<longleftrightarrow> 65536 \<le> unat w" if "unat w < 131072" for w :: u32
proof -
  have "bit (unat w) 16 \<longleftrightarrow> bit w 16"
    by (simp add: bit_unsigned_iff)
  then have "bit w 16 \<longleftrightarrow> odd (unat w div 65536)"
    by (simp add: bit_iff_odd)
  moreover have "unat w div 65536 = (if 65536 \<le> unat w then 1 else 0)"
    using that by (auto simp: div_eq_0_iff intro!: div_nat_eqI)
  ultimately show ?thesis by simp
qed

lemma held_iff [simp]: "unat w < 131072 \<Longrightarrow> w AND HELD = 0 \<longleftrightarrow> unat w < 65536"
  by (auto simp: held_bit bit_16)

lemma unat_or_held: "unat w < 65536 \<Longrightarrow> unat (w OR HELD) = unat w + 65536" for w :: u32
proof -
  assume w: "unat w < 65536"
  have "\<not> bit w 16"
    using bit_16 [of w] w by simp
  then have "w AND HELD = 0"
    by (simp add: held_bit)
  then have "w OR HELD = w + HELD"
    by (metis add_0 word_plus_and_or)
  moreover have "unat HELD = 65536"
    unfolding HELD_def by (subst unat_push_bit_1) simp_all
  ultimately show ?thesis
    using w by (simp add: unat_word_ariths)
qed

lemma clear_held: "unat w = 65536 \<Longrightarrow> w AND NOT HELD = 0" for w :: u32
proof -
  assume w: "unat w = 65536"
  have "w = HELD"
    unfolding HELD_def using w by (subst word_unat_eq_iff, subst unat_push_bit_1) simp_all
  then show ?thesis by simp
qed

end
