(* ===== verification/Retention_System.thy ===== *)
theory Retention_System
  imports Reclaim Retention Pool_Config
begin

text \<open>
  Retention composed with reclamation.  Every reader of the system of \<open>Reclaim\<close> also runs promotions
  and handle drops, one atomic access per step; the control plane, besides its steps there, runs the
  two drains of \<open>Pool::advance_and_reclaim\<close> (\<open>pool/mod.rs\<close>): \<open>drain_releases\<close> over the release ring and
  \<open>drain_matured\<close> over the eviction queue with \<open>matured_outcome\<close>.  All interleavings are considered.
  The list of free frames and the per-file index, which the drains update alongside, are private to
  the control lock and left to their own theories; so is the queue, whose popped entry leaves the model's
  queue together with its outcome.

  \<open>tickets\<close> and \<open>scan_end\<close> are ghosts: the frames of the claimed ring tickets with their publication, and
  the ring's tail when the current scan began.
\<close>

section \<open>The system\<close>

record rthread =
  t_pc :: retention_pc
  t_handles :: "(PageId \<times> ReadFrameIdx) list"

text \<open>The scan carries the iterations left and its \<open>pass_start_epoch\<close>; the mature drain carries
  \<open>retention_occupied\<close>.\<close>

datatype drain_pc =
    DIdle
  | DScan nat u64
  | DTake nat u64
  | DAdvance nat u64 ReadFrameIdx
  | DTag nat u64 ReadFrameIdx
  | DWord nat u64 ReadFrameIdx
  | DExchange nat u64 ReadFrameIdx u32
  | DFree nat u64 ReadFrameIdx
  | DUnit nat u64
  | DMature bool
  | DMatured ReadFrameIdx u64 matured_pc

record pool_sys =
  core :: ebr
  ret :: Retention
  threads :: "rthread list"
  drain_at :: drain_pc
  cursor :: u64
  tickets :: "(u32 \<times> bool) list"
  scan_end :: nat

definition free_frame :: "ebr \<Rightarrow> ReadFrameIdx \<Rightarrow> ebr option" where
  "free_frame e f = map_option (\<lambda>F. e\<lparr>frames := F\<rparr>) (Frames_advance (frames e) f Free)"

definition pop_queue :: "ebr \<Rightarrow> ebr" where
  "pop_queue e = e\<lparr>evict_queue := (evict_queue e)\<lparr>eq_entries := tl (eq_entries (evict_queue e))\<rparr>\<rparr>"

text \<open>The head of the eviction queue, when it has matured.\<close>

definition matured_head :: "ebr \<Rightarrow> (ReadFrameIdx \<times> u64) option" where
  "matured_head e = (case eq_entries (evict_queue e) of
      [] \<Rightarrow> None
    | (f, t) # rest \<Rightarrow> if saturating_add t 2 > epoch e then None else Some (f, t))"

fun scan_step :: "pool_sys \<Rightarrow> drain_pc \<Rightarrow> pool_sys option" where
  "scan_step s (DScan 0 g) = Some (s\<lparr>drain_at := DIdle\<rparr>)"
| "scan_step s (DScan (Suc n) g) = do {
     ring \<leftarrow> release_ring (ret s);
     filled \<leftarrow> is_ready ring (cursor s);
     Some (s\<lparr>drain_at := (if filled then DTake n g else DIdle)\<rparr>)
   }"
| "scan_step s (DTake n g) = do {
     ring \<leftarrow> release_ring (ret s);
     f \<leftarrow> pop_frame ring (cursor s);
     Some (s\<lparr>drain_at := DAdvance n g f\<rparr>)
   }"
| "scan_step s (DAdvance n g f) = do {
     ring \<leftarrow> release_ring (ret s);
     (c, ring) \<leftarrow> pop_advance ring (cursor s);
     Some (s\<lparr>ret := (ret s)\<lparr>release_ring := Some ring\<rparr>, cursor := c, tickets := tl (tickets s), drain_at := DTag n g f\<rparr>)
   }"
| "scan_step s (DTag n g f) = do {
     drain_tag_check (ret s) f g;
     Some (s\<lparr>drain_at := DWord n g f\<rparr>)
   }"
| "scan_step s (DWord n g f) = do {
     w \<leftarrow> drain_word (ret s) f;
     Some (s\<lparr>drain_at := DExchange n g f w\<rparr>)
   }"
| "scan_step s (DExchange n g f w) = do {
     R \<leftarrow> drain_exchange (ret s) f w;
     Some (s\<lparr>ret := R, drain_at := DFree n g f\<rparr>)
   }"
| "scan_step s (DFree n g f) = do {
     st \<leftarrow> frame_state (frames (core s)) f;
     assert (st = Evicting);
     e \<leftarrow> free_frame (core s) f;
     Some (s\<lparr>core := e, drain_at := DUnit n g\<rparr>)
   }"
| "scan_step s (DUnit n g) = do {
     R \<leftarrow> release_budget_unit (ret s);
     Some (s\<lparr>ret := R, drain_at := DScan n g\<rparr>)
   }"
| "scan_step s _ = None"

fun mature_step :: "pool_sys \<Rightarrow> drain_pc \<Rightarrow> pool_sys option" where
  "mature_step s (DMature occupied) = (case matured_head (core s) of
      None \<Rightarrow> Some (s\<lparr>drain_at := DIdle\<rparr>)
    | Some (f, t) \<Rightarrow>
        if occupied then Some (s\<lparr>drain_at := DMatured f t MLoad\<rparr>)
        else do {
          e \<leftarrow> free_frame (pop_queue (core s)) f;
          Some (s\<lparr>core := e\<rparr>)
        })"
| "mature_step s (DMatured f t (MOutcome out)) = do {
     e \<leftarrow> free_frame (pop_queue (core s)) f;
     Some (s\<lparr>core := e, drain_at := DMature True\<rparr>)
   }"
| "mature_step s (DMatured f t pc) = do {
     (pc', R) \<leftarrow> matured_step (ret s) f t pc;
     Some (if pc' = MOutcome Held
           then s\<lparr>ret := R, core := pop_queue (core s), drain_at := DMature True\<rparr>
           else s\<lparr>ret := R, drain_at := DMatured f t pc'\<rparr>)
   }"
| "mature_step s _ = None"

definition drain_step :: "pool_sys \<Rightarrow> pool_sys option" where
  "drain_step s = (case drain_at s of
      DMature _ \<Rightarrow> mature_step s (drain_at s)
    | DMatured _ _ _ \<Rightarrow> mature_step s (drain_at s)
    | _ \<Rightarrow> scan_step s (drain_at s))"

text \<open>Publishing a sequence publishes its ticket; claiming one extends the tickets.\<close>

fun ticket_effect :: "u64 \<Rightarrow> retention_pc \<Rightarrow> (u32 \<times> bool) list \<Rightarrow> (u32 \<times> bool) list" where
  "ticket_effect c (Push f origin) q = q @ [(f, False)]"
| "ticket_effect c (PushSequence f origin t) q = q[unat (t - c) := (f, True)]"
| "ticket_effect c _ q = q"

abbreviation set_thread :: "nat \<Rightarrow> rthread \<Rightarrow> pool_sys \<Rightarrow> pool_sys" where
  "set_thread i t s \<equiv> s\<lparr>threads := (threads s)[i := t]\<rparr>"

inductive pool_step :: "pool_sys \<Rightarrow> pool_sys \<Rightarrow> bool" where
  p_reader: "i < length (threads s) \<Longrightarrow> t_pc (threads s ! i) = Ready \<Longrightarrow> i < length (readers (core s)) \<Longrightarrow>
    reader_step (core s) (readers (core s) ! i) r \<Longrightarrow> pool_step s (s\<lparr>core := set_reader i r (core s)\<rparr>)"
| p_control: "drain_at s = DIdle \<Longrightarrow> control_step (core s) e \<Longrightarrow> pool_step s (s\<lparr>core := e\<rparr>)"
| p_promote: "i < length (threads s) \<Longrightarrow> t_pc (threads s ! i) = Ready \<Longrightarrow>
    r_pc (readers (core s) ! i) = PIdle \<Longrightarrow> (p, f) \<in> set (r_guards (readers (core s) ! i)) \<Longrightarrow>
    unat (slot (page_file p)) < length (retiring (ret s)) \<Longrightarrow>
    promote (ret s) f (slot (page_file p)) (max_concurrent_readers (ret s)) = Some (pc, R) \<Longrightarrow>
    pool_step s (set_thread i ((threads s ! i)\<lparr>t_pc := pc\<rparr>) (s\<lparr>ret := R\<rparr>))"
| p_thread: "i < length (threads s) \<Longrightarrow> retention_step (ret s) (t_pc (threads s ! i)) = Some (pc, R) \<Longrightarrow>
    pool_step s (set_thread i ((threads s ! i)\<lparr>t_pc := pc\<rparr>)
      (s\<lparr>ret := R, tickets := ticket_effect (cursor s) (t_pc (threads s ! i)) (tickets s)\<rparr>))"
| p_retained: "i < length (threads s) \<Longrightarrow> t_pc (threads s ! i) = Retained f \<Longrightarrow>
    (p, f) \<in> set (r_guards (readers (core s) ! i)) \<Longrightarrow>
    release_guard (r_slot (readers (core s) ! i)) = Some sl \<Longrightarrow>
    pool_step s (set_thread i \<lparr>t_pc = Ready, t_handles = (p, f) # t_handles (threads s ! i)\<rparr>
      (s\<lparr>core := set_reader i ((readers (core s) ! i)
        \<lparr>r_slot := sl, r_guards := remove1 (p, f) (r_guards (readers (core s) ! i))\<rparr>) (core s)\<rparr>))"
| p_refused: "i < length (threads s) \<Longrightarrow> t_pc (threads s ! i) = Refused reason \<Longrightarrow>
    pool_step s (set_thread i ((threads s ! i)\<lparr>t_pc := Ready\<rparr>) s)"
| p_drop: "i < length (threads s) \<Longrightarrow> t_pc (threads s ! i) = Ready \<Longrightarrow> (p, f) \<in> set (t_handles (threads s ! i)) \<Longrightarrow>
    pool_step s (set_thread i \<lparr>t_pc = Release f Dropped, t_handles = remove1 (p, f) (t_handles (threads s ! i))\<rparr> s)"
| p_mark: "mark_file_retiring (ret s) file = Some R \<Longrightarrow> pool_step s (s\<lparr>ret := R\<rparr>)"
| p_clear: "clear_file_retiring (ret s) file = Some R \<Longrightarrow> pool_step s (s\<lparr>ret := R\<rparr>)"
| p_scan: "drain_at s = DIdle \<Longrightarrow> ctl (core s) = CIdle \<Longrightarrow> release_ring (ret s) = Some ring \<Longrightarrow>
    release_drain_needed (ret s) (cursor s) = Some (Some True) \<Longrightarrow>
    pool_step s (s\<lparr>ret := drain_clear_pending (ret s), scan_end := unat (ring_tail ring),
      drain_at := DScan (unat (max_retained_frames (ret s))) (epoch (core s))\<rparr>)"
| p_mature: "drain_at s = DIdle \<Longrightarrow> ctl (core s) = CIdle \<Longrightarrow>
    pool_step s (s\<lparr>drain_at := DMature (release_ring (ret s) \<noteq> None \<and> occupied_budget (ret s) \<noteq> 0)\<rparr>)"
| p_drain: "drain_at s \<noteq> DIdle \<Longrightarrow> drain_step s = Some s' \<Longrightarrow> pool_step s s'"

text \<open>A pool whose validated configuration enables retention.\<close>

definition pool_start :: "pool_sys \<Rightarrow> bool" where
  "pool_start s \<longleftrightarrow> ebr_start (core s)
     \<and> (\<exists>b. validate_retention_capacity b = Ok () \<and> pb_max_retained_frames b \<noteq> 0
          \<and> length (readers (core s)) = unat (pb_max_concurrent_readers b)
          \<and> Retention_try_preallocated True (f_count (frames (core s))) (pb_max_retained_frames b)
              (pb_max_concurrent_readers b) (pb_registered_file_capacity b) WaitState_default = Some (Some (ret s)))
     \<and> threads s = replicate (length (readers (core s))) \<lparr>t_pc = Ready, t_handles = []\<rparr>
     \<and> drain_at s = DIdle \<and> cursor s = 0 \<and> tickets s = [] \<and> scan_end s = 0"

section \<open>Invariant\<close>

text \<open>What a program counter accounts for: a count of its frame, a budget unit, a unit reserved over
  budget, a frame on its way to the ring, a claimed ticket.\<close>

fun owns :: "retention_pc \<Rightarrow> ReadFrameIdx \<Rightarrow> nat" where
  "owns (RejectCheck g _) f = (if g = f then 1 else 0)"
| "owns (Retained g) f = (if g = f then 1 else 0)"
| "owns (Release g _) f = (if g = f then 1 else 0)"
| "owns _ f = 0"

fun promoting :: "retention_pc \<Rightarrow> ReadFrameIdx option" where
  "promoting (Attempt f _ _) = Some f"
| "promoting (Increment f _ _ _) = Some f"
| "promoting (Reserve f _ _) = Some f"
| "promoting (OverBudget f _ _) = Some f"
| "promoting (Recheck f _ _) = Some f"
| "promoting (FirstCount f _ _) = Some f"
| "promoting (Unreserve f _ _) = Some f"
| "promoting (RejectCheck f _) = Some f"
| "promoting (Retained f) = Some f"
| "promoting (Release f Rejected) = Some f"
| "promoting (LastDrop f Rejected) = Some f"
| "promoting (Push f Rejected) = Some f"
| "promoting (PushCheck f Rejected _) = Some f"
| "promoting (PushFrame f Rejected _) = Some f"
| "promoting (PushSequence f Rejected _) = Some f"
| "promoting _ = None"

fun units :: "retention_pc \<Rightarrow> nat" where
  "units (FirstCount _ _ _) = 1"
| "units (Unreserve _ _ _) = 1"
| "units (LastDrop _ _) = 1"
| "units _ = 0"

fun excess :: "retention_pc \<Rightarrow> nat" where
  "excess (OverBudget _ _ _) = 1"
| "excess _ = 0"

fun pushes :: "ReadFrameIdx \<Rightarrow> retention_pc \<Rightarrow> nat" where
  "pushes f (Push g _) = (if g = f then 1 else 0)"
| "pushes f _ = 0"

fun claimed :: "retention_pc \<Rightarrow> (ReadFrameIdx \<times> u64 \<times> bool) option" where
  "claimed (PushCheck f _ t) = Some (f, t, False)"
| "claimed (PushFrame f _ t) = Some (f, t, False)"
| "claimed (PushSequence f _ t) = Some (f, t, True)"
| "claimed _ = None"

definition claims :: "u64 \<Rightarrow> retention_pc \<Rightarrow> nat" where
  "claims ticket pc = (case claimed pc of Some (f, t, stored) \<Rightarrow> if t = ticket then 1 else 0 | None \<Rightarrow> 0)"

fun announces :: "retention_pc \<Rightarrow> bool" where
  "announces (Push _ _) = True"
| "announces (PushCheck _ _ _) = True"
| "announces (PushFrame _ _ _) = True"
| "announces (PushSequence _ _ _) = True"
| "announces (Publish _) = True"
| "announces _ = False"

fun pc_wf :: "Retention \<Rightarrow> retention_pc \<Rightarrow> bool" where
  "pc_wf R (Attempt f file_slot n) \<longleftrightarrow> unat file_slot < length (retiring R)"
| "pc_wf R (Increment f file_slot n previous) \<longleftrightarrow> unat file_slot < length (retiring R) \<and> 0 < unat previous \<and> unat previous < 65535"
| "pc_wf R (Reserve f file_slot n) \<longleftrightarrow> unat file_slot < length (retiring R)"
| "pc_wf R (OverBudget f file_slot n) \<longleftrightarrow> unat file_slot < length (retiring R)"
| "pc_wf R (Recheck f file_slot n) \<longleftrightarrow> unat file_slot < length (retiring R)"
| "pc_wf R (FirstCount f file_slot n) \<longleftrightarrow> unat file_slot < length (retiring R)"
| "pc_wf R (Unreserve f file_slot n) \<longleftrightarrow> unat file_slot < length (retiring R)"
| "pc_wf R (RejectCheck f file_slot) \<longleftrightarrow> unat file_slot < length (retiring R)"
| "pc_wf R _ \<longleftrightarrow> True"

definition own :: "ReadFrameIdx \<Rightarrow> rthread \<Rightarrow> nat" where
  "own f t = count_list (map snd (t_handles t)) f + owns (t_pc t) f"

abbreviation total_by :: "('a \<Rightarrow> nat) \<Rightarrow> 'a list \<Rightarrow> nat" where
  "total_by g xs \<equiv> sum_list (map g xs)"

abbreviation word_at :: "Retention \<Rightarrow> ReadFrameIdx \<Rightarrow> nat" where
  "word_at R f \<equiv> unat (words R ! unat f)"

definition count_ok :: "Retention \<Rightarrow> rthread list \<Rightarrow> bool" where
  "count_ok R T \<longleftrightarrow> length (tags R) = length (words R)
     \<and> (\<forall>f. (if unat f < length (words R)
            then word_at R f mod 65536 = total_by (own f) T \<and> word_at R f < 131072
            else total_by (own f) T = 0))"

fun drain_units :: "drain_pc \<Rightarrow> nat" where
  "drain_units (DFree _ _ _) = 1"
| "drain_units (DUnit _ _) = 1"
| "drain_units _ = 0"

definition marked :: "Retention \<Rightarrow> nat" where
  "marked R = length (filter (\<lambda>w. w \<noteq> 0) (words R))"

definition budget_ok :: "Retention \<Rightarrow> rthread list \<Rightarrow> drain_pc \<Rightarrow> bool" where
  "budget_ok R T d \<longleftrightarrow>
     unat (occupied_budget R) = marked R + total_by (units \<circ> t_pc) T + drain_units d + total_by (excess \<circ> t_pc) T
     \<and> marked R + total_by (units \<circ> t_pc) T + drain_units d \<le> unat (max_retained_frames R)"

definition guard_ok :: "reader_state list \<Rightarrow> rthread list \<Rightarrow> bool" where
  "guard_ok rs T \<longleftrightarrow> length T = length rs
     \<and> (\<forall>i < length T. \<forall>f. promoting (t_pc (T ! i)) = Some f \<longrightarrow>
          r_pc (rs ! i) = PIdle \<and> f \<in> snd ` set (r_guards (rs ! i)))"

definition held_ok :: "ebr \<Rightarrow> Retention \<Rightarrow> bool" where
  "held_ok e R \<longleftrightarrow> (\<forall>f. unat f < length (words R) \<longrightarrow> 65536 \<le> word_at R f \<longrightarrow>
     st_of (frames e) (unat f) = Evicting \<and> f \<notin> fst ` set (eq_entries (evict_queue e))
     \<and> ctl e \<noteq> CEvicting f \<and> saturating_add (tags R ! unat f) 2 \<le> epoch e)"

fun drains :: "ReadFrameIdx \<Rightarrow> drain_pc \<Rightarrow> nat" where
  "drains f (DTag _ _ g) = (if g = f then 1 else 0)"
| "drains f (DWord _ _ g) = (if g = f then 1 else 0)"
| "drains f (DExchange _ _ g _) = (if g = f then 1 else 0)"
| "drains f _ = 0"

text \<open>A held frame without handles is in exactly one place: on its way to the ring, in the ring, or
  in the hands of the scan.\<close>

definition pending_ok :: "Retention \<Rightarrow> rthread list \<Rightarrow> (u32 \<times> bool) list \<Rightarrow> drain_pc \<Rightarrow> bool" where
  "pending_ok R T q d \<longleftrightarrow> (\<forall>f.
     total_by (pushes f \<circ> t_pc) T + count_list (map fst q) f + drains f d
     = (if unat f < length (words R) \<and> word_at R f = 65536 then 1 else 0))"

definition claims_ok :: "ReleaseRing \<Rightarrow> rthread list \<Rightarrow> u64 \<Rightarrow> (u32 \<times> bool) list \<Rightarrow> bool" where
  "claims_ok r T c q \<longleftrightarrow>
     (\<forall>k < length T. \<forall>f ticket stored. claimed (t_pc (T ! k)) = Some (f, ticket, stored) \<longrightarrow> (\<exists>j < length q.
        ticket = c + of_nat j \<and> q ! j = (f, False) \<and> (stored \<longrightarrow> slot_frame (ring_cell r (unat c + j)) = f)))
     \<and> (\<forall>j < length q. total_by (claims (c + of_nat j) \<circ> t_pc) T = (if snd (q ! j) then 0 else 1))"

definition ring_inv :: "Retention \<Rightarrow> rthread list \<Rightarrow> u64 \<Rightarrow> (u32 \<times> bool) list \<Rightarrow> bool" where
  "ring_inv R T c q \<longleftrightarrow> (case release_ring R of
      None \<Rightarrow> False
    | Some r \<Rightarrow> ring_ok r c q \<and> unat (max_retained_frames R) \<le> unat (ring_capacity r) \<and> claims_ok r T c q)"

fun matured_ok :: "Retention \<Rightarrow> ReadFrameIdx \<Rightarrow> u64 \<Rightarrow> matured_pc \<Rightarrow> bool" where
  "matured_ok R f t MLoad \<longleftrightarrow> True"
| "matured_ok R f t (MTag n previous) \<longleftrightarrow> word_at R f \<le> unat previous \<and> 0 < unat previous \<and> unat previous \<le> n
     \<and> unat previous < 65536"
| "matured_ok R f t (MExchange n previous) \<longleftrightarrow> word_at R f \<le> unat previous \<and> 0 < unat previous \<and> unat previous \<le> n
     \<and> unat previous < 65536 \<and> tags R ! unat f = t"
| "matured_ok R f t (MOutcome out) \<longleftrightarrow> out = Freed \<and> word_at R f = 0"

fun drain_ok :: "ebr \<Rightarrow> Retention \<Rightarrow> (u32 \<times> bool) list \<Rightarrow> drain_pc \<Rightarrow> bool" where
  "drain_ok e R q DIdle \<longleftrightarrow> True"
| "drain_ok e R q (DScan n g) \<longleftrightarrow> g = epoch e"
| "drain_ok e R q (DTake n g) \<longleftrightarrow> g = epoch e \<and> q \<noteq> [] \<and> snd (hd q)"
| "drain_ok e R q (DAdvance n g f) \<longleftrightarrow> g = epoch e \<and> q \<noteq> [] \<and> hd q = (f, True)"
| "drain_ok e R q (DTag n g f) \<longleftrightarrow> g = epoch e"
| "drain_ok e R q (DWord n g f) \<longleftrightarrow> g = epoch e"
| "drain_ok e R q (DExchange n g f w) \<longleftrightarrow> g = epoch e \<and> w = words R ! unat f"
| "drain_ok e R q (DFree n g f) \<longleftrightarrow> g = epoch e \<and> unat f < length (words R) \<and> word_at R f = 0
     \<and> st_of (frames e) (unat f) = Evicting \<and> f \<notin> fst ` set (eq_entries (evict_queue e))"
| "drain_ok e R q (DUnit n g) \<longleftrightarrow> g = epoch e"
| "drain_ok e R q (DMature occupied) \<longleftrightarrow> (\<not> occupied \<longrightarrow>
     (\<forall>(f, t) \<in> set (eq_entries (evict_queue e)). \<not> saturating_add t 2 > epoch e \<longrightarrow> word_at R f = 0))"
| "drain_ok e R q (DMatured f t pc) \<longleftrightarrow> matured_head e = Some (f, t) \<and> matured_ok R f t pc"

definition pages_ok :: "Frames \<Rightarrow> rthread list \<Rightarrow> bool" where
  "pages_ok F T \<longleftrightarrow> (\<forall>t \<in> set T. \<forall>(p, f) \<in> set (t_handles t). exact_page F f = Some p)"

definition shape_ok :: "pool_sys \<Rightarrow> bool" where
  "shape_ok s \<longleftrightarrow> length (words (ret s)) = unat (f_count (frames (core s)))
     \<and> 0 < unat (max_retained_frames (ret s))
     \<and> length (threads s) = unat (max_concurrent_readers (ret s))
     \<and> unat (max_retained_frames (ret s)) + length (threads s) < 2 ^ 32
     \<and> Suc (length (threads s)) < 2 ^ 32
     \<and> (drain_at s \<noteq> DIdle \<longrightarrow> ctl (core s) = CIdle)
     \<and> (\<forall>t \<in> set (threads s). pc_wf (ret s) (t_pc t))"

text \<open>No release is forgotten: outside a scan, an entry of the ring has its announcement made or
  under way; within a scan, so has every entry claimed since the scan began, and the iterations left
  cover the others.\<close>

fun iterations :: "drain_pc \<Rightarrow> nat option" where
  "iterations (DScan n _) = Some n"
| "iterations (DTake n _) = Some (Suc n)"
| "iterations (DAdvance n _ _) = Some (Suc n)"
| "iterations (DTag n _ _) = Some n"
| "iterations (DWord n _ _) = Some n"
| "iterations (DExchange n _ _ _) = Some n"
| "iterations (DFree n _ _) = Some n"
| "iterations (DUnit n _) = Some n"
| "iterations _ = None"

definition announced :: "Retention \<Rightarrow> rthread list \<Rightarrow> bool" where
  "announced R T \<longleftrightarrow> ring_pending (latch (wait R)) \<or> (\<exists>t \<in> set T. announces (t_pc t))"

definition announced_ok :: "pool_sys \<Rightarrow> bool" where
  "announced_ok s \<longleftrightarrow> ring_pending_hint (wait (ret s)) = ring_pending (latch (wait (ret s)))
     \<and> (case iterations (drain_at s) of
         None \<Rightarrow> tickets s \<noteq> [] \<longrightarrow> announced (ret s) (threads s)
       | Some n \<Rightarrow> scan_end s \<le> unat (cursor s) + n
           \<and> (scan_end s < unat (cursor s) + length (tickets s) \<longrightarrow> announced (ret s) (threads s)))"

definition pool_safe :: "pool_sys \<Rightarrow> bool" where
  "pool_safe s \<longleftrightarrow> ebr_safe (core s) \<and> shape_ok s \<and> count_ok (ret s) (threads s)
     \<and> budget_ok (ret s) (threads s) (drain_at s) \<and> guard_ok (readers (core s)) (threads s)
     \<and> held_ok (core s) (ret s) \<and> pending_ok (ret s) (threads s) (tickets s) (drain_at s)
     \<and> ring_inv (ret s) (threads s) (cursor s) (tickets s)
     \<and> drain_ok (core s) (ret s) (tickets s) (drain_at s)
     \<and> pages_ok (frames (core s)) (threads s) \<and> announced_ok s"

text \<open>The epoch and the ring's tickets are clear of their ends.\<close>

definition pool_young :: "pool_sys \<Rightarrow> bool" where
  "pool_young s \<longleftrightarrow> epoch (core s) \<noteq> QUIESCENT \<and> (\<exists>r. release_ring (ret s) = Some r \<and> ring_young r)"

definition pool_inv :: "pool_sys \<Rightarrow> bool" where
  "pool_inv s \<longleftrightarrow> scan_ok (core s) \<and> (pool_young s \<longrightarrow> pool_safe s)"

end
