(* ===== verification/Retention_Inv.thy ===== *)
theory Retention_Inv
  imports Retention_System
begin

text \<open>
  One access of a promotion or a release, seen through the accounting of \<open>Retention_System\<close>: its
  effect on the words, the budget, the pending frames and the ring, and that every part of the
  invariant survives it.
\<close>

lemmas retention_defs = compare_increment_def reserve_unit_def recheck_word_def first_count_def
  reject_retiring_def release_count_def with_ring_def release_publish_def release_budget_unit_def
  word_load_def word_store_def Let_def

section \<open>Accounting\<close>

lemma total_thread:
  "i < length T \<Longrightarrow> total_by (g \<circ> t_pc) (T[i := (T ! i)\<lparr>t_pc := pc\<rparr>]) + g (t_pc (T ! i)) = total_by (g \<circ> t_pc) T + g pc"
  using sum_list_map_update [of i T "g \<circ> t_pc"] by simp

lemma total_own:
  "i < length T \<Longrightarrow> total_by (own f) (T[i := (T ! i)\<lparr>t_pc := pc\<rparr>]) + owns (t_pc (T ! i)) f = total_by (own f) T + owns pc f"
  using sum_list_map_update [of i T "own f" "(T ! i)\<lparr>t_pc := pc\<rparr>"] by (simp add: own_def)

lemma total_member: "i < length T \<Longrightarrow> g (t_pc (T ! i)) \<le> total_by (g \<circ> t_pc) T"
  using sum_list_member [of i T "g \<circ> t_pc"] by simp

lemma owns_le_total: "i < length T \<Longrightarrow> owns (t_pc (T ! i)) f \<le> total_by (own f) T"
  using sum_list_member [of i T "own f"] by (simp add: own_def)

lemma mod_word: "w < 131072 \<Longrightarrow> w mod 65536 = (if 65536 \<le> w then w - 65536 else w)" for w :: nat
  by (simp add: le_mod_geq)

lemma count_okD:
  assumes "count_ok R T" "unat f < length (words R)"
  shows "word_at R f < 131072"
    "word_at R f = total_by (own f) T + (if 65536 \<le> word_at R f then 65536 else 0)"
  using assms mod_word [of "word_at R f"] by (auto simp: count_ok_def)

lemma count_ok_outside: "count_ok R T \<Longrightarrow> \<not> unat f < length (words R) \<Longrightarrow> total_by (own f) T = 0"
  by (simp add: count_ok_def)

lemma count_okI:
  assumes "length (tags R) = length (words R)"
    "\<And>f. unat f < length (words R) \<Longrightarrow> word_at R f < 131072
      \<and> word_at R f = total_by (own f) T + (if 65536 \<le> word_at R f then 65536 else 0)"
    "\<And>f. \<not> unat f < length (words R) \<Longrightarrow> total_by (own f) T = 0"
  shows "count_ok R T"
proof -
  have "word_at R f mod 65536 = total_by (own f) T" if "unat f < length (words R)" for f
    using assms(2) [OF that] mod_word [of "word_at R f"] by (auto split: if_splits)
  then show ?thesis
    using assms by (simp add: count_ok_def)
qed

section \<open>Words\<close>

text \<open>The frame an access may write, and its word before.\<close>

definition frame_ready :: "Retention \<Rightarrow> retention_pc \<Rightarrow> bool" where
  "frame_ready R pc \<longleftrightarrow> pc_wf R pc
     \<and> (\<forall>f. unat f < length (words R) \<longrightarrow> word_at R f < 131072 \<and> owns pc f \<le> word_at R f mod 65536)
     \<and> (\<forall>f. promoting pc = Some f \<longrightarrow> unat f < length (words R) \<and> word_at R f < 65536)
     \<and> (\<forall>f. owns pc f \<noteq> 0 \<longrightarrow> unat f < length (words R))"

lemma unat_Suc_small: "unat w < 65535 \<Longrightarrow> unat (w + 1) = Suc (unat w)" for w :: u32
  using unat_add_small [of w 1] by simp

lemma unat_pred: "0 < unat w mod n \<Longrightarrow> Suc (unat (w - 1)) = unat w" for w :: u32
  using unat_minus_one_pos [of w] by (cases "w = 0") auto

lemma word_ops:
  "word_load R f = Some w \<longleftrightarrow> unat f < length (words R) \<and> words R ! unat f = w"
  "word_store R f w = Some R' \<longleftrightarrow> unat f < length (words R) \<and> R' = R\<lparr>words := (words R)[unat f := w]\<rparr>"
  by (auto simp: word_load_def word_store_def bind_Some_iff)

lemma released_simps [simp]:
  "words (snd (released R origin)) = words R" "occupied_budget (snd (released R origin)) = occupied_budget R"
  "release_ring (snd (released R origin)) = release_ring R" "wait (snd (released R origin)) = wait R"
  "tags (snd (released R origin)) = tags R" "retiring (snd (released R origin)) = retiring R"
  "max_retained_frames (snd (released R origin)) = max_retained_frames R"
  "max_concurrent_readers (snd (released R origin)) = max_concurrent_readers R"
  "owns (fst (released R origin)) f = 0" "promoting (fst (released R origin)) = None"
  "units (fst (released R origin)) = 0" "excess (fst (released R origin)) = 0"
  "pushes f (fst (released R origin)) = 0" "claimed (fst (released R origin)) = None"
  "announces (fst (released R origin)) = False" "pc_wf R' (fst (released R origin))"
  by (cases origin; simp)+

section \<open>Effects\<close>

text \<open>Every access has one of the following effects on the shared state; the diagnostic counters
  aside, what an effect does not mention stays.\<close>

definition same_config :: "Retention \<Rightarrow> Retention \<Rightarrow> bool" where
  "same_config R R' \<longleftrightarrow> tags R' = tags R \<and> retiring R' = retiring R
     \<and> max_retained_frames R' = max_retained_frames R \<and> max_concurrent_readers R' = max_concurrent_readers R"

definition only_words :: "Retention \<Rightarrow> u32 list \<Rightarrow> Retention \<Rightarrow> bool" where
  "only_words R ws R' \<longleftrightarrow> same_config R R' \<and> words R' = ws \<and> occupied_budget R' = occupied_budget R
     \<and> release_ring R' = release_ring R \<and> wait R' = wait R"

definition only_budget :: "Retention \<Rightarrow> u32 \<Rightarrow> Retention \<Rightarrow> bool" where
  "only_budget R n R' \<longleftrightarrow> same_config R R' \<and> words R' = words R \<and> occupied_budget R' = n
     \<and> release_ring R' = release_ring R \<and> wait R' = wait R"

definition only_ring :: "Retention \<Rightarrow> ReleaseRing \<Rightarrow> Retention \<Rightarrow> bool" where
  "only_ring R r R' \<longleftrightarrow> same_config R R' \<and> words R' = words R \<and> occupied_budget R' = occupied_budget R
     \<and> release_ring R' = Some r \<and> wait R' = wait R"

definition bare :: "retention_pc \<Rightarrow> bool" where
  "bare pc \<longleftrightarrow> (\<forall>f. owns pc f = 0 \<and> pushes f pc = 0) \<and> units pc = 0 \<and> excess pc = 0 \<and> claimed pc = None
     \<and> \<not> announces pc"

definition same_claims :: "retention_pc \<Rightarrow> retention_pc \<Rightarrow> bool" where
  "same_claims pc pc' \<longleftrightarrow> (\<forall>f. owns pc' f = owns pc f \<and> pushes f pc' = 0 \<and> pushes f pc = 0) \<and> units pc' = units pc
     \<and> excess pc' = excess pc \<and> claimed pc' = claimed pc \<and> announces pc' = announces pc
     \<and> (\<forall>c q. ticket_effect c pc q = q)"

inductive effect :: "Retention \<Rightarrow> retention_pc \<Rightarrow> retention_pc \<Rightarrow> Retention \<Rightarrow> bool" for R where
  e_quiet: "only_words R (words R) R' \<Longrightarrow> same_claims pc pc' \<Longrightarrow> effect R pc pc' R'"
| e_publish: "same_config R R' \<Longrightarrow> words R' = words R \<Longrightarrow> occupied_budget R' = occupied_budget R \<Longrightarrow>
    release_ring R' = release_ring R \<Longrightarrow> wait R' = publish_ring_pending_and_wake_if_parked (wait R) \<Longrightarrow>
    bare pc' \<Longrightarrow> effect R (Publish origin) pc' R'"
| e_count: "unat f < length (words R) \<Longrightarrow> words R ! unat f = w \<Longrightarrow>
    only_words R ((words R)[unat f := w + 1]) R' \<Longrightarrow>
    effect R (Increment f file_slot n w) (RejectCheck f file_slot) R'"
| e_reserve_over: "only_budget R (occupied_budget R + 1) R' \<Longrightarrow> max_retained_frames R \<le> occupied_budget R \<Longrightarrow>
    effect R (Reserve f file_slot n) (OverBudget f file_slot n) R'"
| e_reserve: "only_budget R (occupied_budget R + 1) R' \<Longrightarrow> occupied_budget R < max_retained_frames R \<Longrightarrow>
    effect R (Reserve f file_slot n) (FirstCount f file_slot n) R'"
| e_give: "only_budget R (occupied_budget R - 1) R' \<Longrightarrow> units pc + excess pc = 1 \<Longrightarrow> (\<And>f. owns pc f = 0) \<Longrightarrow>
    (\<And>f. pushes f pc = 0) \<Longrightarrow> claimed pc = None \<Longrightarrow> \<not> announces pc \<Longrightarrow> bare pc' \<Longrightarrow> effect R pc pc' R'"
| e_first: "unat f < length (words R) \<Longrightarrow> words R ! unat f = 0 \<Longrightarrow> only_words R ((words R)[unat f := 1]) R' \<Longrightarrow>
    effect R (FirstCount f file_slot n) (RejectCheck f file_slot) R'"
| e_release: "unat f < length (words R) \<Longrightarrow> 0 < word_at R f mod 65536 \<Longrightarrow>
    only_words R ((words R)[unat f := words R ! unat f - 1]) R' \<Longrightarrow>
    (if 1 < word_at R f mod 65536 then bare pc'
     else pc' = (if (words R ! unat f - 1) AND HELD = 0 then LastDrop f origin else Push f origin)) \<Longrightarrow>
    effect R (Release f origin) pc' R'"
| e_ticket: "release_ring R = Some r \<Longrightarrow> push_ticket r = Some (t, r') \<Longrightarrow> only_ring R r' R' \<Longrightarrow>
    effect R (Push f origin) (PushCheck f origin t) R'"
| e_store: "release_ring R = Some r \<Longrightarrow> push_frame r t f = Some r' \<Longrightarrow> only_ring R r' R' \<Longrightarrow>
    effect R (PushFrame f origin t) (PushSequence f origin t) R'"
| e_sequence: "release_ring R = Some r \<Longrightarrow> push_sequence r t = Some r' \<Longrightarrow> only_ring R r' R' \<Longrightarrow>
    effect R (PushSequence f origin t) (Publish origin) R'"

lemmas only_defs = only_words_def only_budget_def only_ring_def same_config_def

lemma bare_results [simp]:
  "bare Ready" "bare (Refused reason)" "bare (Attempt f file_slot n)" "bare (Recheck f file_slot n)"
  "bare (Reserve f file_slot n)" "bare (Increment f file_slot n w)" "bare (fst (released R origin))"
  by (simp_all add: bare_def)

lemma no_ticket_effect: "claimed pc = None \<Longrightarrow> \<forall>f. pushes f pc = 0 \<Longrightarrow> ticket_effect c pc q = q"
  by (cases pc) (auto, metis zero_neq_one)

lemma bare_same: "bare pc \<Longrightarrow> bare pc' \<Longrightarrow> same_claims pc pc'"
  by (simp add: bare_def same_claims_def no_ticket_effect)

lemma tally_pred:
  fixes w :: u32
  assumes "0 < unat w mod 65536"
  shows "unat (w - 1) mod 65536 = unat w mod 65536 - 1"
proof -
  have "unat w = Suc (unat (w - 1))"
    using unat_pred [OF assms] by simp
  then show ?thesis
    using assms by (simp add: mod_Suc split: if_splits)
qed

lemma retention_step_effect:
  assumes "retention_step R pc = Some (pc', R')"
  shows "effect R pc pc' R'"
proof (cases pc)
  case (Attempt f file_slot n)
  then have "bare pc'" "only_words R (words R) R'"
    using assms by (cases n; auto simp: word_ops bind_Some_iff Let_def only_defs split: if_splits)+
  then show ?thesis
    using Attempt by (simp add: e_quiet bare_same)
next
  case (Increment f file_slot n w)
  show ?thesis
  proof (cases "words R ! unat f = w")
    case True
    then show ?thesis
      using assms Increment
      by (auto simp: compare_increment_def word_ops bind_Some_iff only_defs intro!: e_count)
  next
    case False
    then show ?thesis
      using assms Increment
      by (auto simp: compare_increment_def word_ops bind_Some_iff only_defs intro!: e_quiet bare_same)
  qed
next
  case (Reserve f file_slot n)
  then show ?thesis
    using assms by (auto simp: reserve_unit_def Let_def only_defs not_le split: if_splits
        intro!: e_reserve e_reserve_over)
next
  case (OverBudget f file_slot n)
  then show ?thesis
    using assms by (auto simp: release_budget_unit_def Let_def only_defs intro!: e_give)
next
  case (Recheck f file_slot n)
  then show ?thesis
    using assms by (auto simp: recheck_word_def word_ops bind_Some_iff only_defs split: if_splits
        intro!: e_quiet bare_same)
next
  case (FirstCount f file_slot n)
  show ?thesis
  proof (cases "words R ! unat f = 0")
    case True
    then show ?thesis
      using assms FirstCount by (auto simp: first_count_def word_ops bind_Some_iff only_defs intro!: e_first)
  next
    case False
    then show ?thesis
      using assms FirstCount
      by (auto simp: first_count_def word_ops bind_Some_iff only_defs same_claims_def intro!: e_quiet)
  qed
next
  case (Unreserve f file_slot n)
  then show ?thesis
    using assms by (auto simp: release_budget_unit_def Let_def only_defs intro!: e_give)
next
  case (RejectCheck f file_slot)
  then show ?thesis
    using assms by (auto simp: reject_retiring_def bind_Some_iff only_defs same_claims_def split: if_splits
        intro!: e_quiet)
next
  case (Release f origin)
  let ?w = "words R ! unat f"
  let ?R = "R\<lparr>words := (words R)[unat f := ?w - 1]\<rparr>"
  have f: "unat f < length (words R)" "0 < unat ?w mod 65536"
    "(pc', R') = (if 0 < unat (?w - 1) mod 65536 then released ?R origin
       else if (?w - 1) AND HELD = 0 then (LastDrop f origin, ?R) else (Push f origin, ?R))"
    using assms Release by (auto simp: release_count_def word_ops bind_Some_iff Let_def split: if_splits)
  have "only_words R (words ?R) R'"
    using f(3) by (cases origin) (auto simp: only_defs split: if_splits)
  moreover have "if 1 < word_at R f mod 65536 then bare pc'
     else pc' = (if (?w - 1) AND HELD = 0 then LastDrop f origin else Push f origin)"
    using f(2, 3) tally_pred [OF f(2)] by (cases origin) (auto split: if_splits)
  ultimately show ?thesis
    using Release f by (auto intro!: e_release)
next
  case (LastDrop f origin)
  then show ?thesis
    using assms by (cases origin) (auto simp: release_budget_unit_def Let_def only_defs intro!: e_give)
next
  case (Push f origin)
  then show ?thesis
    using assms by (auto simp: with_ring_def bind_Some_iff only_defs intro!: e_ticket)
next
  case (PushCheck f origin t)
  then show ?thesis
    using assms by (auto simp: with_ring_def bind_Some_iff only_defs same_claims_def intro!: e_quiet)
next
  case (PushFrame f origin t)
  then show ?thesis
    using assms by (auto simp: with_ring_def bind_Some_iff only_defs intro!: e_store)
next
  case (PushSequence f origin t)
  then show ?thesis
    using assms by (auto simp: with_ring_def bind_Some_iff only_defs intro!: e_sequence)
next
  case (Publish origin)
  then show ?thesis
    using assms by (cases origin) (auto simp: release_publish_def only_defs intro!: e_publish)
qed (use assms in simp_all)

section \<open>Words and counts\<close>

lemma effect_config: "effect R pc pc' R' \<Longrightarrow> same_config R R' \<and> length (words R') = length (words R)"
  by (erule effect.cases) (auto simp: only_defs)

lemma effect_words:
  assumes "effect R pc pc' R'" "frame_ready R pc" "unat f < length (words R)"
  shows "word_at R' f + owns pc f = word_at R f + owns pc' f"
    "65536 \<le> word_at R' f \<longleftrightarrow> 65536 \<le> word_at R f" "word_at R' f < 131072"
proof -
  have small: "word_at R g < 131072" if "unat g < length (words R)" for g
    using assms(2) that by (simp add: frame_ready_def)
  have "word_at R' f + owns pc f = word_at R f + owns pc' f \<and> (65536 \<le> word_at R' f \<longleftrightarrow> 65536 \<le> word_at R f)
    \<and> word_at R' f < 131072"
    using assms(1)
  proof cases
    case (e_count g w file_slot n)
    then have "0 < unat w" "unat w < 65535"
      using assms(2) by (auto simp: frame_ready_def)
    then show ?thesis
      using e_count small [OF assms(3)] by (auto simp: only_words_def nth_list_update word_unat_eq_iff unat_Suc_small)
  next
    case (e_first g file_slot n)
    then show ?thesis
      using small [OF assms(3)] by (auto simp: only_words_def nth_list_update word_unat_eq_iff)
  next
    case (e_release g origin)
    let ?w = "words R ! unat g"
    have pred: "Suc (unat (?w - 1)) = unat ?w" and "unat ?w \<noteq> 65536"
      using unat_pred [OF e_release(3)] e_release(3) by auto
    moreover have "owns pc' h = 0" for h
      using e_release(5) by (auto simp: bare_def split: if_splits)
    ultimately show ?thesis
      using e_release small [OF assms(3)] by (auto simp: only_words_def nth_list_update word_unat_eq_iff)
  qed (use small [OF assms(3)] in \<open>auto simp: only_defs same_claims_def bare_def\<close>)
  then show "word_at R' f + owns pc f = word_at R f + owns pc' f"
    "65536 \<le> word_at R' f \<longleftrightarrow> 65536 \<le> word_at R f" "word_at R' f < 131072"
    by auto
qed

lemma owns_Some: "owns pc f \<noteq> 0 \<Longrightarrow> owns pc f = 1 \<and> (promoting pc = Some f \<or> pc = Release f Dropped)"
  by (cases "(pc, f)" rule: owns.cases) (auto split: if_splits, metis release_origin.exhaust promoting.simps(10))

lemma effect_owns_inside:
  assumes "effect R pc pc' R'" "frame_ready R pc" "\<not> unat f < length (words R)"
  shows "owns pc' f = owns pc f"
proof -
  have zero: "owns pc f = 0"
    using assms(2, 3) by (auto simp: frame_ready_def)
  show ?thesis
    using assms(1) by cases (use zero assms(3) in \<open>auto simp: same_claims_def bare_def split: if_splits\<close>)
qed

lemma effect_count_ok:
  assumes "count_ok R T" "i < length T" "frame_ready R (t_pc (T ! i))" "effect R (t_pc (T ! i)) pc' R'"
  shows "count_ok R' (T[i := (T ! i)\<lparr>t_pc := pc'\<rparr>])"
proof (rule count_okI)
  note conf = effect_config [OF assms(4)]
  show "length (tags R') = length (words R')"
    using conf assms(1) by (simp add: same_config_def count_ok_def)
  show "word_at R' f < 131072 \<and> word_at R' f = total_by (own f) (T[i := (T ! i)\<lparr>t_pc := pc'\<rparr>])
      + (if 65536 \<le> word_at R' f then 65536 else 0)" if "unat f < length (words R')" for f
  proof -
    have f: "unat f < length (words R)"
      using that conf by simp
    show ?thesis
      using effect_words [OF assms(4, 3) f] count_okD [OF assms(1) f] total_own [OF assms(2), of f pc'] by auto
  qed
  show "total_by (own f) (T[i := (T ! i)\<lparr>t_pc := pc'\<rparr>]) = 0" if "\<not> unat f < length (words R')" for f
    using effect_owns_inside [OF assms(4, 3), of f] count_ok_outside [OF assms(1), of f]
      total_own [OF assms(2), of f pc'] that conf by simp
qed

section \<open>Budget\<close>

lemma marked_words_update:
  "i < length ws \<Longrightarrow> length (filter (\<lambda>w. w \<noteq> 0) (ws[i := w'])) + (if ws ! i = 0 then 0 else 1)
    = length (filter (\<lambda>w. w \<noteq> 0) ws) + (if w' = (0 :: u32) then 0 else 1)"
  using length_filter_update [of i ws "\<lambda>w. w \<noteq> 0" w'] by (auto split: if_splits)

lemma effect_budget:
  assumes "effect R pc pc' R'" "frame_ready R pc" "excess pc = 0 \<longrightarrow> unat (occupied_budget R) + 1 < 2 ^ 32"
    "units pc + excess pc \<le> unat (occupied_budget R)"
  shows "unat (occupied_budget R') + units pc + excess pc + marked R
      = unat (occupied_budget R) + units pc' + excess pc' + marked R'"
    "max_retained_frames R' = max_retained_frames R"
    "marked R' + units pc' \<le> marked R + units pc
      \<or> (excess pc' = 0 \<and> excess pc = 0 \<and> marked R' = marked R \<and> units pc = 0 \<and> units pc' = 1
         \<and> unat (occupied_budget R) < unat (max_retained_frames R))"
proof -
  have up: "excess pc = 0 \<Longrightarrow> unat (occupied_budget R + 1) = Suc (unat (occupied_budget R))"
    using unat_add_small [of "occupied_budget R" 1] assms(3) by simp
  have down: "units pc + excess pc = 1 \<Longrightarrow> Suc (unat (occupied_budget R - 1)) = unat (occupied_budget R)"
    using unat_minus_one_pos [of "occupied_budget R"] assms(4) by (cases "occupied_budget R = 0") auto
  have "unat (occupied_budget R') + units pc + excess pc + marked R
      = unat (occupied_budget R) + units pc' + excess pc' + marked R'
    \<and> max_retained_frames R' = max_retained_frames R
    \<and> (marked R' + units pc' \<le> marked R + units pc
      \<or> (excess pc' = 0 \<and> excess pc = 0 \<and> marked R' = marked R \<and> units pc = 0 \<and> units pc' = 1
         \<and> unat (occupied_budget R) < unat (max_retained_frames R)))"
    using assms(1)
  proof cases
    case (e_count f w file_slot n)
    then have "0 < unat w" "unat w < 65535"
      using assms(2) by (auto simp: frame_ready_def)
    then have "w \<noteq> 0" "w + 1 \<noteq> 0"
      using unat_Suc_small [of w] by auto
    then show ?thesis
      using e_count marked_words_update [OF e_count(3), of "w + 1"] by (simp add: only_defs marked_def)
  next
    case (e_first f file_slot n)
    then show ?thesis
      using marked_words_update [OF e_first(3), of 1] by (simp add: only_defs marked_def)
  next
    case (e_release f origin)
    let ?w = "words R ! unat f"
    have w: "?w \<noteq> 0" and pred: "Suc (unat (?w - 1)) = unat ?w"
      using e_release(3) unat_pred [OF e_release(3)] by auto
    have small: "unat (?w - 1) < 131072"
      using pred assms(2) e_release(2) by (force simp: frame_ready_def)
    have zero: "?w - 1 = 0 \<longleftrightarrow> word_at R f mod 65536 = 1 \<and> (?w - 1) AND HELD = 0"
      using small pred e_release(3) mod_word [of "unat ?w"] held_iff [OF small]
      by (auto simp: word_unat_eq_iff mod_Suc split: if_splits)
    show ?thesis
      using e_release w zero marked_words_update [OF e_release(2), of "?w - 1"]
      by (auto simp: only_defs marked_def bare_def split: if_splits)
  qed (use up down in \<open>auto simp: only_defs marked_def same_claims_def bare_def word_less_nat_alt\<close>)
  then show "unat (occupied_budget R') + units pc + excess pc + marked R
      = unat (occupied_budget R) + units pc' + excess pc' + marked R'"
    "max_retained_frames R' = max_retained_frames R"
    "marked R' + units pc' \<le> marked R + units pc
      \<or> (excess pc' = 0 \<and> excess pc = 0 \<and> marked R' = marked R \<and> units pc = 0 \<and> units pc' = 1
         \<and> unat (occupied_budget R) < unat (max_retained_frames R))"
    by blast+
qed

lemma total_le_length: "(\<And>x. g x \<le> 1) \<Longrightarrow> total_by g xs \<le> length xs" for g :: "'a \<Rightarrow> nat"
  using sum_list_mono [of xs g "\<lambda>_. 1"] by (simp add: sum_list_triv)

lemma excess_le: "excess pc \<le> 1" and units_le: "units pc \<le> 1"
  by (cases pc; simp)+

lemma excess_room:
  assumes "i < length T" "excess (t_pc (T ! i)) = 0"
  shows "total_by (excess \<circ> t_pc) T < length T"
  using total_thread [OF assms(1), of excess "OverBudget f file_slot n"]
    total_le_length [of "excess \<circ> t_pc" "T[i := (T ! i)\<lparr>t_pc := OverBudget f file_slot n\<rparr>]"] assms(2) excess_le
  by simp

lemma effect_budget_ok:
  assumes "budget_ok R T d" "i < length T" "frame_ready R (t_pc (T ! i))" "effect R (t_pc (T ! i)) pc' R'"
    "unat (max_retained_frames R) + length T < 2 ^ 32"
  shows "budget_ok R' (T[i := (T ! i)\<lparr>t_pc := pc'\<rparr>]) d"
proof -
  let ?pc = "t_pc (T ! i)"
  note old = assms(1) [unfolded budget_ok_def]
  have room: "excess ?pc = 0 \<longrightarrow> unat (occupied_budget R) + 1 < 2 ^ 32"
    using old excess_room [OF assms(2)] assms(5) by auto
  have own_unit: "units ?pc + excess ?pc \<le> unat (occupied_budget R)"
    using old total_member [OF assms(2), of units] total_member [OF assms(2), of excess] by linarith
  note b = effect_budget [OF assms(4, 3) room own_unit]
  note totals = total_thread [OF assms(2), of units pc'] total_thread [OF assms(2), of excess pc']
  show ?thesis
    using b(3)
  proof
    assume "marked R' + units pc' \<le> marked R + units ?pc"
    then show ?thesis
      unfolding budget_ok_def b(2) using b(1) old totals by (intro conjI; linarith)
  next
    assume "excess pc' = 0 \<and> excess ?pc = 0 \<and> marked R' = marked R \<and> units ?pc = 0 \<and> units pc' = 1
         \<and> unat (occupied_budget R) < unat (max_retained_frames R)"
    then show ?thesis
      unfolding budget_ok_def b(2) using b(1) old totals by (intro conjI; linarith)
  qed
qed

section \<open>Pending frames\<close>

lemma count_ticket_effect:
  assumes "\<And>f origin t. pc = PushSequence f origin t \<Longrightarrow> fst (q ! unat (t - c)) = f"
  shows "count_list (map fst (ticket_effect c pc q)) g = count_list (map fst q) g + pushes g pc"
proof (cases pc)
  case (PushSequence f origin t)
  have "(map fst q)[unat (t - c) := f] = map fst q"
    using assms [OF PushSequence] by (cases "unat (t - c) < length q") (simp_all add: list_update_same_conv list_update_beyond)
  then show ?thesis
    using PushSequence by (simp add: map_update)
qed auto

lemma effect_pending:
  assumes "effect R pc pc' R'" "frame_ready R pc"
  shows "(if unat f < length (words R') \<and> word_at R' f = 65536 then 1 else 0)
    = (if unat f < length (words R) \<and> word_at R f = 65536 then 1 else 0) + pushes f pc'"
  using assms(1)
proof cases
  case (e_count g w file_slot n)
  then have "unat w < 65535"
    using assms(2) by (auto simp: frame_ready_def)
  then show ?thesis
    using e_count by (auto simp: only_words_def nth_list_update word_unat_eq_iff unat_Suc_small)
next
  case (e_release g origin)
  let ?w = "words R ! unat g"
  have pred: "Suc (unat (?w - 1)) = unat ?w" and ne: "unat ?w \<noteq> 65536"
    using unat_pred [OF e_release(3)] e_release(3) by auto
  have w: "unat ?w < 131072" "unat (?w - 1) < 131072"
    using assms(2) e_release(2) pred by (force simp: frame_ready_def)+
  have push: "pushes f pc' = (if g = f \<and> unat (?w - 1) = 65536 then 1 else 0)"
    using e_release(3, 5) pred w mod_word [OF w(1)] held_iff [OF w(2)] by (auto simp: bare_def split: if_splits)
  show ?thesis
    using e_release(2, 4) push ne by (auto simp: only_words_def nth_list_update word_unat_eq_iff)
next
  case (e_first g file_slot n)
  then show ?thesis
    by (auto simp: only_words_def nth_list_update word_unat_eq_iff)
qed (auto simp: only_defs same_claims_def bare_def)

lemma effect_pending_ok:
  assumes "pending_ok R T q d" "i < length T" "frame_ready R (t_pc (T ! i))" "effect R (t_pc (T ! i)) pc' R'"
    "\<And>f origin t. t_pc (T ! i) = PushSequence f origin t \<Longrightarrow> fst (q ! unat (t - c)) = f"
  shows "pending_ok R' (T[i := (T ! i)\<lparr>t_pc := pc'\<rparr>]) (ticket_effect c (t_pc (T ! i)) q) d"
  unfolding pending_ok_def
proof
  fix f
  have ticket: "count_list (map fst (ticket_effect c (t_pc (T ! i)) q)) f = count_list (map fst q) f + pushes f (t_pc (T ! i))"
    by (rule count_ticket_effect) (rule assms(5))
  show "total_by (pushes f \<circ> t_pc) (T[i := (T ! i)\<lparr>t_pc := pc'\<rparr>])
      + count_list (map fst (ticket_effect c (t_pc (T ! i)) q)) f + drains f d
    = (if unat f < length (words R') \<and> word_at R' f = 65536 then 1 else 0)"
    unfolding effect_pending [OF assms(4, 3)]
    using assms(1) [unfolded pending_ok_def, rule_format, of f] total_thread [OF assms(2), of "pushes f" pc']
      ticket by linarith
qed

section \<open>The ring\<close>

lemma total_two:
  fixes g :: "'a \<Rightarrow> nat"
  assumes "i < length T" "k < length T" "i \<noteq> k"
  shows "g (T ! i) + g (T ! k) \<le> total_by g T"
proof -
  have "sum (\<lambda>j. g (T ! j)) {i, k} \<le> sum (\<lambda>j. g (T ! j)) {0..<length T}"
    using assms by (intro sum_mono2) auto
  then show ?thesis
    using assms(3) by (simp add: sum_list_sum_nth)
qed

lemma claims_okD:
  assumes "claims_ok r T c q" "k < length T" "claimed (t_pc (T ! k)) = Some (f, t, stored)"
  obtains j where "j < length q" "t = c + of_nat j" "q ! j = (f, False)"
    "stored \<longrightarrow> slot_frame (ring_cell r (unat c + j)) = f"
  using assms unfolding claims_ok_def by blast

lemma claims_unique:
  assumes "claims_ok r T c q" "i < length T" "k < length T" "j < length q"
    "claimed (t_pc (T ! i)) = Some (f, c + of_nat j, b)" "claimed (t_pc (T ! k)) = Some (f', c + of_nat j, b')"
  shows "i = k"
proof (rule ccontr)
  assume "i \<noteq> k"
  then have "2 \<le> total_by (claims (c + of_nat j) \<circ> t_pc) T"
    using total_two [OF assms(2, 3), of "claims (c + of_nat j) \<circ> t_pc"] assms(5, 6) by (simp add: claims_def)
  then show False
    using assms(1, 4) by (auto simp: claims_ok_def split: if_splits)
qed

text \<open>Threads that claim nothing do not matter.\<close>

lemma claims_unclaimed: "claimed pc = None \<Longrightarrow> claims t pc = 0"
  by (simp add: claims_def)

lemma claims_ok_same:
  assumes "claims_ok r T c q" "i < length T" "claimed pc' = claimed (t_pc (T ! i))"
  shows "claims_ok r (T[i := (T ! i)\<lparr>t_pc := pc'\<rparr>]) c q"
proof -
  have "claims t pc' = claims t (t_pc (T ! i))" for t
    using assms(3) by (simp add: claims_def)
  then have "total_by (claims t \<circ> t_pc) (T[i := (T ! i)\<lparr>t_pc := pc'\<rparr>]) = total_by (claims t \<circ> t_pc) T" for t
    using total_thread [OF assms(2), of "claims t" pc'] by simp
  then show ?thesis
    using assms by (auto simp: claims_ok_def nth_list_update)
qed

lemma of_nat_ticket_inj:
  assumes "ring_ok r c q" "ring_young r" "i < unat (ring_capacity r)" "j < unat (ring_capacity r)"
  shows "c + of_nat i = c + of_nat j \<longleftrightarrow> i = j"
proof -
  have "unat (of_nat k :: u64) = k" if "k < unat (ring_capacity r)" for k
    using unat_of_nat_below [OF that] .
  then show ?thesis
    using assms(3, 4) by (metis add_left_cancel)
qed

lemma claims_ok_ticket:
  assumes ok: "ring_ok r c q" "ring_young r" "length q < unat (ring_capacity r)"
    and claims: "claims_ok r T c q" "i < length T" "claimed (t_pc (T ! i)) = None"
    and new: "\<And>u. ring_cell r' u = ring_cell r u"
  shows "claims_ok r' (T[i := (T ! i)\<lparr>t_pc := PushCheck f origin (c + of_nat (length q))\<rparr>]) c (q @ [(f, False)])"
proof -
  let ?t = "c + of_nat (length q)" and ?T = "T[i := (T ! i)\<lparr>t_pc := PushCheck f origin (c + of_nat (length q))\<rparr>]"
  note inj = of_nat_ticket_inj [OF ok(1, 2)]
  have bound: "j < unat (ring_capacity r)" if "j \<le> length q" for j
    using that ok(3) by simp
  have fresh: "claims ?t (t_pc (T ! k)) = 0" if k: "k < length T" for k
  proof (cases "claimed (t_pc (T ! k))")
    case (Some x)
    then obtain g t b where x: "claimed (t_pc (T ! k)) = Some (g, t, b)"
      by (cases x) auto
    then obtain j where "j < length q" "t = c + of_nat j"
      using claims_okD [OF claims(1) k x] by blast
    then have "t \<noteq> ?t"
      using inj [OF bound bound, of j "length q"] by auto
    then show ?thesis
      using x by (simp add: claims_def)
  qed (simp add: claims_def)
  have total: "total_by (claims t \<circ> t_pc) ?T = total_by (claims t \<circ> t_pc) T + (if t = ?t then 1 else 0)" for t
    using total_thread [OF claims(2), of "claims t" "PushCheck f origin ?t"] claims_unclaimed [OF claims(3)]
    by (auto simp: claims_def)
  have none: "total_by (claims ?t \<circ> t_pc) T = 0"
    using fresh by (auto simp: in_set_conv_nth)
  have "\<exists>j < length (q @ [(f, False)]). t = c + of_nat j \<and> (q @ [(f, False)]) ! j = (g, False)
      \<and> (b \<longrightarrow> slot_frame (ring_cell r' (unat c + j)) = g)"
    if k: "k < length T" "claimed (t_pc (?T ! k)) = Some (g, t, b)" for k g t b
  proof (cases "k = i")
    case True
    then show ?thesis
      using k by (intro exI [of _ "length q"]) auto
  next
    case False
    then obtain j where "j < length q" "t = c + of_nat j" "q ! j = (g, False)"
      "b \<longrightarrow> slot_frame (ring_cell r (unat c + j)) = g"
      using claims_okD [OF claims(1) k(1), of g t b] k(2) by auto
    then show ?thesis
      by (intro exI [of _ j]) (simp add: nth_append new)
  qed
  moreover have "total_by (claims (c + of_nat j) \<circ> t_pc) ?T = (if snd ((q @ [(f, False)]) ! j) then 0 else 1)"
    if "j < Suc (length q)" for j
  proof (cases "j = length q")
    case True
    then show ?thesis
      using total [of ?t] none by (simp add: nth_append)
  next
    case False
    then have "j < length q"
      using that by simp
    then show ?thesis
      using total [of "c + of_nat j"] inj [OF bound bound, of j "length q"] claims(1)
      by (auto simp: nth_append claims_ok_def)
  qed
  ultimately show ?thesis
    by (auto simp: claims_ok_def)
qed

lemma claims_ok_store:
  assumes claims: "claims_ok r T c q" "i < length T" "claimed (t_pc (T ! i)) = Some (f, c + of_nat j, False)"
    and pc': "claimed pc' = Some (f, c + of_nat j, True)"
    and j: "j < length q" "length q \<le> unat (ring_capacity r)" "q ! j = (f, False)"
    and new: "\<And>k. k < unat (ring_capacity r) \<Longrightarrow> slot_frame (ring_cell r' (unat c + k))
      = (if k = j then f else slot_frame (ring_cell r (unat c + k)))"
  shows "claims_ok r' (T[i := (T ! i)\<lparr>t_pc := pc'\<rparr>]) c q"
proof -
  let ?T = "T[i := (T ! i)\<lparr>t_pc := pc'\<rparr>]"
  have "claims t pc' = claims t (t_pc (T ! i))" for t
    using claims(3) pc' by (simp add: claims_def)
  then have total: "total_by (claims t \<circ> t_pc) ?T = total_by (claims t \<circ> t_pc) T" for t
    using total_thread [OF claims(2), of "claims t" pc'] by simp
  have "\<exists>j < length q. t = c + of_nat j \<and> q ! j = (g, False)
      \<and> (b \<longrightarrow> slot_frame (ring_cell r' (unat c + j)) = g)"
    if k: "k < length T" "claimed (t_pc (?T ! k)) = Some (g, t, b)" for k g t b
  proof (cases "k = i")
    case True
    then show ?thesis
      using k pc' j new [of j] by (intro exI [of _ j]) auto
  next
    case False
    then obtain j' where j': "j' < length q" "t = c + of_nat j'" "q ! j' = (g, False)"
      "b \<longrightarrow> slot_frame (ring_cell r (unat c + j')) = g"
      using claims_okD [OF claims(1) k(1), of g t b] k(2) by auto
    then have "j' \<noteq> j"
      using claims_unique [OF claims(1, 2) k(1) j(1) claims(3)] k(2) False by auto
    then show ?thesis
      using j' j(2) new [of j'] by (intro exI [of _ j']) auto
  qed
  then show ?thesis
    using claims(1) total by (auto simp: claims_ok_def)
qed

lemma claims_ok_sequence:
  assumes claims: "claims_ok r T c q" "i < length T" "claimed (t_pc (T ! i)) = Some (f, c + of_nat j, b)"
    and pc': "claimed pc' = None" and ok: "ring_ok r c q" "ring_young r" and j: "j < length q"
    and new: "\<And>k. slot_frame (ring_cell r' k) = slot_frame (ring_cell r k)"
  shows "claims_ok r' (T[i := (T ! i)\<lparr>t_pc := pc'\<rparr>]) c (q[j := (f, True)])"
proof -
  let ?T = "T[i := (T ! i)\<lparr>t_pc := pc'\<rparr>]" and ?q = "q[j := (f, True)]"
  have inj: "c + of_nat k = c + of_nat j \<longleftrightarrow> k = j" if "k < length q" for k
    using of_nat_ticket_inj [OF ok, of k j] that j ring_okD(3) [OF ok(1)] by simp
  have total: "total_by (claims t \<circ> t_pc) ?T + (if t = c + of_nat j then 1 else 0) = total_by (claims t \<circ> t_pc) T" for t
    using total_thread [OF claims(2), of "claims t" pc'] claims_unclaimed [OF pc'] claims(3)
    by (auto simp: claims_def)
  have "\<exists>j' < length ?q. t = c + of_nat j' \<and> ?q ! j' = (g, False) \<and> (b' \<longrightarrow> slot_frame (ring_cell r' (unat c + j')) = g)"
    if k: "k < length T" "claimed (t_pc (?T ! k)) = Some (g, t, b')" for k g t b'
  proof -
    have ki: "k \<noteq> i"
      using k pc' by auto
    then obtain j' where j': "j' < length q" "t = c + of_nat j'" "q ! j' = (g, False)"
      "b' \<longrightarrow> slot_frame (ring_cell r (unat c + j')) = g"
      using claims_okD [OF claims(1) k(1), of g t b'] k(2) by auto
    then have "j' \<noteq> j"
      using claims_unique [OF claims(1, 2) k(1) j claims(3)] k(2) ki by auto
    then show ?thesis
      using j' new by (intro exI [of _ j']) auto
  qed
  moreover have "total_by (claims (c + of_nat k) \<circ> t_pc) ?T = (if snd (?q ! k) then 0 else 1)" if "k < length q" for k
  proof (cases "k = j")
    case True
    have "total_by (claims (c + of_nat j) \<circ> t_pc) T \<le> 1"
      using claims(1) j by (auto simp: claims_ok_def)
    then have "total_by (claims (c + of_nat j) \<circ> t_pc) ?T = 0"
      using total [of "c + of_nat j"] by (simp del: sum_list_eq_0_iff)
    then show ?thesis
      using True j by (simp del: sum_list_eq_0_iff)
  next
    case False
    then show ?thesis
      using total [of "c + of_nat k"] inj [OF that] claims(1) that by (simp add: claims_ok_def)
  qed
  ultimately show ?thesis
    by (auto simp: claims_ok_def)
qed

text \<open>The frames in the ring are distinct and marked.\<close>

lemma distinct_count_list: "(\<And>x. count_list xs x \<le> 1) \<Longrightarrow> distinct xs"
proof (induction xs)
  case (Cons y ys)
  have "count_list ys x \<le> 1" for x
    using Cons.prems [of x] by (simp split: if_splits)
  moreover have "count_list ys y = 0"
    using Cons.prems [of y] by simp
  ultimately show ?case
    using Cons.IH by (simp add: count_list_0_iff)
qed simp

lemma pending_bound:
  assumes "pending_ok R T q d" "\<forall>f \<in> F. 0 < total_by (pushes f \<circ> t_pc) T"
  shows "length q + card F \<le> marked R"
proof -
  let ?G = "F \<union> set (map fst q)" and ?marked = "{j. j < length (words R) \<and> words R ! j \<noteq> 0}"
  note p = assms(1) [unfolded pending_ok_def, rule_format]
  have once: "count_list (map fst q) f \<le> 1" "0 < total_by (pushes f \<circ> t_pc) T \<Longrightarrow> count_list (map fst q) f = 0" for f
    using p [of f] by (auto split: if_splits)
  have dist: "distinct (map fst q)"
    using once(1) by (rule distinct_count_list)
  have "f \<notin> set (map fst q)" if "f \<in> F" for f
    using once(2) [of f] assms(2) that by (metis count_list_0_iff)
  then have disj: "F \<inter> set (map fst q) = {}"
    by blast
  have "unat f < length (words R) \<and> word_at R f = 65536" if "f \<in> ?G" for f
  proof -
    have "0 < total_by (pushes f \<circ> t_pc) T \<or> 0 < count_list (map fst q) f"
      using that assms(2) by (auto simp: count_list_0_iff simp flip: neq0_conv)
    then show ?thesis
      using p [of f] by (auto split: if_splits)
  qed
  then have "unat ` ?G \<subseteq> ?marked"
    by (force simp: word_unat_eq_iff)
  then have "card (unat ` ?G) \<le> card ?marked"
    by (rule card_mono [rotated]) simp
  moreover have "inj_on unat ?G"
    by (simp add: inj_on_def word_unat_eq_iff)
  then have "card (unat ` ?G) = card F + length q"
    using card_Un_disjoint [OF _ _ disj] distinct_card [OF dist] by (simp add: card_image)
  ultimately show ?thesis
    by (simp add: marked_def length_filter_conv_card)
qed

lemma ring_invD:
  assumes "ring_inv R T c q"
  obtains r where "release_ring R = Some r" "ring_ok r c q" "unat (max_retained_frames R) \<le> unat (ring_capacity r)"
    "claims_ok r T c q"
  using assms by (auto simp: ring_inv_def split: option.splits)

lemma ring_inv_same:
  assumes "ring_inv R T c q" "i < length T" "claimed pc' = claimed (t_pc (T ! i))"
    "release_ring R' = release_ring R" "max_retained_frames R' = max_retained_frames R"
  shows "ring_inv R' (T[i := (T ! i)\<lparr>t_pc := pc'\<rparr>]) c q"
  using assms claims_ok_same [OF _ assms(2, 3)] by (auto simp: ring_inv_def split: option.splits)

lemma unat_ticket_diff:
  assumes "ring_ok r c q" "j < length q"
  shows "unat (c + of_nat j - c :: u64) = j"
  using ring_okD(3) [OF assms(1)] assms(2) unat_of_nat_below [of j "ring_capacity r"] by simp

lemma claimed_position:
  assumes "ring_inv R T c q" "i < length T" "t_pc (T ! i) = PushSequence f origin t"
  shows "fst (q ! unat (t - c)) = f"
proof -
  obtain r where r: "ring_ok r c q" "claims_ok r T c q"
    using assms(1) by (rule ring_invD)
  obtain j where "j < length q" "t = c + of_nat j" "q ! j = (f, False)"
    using claims_okD [OF r(2) assms(2), of f t True] assms(3) by auto
  then show ?thesis
    using unat_ticket_diff [OF r(1)] by simp
qed

lemma effect_ring_inv:
  assumes inv: "ring_inv R T c q" and i: "i < length T" and e: "effect R (t_pc (T ! i)) pc' R'"
    and young: "release_ring R' = Some r'" "ring_young r'"
    and pending: "pending_ok R T q d" "marked R \<le> unat (max_retained_frames R)"
  shows "ring_inv R' (T[i := (T ! i)\<lparr>t_pc := pc'\<rparr>]) c (ticket_effect c (t_pc (T ! i)) q)"
proof -
  obtain r where r: "release_ring R = Some r" "ring_ok r c q"
    "unat (max_retained_frames R) \<le> unat (ring_capacity r)" "claims_ok r T c q"
    using inv by (rule ring_invD)
  note quiet = ring_inv_same [OF inv i]
  note conf = effect_config [OF e, unfolded same_config_def]
  show ?thesis
    using e
  proof cases
    case (e_ticket r0 t r1 f origin)
    then have r1: "push_ticket r = Some (t, r')" "t_pc (T ! i) = Push f origin" "pc' = PushCheck f origin t"
      using r(1) young(1) by (auto simp: only_ring_def)
    have r': "r' = r\<lparr>ring_tail := ring_tail r + 1\<rparr>" "t = ring_tail r" "ring_tail r \<noteq> - 1"
      using r1(1) by (auto simp: push_ticket_def Let_def)
    have "unat (ring_tail r') = Suc (unat (ring_tail r))"
      using r' below_max_Suc [of "ring_tail r"] by (simp add: order_less_le)
    then have young_r: "ring_young r"
      using young(2) r'(1) by (simp add: ring_young_def)
    have "0 < total_by (pushes f \<circ> t_pc) T"
      using total_member [OF i, of "pushes f"] r1(2) by simp
    then have room: "length q < unat (ring_capacity r)"
      using pending_bound [OF pending(1), of "{f}"] pending(2) r(3) by simp
    have t: "t = c + of_nat (length q)"
      using ring_okD(2) [OF r(2)] unat_of_nat_below [OF room] unat_add_small [of c "of_nat (length q)"]
        unsigned_less [of "ring_tail r", where 'a = nat]
      by (simp add: r'(2) word_unat_eq_iff)
    have cells: "ring_cell r' u = ring_cell r u" for u
      by (simp add: r' ring_cell_def)
    show ?thesis
      using push_ticket_ok(2) [OF r(2) room r'(3), of f] r(3) young(1) r1(2, 3) conf
        claims_ok_ticket [OF r(2) young_r room r(4) i _ cells, of f origin] t
      by (simp add: ring_inv_def r')
  next
    case (e_store r0 t f r1 origin)
    then have pcs: "t_pc (T ! i) = PushFrame f origin t" "pc' = PushSequence f origin t" "push_frame r t f = Some r'"
      using r(1) young(1) by (auto simp: only_ring_def)
    obtain j where j: "j < length q" "t = c + of_nat j" "q ! j = (f, False)"
      using claims_okD [OF r(4) i, of f t False] pcs(1) by auto
    have same: "ring_tail r' = ring_tail r" "ring_capacity r' = ring_capacity r"
      using pcs(3) by (auto simp: push_frame_def ring_update_def bind_Some_iff)
    have young_r: "ring_young r"
      using young(2) same by (simp add: ring_young_def)
    have open_j: "\<not> snd (q ! j)"
      using j(3) by simp
    obtain "ring_ok r' c q" and cells: "\<And>k. k < unat (ring_capacity r) \<Longrightarrow> slot_frame (ring_cell r' (unat c + k))
        = (if k = j then f else slot_frame (ring_cell r (unat c + k)))"
      by (rule push_frame_ok [OF r(2) j(1) open_j young_r, of f]) (use pcs(3) j(2) in auto)
    moreover have "claims_ok r' (T[i := (T ! i)\<lparr>t_pc := pc'\<rparr>]) c q"
      by (rule claims_ok_store [OF r(4) i _ _ j(1) ring_okD(3) [OF r(2)] j(3) cells]) (use pcs j(2) in auto)
    ultimately show ?thesis
      using young(1) r(3) same conf pcs(1) by (simp add: ring_inv_def)
  next
    case (e_sequence r0 t r1 f origin)
    then have pcs: "t_pc (T ! i) = PushSequence f origin t" "pc' = Publish origin" "push_sequence r t = Some r'"
      using r(1) young(1) by (auto simp: only_ring_def)
    obtain j where j: "j < length q" "t = c + of_nat j" "q ! j = (f, False)"
      "slot_frame (ring_cell r (unat c + j)) = f"
      using claims_okD [OF r(4) i, of f t True] pcs(1) by auto
    have same: "ring_tail r' = ring_tail r" "ring_capacity r' = ring_capacity r"
      using pcs(3) by (auto simp: push_sequence_def ring_update_def bind_Some_iff)
    have young_r: "ring_young r"
      using young(2) same by (simp add: ring_young_def)
    have open_j: "\<not> snd (q ! j)" "slot_frame (ring_cell r (unat c + j)) = fst (q ! j)"
      using j by simp_all
    obtain "ring_ok r' c (q[j := (f, True)])" and cells: "\<And>k. slot_frame (ring_cell r' k) = slot_frame (ring_cell r k)"
      by (rule push_sequence_ok [OF r(2) j(1) open_j(1) young_r open_j(2)]) (use pcs(3) j(2, 3) in auto)
    moreover have "claims_ok r' (T[i := (T ! i)\<lparr>t_pc := pc'\<rparr>]) c (q[j := (f, True)])"
      by (rule claims_ok_sequence [OF r(4) i _ _ r(2) young_r j(1) cells]) (use pcs j(2) in auto)
    ultimately show ?thesis
      using young(1) r(3) same conf pcs(1) unat_ticket_diff [OF r(2) j(1)] j(2) by (simp add: ring_inv_def)
  qed (auto intro!: quiet simp: same_claims_def only_defs bare_def no_ticket_effect split: if_splits)
qed

end
