(* ===== verification/Retention_Safety.thy ===== *)
theory Retention_Safety
  imports Retention_Inv
begin

text \<open>
  The invariant of \<open>Retention_System\<close> is preserved by every step: accesses of the threads, the scan of
  the release ring, the mature drain, and the steps of readers and control plane of \<open>Reclaim\<close>.
\<close>

section \<open>Guards and held frames\<close>

lemma unguarded_off_queue:
  assumes "ebr_safe e" "ctl e \<noteq> CEvicting f" "f \<notin> fst ` set (eq_entries (evict_queue e))"
    "st_of (frames e) (unat f) = Evicting" "i < length (readers e)" "h \<in> holding (readers e ! i)"
  shows "snd h \<noteq> f"
  using readers_safe [OF assms(1, 5)] assms(2, 3, 4, 6) by (force simp: reader_safe_def frame_held_def)

lemma pool_safeD:
  assumes "pool_safe s"
  shows "ebr_safe (core s)" "shape_ok s" "count_ok (ret s) (threads s)" "budget_ok (ret s) (threads s) (drain_at s)"
    "guard_ok (readers (core s)) (threads s)" "held_ok (core s) (ret s)"
    "pending_ok (ret s) (threads s) (tickets s) (drain_at s)"
    "ring_inv (ret s) (threads s) (cursor s) (tickets s)" "drain_ok (core s) (ret s) (tickets s) (drain_at s)"
    "pages_ok (frames (core s)) (threads s)" "announced_ok s"
  using assms by (simp_all add: pool_safe_def)

lemma promoting_guard:
  assumes "pool_safe s" "i < length (threads s)" "promoting (t_pc (threads s ! i)) = Some f"
  obtains p where "i < length (readers (core s))" "(p, f) \<in> holding (readers (core s) ! i)"
    "(p, f) \<in> set (r_guards (readers (core s) ! i))" "exact_page (frames (core s)) f = Some p"
    "unat f < length (words (ret s))"
proof -
  have i: "i < length (readers (core s))" and "f \<in> snd ` set (r_guards (readers (core s) ! i))"
    using pool_safeD(5) [OF assms(1)] assms(2, 3) by (auto simp: guard_ok_def)
  then obtain p where p: "(p, f) \<in> set (r_guards (readers (core s) ! i))"
    by auto
  have hold: "(p, f) \<in> holding (readers (core s) ! i)"
    using p by (simp add: holding_def)
  then have page: "exact_page (frames (core s)) f = Some p"
    using readers_safe [OF pool_safeD(1) [OF assms(1)] i] by (auto simp: reader_safe_def frame_held_def)
  have "unat f < unat (f_count (frames (core s)))"
    using page exact_page_Some pool_safeD(1) [OF assms(1)] by (auto simp: ebr_safe_def)
  then show thesis
    using that [OF i hold p page] pool_safeD(2) [OF assms(1)] by (simp add: shape_ok_def)
qed

lemma promoting_not_held:
  assumes "pool_safe s" "i < length (threads s)" "promoting (t_pc (threads s ! i)) = Some f"
  shows "unat f < length (words (ret s)) \<and> word_at (ret s) f < 65536"
proof -
  obtain p where p: "i < length (readers (core s))" "(p, f) \<in> holding (readers (core s) ! i)"
    "unat f < length (words (ret s))"
    using promoting_guard [OF assms] by metis
  then show ?thesis
    using unguarded_off_queue [OF pool_safeD(1) [OF assms(1)] _ _ _ p(1, 2)] pool_safeD(6) [OF assms(1)]
    by (fastforce simp: held_ok_def not_le [symmetric])
qed

lemma thread_ready:
  assumes "pool_safe s" "i < length (threads s)"
  shows "frame_ready (ret s) (t_pc (threads s ! i))"
proof -
  note count = pool_safeD(3) [OF assms(1)]
  have "owns (t_pc (threads s ! i)) f \<le> total_by (own f) (threads s)" for f
    using owns_le_total [OF assms(2)] .
  then have "unat f < length (words (ret s)) \<Longrightarrow> word_at (ret s) f < 131072 \<and> owns (t_pc (threads s ! i)) f \<le> word_at (ret s) f mod 65536"
    "owns (t_pc (threads s ! i)) f \<noteq> 0 \<Longrightarrow> unat f < length (words (ret s))" for f
    using count count_ok_outside [OF count, of f] by (auto simp: count_ok_def) (metis le_zero_eq not_gr_zero)+
  moreover have "pc_wf (ret s) (t_pc (threads s ! i))"
    using pool_safeD(2) [OF assms(1)] assms(2) by (simp add: shape_ok_def)
  ultimately show ?thesis
    using promoting_not_held [OF assms] by (simp add: frame_ready_def)
qed

section \<open>Accesses of a thread\<close>

lemma retention_step_wf:
  assumes "retention_step R pc = Some (pc', R')" "frame_ready R pc"
  shows "pc_wf R' pc'"
proof -
  have wf: "pc_wf R pc" and small: "\<And>f. unat f < length (words R) \<Longrightarrow> word_at R f < 131072"
    using assms(2) by (auto simp: frame_ready_def)
  have "retiring R' = retiring R"
    using effect_config [OF retention_step_effect [OF assms(1)]] by (simp add: same_config_def)
  then have same: "pc_wf R' x = pc_wf R x" for x
    by (cases x) simp_all
  have "pc_wf R pc'"
  proof (cases pc)
    case (Attempt f file_slot n)
    then show ?thesis
      using assms(1) wf small [of f] mod_word [of "word_at R f"]
      by (cases n) (auto simp: word_ops bind_Some_iff Let_def split: if_splits)
  next
    case (Release f origin)
    then show ?thesis
      using assms(1) by (cases origin) (auto simp: release_count_def word_ops bind_Some_iff Let_def split: if_splits)
  next
    case (LastDrop f origin)
    then show ?thesis
      using assms(1) by (cases origin) auto
  next
    case (Publish origin)
    then show ?thesis
      using assms(1) by (cases origin) auto
  qed (use assms(1) wf in \<open>auto simp: retention_defs bind_Some_iff split: if_splits\<close>)
  then show ?thesis
    by (simp add: same)
qed

lemma retention_step_promoting:
  assumes "retention_step R pc = Some (pc', R')" "promoting pc' = Some f"
  shows "promoting pc = Some f"
proof (cases pc)
  case (Attempt g file_slot n)
  then show ?thesis
    using assms by (cases n) (auto simp: word_ops bind_Some_iff Let_def split: if_splits)
next
  case (Release g origin)
  then show ?thesis
    using assms by (cases origin) (auto simp: release_count_def word_ops bind_Some_iff Let_def split: if_splits)
next
  case (LastDrop g origin)
  then show ?thesis
    using assms by (cases origin) auto
next
  case (Push g origin)
  then show ?thesis
    using assms by (cases origin) (auto simp: with_ring_def bind_Some_iff)
next
  case (PushCheck g origin t)
  then show ?thesis
    using assms by (cases origin) (auto simp: with_ring_def bind_Some_iff)
next
  case (PushFrame g origin t)
  then show ?thesis
    using assms by (cases origin) (auto simp: with_ring_def bind_Some_iff)
next
  case (PushSequence g origin t)
  then show ?thesis
    using assms by (cases origin) (auto simp: with_ring_def bind_Some_iff)
next
  case (Publish origin)
  then show ?thesis
    using assms by (cases origin) auto
qed (use assms in \<open>auto simp: retention_defs bind_Some_iff split: if_splits\<close>)

lemma retention_step_not_drop:
  assumes "retention_step R pc = Some (Release f Dropped, R')"
  shows False
proof (cases pc)
  case (Attempt g file_slot n)
  then show ?thesis
    using assms by (cases n) (auto simp: word_ops bind_Some_iff Let_def split: if_splits)
next
  case (Release g origin)
  then show ?thesis
    using assms by (cases origin) (auto simp: release_count_def word_ops bind_Some_iff Let_def split: if_splits)
next
  case (LastDrop g origin)
  then show ?thesis
    using assms by (cases origin) auto
next
  case (Publish origin)
  then show ?thesis
    using assms by (cases origin) auto
qed (use assms in \<open>auto simp: retention_defs bind_Some_iff split: if_splits\<close>)

text \<open>A frame nobody promotes only loses counts, and one without counts is left alone.\<close>

lemma retention_step_unguarded:
  assumes "retention_step R pc = Some (pc', R')" "frame_ready R pc" "promoting pc \<noteq> Some f" "unat f < length (words R)"
  shows "word_at R' f \<le> word_at R f" "word_at R f mod 65536 = 0 \<Longrightarrow> words R' ! unat f = words R ! unat f"
proof -
  note e = effect_words [OF retention_step_effect [OF assms(1)] assms(2, 4)]
  have "pc' \<noteq> Release f Dropped"
    using retention_step_not_drop assms(1) by blast
  then have zero: "owns pc' f = 0"
    using owns_Some [of pc' f] retention_step_promoting [OF assms(1), of f] assms(3) by auto
  then show "word_at R' f \<le> word_at R f"
    using e(1) by simp
  show "words R' ! unat f = words R ! unat f" if "word_at R f mod 65536 = 0"
  proof -
    have "owns pc f = 0"
      using that assms(2, 4) by (fastforce simp: frame_ready_def)
    then show ?thesis
      using e(1) zero by (simp add: word_unat_eq_iff)
  qed
qed

text \<open>Frames the drains work on have no guard.\<close>

lemma matured_unguarded:
  assumes "ebr_safe e" "epoch e \<noteq> QUIESCENT" "ctl e = CIdle" "(f, t) \<in> set (eq_entries (evict_queue e))"
    "\<not> saturating_add t 2 > epoch e" "i < length (readers e)" "(p, f) \<in> holding (readers e ! i)"
  shows False
  using aged_unguarded [OF assms] by simp

lemma matured_head_Some:
  "matured_head e = Some (f, t) \<longleftrightarrow>
    (\<exists>rest. eq_entries (evict_queue e) = (f, t) # rest) \<and> \<not> saturating_add t 2 > epoch e"
  by (auto simp: matured_head_def split: list.splits if_splits)

lemma matured_head_cong: "evict_queue e' = evict_queue e \<Longrightarrow> epoch e' = epoch e \<Longrightarrow> matured_head e' = matured_head e"
  by (simp add: matured_head_def split: list.splits)

lemma drain_not_promoted:
  assumes "pool_safe s" "epoch (core s) \<noteq> QUIESCENT" "i < length (threads s)" "drain_at s \<noteq> DIdle"
    "(f, t) \<in> set (eq_entries (evict_queue (core s)))" "\<not> saturating_add t 2 > epoch (core s)"
  shows "promoting (t_pc (threads s ! i)) \<noteq> Some f"
proof
  assume p: "promoting (t_pc (threads s ! i)) = Some f"
  have "ctl (core s) = CIdle"
    using pool_safeD(2) [OF assms(1)] assms(4) by (simp add: shape_ok_def)
  then show False
    using promoting_guard [OF assms(1, 3) p] matured_unguarded [OF pool_safeD(1) [OF assms(1)] assms(2) _ assms(5, 6)]
    by metis
qed

lemma scan_not_promoted:
  assumes "pool_safe s" "i < length (threads s)" "drain_at s = DFree n g f"
  shows "promoting (t_pc (threads s ! i)) \<noteq> Some f"
proof
  assume p: "promoting (t_pc (threads s ! i)) = Some f"
  have "ctl (core s) = CIdle" "st_of (frames (core s)) (unat f) = Evicting"
    "f \<notin> fst ` set (eq_entries (evict_queue (core s)))"
    using pool_safeD(2, 9) [OF assms(1)] assms(3) by (auto simp: shape_ok_def)
  then show False
    using promoting_guard [OF assms(1, 2) p] unguarded_off_queue [OF pool_safeD(1) [OF assms(1)], of f i]
    by (metis control_pc.distinct(5) snd_conv)
qed

lemma ticket_effect_hd:
  assumes "claims_ok r T c q" "ring_ok r c q" "i < length T" "q \<noteq> []" "snd (hd q)"
  shows "ticket_effect c (t_pc (T ! i)) q \<noteq> [] \<and> hd (ticket_effect c (t_pc (T ! i)) q) = hd q"
proof (cases "t_pc (T ! i)")
  case (PushSequence f origin t)
  then obtain j where "j < length q" "t = c + of_nat j" "q ! j = (f, False)"
    using claims_okD [OF assms(1, 3), of f t True] by auto
  moreover from this have "j \<noteq> 0"
    using assms(4, 5) by (cases j) (auto simp: hd_conv_nth)
  ultimately show ?thesis
    using PushSequence assms(4) unat_ticket_diff [OF assms(2), of j] by (simp add: hd_conv_nth)
qed (use assms(4) in auto)

lemma thread_drain_ok:
  assumes "pool_safe s" "epoch (core s) \<noteq> QUIESCENT" "i < length (threads s)"
    "retention_step (ret s) (t_pc (threads s ! i)) = Some (pc', R')"
  shows "drain_ok (core s) R' (ticket_effect (cursor s) (t_pc (threads s ! i)) (tickets s)) (drain_at s)"
proof -
  let ?R = "ret s" and ?pc = "t_pc (threads s ! i)"
  note ready = thread_ready [OF assms(1, 3)] and old = pool_safeD(9) [OF assms(1)]
  note conf = effect_config [OF retention_step_effect [OF assms(4)], unfolded same_config_def]
  note keep = retention_step_unguarded [OF assms(4) ready]
  obtain r where r: "ring_ok r (cursor s) (tickets s)" "claims_ok r (threads s) (cursor s) (tickets s)"
    using pool_safeD(8) [OF assms(1)] by (rule ring_invD)
  note hd = ticket_effect_hd [OF r(2, 1) assms(3)]
  have queued: "unat f < length (words ?R)" if "(f, t) \<in> set (eq_entries (evict_queue (core s)))" for f t
    using pool_safeD(1, 2) [OF assms(1)] that by (auto simp: ebr_safe_def queue_safe_def shape_ok_def)
  show ?thesis
  proof (cases "drain_at s")
    case (DTake n g)
    then show ?thesis using old hd by simp
  next
    case (DAdvance n g f)
    then show ?thesis using old hd by simp
  next
    case (DExchange n g f w)
    have held: "unat f < length (words ?R) \<and> word_at ?R f = 65536"
      using pool_safeD(7) [OF assms(1)] DExchange unfolding pending_ok_def
      by (metis add_is_0 drains.simps(3) zero_neq_one)
    then have "promoting ?pc \<noteq> Some f"
      using promoting_not_held [OF assms(1, 3), of f] by auto
    then show ?thesis
      using keep(2) [of f] held old DExchange by simp
  next
    case (DFree n g f)
    then show ?thesis
      using keep(2) [OF scan_not_promoted [OF assms(1, 3) DFree]] old conf by simp
  next
    case (DMature occupied)
    have "word_at R' f = 0" if "(f, t) \<in> set (eq_entries (evict_queue (core s)))"
      "\<not> saturating_add t 2 > epoch (core s)" "\<not> occupied" for f t
      using keep(1) [OF drain_not_promoted [OF assms(1-3) _ that(1, 2)] queued [OF that(1)]] old DMature that by auto
    then show ?thesis
      using DMature by auto
  next
    case (DMatured f t mpc)
    then obtain rest where head: "eq_entries (evict_queue (core s)) = (f, t) # rest" "\<not> saturating_add t 2 > epoch (core s)"
      using old by (auto simp: matured_head_Some)
    then have "word_at R' f \<le> word_at ?R f"
      using keep(1) [OF drain_not_promoted [OF assms(1-3)] queued, of f t t] DMatured by simp
    then have "matured_ok R' f t mpc"
      using old DMatured conf by (cases mpc) auto
    then show ?thesis
      using old DMatured by simp
  qed (use old in simp_all)
qed

lemma thread_announced:
  assumes "announced R T" "i < length T" "effect R (t_pc (T ! i)) pc' R'"
  shows "announced R' (T[i := (T ! i)\<lparr>t_pc := pc'\<rparr>])"
proof -
  have pend: "ring_pending (latch (wait R)) \<Longrightarrow> ring_pending (latch (wait R'))"
    using assms(3) by cases (auto simp: only_defs publish_ring_pending_and_wake_if_parked_def Let_def)
  have "announces (t_pc (T ! i)) \<Longrightarrow> announces pc' \<or> ring_pending (latch (wait R'))"
    using assms(3) by cases (auto simp: same_claims_def publish_ring_pending_and_wake_if_parked_def Let_def)
  moreover have "t \<in> set (T[i := (T ! i)\<lparr>t_pc := pc'\<rparr>])" if "t \<in> set T" "t \<noteq> T ! i" for t
    using that by (metis in_set_conv_nth length_list_update nth_list_update_neq)
  moreover have "(T ! i)\<lparr>t_pc := pc'\<rparr> \<in> set (T[i := (T ! i)\<lparr>t_pc := pc'\<rparr>])"
    using assms(2) by (rule set_update_memI)
  ultimately show ?thesis
    using assms(1) pend unfolding announced_def by (metis rthread.select_convs(1) rthread.surjective rthread.update_convs(1))
qed

lemma thread_announced_ok:
  assumes "announced_ok s" "i < length (threads s)" "effect (ret s) (t_pc (threads s ! i)) pc' R'"
  shows "announced_ok (set_thread i ((threads s ! i)\<lparr>t_pc := pc'\<rparr>)
      (s\<lparr>ret := R', tickets := ticket_effect (cursor s) (t_pc (threads s ! i)) (tickets s)\<rparr>))" (is "announced_ok ?s")
proof -
  let ?T = "(threads s)[i := (threads s ! i)\<lparr>t_pc := pc'\<rparr>]"
  let ?q = "ticket_effect (cursor s) (t_pc (threads s ! i)) (tickets s)"
  have hint: "ring_pending_hint (wait R') = ring_pending (latch (wait R'))"
    using assms(3, 1)
    by cases (auto simp: announced_ok_def only_defs publish_ring_pending_and_wake_if_parked_def Let_def)
  have keep: "announced (ret s) (threads s) \<Longrightarrow> announced R' ?T"
    using thread_announced [OF _ assms(2, 3)] .
  have grow: "length ?q = length (tickets s) \<or> announced R' ?T"
  proof (cases "\<exists>f origin. t_pc (threads s ! i) = Push f origin")
    case True
    then have "announces (t_pc (threads s ! i))"
      by auto
    then have "announced (ret s) (threads s)"
      using assms(2) by (auto simp: announced_def)
    then show ?thesis
      using keep by blast
  next
    case False
    then show ?thesis
      by (cases "t_pc (threads s ! i)") auto
  qed
  show ?thesis
  proof (cases "announced R' ?T")
    case True
    then show ?thesis
      using hint assms(1) by (auto simp: announced_ok_def split: option.splits)
  next
    case False
    then have "length ?q = length (tickets s)" "\<not> announced (ret s) (threads s)"
      using grow keep by auto
    moreover from this(1) have "?q = [] \<longleftrightarrow> tickets s = []"
      by (metis length_0_conv)
    ultimately show ?thesis
      using hint assms(1) by (auto simp: announced_ok_def split: option.splits)
  qed
qed

lemma pool_safe_thread:
  assumes safe: "pool_safe s" and i: "i < length (threads s)" and epoch: "epoch (core s) \<noteq> QUIESCENT"
    and step: "retention_step (ret s) (t_pc (threads s ! i)) = Some (pc', R')"
    and young: "release_ring R' = Some r'" "ring_young r'"
  shows "pool_safe (set_thread i ((threads s ! i)\<lparr>t_pc := pc'\<rparr>)
      (s\<lparr>ret := R', tickets := ticket_effect (cursor s) (t_pc (threads s ! i)) (tickets s)\<rparr>))" (is "pool_safe ?s")
proof -
  let ?pc = "t_pc (threads s ! i)"
  note ok = pool_safeD [OF safe] and ready = thread_ready [OF safe i]
  note e = retention_step_effect [OF step]
  note conf = effect_config [OF e, unfolded same_config_def]
  note shape = ok(2) [unfolded shape_ok_def]
  have wf: "pc_wf R' x = pc_wf (ret s) x" for x
    using conf by (cases x) simp_all
  have "\<forall>t \<in> set (threads ?s). pc_wf R' (t_pc t)"
    using shape retention_step_wf [OF step ready] wf
    by (auto dest!: set_update_subset_insert [THEN subsetD])
  then have "shape_ok ?s"
    using shape conf by (simp add: shape_ok_def)
  moreover have "count_ok (ret ?s) (threads ?s)"
    using effect_count_ok [OF ok(3) i ready e] by simp
  moreover have "budget_ok (ret ?s) (threads ?s) (drain_at ?s)"
    using effect_budget_ok [OF ok(4) i ready e] shape by simp
  moreover have "guard_ok (readers (core ?s)) (threads ?s)"
    using ok(5) retention_step_promoting [OF step] i by (auto simp: guard_ok_def nth_list_update)
  moreover have "held_ok (core ?s) (ret ?s)"
    using ok(6) effect_words(2) [OF e ready] conf by (simp add: held_ok_def)
  moreover have "pending_ok (ret ?s) (threads ?s) (tickets ?s) (drain_at ?s)"
    using effect_pending_ok [OF ok(7) i ready e claimed_position [OF ok(8) i]] by simp
  moreover have "ring_inv (ret ?s) (threads ?s) (cursor ?s) (tickets ?s)"
    using effect_ring_inv [OF ok(8) i e young ok(7)] ok(4) by (simp add: budget_ok_def)
  moreover have "drain_ok (core ?s) (ret ?s) (tickets ?s) (drain_at ?s)"
    using thread_drain_ok [OF safe epoch i step] by simp
  moreover have "pages_ok (frames (core ?s)) (threads ?s)"
  proof -
    have "(p, f) \<in> set (t_handles t) \<Longrightarrow> \<exists>t' \<in> set (threads s). (p, f) \<in> set (t_handles t')"
      if "t \<in> set (threads ?s)" for p f t
      using that i by (auto dest!: set_update_subset_insert [THEN subsetD])
    then show ?thesis
      using ok(10) by (fastforce simp: pages_ok_def)
  qed
  moreover have "announced_ok ?s"
    by (rule thread_announced_ok [OF ok(11) i e])
  ultimately show ?thesis
    using ok(1) by (simp add: pool_safe_def)
qed

section \<open>Calls and returns\<close>

text \<open>Replacing a thread by one with the same account and no promotion it did not have.\<close>

definition same_account :: "rthread \<Rightarrow> rthread \<Rightarrow> bool" where
  "same_account t t' \<longleftrightarrow> (\<forall>f. own f t' = own f t) \<and> units (t_pc t') = units (t_pc t)
     \<and> excess (t_pc t') = excess (t_pc t) \<and> (\<forall>f. pushes f (t_pc t') = pushes f (t_pc t))
     \<and> claimed (t_pc t') = claimed (t_pc t) \<and> announces (t_pc t') = announces (t_pc t)"

lemma total_replace:
  "i < length T \<Longrightarrow> g t = g (T ! i) \<Longrightarrow> total_by g (T[i := t]) = total_by g T" for g :: "'a \<Rightarrow> nat"
  using sum_list_map_update [of i T g t] by simp

lemma replace_totals:
  assumes "i < length T" "same_account (T ! i) t"
  shows "total_by (own f) (T[i := t]) = total_by (own f) T"
    "total_by (units \<circ> t_pc) (T[i := t]) = total_by (units \<circ> t_pc) T"
    "total_by (excess \<circ> t_pc) (T[i := t]) = total_by (excess \<circ> t_pc) T"
    "total_by (pushes f \<circ> t_pc) (T[i := t]) = total_by (pushes f \<circ> t_pc) T"
    "total_by (claims k \<circ> t_pc) (T[i := t]) = total_by (claims k \<circ> t_pc) T"
  by (rule total_replace [OF assms(1)]; use assms(2) in \<open>simp add: same_account_def claims_def\<close>)+

lemma replace_announced:
  assumes "i < length T" "same_account (T ! i) t"
  shows "(\<exists>x \<in> set (T[i := t]). announces (t_pc x)) \<longleftrightarrow> (\<exists>x \<in> set T. announces (t_pc x))"
proof -
  have "(\<exists>k < length T. announces (t_pc (T[i := t] ! k))) \<longleftrightarrow> (\<exists>k < length T. announces (t_pc (T ! k)))"
    using assms by (auto simp: same_account_def nth_list_update)
  then show ?thesis
    by (metis in_set_conv_nth length_list_update)
qed

lemma pool_safe_replace:
  assumes safe: "pool_safe s" and i: "i < length (threads s)" and same: "same_account (threads s ! i) t"
    and R: "only_words (ret s) (words (ret s)) R"
    and wf: "pc_wf (ret s) (t_pc t)"
    and guard: "\<And>f. promoting (t_pc t) = Some f \<Longrightarrow>
      r_pc (readers (core s) ! i) = PIdle \<and> f \<in> snd ` set (r_guards (readers (core s) ! i))"
    and pages: "\<And>p f. (p, f) \<in> set (t_handles t) \<Longrightarrow> exact_page (frames (core s)) f = Some p"
  shows "pool_safe (set_thread i t (s\<lparr>ret := R\<rparr>))" (is "pool_safe ?s")
proof -
  note ok = pool_safeD [OF safe] and totals = replace_totals [OF i same]
  note conf = R [unfolded only_words_def same_config_def]
  note shape = ok(2) [unfolded shape_ok_def]
  have wf': "pc_wf R x = pc_wf (ret s) x" for x
    using conf by (cases x) simp_all
  have "shape_ok ?s"
    using shape conf wf wf' by (auto simp: shape_ok_def dest!: set_update_subset_insert [THEN subsetD])
  moreover have "count_ok R (threads ?s)"
    using ok(3) conf totals by (simp add: count_ok_def)
  moreover have "budget_ok R (threads ?s) (drain_at s)"
    using ok(4) conf totals by (simp add: budget_ok_def marked_def)
  moreover have "guard_ok (readers (core s)) (threads ?s)"
    using ok(5) guard i by (auto simp: guard_ok_def nth_list_update)
  moreover have "held_ok (core s) R"
    using ok(6) conf by (simp add: held_ok_def)
  moreover have "pending_ok R (threads ?s) (tickets s) (drain_at s)"
    using ok(7) conf totals by (simp add: pending_ok_def)
  moreover have "ring_inv R (threads ?s) (cursor s) (tickets s)"
    using ok(8) conf totals same i
    by (auto simp: ring_inv_def claims_ok_def same_account_def nth_list_update split: option.splits)
  moreover have "drain_ok (core s) R (tickets s) (drain_at s)"
  proof (cases "drain_at s")
    case (DMatured f t mpc)
    then show ?thesis
      using ok(9) conf by (cases mpc) auto
  qed (use ok(9) conf in auto)
  moreover have "pages_ok (frames (core s)) (threads ?s)"
    using ok(10) pages by (auto simp: pages_ok_def dest!: set_update_subset_insert [THEN subsetD])
  moreover have "announced_ok ?s"
    using ok(11) conf replace_announced [OF i same] by (auto simp: announced_ok_def announced_def split: option.splits)
  ultimately show ?thesis
    using ok(1) by (simp add: pool_safe_def)
qed

lemma only_words_refl: "only_words R (words R) R"
  by (simp add: only_defs)

lemma own_pc: "own f (t\<lparr>t_pc := pc\<rparr>) + owns (t_pc t) f = own f t + owns pc f"
  by (simp add: own_def)

lemma bare_account:
  "bare (t_pc t) \<Longrightarrow> bare pc \<Longrightarrow> same_account t (t\<lparr>t_pc := pc\<rparr>)"
  by (auto simp: bare_def same_account_def own_def)

lemma pool_safe_promote:
  assumes safe: "pool_safe s" and i: "i < length (threads s)" and pc: "t_pc (threads s ! i) = Ready"
    and guard: "r_pc (readers (core s) ! i) = PIdle" "(p, f) \<in> set (r_guards (readers (core s) ! i))"
    and registered: "unat (slot (page_file p)) < length (retiring (ret s))"
    and call: "promote (ret s) f (slot (page_file p)) (max_concurrent_readers (ret s)) = Some (pc', R)"
  shows "pool_safe (set_thread i ((threads s ! i)\<lparr>t_pc := pc'\<rparr>) (s\<lparr>ret := R\<rparr>))"
proof -
  have "max_retained_frames (ret s) \<noteq> 0"
    using pool_safeD(2) [OF safe] by (auto simp: shape_ok_def)
  then obtain n where n: "pc' = Attempt f (slot (page_file p)) n" "R = ret s"
    using call by (auto simp: promote_def is_disabled_def bind_Some_iff)
  show ?thesis
    unfolding n(2)
  proof (rule pool_safe_replace [OF safe i _ only_words_refl])
    show "same_account (threads s ! i) ((threads s ! i)\<lparr>t_pc := pc'\<rparr>)"
      using pc n by (intro bare_account) simp_all
    show "exact_page (frames (core s)) g = Some p'" if "(p', g) \<in> set (t_handles ((threads s ! i)\<lparr>t_pc := pc'\<rparr>))" for p' g
      using that pool_safeD(10) [OF safe] i by (force simp: pages_ok_def)
  qed (use n guard registered in \<open>force+\<close>)
qed

lemma pool_safe_refused:
  assumes safe: "pool_safe s" and i: "i < length (threads s)" and pc: "t_pc (threads s ! i) = Refused reason"
  shows "pool_safe (set_thread i ((threads s ! i)\<lparr>t_pc := Ready\<rparr>) s)"
proof -
  have "pool_safe (set_thread i ((threads s ! i)\<lparr>t_pc := Ready\<rparr>) (s\<lparr>ret := ret s\<rparr>))"
  proof (rule pool_safe_replace [OF safe i _ only_words_refl])
    show "same_account (threads s ! i) ((threads s ! i)\<lparr>t_pc := Ready\<rparr>)"
      using pc by (intro bare_account) simp_all
    show "exact_page (frames (core s)) g = Some p'" if "(p', g) \<in> set (t_handles ((threads s ! i)\<lparr>t_pc := Ready\<rparr>))" for p' g
      using that pool_safeD(10) [OF safe] i by (force simp: pages_ok_def)
  qed simp_all
  then show ?thesis by simp
qed

lemma count_remove1: "x \<in> set xs \<Longrightarrow> Suc (count_list (map g (remove1 x xs)) y) = count_list (map g xs) y + (if g x = y then 0 else 1)"
  by (induction xs) auto

lemma pool_safe_drop:
  assumes safe: "pool_safe s" and i: "i < length (threads s)" and pc: "t_pc (threads s ! i) = Ready"
    and h: "(p, f) \<in> set (t_handles (threads s ! i))"
  shows "pool_safe (set_thread i \<lparr>t_pc = Release f Dropped, t_handles = remove1 (p, f) (t_handles (threads s ! i))\<rparr> s)"
    (is "pool_safe (set_thread i ?t s)")
proof -
  have "pool_safe (set_thread i ?t (s\<lparr>ret := ret s\<rparr>))"
  proof (rule pool_safe_replace [OF safe i _ only_words_refl])
    have "own g ?t = own g (threads s ! i)" for g
      using count_remove1 [OF h, of snd g] pc by (auto simp: own_def split: if_splits)
    then show "same_account (threads s ! i) ?t"
      using pc by (simp add: same_account_def)
    show "exact_page (frames (core s)) g = Some p'" if "(p', g) \<in> set (t_handles ?t)" for p' g
      using that pool_safeD(10) [OF safe] i set_remove1_subset [of "(p, f)" "t_handles (threads s ! i)"]
      by (force simp: pages_ok_def)
  qed simp_all
  then show ?thesis by simp
qed

section \<open>Readers and the control plane\<close>

lemma pool_safe_reader:
  assumes safe: "pool_safe s" and i: "i < length (threads s)" "i < length (readers (core s))"
    and pc: "promoting (t_pc (threads s ! i)) = None" and step: "reader_step (core s) (readers (core s) ! i) r"
  shows "pool_safe (s\<lparr>core := set_reader i r (core s)\<rparr>)" (is "pool_safe ?s")
proof -
  note ok = pool_safeD [OF safe]
  have "ebr_safe (core ?s)"
    using set_reader_safe [OF ok(1) i(2)] reader_step_safe [OF ok(1) readers_safe [OF ok(1) i(2)] step] by simp
  moreover have "guard_ok (readers (core ?s)) (threads ?s)"
    using ok(5) pc i by (auto simp: guard_ok_def nth_list_update)
  moreover have "drain_ok (core ?s) (ret ?s) (tickets ?s) (drain_at ?s)"
    using ok(9) matured_head_cong [of "set_reader i r (core s)" "core s"] by (cases "drain_at s") auto
  moreover have "announced_ok ?s"
    using ok(11) by (auto simp: announced_ok_def split: option.splits)
  ultimately show ?thesis
    using ok by (simp add: pool_safe_def shape_ok_def held_ok_def)
qed

lemma advance_page:
  assumes "frames_wf F" "Frames_advance F f Evicting = Some F'" "exact_page F g = Some p"
  shows "exact_page F' g = Some p"
proof (cases "g = f")
  case True
  then show ?thesis
    using advance_touches [OF assms(1, 2)] assms(1, 3) by (simp add: exact_page_Some touches_def)
next
  case False
  then show ?thesis
    using touches_other(1) [OF assms(1) advance_touches(1) [OF assms(1, 2)]] assms(3) by simp
qed

lemma unreferenced_keeps:
  assumes "frames_wf F" "touches f F F'" "st_of F (unat f) = Free \<or> st_of F (unat f) = InFlight"
  shows "exact_page F g = Some p \<Longrightarrow> exact_page F' g = Some p"
    "st_of F (unat g) = Evicting \<Longrightarrow> st_of F' (unat g) = Evicting"
proof -
  have ne: "g \<noteq> f" if "st_of F (unat g) = Resident \<or> st_of F (unat g) = Evicting"
    using that assms(3) by auto
  then show "exact_page F g = Some p \<Longrightarrow> exact_page F' g = Some p"
    using touches_other [OF assms(1, 2)] exact_page_state [OF assms(1)] by metis
  show "st_of F (unat g) = Evicting \<Longrightarrow> st_of F' (unat g) = Evicting"
    using touches_other [OF assms(1, 2)] ne by metis
qed

text \<open>The control plane keeps published pages and evicted frames off the queue as they are.\<close>

lemma control_keeps:
  assumes "ebr_safe e" "control_step e e'"
  shows "f_count (frames e') = f_count (frames e) \<and> readers e' = readers e
    \<and> (exact_page (frames e) g = Some p \<longrightarrow> exact_page (frames e') g = Some p)
    \<and> (st_of (frames e) (unat g) = Evicting \<and> g \<notin> fst ` set (eq_entries (evict_queue e)) \<and> ctl e \<noteq> CEvicting g \<longrightarrow>
        st_of (frames e') (unat g) = Evicting \<and> g \<notin> fst ` set (eq_entries (evict_queue e')) \<and> ctl e' \<noteq> CEvicting g)"
proof -
  have wf: "frames_wf (frames e)"
    using assms(1) by (simp add: ebr_safe_def)
  show ?thesis
    using assms(2)
  proof cases
    case (c_claim f q tok F)
    note t = claim_touches [OF wf c_claim(3)]
    show ?thesis
      using c_claim t unreferenced_keeps [OF wf t(1)] by (auto simp: touches_def)
  next
    case (c_abort tok f F)
    note t = consume_touches [OF wf c_abort(3) [unfolded Frames_abort_def]]
    show ?thesis
      using c_abort t unreferenced_keeps [OF wf t(1)] by (auto simp: touches_def)
  next
    case (c_publish tok f F q)
    note t = consume_touches [OF wf c_publish(3) [unfolded Frames_publish_def]]
    show ?thesis
      using c_publish t unreferenced_keeps [OF wf t(1)] by (auto simp: touches_def)
  next
    case (c_evict f F)
    note t = advance_touches [OF wf c_evict(3)]
    show ?thesis
      using c_evict t advance_page [OF wf c_evict(3)] touches_other(2) [OF wf t(1), of g]
      by (cases "g = f") (auto simp: touches_def)
  next
    case (c_push f q)
    then have "eq_entries q = eq_entries (evict_queue e) @ [(f, epoch e)]"
      by (auto simp: EvictQueue_push_def)
    then show ?thesis
      using c_push by auto
  qed auto
qed

lemma control_epoch:
  assumes "scan_ok e" "control_step e e'"
  shows "epoch e' \<noteq> QUIESCENT \<Longrightarrow> epoch e \<le> epoch e'"
  using assms(2)
proof cases
  case (c_advance e0)
  then have "e0 = epoch e" "e0 \<noteq> QUIESCENT"
    using assms(1) by (auto simp: scan_ok_def)
  then show ?thesis
    using c_advance unat_Suc_epoch [of "epoch e"] by (simp add: word_le_nat_alt)
qed simp_all

lemma pool_safe_control:
  assumes safe: "pool_safe s" and ok0: "scan_ok (core s)" "epoch (core s) \<noteq> QUIESCENT"
    and idle: "drain_at s = DIdle" and step: "control_step (core s) e" and fin: "epoch e \<noteq> QUIESCENT"
  shows "pool_safe (s\<lparr>core := e\<rparr>)" (is "pool_safe ?s")
proof -
  note ok = pool_safeD [OF safe] and keeps = control_keeps [OF ok(1) step]
  have "ebr_safe e"
    by (rule control_step_safe [OF step ok(1) ok0])
  moreover have "shape_ok ?s"
    using ok(2) keeps idle by (simp add: shape_ok_def)
  moreover have "guard_ok (readers e) (threads s)"
    using ok(5) keeps by simp
  moreover have "held_ok e (ret s)"
    unfolding held_ok_def
  proof (intro allI impI)
    fix f assume f: "unat f < length (words (ret s))" "65536 \<le> word_at (ret s) f"
    then have old: "st_of (frames (core s)) (unat f) = Evicting" "f \<notin> fst ` set (eq_entries (evict_queue (core s)))"
      "ctl (core s) \<noteq> CEvicting f" "saturating_add (tags (ret s) ! unat f) 2 \<le> epoch (core s)"
      using ok(6) by (auto simp: held_ok_def)
    then show "st_of (frames e) (unat f) = Evicting \<and> f \<notin> fst ` set (eq_entries (evict_queue e))
        \<and> ctl e \<noteq> CEvicting f \<and> saturating_add (tags (ret s) ! unat f) 2 \<le> epoch e"
      using keeps [of f] control_epoch [OF ok0(1) step fin] order_trans by blast
  qed
  moreover have "pages_ok (frames e) (threads s)"
    using ok(10) keeps by (fastforce simp: pages_ok_def)
  moreover have "announced_ok ?s"
    using ok(11) by (auto simp: announced_ok_def split: option.splits)
  ultimately show ?thesis
    using ok idle by (simp add: pool_safe_def)
qed

lemma pool_safe_retiring:
  assumes safe: "pool_safe s" and call: "set_file_retiring flag (ret s) k = Some R"
  shows "pool_safe (s\<lparr>ret := R\<rparr>)" (is "pool_safe ?s")
proof -
  note ok = pool_safeD [OF safe]
  have same: "words R = words (ret s)" "tags R = tags (ret s)" "length (retiring R) = length (retiring (ret s))"
    "occupied_budget R = occupied_budget (ret s)" "release_ring R = release_ring (ret s)" "wait R = wait (ret s)"
    "max_retained_frames R = max_retained_frames (ret s)" "max_concurrent_readers R = max_concurrent_readers (ret s)"
    using call by (auto simp: set_file_retiring_def split: if_splits)
  have wf: "pc_wf R x = pc_wf (ret s) x" for x
    using same by (cases x) simp_all
  have "drain_ok (core s) R (tickets s) (drain_at s)"
  proof (cases "drain_at s")
    case (DMatured f t mpc)
    then show ?thesis
      using ok(9) same by (cases mpc) auto
  qed (use ok(9) same in auto)
  moreover have "announced_ok ?s"
    using ok(11) same by (auto simp: announced_ok_def announced_def split: option.splits)
  ultimately show ?thesis
    using ok same wf
    by (simp add: pool_safe_def shape_ok_def count_ok_def budget_ok_def marked_def held_ok_def pending_ok_def ring_inv_def
        split: option.splits)
qed

end
