(* ===== verification/Retention_Drain.thy ===== *)
theory Retention_Drain
  imports Retention_Safety
begin

text \<open>
  The two drains of the control plane: in a state that satisfies the invariant every step of
  \<open>drain_releases\<close> and of the mature drain returns, no assertion fails, and the invariant holds again.
\<close>

section \<open>The scan of the release ring\<close>

lemma ring_inv_cong:
  "release_ring R' = release_ring R \<Longrightarrow> max_retained_frames R' = max_retained_frames R \<Longrightarrow> ring_inv R' T c q = ring_inv R T c q"
  by (simp add: ring_inv_def split: option.splits)

lemma pool_safe_move:
  assumes safe: "pool_safe s" and same: "drain_units d = drain_units (drain_at s)" "\<And>f. drains f d = drains f (drain_at s)"
    and new: "drain_ok (core s) (ret s) (tickets s) d" "d \<noteq> DIdle \<Longrightarrow> ctl (core s) = CIdle" "announced_ok (s\<lparr>drain_at := d\<rparr>)"
  shows "pool_safe (s\<lparr>drain_at := d\<rparr>)"
  using pool_safeD [OF safe] assms by (simp add: pool_safe_def shape_ok_def budget_ok_def pending_ok_def)

lemma drain_ctl: "pool_safe s \<Longrightarrow> drain_at s \<noteq> DIdle \<Longrightarrow> ctl (core s) = CIdle"
  by (simp add: pool_safe_def shape_ok_def)

lemma announced_iterations:
  "announced_ok s \<Longrightarrow> iterations d = iterations (drain_at s) \<Longrightarrow> announced_ok (s\<lparr>drain_at := d\<rparr>)"
  by (auto simp: announced_ok_def split: option.splits)

lemma scan_exhausted:
  assumes "pool_safe s" "drain_at s = DScan 0 g"
  shows "pool_safe (s\<lparr>drain_at := DIdle\<rparr>)"
proof (rule pool_safe_move [OF assms(1)])
  have "scan_end s \<le> unat (cursor s)"
    "scan_end s < unat (cursor s) + length (tickets s) \<longrightarrow> announced (ret s) (threads s)"
    using pool_safeD(11) [OF assms(1)] assms(2) by (auto simp: announced_ok_def)
  then have "tickets s \<noteq> [] \<Longrightarrow> announced (ret s) (threads s)"
    by (cases "tickets s") auto
  then show "announced_ok (s\<lparr>drain_at := DIdle\<rparr>)"
    using pool_safeD(11) [OF assms(1)] by (simp add: announced_ok_def announced_def)
qed (use assms(2) in simp_all)

text \<open>An unpublished head has a thread that will announce it.\<close>

lemma unpublished_announced:
  assumes "pool_safe s" "tickets s \<noteq> []" "\<not> snd (hd (tickets s))"
  shows "announced (ret s) (threads s)"
proof -
  obtain r where "claims_ok r (threads s) (cursor s) (tickets s)"
    using pool_safeD(8) [OF assms(1)] by (rule ring_invD)
  then have "total_by (claims (cursor s) \<circ> t_pc) (threads s) = 1"
    using assms(2, 3) by (force simp: claims_ok_def hd_conv_nth)
  then have "\<not> (\<forall>t \<in> set (threads s). claims (cursor s) (t_pc t) = 0)"
    using sum_list_eq_0_iff [of "map (claims (cursor s) \<circ> t_pc) (threads s)"] by auto
  then obtain t where t: "t \<in> set (threads s)" "claims (cursor s) (t_pc t) \<noteq> 0"
    by blast
  then have "announces (t_pc t)"
    by (cases "t_pc t") (auto simp: claims_def)
  then show ?thesis
    using t(1) by (auto simp: announced_def)
qed

lemma scan_pop:
  assumes "pool_safe s" "drain_at s = DScan (Suc n) g" "release_ring (ret s) = Some r" "ring_young r"
  shows "\<exists>s'. scan_step s (drain_at s) = Some s' \<and> pool_safe s'"
proof -
  have r: "ring_ok r (cursor s) (tickets s)"
    using pool_safeD(8) [OF assms(1)] assms(3) by (auto simp: ring_inv_def)
  let ?filled = "tickets s \<noteq> [] \<and> snd (hd (tickets s))"
  have step: "scan_step s (drain_at s) = Some (s\<lparr>drain_at := (if ?filled then DTake n g else DIdle)\<rparr>)"
    using is_ready_ok [OF r assms(4)] assms(2, 3) by simp
  note ok = pool_safeD(9, 11) [OF assms(1)]
  have "pool_safe (s\<lparr>drain_at := DTake n g\<rparr>)" if ?filled
    by (rule pool_safe_move [OF assms(1)])
      (use assms(2) ok that drain_ctl [OF assms(1)] in \<open>auto intro!: announced_iterations\<close>)
  moreover have "pool_safe (s\<lparr>drain_at := DIdle\<rparr>)" if "\<not> ?filled"
    by (rule pool_safe_move [OF assms(1)])
      (use assms(2) ok(2) that unpublished_announced [OF assms(1)] in
        \<open>auto simp: announced_ok_def announced_def\<close>)
  ultimately show ?thesis
    using step by simp
qed

lemma scan_take:
  assumes "pool_safe s" "drain_at s = DTake n g" "release_ring (ret s) = Some r"
  shows "\<exists>s'. scan_step s (drain_at s) = Some s' \<and> pool_safe s'"
proof -
  obtain f q where q: "tickets s = (f, True) # q"
    using pool_safeD(9) [OF assms(1)] assms(2) by (cases "tickets s") auto
  have "ring_ok r (cursor s) ((f, True) # q)"
    using pool_safeD(8) [OF assms(1)] assms(3) q by (auto simp: ring_inv_def)
  then have "scan_step s (drain_at s) = Some (s\<lparr>drain_at := DAdvance n g f\<rparr>)"
    using pop_frame_ok assms(2, 3) by simp
  moreover have "pool_safe (s\<lparr>drain_at := DAdvance n g f\<rparr>)"
    by (rule pool_safe_move [OF assms(1)])
      (use assms(2) q pool_safeD(9, 11) [OF assms(1)] drain_ctl [OF assms(1)] in \<open>auto intro!: announced_iterations\<close>)
  ultimately show ?thesis by simp
qed

lemma claims_ok_pop:
  assumes "claims_ok r T c ((f, True) # q)" "unat (c + 1) = Suc (unat c)"
    "\<And>k. slot_frame (ring_cell r' k) = slot_frame (ring_cell r k)"
  shows "claims_ok r' T (c + 1) q"
proof -
  have shift: "c + of_nat (Suc j) = c + 1 + of_nat j" for j
    by (simp add: algebra_simps)
  have "\<exists>j < length q. t = c + 1 + of_nat j \<and> q ! j = (g, False) \<and> (b \<longrightarrow> slot_frame (ring_cell r' (unat (c + 1) + j)) = g)"
    if k: "k < length T" "claimed (t_pc (T ! k)) = Some (g, t, b)" for k g t b
  proof -
    obtain j where j: "j < length ((f, True) # q)" "t = c + of_nat j" "((f, True) # q) ! j = (g, False)"
      "b \<longrightarrow> slot_frame (ring_cell r (unat c + j)) = g"
      using claims_okD [OF assms(1) k] by blast
    then obtain j' where "j = Suc j'"
      by (cases j) auto
    then show ?thesis
      using j shift assms(2, 3) by (intro exI [of _ j']) auto
  qed
  moreover have "total_by (claims (c + 1 + of_nat j) \<circ> t_pc) T = (if snd (q ! j) then 0 else 1)" if "j < length q" for j
  proof -
    have "total_by (claims (c + of_nat (Suc j)) \<circ> t_pc) T = (if snd (((f, True) # q) ! Suc j) then 0 else 1)"
      using conjunct2 [OF assms(1) [unfolded claims_ok_def], rule_format, of "Suc j"] that by simp
    then show ?thesis
      unfolding shift by simp
  qed
  ultimately show ?thesis
    unfolding claims_ok_def by blast
qed

lemma scan_advance:
  assumes safe: "pool_safe s" and at: "drain_at s = DAdvance n g f" and ring: "release_ring (ret s) = Some r" "ring_young r"
  shows "\<exists>s'. scan_step s (drain_at s) = Some s' \<and> pool_safe s'"
proof -
  note ok = pool_safeD [OF safe]
  obtain q where q: "tickets s = (f, True) # q"
    using ok(9) at by (cases "tickets s") auto
  have r: "ring_ok r (cursor s) ((f, True) # q)" "claims_ok r (threads s) (cursor s) ((f, True) # q)"
    "unat (max_retained_frames (ret s)) \<le> unat (ring_capacity r)"
    using ok(8) ring(1) q by (auto simp: ring_inv_def)
  obtain r' where r': "pop_advance r (cursor s) = Some (cursor s + 1, r')" "ring_ok r' (cursor s + 1) q"
    "ring_tail r' = ring_tail r" "ring_capacity r' = ring_capacity r"
    and cells: "\<And>i. slot_frame (ring_cell r' i) = slot_frame (ring_cell r i)"
    by (rule pop_advance_ok [OF r(1) ring(2)]) (rule that, assumption+)
  have "unat (cursor s) + Suc (length q) = unat (ring_tail r)" "unat (cursor s + 1) + length q = unat (ring_tail r)"
    using ring_okD(2) [OF r(1)] ring_okD(2) [OF r'(2)] r'(3) by simp_all
  then have suc: "unat (cursor s + 1) = Suc (unat (cursor s))"
    by simp
  let ?R = "(ret s)\<lparr>release_ring := Some r'\<rparr>"
  let ?s = "s\<lparr>ret := ?R, cursor := cursor s + 1, tickets := q, drain_at := DTag n g f\<rparr>"
  have wf: "pc_wf ?R x = pc_wf (ret s) x" for x
    by (cases x) simp_all
  have "ring_inv ?R (threads s) (cursor s + 1) q"
    using r'(2, 4) r(3) claims_ok_pop [OF r(2) suc cells] by (simp add: ring_inv_def)
  moreover have "pending_ok ?R (threads s) q (DTag n g f)"
    unfolding pending_ok_def
  proof
    fix h
    show "total_by (pushes h \<circ> t_pc) (threads s) + count_list (map fst q) h + drains h (DTag n g f)
      = (if unat h < length (words ?R) \<and> word_at ?R h = 65536 then 1 else 0)"
      using ok(7) [unfolded pending_ok_def, rule_format, of h] q at by (auto split: if_splits)
  qed
  moreover have "announced_ok ?s"
    using ok(11) at q suc by (auto simp: announced_ok_def announced_def)
  moreover have "shape_ok ?s"
    using ok(2) wf at by (simp add: shape_ok_def)
  ultimately have "pool_safe ?s"
    using ok at by (simp add: pool_safe_def count_ok_def budget_ok_def marked_def held_ok_def)
  then show ?thesis
    using at ring(1) r'(1) q by simp
qed

text \<open>A frame in the hands of the scan is held and has no handle.\<close>

lemma drained_word:
  assumes "pool_safe s" "drains f (drain_at s) = 1"
  shows "unat f < length (words (ret s))" "word_at (ret s) f = 65536" "total_by (own f) (threads s) = 0"
    "st_of (frames (core s)) (unat f) = Evicting" "f \<notin> fst ` set (eq_entries (evict_queue (core s)))"
    "saturating_add (tags (ret s) ! unat f) 2 \<le> epoch (core s)"
proof -
  show f: "unat f < length (words (ret s))" "word_at (ret s) f = 65536"
    using pool_safeD(7) [OF assms(1), unfolded pending_ok_def, rule_format, of f] assms(2)
    by (auto split: if_splits)
  show "total_by (own f) (threads s) = 0"
    using count_okD [OF pool_safeD(3) [OF assms(1)] f(1)] f(2) by (simp del: sum_list_eq_0_iff)
  show "st_of (frames (core s)) (unat f) = Evicting" "f \<notin> fst ` set (eq_entries (evict_queue (core s)))"
    "saturating_add (tags (ret s) ! unat f) 2 \<le> epoch (core s)"
    using pool_safeD(6) [OF assms(1)] f by (auto simp: held_ok_def)
qed

lemma scan_tag:
  assumes "pool_safe s" "drain_at s = DTag n g f"
  shows "\<exists>s'. scan_step s (drain_at s) = Some s' \<and> pool_safe s'"
proof -
  have d: "drains f (drain_at s) = 1"
    using assms(2) by simp
  have "length (tags (ret s)) = length (words (ret s))" "g = epoch (core s)"
    using pool_safeD(3, 9) [OF assms(1)] assms(2) by (auto simp: count_ok_def)
  then have "drain_tag_check (ret s) f g = Some ()"
    using drained_word [OF assms(1) d] by (simp add: drain_tag_check_def tag_load_def)
  moreover have "pool_safe (s\<lparr>drain_at := DWord n g f\<rparr>)"
    by (rule pool_safe_move [OF assms(1)])
      (use assms(2) pool_safeD(9, 11) [OF assms(1)] drain_ctl [OF assms(1)] in \<open>auto intro!: announced_iterations\<close>)
  ultimately show ?thesis
    using assms(2) by simp
qed

lemma scan_word:
  assumes "pool_safe s" "drain_at s = DWord n g f"
  shows "\<exists>s'. scan_step s (drain_at s) = Some s' \<and> pool_safe s'"
proof -
  have d: "drains f (drain_at s) = 1"
    using assms(2) by simp
  have "drain_word (ret s) f = Some (words (ret s) ! unat f)"
    using drained_word [OF assms(1) d] by (simp add: drain_word_def word_load_def)
  moreover have "pool_safe (s\<lparr>drain_at := DExchange n g f (words (ret s) ! unat f)\<rparr>)"
    by (rule pool_safe_move [OF assms(1)])
      (use assms(2) pool_safeD(9, 11) [OF assms(1)] drain_ctl [OF assms(1)] in \<open>auto intro!: announced_iterations\<close>)
  ultimately show ?thesis
    using assms(2) by simp
qed

lemma scan_exchange:
  assumes safe: "pool_safe s" and at: "drain_at s = DExchange n g f w"
  shows "\<exists>s'. scan_step s (drain_at s) = Some s' \<and> pool_safe s'"
proof -
  note ok = pool_safeD [OF safe]
  have d: "drains f (drain_at s) = 1"
    using at by simp
  note f = drained_word [OF safe d]
  have w: "w = words (ret s) ! unat f" "w AND NOT HELD = 0"
    using ok(9) at f(2) clear_held by auto
  let ?R = "(ret s)\<lparr>words := (words (ret s))[unat f := 0]\<rparr>"
  let ?s = "s\<lparr>ret := ?R, drain_at := DFree n g f\<rparr>"
  have step: "drain_exchange (ret s) f w = Some ?R"
    using f(1) w by (simp add: drain_exchange_def word_load_def word_store_def)
  have word: "word_at ?R h = (if h = f then 0 else word_at (ret s) h)" for h
    using f(1) by (auto simp: nth_list_update word_unat_eq_iff)
  have wf: "pc_wf ?R x = pc_wf (ret s) x" for x
    by (cases x) simp_all
  have "count_ok ?R (threads s)"
  proof (rule count_okI)
    show "length (tags ?R) = length (words ?R)"
      using ok(3) by (simp add: count_ok_def)
    show "word_at ?R h < 131072 \<and> word_at ?R h = total_by (own h) (threads s) + (if 65536 \<le> word_at ?R h then 65536 else 0)"
      if "unat h < length (words ?R)" for h
      using that count_okD [OF ok(3), of h] f(3) unfolding word by (auto simp del: sum_list_eq_0_iff)
    show "total_by (own h) (threads s) = 0" if "\<not> unat h < length (words ?R)" for h
      using that count_ok_outside [OF ok(3), of h] by simp
  qed
  moreover have "marked ?R + 1 = marked (ret s)"
    using marked_words_update [OF f(1), of 0] f(2) by (cases "words (ret s) ! unat f = 0") (simp_all add: marked_def)
  then have "budget_ok ?R (threads s) (DFree n g f)"
    using ok(4) at by (simp add: budget_ok_def)
  moreover have "pending_ok ?R (threads s) (tickets s) (DFree n g f)"
    using ok(7) at f(1, 2) unfolding pending_ok_def word by (auto split: if_splits)
  moreover have "held_ok (core s) ?R"
    using ok(6) unfolding held_ok_def word by auto
  moreover have "drain_ok (core s) ?R (tickets s) (DFree n g f)"
    using ok(9) at f word [of f] by simp
  moreover have "announced_ok ?s"
    using ok(11) at by (auto simp: announced_ok_def announced_def)
  moreover have "ring_inv ?R (threads s) (cursor s) (tickets s)"
    using ok(8) ring_inv_cong [of ?R "ret s"] by simp
  moreover have "shape_ok ?s"
    using ok(2) wf at by (simp add: shape_ok_def)
  ultimately have "pool_safe ?s"
    using ok by (simp add: pool_safe_def)
  then show ?thesis
    using at step by simp
qed

text \<open>Freeing a frame without handles that left the queue.\<close>

lemma unowned_handles:
  assumes "total_by (own f) T = 0" "t \<in> set T" "(p, h) \<in> set (t_handles t)"
  shows "h \<noteq> f"
proof -
  have "own f t = 0"
    using assms(1, 2) by (simp add: sum_list_eq_0_iff)
  then have "f \<notin> set (map snd (t_handles t))"
    by (simp add: own_def count_list_0_iff)
  then show ?thesis
    using assms(3) by force
qed

lemma free_frame_Some:
  assumes "ebr_safe e" "unat f < unat (f_count (frames e))" "st_of (frames e) (unat f) = Evicting"
  obtains F where "free_frame e f = Some (e\<lparr>frames := F\<rparr>)" "Frames_advance (frames e) f Free = Some F"
    "touches f (frames e) F"
proof -
  have wf: "frames_wf (frames e)"
    using assms(1) by (simp add: ebr_safe_def)
  obtain F where F: "Frames_advance (frames e) f Free = Some F"
    using assms(2, 3) by (metis Frames_advance_Some [OF wf])
  then show thesis
    using that advance_touches(1) [OF wf F] by (simp add: free_frame_def)
qed

lemma pages_ok_free:
  assumes "frames_wf F" "touches f F F'" "pages_ok F T" "total_by (own f) T = 0"
  shows "pages_ok F' T"
  using assms touches_other(1) [OF assms(1, 2)] unowned_handles [OF assms(4)] by (fastforce simp: pages_ok_def)

lemma scan_free:
  assumes safe: "pool_safe s" and at: "drain_at s = DFree n g f"
  shows "\<exists>s'. scan_step s (drain_at s) = Some s' \<and> pool_safe s'"
proof -
  note ok = pool_safeD [OF safe]
  have f: "unat f < length (words (ret s))" "word_at (ret s) f = 0" "st_of (frames (core s)) (unat f) = Evicting"
    "f \<notin> fst ` set (eq_entries (evict_queue (core s)))" "g = epoch (core s)"
    using ok(9) at by auto
  have wf: "frames_wf (frames (core s))" and count: "unat f < unat (f_count (frames (core s)))"
    using ok(1, 2) f(1) by (auto simp: ebr_safe_def shape_ok_def)
  obtain F where F: "free_frame (core s) f = Some ((core s)\<lparr>frames := F\<rparr>)"
    "Frames_advance (frames (core s)) f Free = Some F" "touches f (frames (core s)) F"
    by (rule free_frame_Some [OF ok(1) count f(3)])
  let ?e = "(core s)\<lparr>frames := F\<rparr>"
  let ?s = "s\<lparr>core := ?e, drain_at := DUnit n g\<rparr>"
  have "total_by (own f) (threads s) = 0"
    using count_okD(2) [OF ok(3) f(1)] f(2) by (simp del: sum_list_eq_0_iff)
  then have "pages_ok F (threads s)"
    by (rule pages_ok_free [OF wf F(3) ok(10)])
  moreover have "ebr_safe ?e"
    by (rule safe_free_held [OF ok(1) drain_ctl [OF safe] f(4) F(2)]) (simp add: at)
  moreover have "held_ok ?e (ret s)"
    unfolding held_ok_def
  proof (intro allI impI)
    fix h assume h: "unat h < length (words (ret s))" "65536 \<le> word_at (ret s) h"
    then have "h \<noteq> f"
      using f(2) by auto
    then show "st_of (frames ?e) (unat h) = Evicting \<and> h \<notin> fst ` set (eq_entries (evict_queue ?e))
        \<and> ctl ?e \<noteq> CEvicting h \<and> saturating_add (tags (ret s) ! unat h) 2 \<le> epoch ?e"
      using ok(6) h touches_other(2) [OF wf F(3)] by (simp add: held_ok_def)
  qed
  moreover have "shape_ok ?s"
    using ok(2) F(3) at by (simp add: shape_ok_def touches_def)
  moreover have "announced_ok ?s"
    using ok(11) at by (auto simp: announced_ok_def announced_def)
  moreover have "budget_ok (ret s) (threads s) (DUnit n g)" "pending_ok (ret s) (threads s) (tickets s) (DUnit n g)"
    using ok(4, 7) at by (simp_all add: budget_ok_def pending_ok_def)
  ultimately have "pool_safe ?s"
    using ok f(5) by (simp add: pool_safe_def)
  moreover have "frame_state (frames (core s)) f = Some Evicting"
    using from_word_st_of [of "frames (core s)" "unat f"] f(3) count wf
    by (simp add: frame_state_def state_word_def checked_index_def frames_wf_def)
  ultimately show ?thesis
    using at F(1) by simp
qed

lemma scan_unit:
  assumes safe: "pool_safe s" and at: "drain_at s = DUnit n g"
  shows "\<exists>s'. scan_step s (drain_at s) = Some s' \<and> pool_safe s'"
proof -
  note ok = pool_safeD [OF safe]
  have pos: "0 < unat (occupied_budget (ret s))"
    using ok(4) at by (simp add: budget_ok_def)
  then have pred: "Suc (unat (occupied_budget (ret s) - 1)) = unat (occupied_budget (ret s))"
    by (intro unat_minus_one_pos) auto
  let ?R = "(ret s)\<lparr>occupied_budget := occupied_budget (ret s) - 1\<rparr>"
  let ?s = "s\<lparr>ret := ?R, drain_at := DScan n g\<rparr>"
  have wf: "pc_wf ?R x = pc_wf (ret s) x" for x
    by (cases x) simp_all
  have "budget_ok ?R (threads s) (DScan n g)"
    using ok(4) at pred by (simp add: budget_ok_def marked_def)
  moreover have "announced_ok ?s"
    using ok(11) at by (auto simp: announced_ok_def announced_def)
  moreover have "shape_ok ?s"
    using ok(2) wf at by (simp add: shape_ok_def)
  moreover have "pending_ok ?R (threads s) (tickets s) (DScan n g)"
    using ok(7) at by (simp add: pending_ok_def)
  moreover have "ring_inv ?R (threads s) (cursor s) (tickets s)"
    using ok(8) ring_inv_cong [of ?R "ret s"] by simp
  ultimately have "pool_safe ?s"
    using ok at by (simp add: pool_safe_def count_ok_def held_ok_def)
  moreover have "release_budget_unit (ret s) = Some ?R"
    using pos by (simp add: release_budget_unit_def Let_def word_less_nat_alt)
  ultimately show ?thesis
    using at by simp
qed

section \<open>The mature drain\<close>

lemma head_facts:
  assumes "pool_safe s" "matured_head (core s) = Some (f, t)"
  obtains rest where "eq_entries (evict_queue (core s)) = (f, t) # rest" "\<not> saturating_add t 2 > epoch (core s)"
    "unat f < length (words (ret s))" "unat f < unat (f_count (frames (core s)))"
    "st_of (frames (core s)) (unat f) = Evicting" "f \<notin> fst ` set rest" "word_at (ret s) f < 65536"
    "word_at (ret s) f = total_by (own f) (threads s)"
proof -
  note ok = pool_safeD [OF assms(1)]
  obtain rest where rest: "eq_entries (evict_queue (core s)) = (f, t) # rest" "\<not> saturating_add t 2 > epoch (core s)"
    using assms(2) by (auto simp: matured_head_Some)
  have "queue_safe (core s)"
    using ok(1) by (simp add: ebr_safe_def)
  then have f: "unat f < unat (f_count (frames (core s)))" "st_of (frames (core s)) (unat f) = Evicting" "f \<notin> fst ` set rest"
    using rest(1) by (auto simp: queue_safe_def)
  then have len: "unat f < length (words (ret s))"
    using ok(2) by (simp add: shape_ok_def)
  have small: "word_at (ret s) f < 65536"
    using ok(6) rest(1) len by (force simp: held_ok_def not_le [symmetric])
  then have "word_at (ret s) f = total_by (own f) (threads s)"
    using count_okD(2) [OF ok(3) len] by simp
  then show thesis
    using that rest f len small by blast
qed

lemma mature_free:
  assumes safe: "pool_safe s" "epoch (core s) \<noteq> QUIESCENT" and head: "matured_head (core s) = Some (f, t)"
    and word: "word_at (ret s) f = 0"
    and at: "drain_at s = DMature b \<or> drain_at s = DMatured f t mpc" "b' \<or> drain_at s = DMature b'"
  shows "\<exists>e. free_frame (pop_queue (core s)) f = Some e \<and> pool_safe (s\<lparr>core := e, drain_at := DMature b'\<rparr>)"
proof -
  note ok = pool_safeD [OF safe(1)]
  obtain rest where h: "eq_entries (evict_queue (core s)) = (f, t) # rest" "\<not> saturating_add t 2 > epoch (core s)"
    "unat f < unat (f_count (frames (core s)))" "st_of (frames (core s)) (unat f) = Evicting" "f \<notin> fst ` set rest"
    "word_at (ret s) f = total_by (own f) (threads s)"
    by (rule head_facts [OF safe(1) head])
  have ctl: "ctl (core s) = CIdle"
    using drain_ctl [OF safe(1)] at(1) by auto
  let ?pop = "pop_queue (core s)"
  have e0: "?pop = (core s)\<lparr>evict_queue := (evict_queue (core s))\<lparr>eq_entries := rest\<rparr>\<rparr>"
    by (simp add: pop_queue_def h(1))
  have wf: "frames_wf (frames (core s))"
    using ok(1) by (simp add: ebr_safe_def)
  have hold: "ebr_safe ?pop"
    unfolding e0 by (rule safe_hold [OF ok(1) safe(2) ctl h(1, 2)])
  obtain F where F: "free_frame ?pop f = Some (?pop\<lparr>frames := F\<rparr>)" "Frames_advance (frames ?pop) f Free = Some F"
    "touches f (frames ?pop) F"
    by (rule free_frame_Some [OF hold]) (use h(3, 4) e0 in auto)
  let ?e = "?pop\<lparr>frames := F\<rparr>"
  let ?s = "s\<lparr>core := ?e, drain_at := DMature b'\<rparr>"
  have e: "frames ?pop = frames (core s)" "epoch ?e = epoch (core s)" "ctl ?e = ctl (core s)"
    "eq_entries (evict_queue ?e) = rest" "readers ?e = readers (core s)"
    by (simp_all add: e0)
  note touch = F(3) [unfolded e(1)]
  have "ebr_safe ?e"
    by (rule safe_free_held [OF hold _ _ F(2)]) (use ctl h(5) e0 in auto)
  moreover have "pages_ok F (threads s)"
    by (rule pages_ok_free [OF wf touch ok(10)]) (use h(6) word in simp)
  moreover have "held_ok ?e (ret s)"
    unfolding held_ok_def e
  proof (intro allI impI)
    fix g assume g: "unat g < length (words (ret s))" "65536 \<le> word_at (ret s) g"
    then have "g \<noteq> f"
      using word by auto
    then show "st_of (frames ?e) (unat g) = Evicting \<and> g \<notin> fst ` set rest
        \<and> ctl (core s) \<noteq> CEvicting g \<and> saturating_add (tags (ret s) ! unat g) 2 \<le> epoch (core s)"
      using ok(6) g touches_other(2) [OF wf touch] h(1) by (auto simp: held_ok_def)
  qed
  moreover have "shape_ok ?s"
    using ok(2) touch ctl e by (simp add: shape_ok_def touches_def)
  moreover have "drain_ok ?e (ret s) (tickets s) (DMature b')"
    using at(2) ok(9) h(1) e by (cases b') fastforce+
  moreover have "budget_ok (ret s) (threads s) (DMature b')" "pending_ok (ret s) (threads s) (tickets s) (DMature b')"
    by (rule disjE [OF at(1)]; use ok(4, 7) in \<open>simp add: budget_ok_def pending_ok_def\<close>)+
  moreover have "announced_ok ?s"
    using ok(11) at(1) by (auto simp: announced_ok_def)
  ultimately have "pool_safe ?s"
    using ok e by (simp add: pool_safe_def)
  then show ?thesis
    using F(1) by blast
qed

lemma mature_scan:
  assumes safe: "pool_safe s" "epoch (core s) \<noteq> QUIESCENT" and at: "drain_at s = DMature b"
  shows "\<exists>s'. mature_step s (drain_at s) = Some s' \<and> pool_safe s'"
proof (cases "matured_head (core s)")
  case None
  have "pool_safe (s\<lparr>drain_at := DIdle\<rparr>)"
    by (rule pool_safe_move [OF safe(1)]) (use at pool_safeD(11) [OF safe(1)] in \<open>auto intro!: announced_iterations\<close>)
  then show ?thesis
    using None at by simp
next
  case (Some h)
  then obtain f t where head: "matured_head (core s) = Some (f, t)"
    by (cases h) auto
  show ?thesis
  proof (cases b)
    case True
    have "pool_safe (s\<lparr>drain_at := DMatured f t MLoad\<rparr>)"
      by (rule pool_safe_move [OF safe(1)])
        (use at head pool_safeD(11) [OF safe(1)] drain_ctl [OF safe(1)] in \<open>auto intro!: announced_iterations\<close>)
    then show ?thesis
      using True head at by simp
  next
    case False
    then have "word_at (ret s) f = 0"
      using pool_safeD(9) [OF safe(1)] at head by (auto simp: matured_head_Some)
    from mature_free [OF safe head this, of b MLoad b]
    obtain e where e: "free_frame (pop_queue (core s)) f = Some e" "pool_safe (s\<lparr>core := e, drain_at := DMature b\<rparr>)"
      using at by auto
    have "s\<lparr>core := e, drain_at := DMature b\<rparr> = s\<lparr>core := e\<rparr>"
      using at by (cases s) simp
    then have "pool_safe (s\<lparr>core := e\<rparr>)"
      using e(2) by simp
    then show ?thesis
      using e(1) False head at by simp
  qed
qed

lemma mature_outcome:
  assumes safe: "pool_safe s" "epoch (core s) \<noteq> QUIESCENT" and at: "drain_at s = DMatured f t (MOutcome out)"
  shows "\<exists>s'. mature_step s (drain_at s) = Some s' \<and> pool_safe s'"
proof -
  have "matured_head (core s) = Some (f, t)" "word_at (ret s) f = 0"
    using pool_safeD(9) [OF safe(1)] at by auto
  from mature_free [OF safe this, of True "MOutcome out" True] show ?thesis
    using at by auto
qed

lemma matured_move:
  assumes "pool_safe s" "drain_at s = DMatured f t mpc" "matured_ok (ret s) f t mpc'"
  shows "pool_safe (s\<lparr>drain_at := DMatured f t mpc'\<rparr>)"
  by (rule pool_safe_move [OF assms(1)])
    (use assms(2, 3) pool_safeD(9, 11) [OF assms(1)] drain_ctl [OF assms(1)] in \<open>auto intro!: announced_iterations\<close>)

lemma mature_load:
  assumes safe: "pool_safe s" and at: "drain_at s = DMatured f t MLoad"
  shows "\<exists>s'. mature_step s (drain_at s) = Some s' \<and> pool_safe s'"
proof -
  let ?w = "words (ret s) ! unat f"
  have head: "matured_head (core s) = Some (f, t)"
    using pool_safeD(9) [OF safe] at by simp
  obtain "unat f < length (words (ret s))" "unat ?w < 65536"
    by (rule head_facts [OF safe head])
  then have step: "matured_step (ret s) f t MLoad =
      Some (if ?w = 0 then MOutcome Freed else MTag (unat ?w) ?w, ret s)"
    using pool_safeD(2) [OF safe] unat_gt_0 [of ?w]
    by (auto simp: is_disabled_def shape_ok_def word_load_def Let_def unat_tally)
  have "pool_safe (s\<lparr>drain_at := DMatured f t (if ?w = 0 then MOutcome Freed else MTag (unat ?w) ?w)\<rparr>)"
    by (rule matured_move [OF safe at]) (use \<open>unat ?w < 65536\<close> in \<open>auto simp: unat_gt_0\<close>)
  then show ?thesis
    using at step by auto
qed

lemma mature_tag:
  assumes safe: "pool_safe s" and at: "drain_at s = DMatured f t (MTag n w)"
  shows "\<exists>s'. mature_step s (drain_at s) = Some s' \<and> pool_safe s'"
proof -
  note ok = pool_safeD [OF safe]
  have head: "matured_head (core s) = Some (f, t)"
    using ok(9) at by simp
  obtain f: "unat f < length (words (ret s))" "word_at (ret s) f < 65536"
    by (rule head_facts [OF safe head])
  then have len: "unat f < length (tags (ret s))"
    using ok(3) by (simp add: count_ok_def)
  let ?R = "(ret s)\<lparr>tags := (tags (ret s))[unat f := t]\<rparr>"
  let ?s = "s\<lparr>ret := ?R, drain_at := DMatured f t (MExchange n w)\<rparr>"
  have wf: "pc_wf ?R x = pc_wf (ret s) x" for x
    by (cases x) simp_all
  have "held_ok (core s) ?R"
    unfolding held_ok_def
  proof (intro allI impI)
    fix g assume g: "unat g < length (words ?R)" "65536 \<le> word_at ?R g"
    then have "unat g \<noteq> unat f"
      using f(2) by auto
    then show "st_of (frames (core s)) (unat g) = Evicting \<and> g \<notin> fst ` set (eq_entries (evict_queue (core s)))
        \<and> ctl (core s) \<noteq> CEvicting g \<and> saturating_add (tags ?R ! unat g) 2 \<le> epoch (core s)"
      using ok(6) g by (simp add: held_ok_def)
  qed
  moreover have "ring_inv ?R (threads s) (cursor s) (tickets s)"
    using ok(8) ring_inv_cong [of ?R "ret s"] by simp
  moreover have "announced_ok ?s"
    using ok(11) at by (auto simp: announced_ok_def announced_def)
  moreover have "shape_ok ?s"
    using ok(2) wf at by (simp add: shape_ok_def)
  moreover have "drain_ok (core s) ?R (tickets s) (DMatured f t (MExchange n w))"
    using ok(9) at len by simp
  moreover have "budget_ok ?R (threads s) (DMatured f t (MExchange n w))"
    "pending_ok ?R (threads s) (tickets s) (DMatured f t (MExchange n w))" "count_ok ?R (threads s)"
    using ok(3, 4, 7) at by (simp_all add: budget_ok_def marked_def pending_ok_def count_ok_def)
  ultimately have "pool_safe ?s"
    using ok by (simp add: pool_safe_def)
  then show ?thesis
    using at len by (simp add: tag_store_def)
qed

text \<open>The exchange succeeds: the frame is held, off the queue.\<close>

lemma mature_hold:
  assumes safe: "pool_safe s" "epoch (core s) \<noteq> QUIESCENT" and at: "drain_at s = DMatured f t (MExchange n w)"
    and eq: "words (ret s) ! unat f = w"
    and R: "words R = (words (ret s))[unat f := w OR HELD]" "same_config (ret s) R" "wait R = wait (ret s)"
      "occupied_budget R = occupied_budget (ret s)" "release_ring R = release_ring (ret s)"
  shows "pool_safe (s\<lparr>ret := R, core := pop_queue (core s), drain_at := DMature True\<rparr>)" (is "pool_safe ?s")
proof -
  note ok = pool_safeD [OF safe(1)] and conf = R(2) [unfolded same_config_def]
  have head: "matured_head (core s) = Some (f, t)" and w: "0 < unat w" "unat w < 65536" "tags (ret s) ! unat f = t"
    using ok(9) at by auto
  obtain rest where h: "eq_entries (evict_queue (core s)) = (f, t) # rest" "\<not> saturating_add t 2 > epoch (core s)"
    "unat f < length (words (ret s))" "st_of (frames (core s)) (unat f) = Evicting" "f \<notin> fst ` set rest"
    "word_at (ret s) f = total_by (own f) (threads s)"
    by (rule head_facts [OF safe(1) head])
  have ctl: "ctl (core s) = CIdle"
    using drain_ctl [OF safe(1)] at by simp
  have pop: "pop_queue (core s) = (core s)\<lparr>evict_queue := (evict_queue (core s))\<lparr>eq_entries := rest\<rparr>\<rparr>"
    by (simp add: pop_queue_def h(1))
  have word: "word_at R g = (if g = f then unat w + 65536 else word_at (ret s) g)" for g
    using h(3) unat_or_held [OF w(2)] by (auto simp: R(1) nth_list_update word_unat_eq_iff)
  have wf: "pc_wf R x = pc_wf (ret s) x" for x
    using conf by (cases x) simp_all
  have "ebr_safe (pop_queue (core s))"
    unfolding pop by (rule safe_hold [OF ok(1) safe(2) ctl h(1, 2)])
  moreover have "count_ok R (threads s)"
  proof (rule count_okI)
    show "length (tags R) = length (words R)"
      using ok(3) conf R(1) by (simp add: count_ok_def)
    show "word_at R g < 131072 \<and> word_at R g = total_by (own g) (threads s) + (if 65536 \<le> word_at R g then 65536 else 0)"
      if "unat g < length (words R)" for g
      using that count_okD [OF ok(3), of g] h(6) eq w(2) R(1) unfolding word by auto
    show "total_by (own g) (threads s) = 0" if "\<not> unat g < length (words R)" for g
      using that count_ok_outside [OF ok(3), of g] R(1) by simp
  qed
  moreover have "w \<noteq> 0" "w OR HELD \<noteq> 0"
    using w(1, 2) unat_or_held [OF w(2)] by auto
  then have "marked R = marked (ret s)"
    using marked_words_update [OF h(3), of "w OR HELD"] eq by (simp add: marked_def R(1))
  then have "budget_ok R (threads s) (DMature True)"
    using ok(4) at conf R(4) by (simp add: budget_ok_def)
  moreover have "pending_ok R (threads s) (tickets s) (DMature True)"
    unfolding pending_ok_def
  proof
    fix g
    show "total_by (pushes g \<circ> t_pc) (threads s) + count_list (map fst (tickets s)) g + drains g (DMature True)
        = (if unat g < length (words R) \<and> word_at R g = 65536 then 1 else 0)"
      using ok(7) [unfolded pending_ok_def, rule_format, of g] at w eq unfolding word by (auto simp: R(1))
  qed
  moreover have "held_ok (pop_queue (core s)) R"
    using ok(6) h(1, 2, 4, 5) w(3) ctl conf unfolding held_ok_def word by (auto simp: pop R(1) not_less)
  moreover have "ring_inv R (threads s) (cursor s) (tickets s)"
    using ok(8) ring_inv_cong [of R "ret s"] conf R(5) by simp
  moreover have "announced_ok ?s"
    using ok(11) at R(3) by (auto simp: announced_ok_def announced_def)
  moreover have "shape_ok ?s"
    using ok(2) wf conf R(1) ctl by (simp add: shape_ok_def pop)
  ultimately show ?thesis
    using ok by (simp add: pool_safe_def pop)
qed

lemma mature_exchange:
  assumes safe: "pool_safe s" "epoch (core s) \<noteq> QUIESCENT" and at: "drain_at s = DMatured f t (MExchange n w)"
  shows "\<exists>s'. mature_step s (drain_at s) = Some s' \<and> pool_safe s'"
proof -
  let ?w = "words (ret s) ! unat f"
  have head: "matured_head (core s) = Some (f, t)"
    and w: "0 < unat w" "unat w < 65536" "unat w \<le> n" "unat ?w \<le> unat w" "tags (ret s) ! unat f = t"
    using pool_safeD(9) [OF safe(1)] at by auto
  obtain f: "unat f < length (words (ret s))"
    by (rule head_facts [OF safe(1) head])
  obtain m where n: "n = Suc m"
    using w(1, 3) by (cases n) auto
  have free: "w AND HELD = 0" "?w AND HELD = 0"
    using w by simp_all
  show ?thesis
  proof (cases "?w = w")
    case True
    let ?R = "(ret s)\<lparr>words := (words (ret s))[unat f := w OR HELD],
      retained_evictions_held := retained_evictions_held (ret s) + 1\<rparr>"
    have "matured_step (ret s) f t (MExchange n w) = Some (MOutcome Held, ?R)"
      using True f w free n by (simp add: word_load_def word_store_def Let_def)
    moreover have "pool_safe (s\<lparr>ret := ?R, core := pop_queue (core s), drain_at := DMature True\<rparr>)"
      by (rule mature_hold [OF safe at True]) (simp_all add: same_config_def)
    ultimately show ?thesis
      using at by simp
  next
    case False
    then have less: "unat ?w < unat w"
      using w(4) by (simp add: word_unat_eq_iff)
    let ?pc = "if ?w = 0 then MOutcome Freed else MExchange m ?w"
    have "matured_step (ret s) f t (MExchange n w) = Some (?pc, ret s)"
      using False f w free n less unat_gt_0 [of ?w] by (auto simp: word_load_def Let_def)
    moreover have "pool_safe (s\<lparr>drain_at := DMatured f t ?pc\<rparr>)"
      by (rule matured_move [OF safe(1) at]) (use w less n in \<open>auto simp: unat_gt_0\<close>)
    ultimately show ?thesis
      using at by simp
  qed
qed

lemma drain_total:
  assumes "pool_safe s" "pool_young s" "drain_at s \<noteq> DIdle"
  shows "\<exists>s'. drain_step s = Some s' \<and> pool_safe s'"
proof -
  obtain r where r: "release_ring (ret s) = Some r" "ring_young r" and e: "epoch (core s) \<noteq> QUIESCENT"
    using assms(2) by (auto simp: pool_young_def)
  show ?thesis
  proof (cases "drain_at s")
    case (DScan n g)
    then show ?thesis
      using scan_exhausted [OF assms(1)] scan_pop [OF assms(1) _ r] by (cases n) (simp_all add: drain_step_def)
  next
    case (DTake n g)
    then show ?thesis
      using scan_take [OF assms(1) DTake r(1)] by (simp add: drain_step_def)
  next
    case (DAdvance n g f)
    then show ?thesis
      using scan_advance [OF assms(1) DAdvance r] by (simp add: drain_step_def)
  next
    case (DTag n g f)
    then show ?thesis
      using scan_tag [OF assms(1) DTag] by (simp add: drain_step_def)
  next
    case (DWord n g f)
    then show ?thesis
      using scan_word [OF assms(1) DWord] by (simp add: drain_step_def)
  next
    case (DExchange n g f w)
    then show ?thesis
      using scan_exchange [OF assms(1) DExchange] by (simp add: drain_step_def)
  next
    case (DFree n g f)
    then show ?thesis
      using scan_free [OF assms(1) DFree] by (simp add: drain_step_def)
  next
    case (DUnit n g)
    then show ?thesis
      using scan_unit [OF assms(1) DUnit] by (simp add: drain_step_def)
  next
    case (DMature b)
    then show ?thesis
      using mature_scan [OF assms(1) e DMature] by (simp add: drain_step_def)
  next
    case (DMatured f t pc)
    note at = DMatured
    show ?thesis
    proof (cases pc)
      case MLoad
      then show ?thesis
        using mature_load [OF assms(1), of f t] at by (simp add: drain_step_def)
    next
      case (MTag n w)
      then show ?thesis
        using mature_tag [OF assms(1), of f t n w] at by (simp add: drain_step_def)
    next
      case (MExchange n w)
      then show ?thesis
        using mature_exchange [OF assms(1) e, of f t n w] at by (simp add: drain_step_def)
    next
      case (MOutcome out)
      then show ?thesis
        using mature_outcome [OF assms(1) e, of f t out] at by (simp add: drain_step_def)
    qed
  qed (use assms(3) in simp)
qed

end
