(* ===== verification/Retention_Run.thy ===== *)
theory Retention_Run
  imports Retention_System
begin

text \<open>
  A concrete run of the system of \<open>Retention_System\<close>, with one frame, one reader and one retained
  frame: a page is read, pinned and promoted, then evicted; two epochs later the mature drain finds the
  handle and holds the frame; the handle is dropped and the frame handed to the ring.
\<close>

section \<open>States of the run\<close>

definition sample_ring :: "u64 \<Rightarrow> u64 \<Rightarrow> ReleaseRing" where
  "sample_ring tail first = \<lparr>ring_slots = [\<lparr>slot_sequence = first, slot_frame = 0\<rparr>, \<lparr>slot_sequence = 1, slot_frame = 0\<rparr>],
     ring_tail = tail, ring_capacity = 2, ring_mask = 1\<rparr>"

definition run_wait :: "bool \<Rightarrow> WaitState" where
  "run_wait pending = \<lparr>latch = \<lparr>current = 0, consumed = 0, ring_pending = pending\<rparr>, ring_pending_hint = pending,
     counters = \<lparr>parks_entered = 0, parks_in_progress = 0, parks_exited = 0, wake_exits = 0, timeout_exits = 0\<rparr>\<rparr>"

definition run_ret :: "u32 \<Rightarrow> u32 \<Rightarrow> u64 \<Rightarrow> ReleaseRing \<Rightarrow> bool \<Rightarrow> Retention" where
  "run_ret w budget evictions ring pending =
     \<lparr>words = [w], tags = [0], retiring = [False, False], occupied_budget = budget, refused_budget = 0,
      refused_ceiling = 0, refused_contention = 0, refused_retiring = 0, retained_evictions_held = evictions,
      release_ring = Some ring, wait = run_wait pending, max_retained_frames = 1, max_concurrent_readers = 1,
      frame_total = 1\<rparr>"

definition run_pool ::
  "ebr \<Rightarrow> Retention \<Rightarrow> retention_pc \<Rightarrow> (PageId \<times> ReadFrameIdx) list \<Rightarrow> drain_pc \<Rightarrow> (u32 \<times> bool) list \<Rightarrow> pool_sys" where
  "run_pool e R pc handles d q =
     \<lparr>core = e, ret = R, threads = [\<lparr>t_pc = pc, t_handles = handles\<rparr>], drain_at = d, cursor = 0, tickets = q,
      scan_end = 0\<rparr>"

abbreviation run_core :: "u64 \<Rightarrow> u64 \<Rightarrow> (PageId \<rightharpoonup> ReadFrameIdx) \<Rightarrow> (ReadFrameIdx \<times> u64) list \<Rightarrow> reader_state \<Rightarrow> control_pc \<Rightarrow> ebr" where
  "run_core ep w m q r c \<equiv> run_state w (Some (sample_page 4)) m q r c\<lparr>epoch := ep\<rparr>"

abbreviation run_idle :: reader_state where
  "run_idle \<equiv> run_reader QUIESCENT 0 PIdle []"

abbreviation run_held :: reader_state where
  "run_held \<equiv> run_reader 0 1 PIdle [(sample_page 4, 0)]"

lemma HELD_num: "HELD = 65536"
  by (simp add: HELD_def push_bit_eq_mult)

lemma held_one: "1 OR HELD = 65537"
  by (simp add: HELD_num)

lemmas run_ret_simps = run_ret_def sample_ring_def run_wait_def word_load_def word_store_def tag_store_def Let_def
  nth_opt_def upd_opt_def is_disabled_def

section \<open>Steps of the run\<close>

abbreviation pool_run :: "pool_sys \<Rightarrow> bool" where
  "pool_run \<equiv> reachable pool_start pool_step"

lemma run_control:
  assumes "pool_run (run_pool e R pc h DIdle q)" "control_step e e'"
  shows "pool_run (run_pool e' R pc h DIdle q)"
  using reachable.step [OF assms(1), OF p_control [of _ e']] assms(2) by (simp add: run_pool_def)

lemma run_reads:
  assumes "pool_run (run_pool e R Ready h d q)" "0 < length (readers e)" "reader_step e (readers e ! 0) r'"
  shows "pool_run (run_pool (set_reader 0 r' e) R Ready h d q)"
  using reachable.step [OF assms(1), OF p_reader [of 0 _ r']] assms(2-) by (simp add: run_pool_def)

lemma run_thread:
  assumes "pool_run (run_pool e R pc h d q)" "retention_step R pc = Some (pc', R')"
  shows "pool_run (run_pool e R' pc' h d (ticket_effect 0 pc q))"
  using reachable.step [OF assms(1), OF p_thread [of 0 _ pc' R']] assms(2) by (simp add: run_pool_def)

lemma run_drains:
  assumes "pool_run (run_pool e R pc h d q)" "d \<noteq> DIdle" "drain_step (run_pool e R pc h d q) = Some s'"
  shows "pool_run s'"
  using reachable.step [OF assms(1), OF p_drain [OF _ assms(3)]] assms(2) by (simp add: run_pool_def)

section \<open>The run\<close>

lemma run_start: "pool_run (run_pool (run_state 0 None Map.empty [] run_idle CIdle) (run_ret 0 0 0 (sample_ring 0 0) False) Ready [] DIdle [])"
proof (rule reachable.start)
  let ?b = "PoolBuilder_default\<lparr>pb_max_concurrent_readers := 1, pb_max_retained_frames := 1, pb_registered_file_capacity := 2\<rparr>"
  have "ReleaseRing_try_preallocated True 1 = Some (Some (sample_ring 0 0))"
    by (simp add: ReleaseRing_try_preallocated_def RING_CAPACITY_MAX_def checked_next_power_of_two_def sample_ring_def
        upt_rec push_bit_eq_mult)
  then show "pool_start (run_pool (run_state 0 None Map.empty [] run_idle CIdle) (run_ret 0 0 0 (sample_ring 0 0) False) Ready [] DIdle [])"
    unfolding pool_start_def
    by (intro conjI exI [of _ ?b])
      (simp_all add: ebr_start_def slot_quiet_def run_simps run_pool_def retention_accepts PoolBuilder_default_def
        Retention_try_preallocated_def run_ret_def run_wait_def WaitState_default_def replicate_two)
qed

lemma run_resident:
  "pool_run (run_pool (run_core 0 6 [sample_page 4 \<mapsto> 0] [] run_held CIdle) (run_ret 0 0 0 (sample_ring 0 0) False) Ready [] DIdle [])"
proof -
  let ?p = "sample_page 4" and ?m = "[sample_page 4 \<mapsto> 0]" and ?R = "run_ret 0 0 0 (sample_ring 0 0) False"
  from run_control [OF run_start c_claim [of _ 0 ?p "\<lparr>token_arena = 1, token_frame = 1\<rparr>"]]
  have "pool_run (run_pool (run_core 0 1 Map.empty [] run_idle CIdle) ?R Ready [] DIdle [])"
    by (simp add: run_simps Frames_claim_def claim_unidentified_def checked_index_def FrameState_advance_def
        InFlightFrame_new_def checked_add_def)
  from run_control [OF this c_publish [of _ "\<lparr>token_arena = 1, token_frame = 1\<rparr>" 0 _ ?p]]
  have "pool_run (run_pool (run_core 0 6 Map.empty [] run_idle (CPublished ?p 0)) ?R Ready [] DIdle [])"
    by (simp add: run_simps Frames_publish_def Frames_consume_def owned_index_def FrameState_advance_def
        advance_generation_def checked_add_def InFlightFrame_frame_def exact_page_def checked_index_def page_read_def)
  from run_control [OF this c_map [of _ ?p 0]]
  have "pool_run (run_pool (run_core 0 6 ?m [] run_idle CIdle) ?R Ready [] DIdle [])"
    by (simp add: run_simps)
  from run_reads [OF this _ r_load [of _ _ ?p]]
  have "pool_run (run_pool (run_core 0 6 ?m [] (run_reader QUIESCENT 0 (PLoaded ?p 0) []) CIdle) ?R Ready [] DIdle [])"
    by (simp add: run_simps)
  from run_reads [OF this _ r_begin [of _ ?p 0 True]]
  have "pool_run (run_pool (run_core 0 6 ?m [] (run_reader 0 0 (PBegun ?p True) []) CIdle) ?R Ready [] DIdle [])"
    by (simp add: run_simps begin_pin_def)
  from run_reads [OF this _ r_lookup [of _ ?p True _ 0]]
  have "pool_run (run_pool (run_core 0 6 ?m [] (run_reader 0 0 (PFound ?p True 0) []) CIdle) ?R Ready [] DIdle [])"
    by (simp add: run_simps)
  from run_reads [OF this _ r_commit [of _ ?p True 0]] show ?thesis
    by (simp add: run_simps commit_pin_def checked_add_def)
qed

lemma run_promoted:
  "pool_run (run_pool (run_core 0 6 [sample_page 4 \<mapsto> 0] [] run_idle CIdle) (run_ret 1 1 0 (sample_ring 0 0) False) Ready
     [(sample_page 4, 0)] DIdle [])"
proof -
  let ?p = "sample_page 4" and ?e = "run_core 0 6 [sample_page 4 \<mapsto> 0] [] run_held CIdle"
  let ?R = "\<lambda>w b. run_ret w b 0 (sample_ring 0 0) False"
  from reachable.step [OF run_resident, OF p_promote [of 0 _ ?p 0 "Attempt 0 1 2" "?R 0 0"]]
  have "pool_run (run_pool ?e (?R 0 0) (Attempt 0 1 2) [] DIdle [])"
    by (simp add: run_pool_def run_simps run_ret_def promote_def is_disabled_def checked_add_def sample_page_def
        PageId_new_def FileId_new_def)
  from run_thread [OF this, of "Reserve 0 1 1" "?R 0 0"] have "pool_run (run_pool ?e (?R 0 0) (Reserve 0 1 1) [] DIdle [])"
    by (simp add: numeral_2_eq_2 run_ret_simps)
  from run_thread [OF this] have "pool_run (run_pool ?e (?R 0 1) (FirstCount 0 1 1) [] DIdle [])"
    by (simp add: reserve_unit_def run_ret_simps)
  from run_thread [OF this] have "pool_run (run_pool ?e (?R 1 1) (RejectCheck 0 1) [] DIdle [])"
    by (simp add: first_count_def run_ret_simps)
  from run_thread [OF this] have "pool_run (run_pool ?e (?R 1 1) (Retained 0) [] DIdle [])"
    by (simp add: reject_retiring_def run_ret_simps)
  from reachable.step [OF this, OF p_retained [of 0 _ 0 ?p "r_slot run_idle"]] show ?thesis
    by (simp add: run_pool_def run_simps release_guard_def)
qed

lemma run_evicted:
  "pool_run (run_pool (run_core 2 7 Map.empty [(0, 0)] run_idle CIdle) (run_ret 1 1 0 (sample_ring 0 0) False) Ready
     [(sample_page 4, 0)] DIdle [])"
proof -
  let ?S = "\<lambda>e. run_pool e (run_ret 1 1 0 (sample_ring 0 0) False) Ready [(sample_page 4, 0)] DIdle []"
  let ?e = "\<lambda>ep. run_core ep 7 Map.empty [(0, 0)] run_idle"
  from run_control [OF run_promoted c_unmap [of _ "sample_page 4" 0]]
  have "pool_run (?S (run_core 0 6 Map.empty [] run_idle (CUnmapped 0)))"
    by (simp add: run_simps)
  from run_control [OF this c_evict [of _ 0]] have "pool_run (?S (run_core 0 7 Map.empty [] run_idle (CEvicting 0)))"
    by (simp add: run_simps Frames_advance_def checked_index_def FrameState_advance_def advance_generation_def)
  from run_control [OF this c_push [of _ 0]] have "pool_run (?S (?e 0 CIdle))"
    by (simp add: run_simps EvictQueue_push_def)
  moreover have "pool_run (?S (?e (ep + 1) CIdle))" if "pool_run (?S (?e ep CIdle))" "ep \<noteq> - 1" for ep
  proof -
    from run_control [OF that(1) c_scan_begin] have "pool_run (?S (?e ep (CScan ep 0)))"
      by (simp add: run_simps)
    from run_control [OF this c_scan [of _ ep 0 True]] have "pool_run (?S (?e ep (CScan ep 1)))"
      using that(2) by (simp add: run_simps permits_advance_def)
    from run_control [OF this c_advance [of _ ep]] show ?thesis
      by (simp add: run_simps)
  qed
  from this [of 0] this [of 1] calculation show ?thesis
    by simp
qed

definition held_pool :: pool_sys where
  "held_pool = run_pool (run_core 2 7 Map.empty [] run_idle CIdle) (run_ret 65537 1 1 (sample_ring 0 0) False) Ready
     [(sample_page 4, 0)] DIdle []"

lemma held_pool_reachable: "pool_run held_pool"
proof -
  let ?S = "\<lambda>q w n. run_pool (run_core 2 7 Map.empty q run_idle CIdle) (run_ret w 1 n (sample_ring 0 0) False) Ready
      [(sample_page 4, 0)]"
  note simps = run_pool_def drain_step_def run_ret_simps run_state_def is_disabled_def
  from reachable.step [OF run_evicted, OF p_mature] have "pool_run (?S [(0, 0)] 1 0 (DMature True) [])"
    by (simp add: run_pool_def run_ret_def run_state_def)
  from run_drains [OF this] have "pool_run (?S [(0, 0)] 1 0 (DMatured 0 0 MLoad) [])"
    by (simp add: simps matured_head_def saturating_add_def)
  from run_drains [OF this] have "pool_run (?S [(0, 0)] 1 0 (DMatured 0 0 (MTag 1 1)) [])"
    by (simp add: simps unat_tally)
  from run_drains [OF this] have "pool_run (?S [(0, 0)] 1 0 (DMatured 0 0 (MExchange 1 1)) [])"
    by (simp add: simps)
  from run_drains [OF this] have "pool_run (?S [] 65537 1 (DMature True) [])"
    by (simp add: simps pop_queue_def held_one)
  from run_drains [OF this] show ?thesis
    by (simp add: simps matured_head_def held_pool_def)
qed

definition released_pool :: pool_sys where
  "released_pool = run_pool (run_core 2 7 Map.empty [] run_idle CIdle) (run_ret 65536 1 1 (sample_ring 1 1) True) Ready
     [] DIdle [(0, True)]"

lemma released_pool_reachable: "pool_run released_pool"
proof -
  let ?S = "\<lambda>R pc. run_pool (run_core 2 7 Map.empty [] run_idle CIdle) R pc [] DIdle"
  let ?R = "\<lambda>w tail. run_ret w 1 1 (sample_ring tail 0) False"
  note ring_simps = with_ring_def ring_update_def ring_slot_def ring_index_def run_ret_simps
  from reachable.step [OF held_pool_reachable, OF p_drop [of 0 _ "sample_page 4" 0]]
  have "pool_run (?S (?R 65537 0) (Release 0 Dropped) [])"
    by (simp add: held_pool_def run_pool_def)
  from run_thread [OF this] have "pool_run (?S (?R 65536 0) (Push 0 Dropped) [])"
    by (simp add: release_count_def run_ret_simps)
  from run_thread [OF this] have "pool_run (?S (?R 65536 1) (PushCheck 0 Dropped 0) [(0, False)])"
    by (simp add: push_ticket_def ring_simps)
  from run_thread [OF this] have "pool_run (?S (?R 65536 1) (PushFrame 0 Dropped 0) [(0, False)])"
    by (simp add: push_check_def ring_simps)
  from run_thread [OF this] have "pool_run (?S (?R 65536 1) (PushSequence 0 Dropped 0) [(0, False)])"
    by (simp add: push_frame_def ring_simps)
  from run_thread [OF this] have "pool_run (?S (run_ret 65536 1 1 (sample_ring 1 1) False) (Publish Dropped) [(0, True)])"
    by (simp add: push_sequence_def ring_simps)
  from run_thread [OF this] show ?thesis
    by (simp add: release_publish_def publish_ring_pending_and_wake_if_parked_def run_ret_simps released_pool_def)
qed

end
