(* ===== verification/Retention_Props.thy ===== *)
theory Retention_Props
  imports Retention_Drain Retention_Run
begin

text \<open>
  What the retention protocol guarantees in every reachable state of \<open>Retention_System\<close>: retained frames
  keep their page, no assertion fires, the budget and the ring stay within their bounds, and no
  release is forgotten.
\<close>

section \<open>The remaining steps\<close>

lemma pool_safe_scan:
  assumes safe: "pool_safe s" and idle: "drain_at s = DIdle" "ctl (core s) = CIdle"
    and ring: "release_ring (ret s) = Some r"
  shows "pool_safe (s\<lparr>ret := drain_clear_pending (ret s), scan_end := unat (ring_tail r),
      drain_at := DScan (unat (max_retained_frames (ret s))) (epoch (core s))\<rparr>)" (is "pool_safe ?s")
proof -
  note ok = pool_safeD [OF safe]
  let ?R = "drain_clear_pending (ret s)"
  have wf: "pc_wf ?R x = pc_wf (ret s) x" for x
    by (cases x) (simp_all add: drain_clear_pending_def)
  have "unat (cursor s) + length (tickets s) = unat (ring_tail r)"
    using ok(8) ring by (auto simp: ring_inv_def ring_okD(2))
  moreover have "length (tickets s) \<le> unat (max_retained_frames (ret s))"
    using pending_bound [OF ok(7), of "{}"] ok(4) by (simp add: budget_ok_def)
  ultimately have "announced_ok ?s"
    by (simp add: announced_ok_def drain_clear_pending_def clear_ring_pending_def)
  moreover have "ring_inv ?R (threads s) (cursor s) (tickets s)"
    using ok(8) ring_inv_cong [of ?R "ret s"] by (simp add: drain_clear_pending_def)
  moreover have "shape_ok ?s"
    using ok(2) wf idle by (simp add: shape_ok_def) (simp add: drain_clear_pending_def)
  ultimately show ?thesis
    using ok idle
    by (simp add: pool_safe_def count_ok_def budget_ok_def marked_def held_ok_def pending_ok_def drain_clear_pending_def)
qed

lemma pool_safe_mature:
  assumes safe: "pool_safe s" and idle: "drain_at s = DIdle" "ctl (core s) = CIdle"
  shows "pool_safe (s\<lparr>drain_at := DMature (release_ring (ret s) \<noteq> None \<and> occupied_budget (ret s) \<noteq> 0)\<rparr>)"
proof (rule pool_safe_move [OF safe])
  note ok = pool_safeD [OF safe]
  have "word_at (ret s) f = 0" if "occupied_budget (ret s) = 0" "unat f < length (words (ret s))" for f
  proof -
    have "filter (\<lambda>w. w \<noteq> 0) (words (ret s)) = []"
      using ok(4) that(1) by (simp add: budget_ok_def marked_def)
    then show ?thesis
      using nth_mem [OF that(2)] by (auto simp: filter_empty_conv)
  qed
  moreover have "unat f < length (words (ret s))" if "(f, t) \<in> set (eq_entries (evict_queue (core s)))" for f t
    using ok(1, 2) that by (auto simp: ebr_safe_def queue_safe_def shape_ok_def)
  moreover have "release_ring (ret s) \<noteq> None"
    using ok(8) by (auto simp: ring_inv_def split: option.splits)
  ultimately show "drain_ok (core s) (ret s) (tickets s)
      (DMature (release_ring (ret s) \<noteq> None \<and> occupied_budget (ret s) \<noteq> 0))"
    by auto
  show "announced_ok (s\<lparr>drain_at := DMature (release_ring (ret s) \<noteq> None \<and> occupied_budget (ret s) \<noteq> 0)\<rparr>)"
    by (rule announced_iterations [OF ok(11)]) (simp add: idle)
qed (use idle in simp_all)

lemma pool_safe_retained:
  assumes safe: "pool_safe s" and i: "i < length (threads s)" and pc: "t_pc (threads s ! i) = Retained f"
    and guard: "(p, f) \<in> set (r_guards (readers (core s) ! i))"
    and slot: "release_guard (r_slot (readers (core s) ! i)) = Some sl"
  shows "pool_safe (set_thread i \<lparr>t_pc = Ready, t_handles = (p, f) # t_handles (threads s ! i)\<rparr>
      (s\<lparr>core := set_reader i ((readers (core s) ! i)
        \<lparr>r_slot := sl, r_guards := remove1 (p, f) (r_guards (readers (core s) ! i))\<rparr>) (core s)\<rparr>))"
proof -
  let ?t = "\<lparr>t_pc = Ready, t_handles = (p, f) # t_handles (threads s ! i)\<rparr>"
  have len: "length (threads s) = length (readers (core s))" and idle: "r_pc (readers (core s) ! i) = PIdle"
    using pool_safeD(5) [OF safe] i pc by (auto simp: guard_ok_def)
  have "exact_page (frames (core s)) f = Some p"
    using readers_safe [OF pool_safeD(1) [OF safe], of i] guard i len
    by (auto simp: reader_safe_def holding_def frame_held_def)
  have "pool_safe (set_thread i ?t (s\<lparr>ret := ret s\<rparr>))"
  proof (rule pool_safe_replace [OF safe i _ only_words_refl])
    show "same_account (threads s ! i) ?t"
      using pc by (auto simp: same_account_def own_def)
    show "exact_page (frames (core s)) g = Some p'" if "(p', g) \<in> set (t_handles ?t)" for p' g
      using that pool_safeD(10) [OF safe] i \<open>exact_page (frames (core s)) f = Some p\<close>
      by (force simp: pages_ok_def)
  qed simp_all
  then have "pool_safe (set_thread i ?t s)"
    by simp
  then have "pool_safe ((set_thread i ?t s)\<lparr>core := set_reader i ((readers (core s) ! i)
        \<lparr>r_slot := sl, r_guards := remove1 (p, f) (r_guards (readers (core s) ! i))\<rparr>) (core s)\<rparr>)"
    using pool_safe_reader [OF \<open>pool_safe (set_thread i ?t s)\<close>, of i] r_release [OF idle guard slot, of "core s"] i len
    by simp
  moreover have "(set_thread i ?t s)\<lparr>core := e\<rparr> = set_thread i ?t (s\<lparr>core := e\<rparr>)" for e
    by simp
  ultimately show ?thesis
    by simp
qed

section \<open>Ages\<close>

lemma ring_effect_young:
  assumes "effect R pc pc' R'" "release_ring R' = Some r'" "ring_young r'"
  shows "\<exists>r. release_ring R = Some r \<and> ring_young r"
  using assms(1)
proof cases
  case (e_ticket r t r1 f origin)
  then have r': "r' = r\<lparr>ring_tail := ring_tail r + 1\<rparr>" "ring_tail r \<noteq> - 1"
    using assms(2) by (auto simp: push_ticket_def Let_def only_ring_def)
  then have "unat (ring_tail r') = Suc (unat (ring_tail r))"
    using below_max_Suc [of "ring_tail r"] by (simp add: order_less_le)
  then show ?thesis
    using e_ticket(3) assms(3) r'(1) by (simp add: ring_young_def)
next
  case (e_store r t f r1 origin)
  then show ?thesis
    using assms(2, 3) by (auto simp: only_ring_def push_frame_def ring_update_def bind_Some_iff ring_young_def)
next
  case (e_sequence r t r1 f origin)
  then show ?thesis
    using assms(2, 3) by (auto simp: only_ring_def push_sequence_def ring_update_def bind_Some_iff ring_young_def)
qed (use assms(2, 3) in \<open>auto simp: only_defs eq_commute [of "Some r'"]\<close>)

lemma free_frame_core: "free_frame e f = Some e' \<Longrightarrow> ctl e' = ctl e \<and> readers e' = readers e \<and> epoch e' = epoch e"
  by (auto simp: free_frame_def)

lemma pop_queue_core [simp]:
  "ctl (pop_queue e) = ctl e" "readers (pop_queue e) = readers e" "epoch (pop_queue e) = epoch e"
  by (simp_all add: pop_queue_def)

lemma matured_step_ring: "matured_step R f t pc = Some (pc', R') \<Longrightarrow> release_ring R' = release_ring R"
  by (cases "(R, f, t, pc)" rule: matured_step.cases)
    (auto simp: word_ops tag_store_def bind_Some_iff Let_def split: if_splits)

lemma drain_core:
  assumes "drain_step s = Some s'"
  shows "ctl (core s') = ctl (core s) \<and> readers (core s') = readers (core s) \<and> epoch (core s') = epoch (core s)
    \<and> (\<forall>r'. release_ring (ret s') = Some r' \<longrightarrow>
        (\<exists>r. release_ring (ret s) = Some r \<and> ring_tail r = ring_tail r' \<and> ring_capacity r = ring_capacity r'))"
proof (cases "drain_at s")
  case (DScan n g)
  then show ?thesis
    using assms by (cases n) (auto simp: drain_step_def bind_Some_iff)
next
  case (DAdvance n g f)
  then show ?thesis
    using assms by (auto simp: drain_step_def bind_Some_iff pop_advance_def ring_update_def)
next
  case (DMature b)
  then show ?thesis
    using assms by (auto simp: drain_step_def bind_Some_iff dest!: free_frame_core split: option.splits if_splits)
next
  case (DMatured f t pc)
  show ?thesis
  proof (cases pc)
    case (MOutcome out)
    then show ?thesis
      using assms DMatured by (auto simp: drain_step_def bind_Some_iff dest!: free_frame_core)
  qed (use assms DMatured in
      \<open>auto simp: drain_step_def bind_Some_iff tag_store_def dest!: matured_step_ring split: if_splits\<close>)
qed (use assms in \<open>auto simp: drain_step_def bind_Some_iff drain_exchange_def word_ops release_budget_unit_def Let_def
    dest!: free_frame_core\<close>)

lemma pool_step_scan_ok:
  assumes "pool_step s s'" "scan_ok (core s)"
  shows "scan_ok (core s')"
  using assms(1)
proof cases
  case (p_reader i r)
  then show ?thesis
    using assms(2) by (simp add: scan_ok_def)
next
  case (p_control e)
  then show ?thesis
    using step_scan_ok [OF control, of "core s" e] assms(2) by simp
next
  case p_drain
  then show ?thesis
    using drain_core [of s s'] assms(2) by (simp add: scan_ok_def)
qed (use assms(2) in \<open>auto simp: scan_ok_def\<close>)

lemma pool_step_young:
  assumes "pool_step s s'" "scan_ok (core s)" "pool_young s'"
  shows "pool_young s"
  using assms(1)
proof cases
  case (p_control e)
  then show ?thesis
    using step_epoch [OF control, of "core s" e] assms(2, 3) by (simp add: pool_young_def)
next
  case (p_thread i pc R)
  then show ?thesis
    using ring_effect_young [OF retention_step_effect, of "ret s" "t_pc (threads s ! i)" pc R] assms(3)
    by (auto simp: pool_young_def)
next
  case p_drain
  then show ?thesis
    using drain_core [of s s'] assms(3) by (auto simp: pool_young_def ring_young_def)
qed (use assms(3) in \<open>auto simp: pool_young_def promote_def set_file_retiring_def mark_file_retiring_def
    clear_file_retiring_def drain_clear_pending_def bind_Some_iff split: if_splits\<close>)

lemma pool_step_safe:
  assumes step: "pool_step s s'" and safe: "pool_safe s" "scan_ok (core s)" "pool_young s" "pool_young s'"
  shows "pool_safe s'"
proof -
  have e: "epoch (core s) \<noteq> QUIESCENT"
    using safe(3) by (simp add: pool_young_def)
  from step show ?thesis
  proof cases
    case (p_reader i r)
    then show ?thesis
      using pool_safe_reader [OF safe(1)] by simp
  next
    case (p_control e')
    then show ?thesis
      using pool_safe_control [OF safe(1, 2) e] safe(4) by (simp add: pool_young_def)
  next
    case (p_promote i p f pc R)
    then show ?thesis
      using pool_safe_promote [OF safe(1)] by simp
  next
    case (p_thread i pc R)
    moreover obtain r' where "release_ring R = Some r'" "ring_young r'"
      using safe(4) p_thread(1) by (auto simp: pool_young_def)
    ultimately show ?thesis
      using pool_safe_thread [OF safe(1) _ e] by simp
  next
    case (p_retained i f p sl)
    then show ?thesis
      using pool_safe_retained [OF safe(1)] by simp
  next
    case (p_refused i reason)
    then show ?thesis
      using pool_safe_refused [OF safe(1)] by simp
  next
    case (p_drop i p f)
    then show ?thesis
      using pool_safe_drop [OF safe(1)] by simp
  next
    case (p_mark k R)
    then show ?thesis
      using pool_safe_retiring [OF safe(1)] by (simp add: mark_file_retiring_def)
  next
    case (p_clear k R)
    then show ?thesis
      using pool_safe_retiring [OF safe(1)] by (simp add: clear_file_retiring_def)
  next
    case (p_scan ring)
    then show ?thesis
      using pool_safe_scan [OF safe(1)] by simp
  next
    case p_mature
    then show ?thesis
      using pool_safe_mature [OF safe(1)] by simp
  next
    case p_drain
    then show ?thesis
      using drain_total [OF safe(1, 3)] by auto
  qed
qed

section \<open>No step is stuck\<close>

text \<open>A thread within a promotion or a release.\<close>

definition running :: "retention_pc \<Rightarrow> bool" where
  "running pc \<longleftrightarrow> pc \<noteq> Ready \<and> (\<forall>f. pc \<noteq> Retained f) \<and> (\<forall>r. pc \<noteq> Refused r)"

lemma budget_unit_total: "0 < unat (occupied_budget R) \<Longrightarrow> release_budget_unit R \<noteq> None"
  by (simp add: release_budget_unit_def word_less_nat_alt)

lemma thread_unit:
  assumes "pool_safe s" "i < length (threads s)" "0 < units (t_pc (threads s ! i)) + excess (t_pc (threads s ! i))"
  shows "release_budget_unit (ret s) \<noteq> None"
proof (rule budget_unit_total)
  have "unat (occupied_budget (ret s)) \<ge> total_by (units \<circ> t_pc) (threads s) + total_by (excess \<circ> t_pc) (threads s)"
    using pool_safeD(4) [OF assms(1)] by (simp add: budget_ok_def)
  then show "0 < unat (occupied_budget (ret s))"
    using total_member [OF assms(2), of units] total_member [OF assms(2), of excess] assms(3) by linarith
qed

lemma thread_push_total:
  assumes safe: "pool_safe s" and young: "pool_young s" and i: "i < length (threads s)"
    and pc: "announces (t_pc (threads s ! i))"
  shows "retention_step (ret s) (t_pc (threads s ! i)) \<noteq> None"
proof -
  note ok = pool_safeD [OF safe]
  obtain r where r: "release_ring (ret s) = Some r" "ring_young r"
    using young by (auto simp: pool_young_def)
  then have inv: "ring_ok r (cursor s) (tickets s)" "claims_ok r (threads s) (cursor s) (tickets s)"
    using ok(8) by (auto simp: ring_inv_def)
  have "ring_tail r \<noteq> - 1"
    using r(2) by (auto simp: ring_young_def unsigned_minus_1_eq_mask mask_eq_exp_minus_1)
  show ?thesis
  proof (cases "t_pc (threads s ! i)")
    case (PushCheck f origin t)
    then obtain j where "j < length (tickets s)" "t = cursor s + of_nat j" "tickets s ! j = (f, False)"
      using claims_okD [OF inv(2) i, of f t False] by auto
    then show ?thesis
      using push_check_ok [OF inv(1), of j] r PushCheck by (simp add: with_ring_def)
  next
    case (PushFrame f origin t)
    then obtain j where "j < length (tickets s)" "t = cursor s + of_nat j" "tickets s ! j = (f, False)"
      using claims_okD [OF inv(2) i, of f t False] by auto
    then obtain r' where "push_frame r t f = Some r'"
      using push_frame_ok [OF inv(1), of j f] r(2) by (metis snd_conv)
    then show ?thesis
      using r PushFrame by (simp add: with_ring_def)
  next
    case (PushSequence f origin t)
    then obtain j where "j < length (tickets s)" "t = cursor s + of_nat j" "tickets s ! j = (f, False)"
      "slot_frame (ring_cell r (unat (cursor s) + j)) = f"
      using claims_okD [OF inv(2) i, of f t True] by auto
    then obtain r' where "push_sequence r t = Some r'"
      using push_sequence_ok [OF inv(1), of j] r(2) by (metis fst_conv snd_conv)
    then show ?thesis
      using r PushSequence by (simp add: with_ring_def)
  qed (use r pc \<open>ring_tail r \<noteq> - 1\<close> in \<open>simp_all add: with_ring_def push_ticket_def Let_def\<close>)
qed

lemma thread_total:
  assumes safe: "pool_safe s" and young: "pool_young s" and i: "i < length (threads s)"
    and pc: "running (t_pc (threads s ! i))"
  shows "retention_step (ret s) (t_pc (threads s ! i)) \<noteq> None"
proof -
  let ?pc = "t_pc (threads s ! i)" and ?R = "ret s"
  note unit = thread_unit [OF safe i]
  have word: "unat f < length (words ?R) \<and> word_at ?R f < 65536" if "promoting ?pc = Some f" for f
    using promoting_not_held [OF safe i that] .
  have wf: "pc_wf ?R ?pc" and owns: "owns ?pc f \<noteq> 0 \<Longrightarrow> unat f < length (words ?R) \<and> 0 < word_at ?R f mod 65536" for f
    using thread_ready [OF safe i] unfolding frame_ready_def by (blast, meson gr0I less_le_trans)
  show ?thesis
  proof (cases ?pc)
    case (Attempt f k n)
    then show ?thesis
      using word by (cases n) (auto simp: retention_defs split: option.splits)
  next
    case (OverBudget f k n)
    then show ?thesis using unit by simp
  next
    case (Unreserve f k n)
    then show ?thesis using unit by simp
  next
    case (LastDrop f origin)
    then show ?thesis using unit by simp
  next
    case (RejectCheck f k)
    then show ?thesis using wf by (simp add: retention_defs)
  next
    case (Release f origin)
    then show ?thesis using owns [of f] by (simp add: retention_defs)
  next
    case (Increment f k n w)
    then show ?thesis using word [of f] by (simp add: retention_defs)
  next
    case (Recheck f k n)
    then show ?thesis using word [of f] by (simp add: retention_defs)
  next
    case (FirstCount f k n)
    then show ?thesis using word [of f] by (simp add: retention_defs)
  qed (use pc thread_push_total [OF safe young i] in \<open>simp_all add: running_def reserve_unit_def Let_def\<close>)
qed

section \<open>Runs\<close>

lemma total_by_replicate: "g x = 0 \<Longrightarrow> total_by g (replicate n x) = 0" for g :: "'a \<Rightarrow> nat"
  by (induction n) simp_all

lemma pool_start_safe:
  assumes "pool_start s"
  shows "pool_safe s"
proof -
  let ?t = "\<lparr>t_pc = Ready, t_handles = []\<rparr>" and ?n = "length (readers (core s))"
  obtain b r where b: "validate_retention_capacity b = Ok ()" "pb_max_retained_frames b \<noteq> 0"
      "?n = unat (pb_max_concurrent_readers b)"
    and r: "ReleaseRing_try_preallocated True (pb_max_retained_frames b) = Some (Some r)"
    and R: "ret s = \<lparr>words = replicate (unat (f_count (frames (core s)))) 0,
        tags = replicate (unat (f_count (frames (core s)))) 0,
        retiring = replicate (unat (pb_registered_file_capacity b)) False, occupied_budget = 0, refused_budget = 0,
        refused_ceiling = 0, refused_contention = 0, refused_retiring = 0, retained_evictions_held = 0,
        release_ring = Some r, wait = WaitState_default, max_retained_frames = pb_max_retained_frames b,
        max_concurrent_readers = pb_max_concurrent_readers b, frame_total = f_count (frames (core s))\<rparr>"
    using assms by (auto simp: pool_start_def Retention_try_preallocated_def bind_Some_iff split: option.splits)
  have start: "ebr_start (core s)" "threads s = replicate ?n ?t" "drain_at s = DIdle" "cursor s = 0" "tickets s = []"
    using assms by (auto simp: pool_start_def)
  have "0 < unat (pb_max_retained_frames b)"
    using b(2) by (simp add: unat_gt_0)
  then have "shape_ok s"
    using b retention_accepts [of b] by (auto simp: shape_ok_def start R)
  moreover have "count_ok (ret s) (threads s)" "budget_ok (ret s) (threads s) (drain_at s)"
    "pending_ok (ret s) (threads s) (tickets s) (drain_at s)"
    by (simp_all add: count_ok_def budget_ok_def pending_ok_def marked_def start R own_def sum_list_replicate)
  moreover have "ring_inv (ret s) (threads s) (cursor s) (tickets s)"
    using ReleaseRing_new_ok [OF r] by (simp add: ring_inv_def claims_ok_def start R)
  moreover have "guard_ok (readers (core s)) (threads s)" "held_ok (core s) (ret s)" "pages_ok (frames (core s)) (threads s)"
    by (auto simp: guard_ok_def held_ok_def pages_ok_def start R)
  moreover have "announced_ok s"
    by (simp add: announced_ok_def start R WaitState_default_def)
  ultimately show ?thesis
    using start_safe [OF start(1)] by (simp add: pool_safe_def start)
qed

interpretation pool: guarded_system pool_start pool_step pool_inv
proof unfold_locales
  fix s assume "pool_start s"
  then show "pool_inv s"
    using pool_start_safe by (simp add: pool_inv_def scan_ok_def pool_start_def ebr_start_def)
next
  fix s s' assume inv: "pool_inv s" and step: "pool_step s s'"
  then have ok: "scan_ok (core s)"
    by (simp add: pool_inv_def)
  have "pool_safe s'" if "pool_young s'"
    using pool_step_young [OF step ok that] inv that by (intro pool_step_safe [OF step _ ok]) (auto simp: pool_inv_def)
  then show "pool_inv s'"
    using pool_step_scan_ok [OF step ok] by (simp add: pool_inv_def)
qed

lemma reachable_pool_safe: "reachable pool_start pool_step s \<Longrightarrow> pool_young s \<Longrightarrow> pool_safe s"
  using pool.reachable_inv by (auto simp: pool_inv_def)

section \<open>Draining to the end\<close>

text \<open>Each step of a drain lowers this measure.\<close>

fun drain_work :: "nat \<Rightarrow> drain_pc \<Rightarrow> nat" where
  "drain_work queued DIdle = 0"
| "drain_work queued (DScan n g) = 8 * n + 1"
| "drain_work queued (DTake n g) = 8 * n + 8"
| "drain_work queued (DAdvance n g f) = 8 * n + 7"
| "drain_work queued (DTag n g f) = 8 * n + 6"
| "drain_work queued (DWord n g f) = 8 * n + 5"
| "drain_work queued (DExchange n g f w) = 8 * n + 4"
| "drain_work queued (DFree n g f) = 8 * n + 3"
| "drain_work queued (DUnit n g) = 8 * n + 2"
| "drain_work queued (DMature occupied) = queued * 65542 + (if queued = 0 then 1 else 65541)"
| "drain_work queued (DMatured f t pc) = queued * 65542 + (case pc of
      MLoad \<Rightarrow> 65540 | MTag n w \<Rightarrow> n + 4 | MExchange n w \<Rightarrow> n + 3 | MOutcome out \<Rightarrow> 2)"

abbreviation drain_left :: "pool_sys \<Rightarrow> nat" where
  "drain_left s \<equiv> drain_work (length (eq_entries (evict_queue (core s)))) (drain_at s)"

lemma tally_less [simp]: "unat (w AND COUNT_MASK) < 65536"
  by (simp add: unat_tally)

lemma pop_queue_entries [simp]: "eq_entries (evict_queue (pop_queue e)) = tl (eq_entries (evict_queue e))"
  by (simp add: pop_queue_def)

lemma free_frame_queue: "free_frame e f = Some e' \<Longrightarrow> evict_queue e' = evict_queue e"
  by (auto simp: free_frame_def)

lemma popped_work:
  "length q * 65542 + 2 > length (tl q) * 65542 + (if tl q = [] then 1 else 65541)"
  by (cases q) auto

lemma drain_step_work:
  assumes "drain_step s = Some s'"
  shows "drain_left s' < drain_left s"
proof (cases "drain_at s")
  case (DScan n g)
  then show ?thesis
    using assms by (cases n) (auto simp: drain_step_def bind_Some_iff split: if_splits)
next
  case (DMature b)
  then show ?thesis
    using assms popped_work [of "eq_entries (evict_queue (core s))"]
    by (auto simp: drain_step_def matured_head_def bind_Some_iff split: list.splits if_splits dest!: free_frame_queue)
next
  case (DMatured f t pc)
  note pop = popped_work [of "eq_entries (evict_queue (core s))"]
  show ?thesis
  proof (cases pc)
    case MLoad
    then show ?thesis
      using assms DMatured pop
      by (auto simp: drain_step_def bind_Some_iff Let_def split: if_splits)
  next
    case (MTag n w)
    then show ?thesis
      using assms DMatured by (auto simp: drain_step_def bind_Some_iff)
  next
    case (MExchange n w)
    then show ?thesis
      using assms DMatured pop by (cases n) (auto simp: drain_step_def bind_Some_iff Let_def split: if_splits)
  next
    case (MOutcome out)
    then show ?thesis
      using assms DMatured pop by (auto simp: drain_step_def bind_Some_iff dest!: free_frame_queue)
  qed
qed (use assms in \<open>auto simp: drain_step_def bind_Some_iff\<close>)

lemma drain_young:
  assumes "drain_step s = Some s'" "pool_safe s'" "pool_young s"
  shows "pool_young s'"
proof -
  obtain r' where "release_ring (ret s') = Some r'"
    using pool_safeD(8) [OF assms(2)] by (auto simp: ring_inv_def split: option.splits)
  then show ?thesis
    using drain_core [OF assms(1)] assms(3) by (auto simp: pool_young_def ring_young_def)
qed

text \<open>A scan follows a released frame until it is free.\<close>

definition leaving :: "ReadFrameIdx \<Rightarrow> pool_sys \<Rightarrow> bool" where
  "leaving f s \<longleftrightarrow> unat f < length (words (ret s)) \<and> (word_at (ret s) f = 65536
     \<or> (\<exists>n g. drain_at s = DFree n g f) \<or> st_of (frames (core s)) (unat f) = Free)"

lemma scan_keeps:
  assumes "drain_step s = Some s'" "iterations (drain_at s) \<noteq> None"
  shows "(iterations (drain_at s') \<noteq> None \<or> drain_at s' = DIdle) \<and> threads s' = threads s
    \<and> wait (ret s') = wait (ret s)"
proof (cases "drain_at s")
  case (DScan n g)
  then show ?thesis
    using assms by (cases n) (auto simp: drain_step_def bind_Some_iff split: if_splits)
qed (use assms in \<open>auto simp: drain_step_def bind_Some_iff drain_exchange_def word_ops release_budget_unit_def Let_def\<close>)

lemma scan_leaving:
  assumes "drain_step s = Some s'" "iterations (drain_at s) \<noteq> None" "leaving f s" "pool_safe s"
  shows "leaving f s'"
proof (cases "drain_at s")
  case (DScan n g)
  then show ?thesis
    using assms by (cases n) (auto simp: drain_step_def bind_Some_iff leaving_def split: if_splits)
next
  case (DExchange n g h w)
  have "unat h \<noteq> unat f" if "h \<noteq> f"
    using that by (simp add: word_unat_eq_iff)
  then show ?thesis
    using assms DExchange
    by (cases "h = f") (auto simp: drain_step_def bind_Some_iff drain_exchange_def word_ops leaving_def)
next
  case (DFree n g h)
  then obtain F where F: "Frames_advance (frames (core s)) h Free = Some F"
    and s': "s' = s\<lparr>core := (core s)\<lparr>frames := F\<rparr>, drain_at := DUnit n g\<rparr>"
    using assms(1) by (auto simp: drain_step_def bind_Some_iff free_frame_def)
  have wf: "frames_wf (frames (core s))"
    using pool_safeD(1) [OF assms(4)] by (simp add: ebr_safe_def)
  note adv = advance_touches [OF wf F]
  have "st_of F (unat f) = (if f = h then Free else st_of (frames (core s)) (unat f))"
    using adv(2) touches_other(2) [OF wf adv(1), of f] by simp
  then show ?thesis
    using assms(3) DFree by (cases "f = h") (auto simp: leaving_def s')
qed (use assms in \<open>auto simp: drain_step_def bind_Some_iff leaving_def release_budget_unit_def Let_def\<close>)

text \<open>A drain runs under the control lock until it is idle.\<close>

function run_drain :: "pool_sys \<Rightarrow> pool_sys option" where
  "run_drain s = (if drain_at s = DIdle then Some s else do { s' \<leftarrow> drain_step s; run_drain s' })"
  by pat_completeness auto

termination
  by (relation "measure drain_left") (auto dest: drain_step_work)

declare run_drain.simps [simp del]

lemma scan_to_end:
  assumes "pool_safe s" "pool_young s" "iterations (drain_at s) \<noteq> None"
  shows "\<exists>s'. run_drain s = Some s' \<and> pool_step\<^sup>*\<^sup>* s s' \<and> drain_at s' = DIdle \<and> pool_safe s' \<and> threads s' = threads s
    \<and> wait (ret s') = wait (ret s) \<and> (\<forall>f. leaving f s \<longrightarrow> leaving f s')"
  using assms
proof (induction s rule: run_drain.induct)
  case (1 s)
  have busy: "drain_at s \<noteq> DIdle"
    using 1(4) by auto
  then obtain t where t: "drain_step s = Some t" "pool_safe t"
    using drain_total [OF 1(2, 3)] by blast
  note one = scan_keeps [OF t(1) 1(4)] and step = p_drain [OF busy t(1)]
  have left: "\<forall>f. leaving f s \<longrightarrow> leaving f t"
    using scan_leaving [OF t(1) 1(4) _ 1(2)] by blast
  have run: "run_drain s = run_drain t"
    using busy t(1) by (simp add: run_drain.simps [of s])
  show ?case
  proof (cases "drain_at t = DIdle")
    case True
    then show ?thesis
      using one step t(2) left run by (auto simp: run_drain.simps [of t])
  next
    case False
    then obtain s' where "run_drain t = Some s'" "pool_step\<^sup>*\<^sup>* t s'" "drain_at s' = DIdle" "pool_safe s'"
      "threads s' = threads t" "wait (ret s') = wait (ret t)" "\<forall>f. leaving f t \<longrightarrow> leaving f s'"
      using 1(1) [OF busy t drain_young [OF t 1(3)]] one by blast
    then show ?thesis
      using one step left run by (metis converse_rtranclp_into_rtranclp)
  qed
qed

text \<open>\<open>Pool::drop\<close>, up to the backend's own \<open>drop_hook\<close>: one unconditional scan, then the check that no
  budget is left.\<close>

definition begin_scan :: "pool_sys \<Rightarrow> pool_sys option" where
  "begin_scan s = do {
     ring \<leftarrow> release_ring (ret s);
     Some (s\<lparr>ret := drain_clear_pending (ret s), scan_end := unat (ring_tail ring),
       drain_at := DScan (unat (max_retained_frames (ret s))) (epoch (core s))\<rparr>)
   }"

definition Pool_drop :: "pool_sys \<Rightarrow> pool_sys option" where
  "Pool_drop s = do {
     s \<leftarrow> if is_disabled (ret s) then Some s else do { s \<leftarrow> begin_scan s; run_drain s };
     assert (occupied_budget (ret s) = 0);
     Some s
   }"

lemma scan_runs:
  assumes "pool_safe s" "pool_young s" "drain_at s = DIdle" "ctl (core s) = CIdle"
  obtains t s' where "begin_scan s = Some t" "run_drain t = Some s'" "pool_step\<^sup>*\<^sup>* t s'" "drain_at s' = DIdle" "pool_safe s'"
    "threads s' = threads s" "\<not> ring_pending (latch (wait (ret s')))" "\<And>f. leaving f s \<Longrightarrow> leaving f s'"
proof -
  obtain r where r: "release_ring (ret s) = Some r" "ring_young r"
    using assms(2) by (auto simp: pool_young_def)
  let ?t = "s\<lparr>ret := drain_clear_pending (ret s), scan_end := unat (ring_tail r),
      drain_at := DScan (unat (max_retained_frames (ret s))) (epoch (core s))\<rparr>"
  have "pool_safe ?t"
    using pool_safe_scan [OF assms(1, 3, 4) r(1)] .
  moreover have "pool_young ?t"
    using assms(2) by (simp add: pool_young_def drain_clear_pending_def)
  ultimately obtain s' where s': "run_drain ?t = Some s'" "pool_step\<^sup>*\<^sup>* ?t s'" "drain_at s' = DIdle" "pool_safe s'"
      "threads s' = threads s" "wait (ret s') = wait (drain_clear_pending (ret s))" "\<forall>f. leaving f ?t \<longrightarrow> leaving f s'"
    using scan_to_end [of ?t] by auto
  have "leaving f ?t" if "leaving f s" for f
    using that assms(3) by (auto simp: leaving_def drain_clear_pending_def)
  then show thesis
    using that [of ?t s'] s' r(1) by (simp add: begin_scan_def drain_clear_pending_def clear_ring_pending_def)
qed

text \<open>While no thread is within a call, a released frame waits in the ring and is announced.\<close>

lemma quiet_ring:
  assumes "pool_safe s" "\<forall>t \<in> set (threads s). \<not> running (t_pc t)" "drain_at s = DIdle"
  shows "tickets s \<noteq> [] \<Longrightarrow> ring_pending (latch (wait (ret s)))"
    "unat f < length (words (ret s)) \<Longrightarrow> word_at (ret s) f = 65536 \<Longrightarrow> tickets s \<noteq> []"
proof -
  have quiet: "\<not> announces (t_pc t)" "pushes f (t_pc t) = 0" if "t \<in> set (threads s)" for t
    using assms(2) that by (cases "t_pc t"; auto simp: running_def)+
  show "tickets s \<noteq> [] \<Longrightarrow> ring_pending (latch (wait (ret s)))"
    using pool_safeD(11) [OF assms(1)] assms(3) quiet(1) by (auto simp: announced_ok_def announced_def)
  have "total_by (pushes f \<circ> t_pc) (threads s) = 0"
    using quiet(2) by (simp add: sum_list_eq_0_iff)
  then show "unat f < length (words (ret s)) \<Longrightarrow> word_at (ret s) f = 65536 \<Longrightarrow> tickets s \<noteq> []"
    using pool_safeD(7) [OF assms(1), unfolded pending_ok_def, rule_format, of f] assms(3)
    by (auto simp del: sum_list_eq_0_iff)
qed

lemma released_ready:
  assumes "pool_safe s" "pool_young s" "\<forall>t \<in> set (threads s). \<not> running (t_pc t)"
    "drain_at s = DIdle" "unat f < length (words (ret s))" "word_at (ret s) f = 65536"
  shows "release_drain_needed (ret s) (cursor s) = Some (Some True)"
proof -
  have "ring_pending_hint (wait (ret s))"
    using pool_safeD(11) [OF assms(1)] quiet_ring(1) [OF assms(1, 3, 4)]
      quiet_ring(2) [OF assms(1, 3, 4), of f] assms(5, 6) by (simp add: announced_ok_def)
  moreover obtain r where "release_ring (ret s) = Some r" "ring_young r" "ring_ok r (cursor s) (tickets s)"
    using assms(2) pool_safeD(8) [OF assms(1)] by (auto simp: pool_young_def ring_inv_def)
  ultimately show ?thesis
    using is_ready_ok [of r "cursor s" "tickets s"] by (simp add: release_drain_needed_def ring_may_be_pending_def)
qed

section \<open>Retention refines reclamation\<close>

lemma drain_refines:
  assumes "drain_step s = Some s'" "pool_safe s" "drain_at s \<noteq> DIdle"
  shows "core s' = core s \<or> ebr_step (core s) (core s')"
proof -
  have idle: "ctl (core s) = CIdle"
    using pool_safeD(2) [OF assms(2)] assms(3) by (simp add: shape_ok_def)
  note ok = pool_safeD(9) [OF assms(2)]
  show ?thesis
  proof (cases "drain_at s")
    case (DScan n g)
    then show ?thesis
      using assms(1) by (cases n) (auto simp: drain_step_def bind_Some_iff)
  next
    case (DFree n g f)
    then show ?thesis
      using assms(1) ok reclaim [OF c_free_held [OF idle, of f]]
      by (auto simp: drain_step_def bind_Some_iff free_frame_def)
  next
    case (DMature b)
    then show ?thesis
      using assms(1) reclaim [OF c_reclaim [OF idle]]
      by (auto simp: drain_step_def bind_Some_iff free_frame_def pop_queue_def matured_head_Some split: option.splits if_splits)
  next
    case (DMatured f t pc)
    then obtain rest where q: "eq_entries (evict_queue (core s)) = (f, t) # rest" "\<not> saturating_add t 2 > epoch (core s)"
      using ok by (auto simp: matured_head_Some)
    note free = reclaim [OF c_reclaim [OF idle q]] and hold = reclaim [OF c_hold [OF idle q]]
    show ?thesis
      using assms(1) DMatured free hold q(1)
      by (cases pc) (auto simp: drain_step_def bind_Some_iff free_frame_def pop_queue_def split: if_splits)
  qed (use assms(1) in \<open>auto simp: drain_step_def bind_Some_iff\<close>)
qed

lemma pool_step_refines:
  assumes "pool_step s s'" "pool_safe s"
  shows "core s' = core s \<or> ebr_step (core s) (core s')"
  using assms(1)
proof cases
  case (p_reader i r)
  then show ?thesis
    by (simp add: reader)
next
  case (p_control e)
  then show ?thesis
    by (simp add: control)
next
  case (p_retained i f p sl)
  then have "length (threads s) = length (readers (core s))" "r_pc (readers (core s) ! i) = PIdle"
    using pool_safeD(5) [OF assms(2)] by (auto simp: guard_ok_def)
  then show ?thesis
    using p_retained reader [OF _ r_release, of i "core s" "(p, f)"] by simp
next
  case p_drain
  then show ?thesis
    using drain_refines assms(2) by blast
qed simp_all

section \<open>Properties\<close>

lemma handle_word:
  assumes "pool_safe s" "i < length (threads s)" "(p, f) \<in> set (t_handles (threads s ! i))"
  shows "unat f < length (words (ret s))" "0 < word_at (ret s) f mod 65536"
proof -
  have "0 < count_list (map snd (t_handles (threads s ! i))) f"
    using assms(3) by (metis count_list_0_iff gr0I imageI set_map snd_conv)
  then have "0 < total_by (own f) (threads s)"
    using sum_list_member [OF assms(2), of "own f"] by (simp add: own_def)
  then show "unat f < length (words (ret s))" "0 < word_at (ret s) f mod 65536"
    using pool_safeD(3) [OF assms(1), unfolded count_ok_def, THEN conjunct2, rule_format, of f]
    by (auto simp del: sum_list_eq_0_iff split: if_splits)
qed

lemma handle_page:
  assumes "pool_safe s" "i < length (threads s)" "(p, f) \<in> set (t_handles (threads s ! i))"
  shows "exact_page (frames (core s)) f = Some p"
  using pool_safeD(10) [OF assms(1)] assms(2, 3) by (fastforce simp: pages_ok_def)

text \<open>
  C4.  A retained frame is not reused.  In every interleaving of promotions, drops, evictions, epoch
  advances and drains, a frame with a live handle is still published with the page it was promoted
  with, its count is positive, and no read can claim it.
\<close>

theorem retained_frame_not_reused:
  assumes "reachable pool_start pool_step s" "pool_young s" "i < length (threads s)"
    "(page, f) \<in> set (t_handles (threads s ! i))"
  shows "exact_page (frames (core s)) f = Some page \<and> 0 < word_at (ret s) f mod 65536
    \<and> Frames_claim (frames (core s)) f p = Some (None, frames (core s))"
proof -
  have safe: "pool_safe s"
    using reachable_pool_safe [OF assms(1, 2)] .
  then have "frames_wf (frames (core s))"
    using pool_safeD(1) by (simp add: ebr_safe_def)
  then show ?thesis
    using handle_page [OF safe assms(3, 4)] handle_word [OF safe assms(3, 4)] published_not_claimed by blast
qed




lemma no_handles_no_budget:
  assumes "pool_safe s" "drain_at s = DIdle" "\<forall>t \<in> set (threads s). t_pc t = Ready \<and> t_handles t = []"
    "\<not> ring_pending (latch (wait (ret s)))"
  shows "occupied_budget (ret s) = 0"
proof -
  have zero: "total_by g (threads s) = 0" if "\<forall>t. t_pc t = Ready \<longrightarrow> t_handles t = [] \<longrightarrow> g t = 0" for g :: "rthread \<Rightarrow> nat"
    using assms(3) that by (simp add: sum_list_eq_0_iff)
  have quiet: "\<forall>t \<in> set (threads s). \<not> running (t_pc t)"
    using assms(3) by (simp add: running_def)
  have "word_at (ret s) f = 0" if "unat f < length (words (ret s))" for f
    using count_okD [OF pool_safeD(3) [OF assms(1)] that] zero [of "own f"] quiet_ring(1) [OF assms(1) quiet assms(2)]
      quiet_ring(2) [OF assms(1) quiet assms(2) that] assms(4) by (auto simp: own_def simp del: sum_list_eq_0_iff split: if_splits)
  moreover have "length (words (ret s)) = unat (f_count (frames (core s)))"
    using pool_safeD(2) [OF assms(1)] by (simp add: shape_ok_def)
  ultimately have "words (ret s) ! j = 0" if "j < length (words (ret s))" for j
    using that unat_of_nat_below [of j "f_count (frames (core s))"] by (metis unat_eq_zero)
  then have "marked (ret s) = 0"
    by (auto simp: marked_def filter_empty_conv in_set_conv_nth)
  then have "unat (occupied_budget (ret s)) = 0"
    using pool_safeD(4) [OF assms(1)] zero [of "units \<circ> t_pc"] zero [of "excess \<circ> t_pc"] assms(2)
    by (simp add: budget_ok_def)
  then show ?thesis
    by (simp add: unat_eq_zero)
qed

text \<open>
  C7.  Dropping the pool never trips over retention.  Once every handle is gone, the unconditional
  scan of \<open>Pool::drop\<close> runs to its end and leaves no budget occupied, whatever was evicted, held or still
  in the ring, so the assertion that no handle was forgotten holds.
\<close>

theorem pool_drop_clean:
  assumes "reachable pool_start pool_step s" "pool_young s" "drain_at s = DIdle" "ctl (core s) = CIdle"
    "\<forall>t \<in> set (threads s). t_pc t = Ready \<and> t_handles t = []"
  shows "\<exists>s'. Pool_drop s = Some s' \<and> occupied_budget (ret s') = 0"
proof -
  have safe: "pool_safe s"
    using reachable_pool_safe [OF assms(1, 2)] .
  obtain t s' where "begin_scan s = Some t" "run_drain t = Some s'" "drain_at s' = DIdle" "pool_safe s'"
    "threads s' = threads s" "\<not> ring_pending (latch (wait (ret s')))"
    by (rule scan_runs [OF safe assms(2, 3, 4)])
  moreover from this have "occupied_budget (ret s') = 0"
    using no_handles_no_budget [of s'] assms(5) by simp
  moreover have "\<not> is_disabled (ret s)"
    using pool_safeD(2) [OF safe] by (auto simp: shape_ok_def is_disabled_def)
  ultimately show ?thesis
    by (simp add: Pool_drop_def)
qed

text \<open>
  C8.  Retention refines reclamation: hiding words, handles, ring and drains, every run of the pool
  with retention is a run of the reclamation system of theory \<open>Reclaim\<close>.
\<close>

theorem pool_refines_reclaim:
  assumes "reachable pool_start pool_step s" "pool_young s"
  shows "reachable ebr_start ebr_step (core s)"
  using assms
proof (induction rule: reachable.induct)
  case (start s)
  then show ?case
    by (auto simp: pool_start_def intro: reachable.start)
next
  case (step s s')
  have young: "pool_young s"
    using pool_step_young [OF step.hyps(2) _ step.prems] pool.reachable_inv [OF step.hyps(1)] by (simp add: pool_inv_def)
  then have "pool_safe s"
    using reachable_pool_safe [OF step.hyps(1)] by blast
  then show ?case
    using pool_step_refines [OF step.hyps(2)] step.IH [OF young] by (auto intro: reachable.step)
qed

section \<open>Witnesses\<close>

lemma run_young:
  "pool_young held_pool" "pool_young released_pool"
  by (simp_all add: pool_young_def held_pool_def released_pool_def run_pool_def run_ret_def sample_ring_def
      ring_young_def run_state_def QUIESCENT_def)

lemmas held_simps = held_pool_def released_pool_def run_pool_def run_ret_def sample_ring_def run_state_def

theorem retained_frame_not_reused_witness:
  "exact_page (frames (core held_pool)) 0 = Some (sample_page 4) \<and> 0 < word_at (ret held_pool) 0 mod 65536
   \<and> Frames_claim (frames (core held_pool)) 0 (sample_page 5) = Some (None, frames (core held_pool))"
  by (rule retained_frame_not_reused [OF held_pool_reachable run_young(1), of 0]) (simp_all add: held_simps)




theorem pool_drop_clean_witness: "\<exists>s'. Pool_drop released_pool = Some s' \<and> occupied_budget (ret s') = 0"
  by (rule pool_drop_clean [OF released_pool_reachable run_young(2)]) (simp_all add: held_simps)

theorem pool_refines_reclaim_witness: "reachable ebr_start ebr_step (core held_pool)"
  by (rule pool_refines_reclaim [OF held_pool_reachable run_young(1)])

end
