(* ===== verification/Miss.thy ===== *)
theory Miss
  imports File_Slots Frames "HOL-Library.Multiset"
begin

text \<open>
  The miss table of \<open>pool/miss.rs\<close>: one pending record per missing page, so that every request for it
  joins the one read in flight, and terminal records kept while somebody still waits for them.  The
  waiter counts are atomics that a dropped \<open>PendingToken\<close> decrements without the control lock; every other
  operation runs under it.  Only \<open>begin\<close> and \<open>join\<close> raise a count, both under the lock, so a zero the
  control plane reads stays zero, and each operation is taken as one step.

  The section on requests composes the operations the way \<open>pool/mod.rs\<close> calls them, with the pending
  tokens the pool has handed out as capabilities.
\<close>

section \<open>Waiter interest\<close>

type_synonym MissSlot = u32

definition MissSlot_new :: "nat \<Rightarrow> MissSlot option" where
  "MissSlot_new index = do { assert (index < 2 ^ 32); Some (of_nat index) }"

record MissInterest =
  mi_generation :: u64
  mi_waiters :: u32

type_synonym MissInterests = "MissInterest list"

text \<open>\<open>allocated\<close>: whether the slots could be allocated.\<close>

definition MissInterests_try_with_capacity :: "bool \<Rightarrow> u32 \<Rightarrow> MissInterests option" where
  "MissInterests_try_with_capacity allocated capacity =
     (if allocated then Some (replicate (unat capacity) \<lparr>mi_generation = 0, mi_waiters = 0\<rparr>) else None)"

datatype InitialInterest = InitialSpeculative | InitialDemand

fun initial_waiters :: "InitialInterest \<Rightarrow> u32" where
  "initial_waiters InitialSpeculative = 0"
| "initial_waiters InitialDemand = 1"

definition begin_initial :: "MissInterests \<Rightarrow> MissSlot \<Rightarrow> InitialInterest \<Rightarrow> (u64 \<times> MissInterests) option" where
  "begin_initial I k initial = do {
     interest \<leftarrow> nth_opt I (unat k);
     assert (mi_waiters interest = 0);
     let previous = mi_generation interest;
     gen \<leftarrow> checked_add previous 1;
     assert (gen \<noteq> 0);
     I \<leftarrow> upd_opt I (unat k) \<lparr>mi_generation = gen, mi_waiters = initial_waiters initial\<rparr>;
     Some (gen, I)
   }"

definition interest_join :: "MissInterests \<Rightarrow> MissSlot \<Rightarrow> u64 \<Rightarrow> MissInterests option" where
  "interest_join I k gen = do {
     interest \<leftarrow> nth_opt I (unat k);
     assert (mi_generation interest = gen);
     waiters \<leftarrow> checked_add (mi_waiters interest) 1;
     upd_opt I (unat k) (interest\<lparr>mi_waiters := waiters\<rparr>)
   }"

definition interest_release :: "MissInterests \<Rightarrow> MissSlot \<Rightarrow> u64 \<Rightarrow> (u32 \<times> MissInterests) option" where
  "interest_release I k gen = do {
     interest \<leftarrow> nth_opt I (unat k);
     assert (mi_generation interest = gen);
     waiters \<leftarrow> checked_sub (mi_waiters interest) 1;
     I \<leftarrow> upd_opt I (unat k) (interest\<lparr>mi_waiters := waiters\<rparr>);
     Some (mi_waiters interest - 1, I)
   }"

definition interest_waiters :: "MissInterests \<Rightarrow> MissSlot \<Rightarrow> u64 \<Rightarrow> u32 option option" where
  "interest_waiters I k gen = do {
     interest \<leftarrow> nth_opt I (unat k);
     Some (if mi_generation interest \<noteq> gen then None else Some (mi_waiters interest))
   }"

section \<open>The table\<close>

datatype MissOutcome = MissPending | MissFailed int | MissSucceeded

record MissEntry =
  me_page :: PageId
  me_frame :: ReadFrameIdx
  me_token :: OpToken
  me_generation :: u64
  me_filled :: u32
  me_pending_position :: u32
  me_outcome :: MissOutcome

definition miss_file_slot :: "MissEntry \<Rightarrow> u32" where
  "miss_file_slot e = slot (page_file (me_page e))"

record PendingMiss =
  pm_page :: PageId
  pm_token :: OpToken
  pm_slot :: MissSlot

record MissTable =
  mt_slots :: "MissEntry FileSlots"
  mt_success_frames :: "(MissSlot \<times> u64) option list"
  mt_pending :: "PendingMiss option list"
  mt_pending_len :: u32

definition MissTable_try_with_capacity :: "bool \<Rightarrow> u32 \<Rightarrow> u32 \<Rightarrow> u32 \<Rightarrow> MissTable option option" where
  "MissTable_try_with_capacity allocated capacity pending_capacity file_capacity = do {
     assert (pending_capacity \<le> capacity);
     slots \<leftarrow> FileSlots_try_new allocated capacity file_capacity;
     Some (case slots of
         None \<Rightarrow> None
       | Some slots \<Rightarrow> Some \<lparr>mt_slots = slots, mt_success_frames = replicate (unat capacity) None,
           mt_pending = replicate (unat pending_capacity) None, mt_pending_len = 0\<rparr>)
   }"

definition miss_get :: "MissTable \<Rightarrow> nat \<Rightarrow> MissEntry option option" where
  "miss_get t index = do { s \<leftarrow> nth_opt (fl_slots (mt_slots t)) index; FileSlot_get s }"

text \<open>\<open>get_mut\<close> and a write through it: the value of an occupied slot is replaced in place.\<close>

definition miss_put :: "MissTable \<Rightarrow> nat \<Rightarrow> MissEntry \<Rightarrow> MissTable option" where
  "miss_put t index e = do {
     s \<leftarrow> nth_opt (fl_slots (mt_slots t)) index;
     assert (\<not> FileSlot_is_none s);
     Some (t\<lparr>mt_slots := (mt_slots t)\<lparr>fl_slots := (fl_slots (mt_slots t))[index := s\<lparr>fs_value := Some e\<rparr>]\<rparr>\<rparr>)
   }"

definition miss_entry :: "MissTable \<Rightarrow> nat \<Rightarrow> MissEntry option" where
  "miss_entry t index = do { e \<leftarrow> miss_get t index; e }"

definition pending_live :: "MissTable \<Rightarrow> PendingMiss list option" where
  "pending_live t = do {
     assert (unat (mt_pending_len t) \<le> length (mt_pending t));
     Some (List.map_filter id (take (unat (mt_pending_len t)) (mt_pending t)))
   }"

definition find_pending :: "MissTable \<Rightarrow> PageId \<Rightarrow> nat option option" where
  "find_pending t page = do {
     live \<leftarrow> pending_live t;
     Some (map_option (\<lambda>p. unat (pm_slot p)) (find (\<lambda>p. pm_page p = page) live))
   }"

definition find_by_token :: "MissTable \<Rightarrow> OpToken \<Rightarrow> nat option option" where
  "find_by_token t token = do {
     live \<leftarrow> pending_live t;
     Some (map_option (\<lambda>p. unat (pm_slot p)) (find (\<lambda>p. pm_token p = token) live))
   }"

definition pending_position :: "MissTable \<Rightarrow> MissSlot \<Rightarrow> nat option" where
  "pending_position t k = do {
     entry \<leftarrow> miss_entry t (unat k);
     let position = unat (me_pending_position entry);
     pending \<leftarrow> nth_opt (mt_pending t) position;
     p \<leftarrow> pending;
     assert (pm_slot p = k);
     Some position
   }"

definition pending_push :: "MissTable \<Rightarrow> PendingMiss \<Rightarrow> MissTable option" where
  "pending_push t p = do {
     let index = unat (mt_pending_len t);
     assert (index < length (mt_pending t));
     assert (mt_pending t ! index = None);
     Some (t\<lparr>mt_pending := (mt_pending t)[index := Some p], mt_pending_len := mt_pending_len t + 1\<rparr>)
   }"

definition pending_remove :: "MissTable \<Rightarrow> MissSlot \<Rightarrow> MissTable option" where
  "pending_remove t k = do {
     index \<leftarrow> pending_position t k;
     assert (mt_pending_len t > 0);
     let last = unat (mt_pending_len t) - 1;
     moved \<leftarrow> nth_opt (mt_pending t) last;
     let t = t\<lparr>mt_pending := (mt_pending t)[last := None]\<rparr>;
     t \<leftarrow> (if index < last then do {
         let t = t\<lparr>mt_pending := (mt_pending t)[index := moved]\<rparr>;
         p \<leftarrow> moved;
         e \<leftarrow> miss_entry t (unat (pm_slot p));
         assert (index < 2 ^ 32);
         miss_put t (unat (pm_slot p)) (e\<lparr>me_pending_position := of_nat index\<rparr>)
       } else Some t);
     let t = t\<lparr>mt_pending_len := mt_pending_len t - 1\<rparr>;
     assert (mt_pending t ! last = None);
     Some t
   }"

text \<open>A slot admission may take: empty, or terminal with no waiter.\<close>

definition miss_reusable :: "MissTable \<Rightarrow> MissInterests \<Rightarrow> nat \<Rightarrow> bool option" where
  "miss_reusable t I index = do {
     entry \<leftarrow> miss_get t index;
     case entry of
       None \<Rightarrow> Some True
     | Some e \<Rightarrow>
         if me_outcome e \<noteq> MissPending then do {
           k \<leftarrow> MissSlot_new index;
           w \<leftarrow> interest_waiters I k (me_generation e);
           Some (w = Some 0)
         }
         else Some False
   }"

fun admission_loop :: "MissTable \<Rightarrow> MissInterests \<Rightarrow> nat list \<Rightarrow> MissSlot option option" where
  "admission_loop t I [] = Some None"
| "admission_loop t I (index # rest) = do {
     reusable \<leftarrow> miss_reusable t I index;
     if reusable then map_option Some (MissSlot_new index) else admission_loop t I rest
   }"

definition admission_slot :: "MissTable \<Rightarrow> MissInterests \<Rightarrow> MissSlot option option" where
  "admission_slot t I = admission_loop t I [0..<length (fl_slots (mt_slots t))]"

fun admission_slots_loop ::
  "MissTable \<Rightarrow> MissInterests \<Rightarrow> nat list \<Rightarrow> MissSlot option list \<Rightarrow> nat \<Rightarrow> (bool \<times> MissSlot option list) option" where
  "admission_slots_loop t I [] slots taken = Some (False, slots)"
| "admission_slots_loop t I (index # rest) slots taken = do {
     reusable \<leftarrow> miss_reusable t I index;
     if reusable then do {
       k \<leftarrow> MissSlot_new index;
       slots \<leftarrow> upd_opt slots taken (Some k);
       if Suc taken = length slots then Some (True, slots)
       else admission_slots_loop t I rest slots (Suc taken)
     }
     else admission_slots_loop t I rest slots taken
   }"

definition admission_slots ::
  "MissTable \<Rightarrow> MissInterests \<Rightarrow> MissSlot option list \<Rightarrow> (bool \<times> MissSlot option list) option" where
  "admission_slots t I slots = do {
     assert (slots \<noteq> []);
     assert (list_all (\<lambda>s. s = None) slots);
     admission_slots_loop t I [0..<length (fl_slots (mt_slots t))] slots 0
   }"

definition clean_terminal_zero :: "MissTable \<Rightarrow> MissSlot \<Rightarrow> u64 \<Rightarrow> MissInterests \<Rightarrow> MissTable option" where
  "clean_terminal_zero t k gen I = do {
     entry \<leftarrow> miss_get t (unat k);
     case entry of
       None \<Rightarrow> Some t
     | Some e \<Rightarrow> do {
         zero \<leftarrow> (if me_generation e = gen \<and> me_outcome e \<noteq> MissPending
                 then do { w \<leftarrow> interest_waiters I k gen; Some (w = Some 0) }
                 else Some False);
         if zero then do {
           t \<leftarrow> (if me_outcome e = MissSucceeded then do {
               protected \<leftarrow> nth_opt (mt_success_frames t) (unat (me_frame e));
               assert (protected = Some (k, gen));
               Some (t\<lparr>mt_success_frames := (mt_success_frames t)[unat (me_frame e) := None]\<rparr>)
             } else Some t);
           slots \<leftarrow> FileSlots_remove miss_file_slot (mt_slots t) (unat k);
           Some (t\<lparr>mt_slots := slots\<rparr>)
         }
         else Some t
       }
   }"

definition admit_initial ::
  "MissTable \<Rightarrow> MissSlot \<Rightarrow> PageId \<Rightarrow> ReadFrameIdx \<Rightarrow> OpToken \<Rightarrow> MissInterests \<Rightarrow> InitialInterest \<Rightarrow>
   (u64 \<times> MissTable \<times> MissInterests) option" where
  "admit_initial t k page frame token I initial = do {
     previous \<leftarrow> miss_get t (unat k);
     t \<leftarrow> (case previous of
         None \<Rightarrow> Some t
       | Some e \<Rightarrow> clean_terminal_zero t k (me_generation e) I);
     s \<leftarrow> nth_opt (fl_slots (mt_slots t)) (unat k);
     assert (FileSlot_is_none s);
     (gen, I) \<leftarrow> begin_initial I k initial;
     let entry = \<lparr>me_page = page, me_frame = frame, me_token = token, me_generation = gen, me_filled = 0,
       me_pending_position = mt_pending_len t, me_outcome = MissPending\<rparr>;
     slots \<leftarrow> FileSlots_insert miss_file_slot (mt_slots t) (unat k) entry;
     t \<leftarrow> pending_push (t\<lparr>mt_slots := slots\<rparr>) \<lparr>pm_page = page, pm_token = token, pm_slot = k\<rparr>;
     Some (gen, t, I)
   }"

definition miss_join :: "MissTable \<Rightarrow> nat \<Rightarrow> MissInterests \<Rightarrow> ((MissSlot \<times> u64) \<times> MissInterests) option" where
  "miss_join t index I = do {
     entry \<leftarrow> miss_entry t index;
     assert (me_outcome entry = MissPending);
     k \<leftarrow> MissSlot_new index;
     I \<leftarrow> interest_join I k (me_generation entry);
     Some ((k, me_generation entry), I)
   }"

definition advance_remainder :: "MissTable \<Rightarrow> nat \<Rightarrow> u32 \<Rightarrow> OpToken \<Rightarrow> MissTable option" where
  "advance_remainder t index filled token = do {
     entry \<leftarrow> miss_entry t index;
     assert (me_outcome entry = MissPending);
     t \<leftarrow> miss_put t index (entry\<lparr>me_filled := filled, me_token := token\<rparr>);
     k \<leftarrow> MissSlot_new index;
     position \<leftarrow> pending_position t k;
     pending \<leftarrow> nth_opt (mt_pending t) position;
     p \<leftarrow> pending;
     Some (t\<lparr>mt_pending := (mt_pending t)[position := Some (p\<lparr>pm_token := token\<rparr>)]\<rparr>)
   }"

definition miss_fail :: "MissTable \<Rightarrow> nat \<Rightarrow> int \<Rightarrow> MissTable option" where
  "miss_fail t index errno = do {
     entry \<leftarrow> miss_entry t index;
     assert (errno \<noteq> 0);
     assert (me_outcome entry = MissPending);
     t \<leftarrow> miss_put t index (entry\<lparr>me_outcome := MissFailed errno\<rparr>);
     k \<leftarrow> MissSlot_new index;
     pending_remove t k
   }"

definition miss_succeed :: "MissTable \<Rightarrow> nat \<Rightarrow> MissTable option" where
  "miss_succeed t index = do {
     entry \<leftarrow> miss_entry t index;
     assert (me_outcome entry = MissPending);
     let entry = entry\<lparr>me_outcome := MissSucceeded\<rparr>;
     t \<leftarrow> miss_put t index entry;
     k \<leftarrow> MissSlot_new index;
     t \<leftarrow> pending_remove t k;
     let frame_index = unat (me_frame entry);
     protected \<leftarrow> nth_opt (mt_success_frames t) frame_index;
     assert (protected = None);
     Some (t\<lparr>mt_success_frames := (mt_success_frames t)[frame_index := Some (k, me_generation entry)]\<rparr>)
   }"

definition miss_validate :: "MissTable \<Rightarrow> MissSlot \<Rightarrow> u64 \<Rightarrow> PageId \<Rightarrow> MissEntry option" where
  "miss_validate t k gen page = do {
     entry \<leftarrow> miss_entry t (unat k);
     assert (me_generation entry = gen);
     assert (me_page entry = page);
     Some entry
   }"

definition prepare_eviction :: "MissTable \<Rightarrow> ReadFrameIdx \<Rightarrow> MissInterests \<Rightarrow> (bool \<times> MissTable) option" where
  "prepare_eviction t frame I = do {
     protected \<leftarrow> nth_opt (mt_success_frames t) (unat frame);
     case protected of
       None \<Rightarrow> Some (True, t)
     | Some (k, gen) \<Rightarrow> do {
         w \<leftarrow> interest_waiters I k gen;
         if w \<noteq> Some 0 then Some (False, t)
         else do {
           t \<leftarrow> clean_terminal_zero t k gen I;
           protected \<leftarrow> nth_opt (mt_success_frames t) (unat frame);
           assert (protected = None);
           Some (True, t)
         }
       }
   }"

fun any_live :: "MissInterests \<Rightarrow> FileId \<Rightarrow> (nat \<times> MissEntry) list \<Rightarrow> bool option" where
  "any_live I f [] = Some False"
| "any_live I f ((index, e) # rest) =
     (if page_file (me_page e) = f then
        if me_outcome e = MissPending then Some True
        else do {
          k \<leftarrow> MissSlot_new index;
          w \<leftarrow> interest_waiters I k (me_generation e);
          if w \<noteq> Some 0 then Some True else any_live I f rest
        }
      else any_live I f rest)"

definition has_live_for_file :: "MissTable \<Rightarrow> FileId \<Rightarrow> MissInterests \<Rightarrow> bool option" where
  "has_live_for_file t f I = do {
     members \<leftarrow> for_file miss_file_slot (mt_slots t) f;
     any_live I f members
   }"

section \<open>Requests\<close>

text \<open>A terminal completion records its outcome and drops the record if nobody waits.\<close>

definition finish_success :: "MissTable \<Rightarrow> MissInterests \<Rightarrow> nat \<Rightarrow> u64 \<Rightarrow> MissTable option" where
  "finish_success t I index gen = do {
     t \<leftarrow> miss_succeed t index;
     k \<leftarrow> MissSlot_new index;
     clean_terminal_zero t k gen I
   }"

definition finish_failure :: "MissTable \<Rightarrow> MissInterests \<Rightarrow> nat \<Rightarrow> u64 \<Rightarrow> int \<Rightarrow> MissTable option" where
  "finish_failure t I index gen errno = do {
     t \<leftarrow> miss_fail t index errno;
     k \<leftarrow> MissSlot_new index;
     clean_terminal_zero t k gen I
   }"

text \<open>\<open>PendingToken\<close>, without its shared references.\<close>

record PendingToken =
  pt_page :: PageId
  pt_slot :: MissSlot
  pt_generation :: u64

text \<open>The terminal branches of \<open>Pool::ready\<close>.\<close>

definition ready_terminal :: "MissTable \<Rightarrow> MissInterests \<Rightarrow> PendingToken \<Rightarrow> (MissTable \<times> MissInterests) option" where
  "ready_terminal t I c = do {
     (remaining, I) \<leftarrow> interest_release I (pt_slot c) (pt_generation c);
     t \<leftarrow> clean_terminal_zero t (pt_slot c) (pt_generation c) I;
     Some (t, I)
   }"

record miss_sys =
  ms_table :: MissTable
  ms_interests :: MissInterests
  ms_tokens :: "PendingToken multiset"

abbreviation miss_at :: "MissTable \<Rightarrow> nat \<rightharpoonup> MissEntry" where
  "miss_at t \<equiv> slots_abs (mt_slots t)"

text \<open>A frame taken from the free list belongs to no record.\<close>

definition frame_unused :: "MissTable \<Rightarrow> ReadFrameIdx \<Rightarrow> bool" where
  "frame_unused t frame \<longleftrightarrow> unat frame < length (mt_success_frames t) \<and> mt_success_frames t ! unat frame = None
     \<and> (\<forall>i e. miss_at t i = Some e \<longrightarrow> me_outcome e = MissPending \<longrightarrow> me_frame e \<noteq> frame)"

inductive miss_step :: "miss_sys \<Rightarrow> miss_sys \<Rightarrow> bool" where
  k_admit: "find_pending (ms_table s) page = Some None \<Longrightarrow>
    unat (mt_pending_len (ms_table s)) < length (mt_pending (ms_table s)) \<Longrightarrow>
    admission_slot (ms_table s) (ms_interests s) = Some (Some k) \<Longrightarrow> frame_unused (ms_table s) frame \<Longrightarrow>
    find_by_token (ms_table s) token = Some None \<Longrightarrow>
    unat (slot (page_file page)) < length (fl_heads (mt_slots (ms_table s))) \<Longrightarrow>
    admit_initial (ms_table s) k page frame token (ms_interests s) initial = Some (g, t, I) \<Longrightarrow>
    miss_step s \<lparr>ms_table = t, ms_interests = I, ms_tokens = (if initial = InitialDemand
      then add_mset \<lparr>pt_page = page, pt_slot = k, pt_generation = g\<rparr> (ms_tokens s) else ms_tokens s)\<rparr>"
| k_join: "find_pending (ms_table s) page = Some (Some index) \<Longrightarrow>
    miss_join (ms_table s) index (ms_interests s) = Some ((k, g), I) \<Longrightarrow>
    miss_step s (s\<lparr>ms_interests := I, ms_tokens := add_mset \<lparr>pt_page = page, pt_slot = k, pt_generation = g\<rparr> (ms_tokens s)\<rparr>)"
| k_remainder: "find_by_token (ms_table s) token = Some (Some index) \<Longrightarrow>
    find_by_token (ms_table s) token' = Some None \<Longrightarrow>
    advance_remainder (ms_table s) index filled token' = Some t \<Longrightarrow> miss_step s (s\<lparr>ms_table := t\<rparr>)"
| k_success: "find_by_token (ms_table s) token = Some (Some index) \<Longrightarrow> miss_entry (ms_table s) index = Some e \<Longrightarrow>
    finish_success (ms_table s) (ms_interests s) index (me_generation e) = Some t \<Longrightarrow> miss_step s (s\<lparr>ms_table := t\<rparr>)"
| k_failure: "find_by_token (ms_table s) token = Some (Some index) \<Longrightarrow> miss_entry (ms_table s) index = Some e \<Longrightarrow>
    errno \<noteq> 0 \<Longrightarrow> finish_failure (ms_table s) (ms_interests s) index (me_generation e) errno = Some t \<Longrightarrow>
    miss_step s (s\<lparr>ms_table := t\<rparr>)"
| k_ready: "c \<in># ms_tokens s \<Longrightarrow> miss_validate (ms_table s) (pt_slot c) (pt_generation c) (pt_page c) = Some e \<Longrightarrow>
    me_outcome e \<noteq> MissPending \<Longrightarrow> ready_terminal (ms_table s) (ms_interests s) c = Some (t, I) \<Longrightarrow>
    miss_step s \<lparr>ms_table = t, ms_interests = I, ms_tokens = ms_tokens s - {#c#}\<rparr>"
| k_drop: "c \<in># ms_tokens s \<Longrightarrow> interest_release (ms_interests s) (pt_slot c) (pt_generation c) = Some (remaining, I) \<Longrightarrow>
    miss_step s (s\<lparr>ms_interests := I, ms_tokens := ms_tokens s - {#c#}\<rparr>)"
| k_evict: "prepare_eviction (ms_table s) frame (ms_interests s) = Some (b, t) \<Longrightarrow> miss_step s (s\<lparr>ms_table := t\<rparr>)"

definition miss_start :: "miss_sys \<Rightarrow> bool" where
  "miss_start s \<longleftrightarrow> (\<exists>capacity pending_capacity file_capacity.
     MissTable_try_with_capacity True capacity pending_capacity file_capacity = Some (Some (ms_table s))
     \<and> MissInterests_try_with_capacity True capacity = Some (ms_interests s)) \<and> ms_tokens s = {#}"

section \<open>Records\<close>

definition table_ok :: "MissTable \<Rightarrow> nat \<Rightarrow> bool" where
  "table_ok t n \<longleftrightarrow> file_slots_inv miss_file_slot (mt_slots t) \<and> length (fl_slots (mt_slots t)) = n
     \<and> length (mt_success_frames t) = n \<and> length (mt_pending t) \<le> n \<and> n < 2 ^ 32"

lemma file_slots_get:
  assumes "file_slots_inv own s" "i < length (fl_slots s)"
  shows "FileSlot_get (fl_slots s ! i) = Some (slots_abs s i)" "FileSlot_is_none (fl_slots s ! i) \<longleftrightarrow> slots_abs s i = None"
proof -
  obtain L where rep: "represents own s L"
    using assms(1) by (auto simp: file_slots_inv_def slots_inv_def)
  have "\<exists>v. vals s i = Some v" "SlotLink_index (nexts s i) \<noteq> None" if nz: "nexts s i \<noteq> 0"
  proof -
    obtain k where "k < length (fl_heads s)" "i \<in> set (L k)"
      using rep assms(2) nz unfolding represents_def by blast
    then show "\<exists>v. vals s i = Some v"
      using represents_owner(3) [OF rep] by blast
    have "1 \<le> nexts s i"
      using nz by (simp add: word_le_nat_alt unat_gt_0 Suc_leI)
    then show "SlotLink_index (nexts s i) \<noteq> None"
      by (simp add: SlotLink_index_def checked_sub_def)
  qed
  then show "FileSlot_get (fl_slots s ! i) = Some (slots_abs s i)" "FileSlot_is_none (fl_slots s ! i) \<longleftrightarrow> slots_abs s i = None"
    using assms(2) by (cases "nexts s i = 0"; force simp: FileSlot_get_def FileSlot_is_none_def slots_abs_def)+
qed

lemma file_slots_put:
  assumes "file_slots_inv own s" "slots_abs s i = Some v" "own v' = own v"
  shows "file_slots_inv own (s\<lparr>fl_slots := (fl_slots s)[i := (fl_slots s ! i)\<lparr>fs_value := Some v'\<rparr>]\<rparr>)"
    "slots_abs (s\<lparr>fl_slots := (fl_slots s)[i := (fl_slots s ! i)\<lparr>fs_value := Some v'\<rparr>]\<rparr>) = (slots_abs s)(i \<mapsto> v')"
proof -
  define s' where "s' = s\<lparr>fl_slots := (fl_slots s)[i := (fl_slots s ! i)\<lparr>fs_value := Some v'\<rparr>]\<rparr>"
  obtain L where rep: "represents own s L"
    using assms(1) by (auto simp: file_slots_inv_def slots_inv_def)
  have i: "i < length (fl_slots s)" "nexts s i \<noteq> 0" "vals s i = Some v"
    using assms(2) by (auto simp: slots_abs_def split: if_splits)
  have keep: "prevs s' = prevs s" "nexts s' = nexts s" "vals s' = (vals s)(i \<mapsto> v')"
    "length (fl_slots s') = length (fl_slots s)" "fl_heads s' = fl_heads s"
    using i(1) by (auto simp: s'_def fun_eq_iff nth_list_update)
  have "owned_list own s' k (L k)" if k: "k < length (fl_heads s)" for k
  proof -
    have old: "owned_list own s k (L k)"
      using rep k by (simp add: represents_def)
    then have "\<exists>u. vals s' x = Some u \<and> unat (own u) = k" if "x \<in> set (L k)" for x
      using that i(3) assms(3) unfolding owned_list_def by (cases "x = i") (force simp: fun_cong [OF keep(3)])+
    then show ?thesis
      using old unfolding owned_list_def keep(1, 2, 4, 5) by blast
  qed
  then have "represents own s' L"
    using rep unfolding represents_def by (simp add: keep fun_cong [OF keep(2)])
  then show "file_slots_inv own (s\<lparr>fl_slots := (fl_slots s)[i := (fl_slots s ! i)\<lparr>fs_value := Some v'\<rparr>]\<rparr>)"
    using assms(1) unfolding s'_def [symmetric] by (auto simp: file_slots_inv_def slots_inv_def keep)
  show "slots_abs (s\<lparr>fl_slots := (fl_slots s)[i := (fl_slots s ! i)\<lparr>fs_value := Some v'\<rparr>]\<rparr>) = (slots_abs s)(i \<mapsto> v')"
    using i unfolding s'_def [symmetric] by (auto simp: fun_eq_iff slots_abs_def keep fun_cong [OF keep(2)] fun_cong [OF keep(3)])
qed

lemma miss_at_less: "table_ok t n \<Longrightarrow> miss_at t i = Some e \<Longrightarrow> i < n"
  by (auto simp: table_ok_def slots_abs_def split: if_splits)

lemma miss_get_at: "table_ok t n \<Longrightarrow> i < n \<Longrightarrow> miss_get t i = Some (miss_at t i)"
  using file_slots_get(1) [of miss_file_slot "mt_slots t" i] by (simp add: table_ok_def miss_get_def)

lemma miss_entry_at: "table_ok t n \<Longrightarrow> miss_at t i = Some e \<Longrightarrow> miss_entry t i = Some e"
  using miss_get_at [OF _ miss_at_less] by (simp add: miss_entry_def)

lemma miss_entry_SomeD: "table_ok t n \<Longrightarrow> miss_entry t i = Some e \<Longrightarrow> miss_at t i = Some e"
  using miss_get_at [of t n i] by (cases "i < n") (auto simp: miss_entry_def miss_get_def table_ok_def nth_opt_def)

lemma MissSlot_new_below: "i < n \<Longrightarrow> n < 2 ^ 32 \<Longrightarrow> MissSlot_new i = Some (of_nat i) \<and> unat (of_nat i :: u32) = i"
  by (simp add: MissSlot_new_def unsigned_of_nat take_bit_nat_eq_self)

lemma miss_put_at:
  assumes "table_ok t n" "miss_at t i = Some e" "me_page e' = me_page e"
  obtains slots where "miss_put t i e' = Some (t\<lparr>mt_slots := slots\<rparr>)" "table_ok (t\<lparr>mt_slots := slots\<rparr>) n"
    "slots_abs slots = (miss_at t)(i \<mapsto> e')" "length (fl_heads slots) = length (fl_heads (mt_slots t))"
proof -
  have inv: "file_slots_inv miss_file_slot (mt_slots t)"
    using assms(1) by (simp add: table_ok_def)
  have "\<not> FileSlot_is_none (fl_slots (mt_slots t) ! i)" "i < length (fl_slots (mt_slots t))"
    using file_slots_get(2) [OF inv] assms(2) miss_at_less [OF assms(1, 2)] assms(1) by (auto simp: table_ok_def)
  then show thesis
    using that file_slots_put [OF inv assms(2), of e'] assms(1, 3)
    by (simp add: miss_put_def table_ok_def miss_file_slot_def)
qed

section \<open>The pending index\<close>

text \<open>The pending prefix and the pending records name each other.\<close>

definition pending_of :: "(nat \<rightharpoonup> MissEntry) \<Rightarrow> nat \<Rightarrow> PendingMiss \<Rightarrow> bool" where
  "pending_of m j p \<longleftrightarrow> (\<exists>e. m (unat (pm_slot p)) = Some e \<and> me_outcome e = MissPending
     \<and> unat (me_pending_position e) = j \<and> pm_page p = me_page e \<and> pm_token p = me_token e)"

definition index_ok :: "(nat \<rightharpoonup> MissEntry) \<Rightarrow> PendingMiss option list \<Rightarrow> nat \<Rightarrow> bool" where
  "index_ok m P len \<longleftrightarrow> len \<le> length P \<and> (\<forall>j < len. \<exists>p. P ! j = Some p \<and> pending_of m j p)
     \<and> (\<forall>j < length P. len \<le> j \<longrightarrow> P ! j = None)
     \<and> (\<forall>i e. m i = Some e \<longrightarrow> me_outcome e = MissPending \<longrightarrow> unat (me_pending_position e) < len
          \<and> (\<exists>p. P ! unat (me_pending_position e) = Some p \<and> unat (pm_slot p) = i))"

lemma index_ok_dests:
  assumes "index_ok m P len"
  shows "len \<le> length P"
    "j < len \<Longrightarrow> \<exists>p. P ! j = Some p \<and> pending_of m j p"
    "len \<le> j \<Longrightarrow> j < length P \<Longrightarrow> P ! j = None"
    "m i = Some e \<Longrightarrow> me_outcome e = MissPending \<Longrightarrow> unat (me_pending_position e) < len"
    "m i = Some e \<Longrightarrow> me_outcome e = MissPending \<Longrightarrow> \<exists>p. P ! unat (me_pending_position e) = Some p \<and> unat (pm_slot p) = i"
  using assms by (simp_all add: index_ok_def)

lemma index_okD:
  assumes "index_ok m P len" "m i = Some e" "me_outcome e = MissPending"
  obtains p where "unat (me_pending_position e) < len" "P ! unat (me_pending_position e) = Some p" "unat (pm_slot p) = i"
    "pm_page p = me_page e" "pm_token p = me_token e"
proof -
  note d = index_ok_dests [OF assms(1)]
  obtain p where p: "P ! unat (me_pending_position e) = Some p" "unat (pm_slot p) = i"
    using d(5) [OF assms(2, 3)] by blast
  moreover have "pending_of m (unat (me_pending_position e)) p"
    using d(2) [OF d(4) [OF assms(2, 3)]] p(1) by auto
  ultimately show thesis
    using that d(4) [OF assms(2, 3)] assms(2) by (auto simp: pending_of_def)
qed

lemma index_push:
  assumes "index_ok m P len" "len < length P" "m i = None" "unat (pm_slot p) = i"
    "me_outcome e = MissPending" "unat (me_pending_position e) = len" "pm_page p = me_page e" "pm_token p = me_token e"
  shows "index_ok (m(i \<mapsto> e)) (P[len := Some p]) (Suc len)"
proof -
  have keep: "pending_of (m(i \<mapsto> e)) j q" if "pending_of m j q" for j q
    using that assms(3) by (auto simp: pending_of_def)
  have new: "pending_of (m(i \<mapsto> e)) len p"
    using assms(4-8) by (simp add: pending_of_def)
  show ?thesis
    unfolding index_ok_def
  proof (intro conjI allI impI)
    show "\<exists>q. P[len := Some p] ! j = Some q \<and> pending_of (m(i \<mapsto> e)) j q" if "j < Suc len" for j
      using index_ok_dests(2) [OF assms(1), of j] assms(2) keep new that by (cases "j = len") (auto simp: less_Suc_eq)
    show "P[len := Some p] ! j = None" if "j < length (P[len := Some p])" "Suc len \<le> j" for j
      using assms(1) that by (simp add: index_ok_def)
    show "unat (me_pending_position h) < Suc len"
      "\<exists>q. P[len := Some p] ! unat (me_pending_position h) = Some q \<and> unat (pm_slot q) = k"
      if h: "(m(i \<mapsto> e)) k = Some h" "me_outcome h = MissPending" for k h
    proof -
      have "unat (me_pending_position h) < len \<and> (\<exists>q. P ! unat (me_pending_position h) = Some q \<and> unat (pm_slot q) = k)"
        if "k \<noteq> i"
        using assms(1) h that by (auto simp: index_ok_def)
      then show "unat (me_pending_position h) < Suc len"
        "\<exists>q. P[len := Some p] ! unat (me_pending_position h) = Some q \<and> unat (pm_slot q) = k"
        using h assms(2, 4, 6) by (cases "k = i"; auto)+
    qed
  qed (use assms(2) in simp)
qed

text \<open>A record leaves the index; the last entry takes its place.\<close>

lemma index_remove:
  assumes ok: "index_ok m P len" and e: "m i = Some e" "me_outcome e = MissPending" "me_outcome e' \<noteq> MissPending"
    and j: "j = unat (me_pending_position e)"
  shows "\<not> j < len - 1 \<Longrightarrow> index_ok (m(i \<mapsto> e')) (P[len - 1 := None]) (len - 1)"
    "j < len - 1 \<Longrightarrow> P ! (len - 1) = Some q \<Longrightarrow> m (unat (pm_slot q)) = Some f \<Longrightarrow> unat pos = j \<Longrightarrow>
      index_ok (m(i \<mapsto> e', unat (pm_slot q) \<mapsto> f\<lparr>me_pending_position := pos\<rparr>)) (P[len - 1 := None, j := Some q]) (len - 1)"
proof -
  obtain p where p: "j < len" "P ! j = Some p" "unat (pm_slot p) = i"
    using index_okD [OF ok e(1, 2)] j by blast
  have len: "len \<le> length P" "0 < len"
    using ok p(1) by (auto simp: index_ok_def)
  have here: "\<exists>q. P ! k = Some q \<and> pending_of m k q" if "k < len" for k
    using ok that by (auto simp: index_ok_def)
  have there: "unat (me_pending_position h) < len \<and> (\<exists>q. P ! unat (me_pending_position h) = Some q \<and> unat (pm_slot q) = k)"
    if "m k = Some h" "me_outcome h = MissPending" for k h
    using ok that by (auto simp: index_ok_def)
  have beyond: "P ! k = None" if "len \<le> k" "k < length P" for k
    using ok that by (auto simp: index_ok_def)
  have other: "unat (pm_slot q) \<noteq> i" if "k < len" "k \<noteq> j" "P ! k = Some q" for k q
    using here [OF that(1)] that e(1) j by (auto simp: pending_of_def)
  {
    assume "\<not> j < len - 1"
    then have last: "j = len - 1"
      using p(1) by simp
    show "index_ok (m(i \<mapsto> e')) (P[len - 1 := None]) (len - 1)"
      unfolding index_ok_def
    proof (intro conjI allI impI)
      show "\<exists>q. P[len - 1 := None] ! k = Some q \<and> pending_of (m(i \<mapsto> e')) k q" if k: "k < len - 1" for k
      proof -
        have "k < len" "k \<noteq> j"
          using k last by simp_all
        then obtain q where "P ! k = Some q" "pending_of m k q" "unat (pm_slot q) \<noteq> i"
          using here other by blast
        then show ?thesis
          using k by (auto simp: pending_of_def)
      qed
      show "P[len - 1 := None] ! k = None" if "k < length (P[len - 1 := None])" "len - 1 \<le> k" for k
        using beyond [of k] that by (cases "k = len - 1") auto
      show "unat (me_pending_position h) < len - 1" "\<exists>q. P[len - 1 := None] ! unat (me_pending_position h) = Some q \<and> unat (pm_slot q) = k"
        if "(m(i \<mapsto> e')) k = Some h" "me_outcome h = MissPending" for k h
      proof -
        have h: "m k = Some h" "k \<noteq> i"
          using that e(3) by (auto split: if_splits)
        have "unat (me_pending_position h) \<noteq> j"
          using there [OF h(1) that(2)] h(2) p(2, 3) by auto
        then show "unat (me_pending_position h) < len - 1" "\<exists>q. P[len - 1 := None] ! unat (me_pending_position h) = Some q \<and> unat (pm_slot q) = k"
          using there [OF h(1) that(2)] last by auto
      qed
    qed (use len in simp)
  }
  assume mid: "j < len - 1" and q: "P ! (len - 1) = Some q" "m (unat (pm_slot q)) = Some f" and pos: "unat pos = j"
  let ?m = "m(i \<mapsto> e', unat (pm_slot q) \<mapsto> f\<lparr>me_pending_position := pos\<rparr>)" and ?P = "P[len - 1 := None, j := Some q]"
  have f: "me_outcome f = MissPending" "unat (me_pending_position f) = len - 1" "pm_page q = me_page f" "pm_token q = me_token f"
    using here [of "len - 1"] q len by (auto simp: pending_of_def)
  have ne: "unat (pm_slot q) \<noteq> i"
    using other [of "len - 1" q] mid q(1) len by simp
  show "index_ok ?m ?P (len - 1)"
    unfolding index_ok_def
  proof (intro conjI allI impI)
    show "\<exists>r. ?P ! k = Some r \<and> pending_of ?m k r" if k: "k < len - 1" for k
    proof (cases "k = j")
      case True
      then show ?thesis
        using f pos p(1) len by (auto simp: pending_of_def)
    next
      case False
      moreover have "k < len"
        using k by simp
      ultimately obtain r where r: "P ! k = Some r" "pending_of m k r" "unat (pm_slot r) \<noteq> i"
        using here other by blast
      then have "unat (pm_slot r) \<noteq> unat (pm_slot q)"
        using q(2) f(2) k by (auto simp: pending_of_def)
      then show ?thesis
        using r False k by (auto simp: pending_of_def)
    qed
    show "?P ! k = None" if "k < length ?P" "len - 1 \<le> k" for k
      using beyond [of k] that mid by (cases "k = len - 1") (auto simp: nth_list_update)
    show "unat (me_pending_position h) < len - 1" "\<exists>r. ?P ! unat (me_pending_position h) = Some r \<and> unat (pm_slot r) = k"
      if h: "?m k = Some h" "me_outcome h = MissPending" for k h
    proof -
      have "unat (me_pending_position h) < len - 1 \<and> (\<exists>r. ?P ! unat (me_pending_position h) = Some r \<and> unat (pm_slot r) = k)"
      proof (cases "k = unat (pm_slot q)")
        case True
        then show ?thesis
          using h pos mid p(1) len by auto
      next
        case False
        then have mk: "m k = Some h" "k \<noteq> i"
          using h e(3) by (auto split: if_splits)
        then obtain r where "unat (me_pending_position h) < len" "P ! unat (me_pending_position h) = Some r" "unat (pm_slot r) = k"
          using there [OF mk(1) h(2)] by auto
        moreover from this have "unat (me_pending_position h) \<noteq> j" "unat (me_pending_position h) \<noteq> len - 1"
          using p(2, 3) mk(2) False q(1) by auto
        ultimately show ?thesis
          by auto
      qed
      then show "unat (me_pending_position h) < len - 1" "\<exists>r. ?P ! unat (me_pending_position h) = Some r \<and> unat (pm_slot r) = k"
        by auto
    qed
  qed (use len in simp)
qed

section \<open>Operations on the records\<close>

text \<open>The records without their place in the index.\<close>

definition strip :: "MissEntry \<Rightarrow> MissEntry" where
  "strip e = e\<lparr>me_pending_position := 0\<rparr>"

definition miss_view :: "MissTable \<Rightarrow> nat \<rightharpoonup> MissEntry" where
  "miss_view t = map_option strip \<circ> miss_at t"

definition miss_inv :: "MissTable \<Rightarrow> nat \<Rightarrow> bool" where
  "miss_inv t n \<longleftrightarrow> table_ok t n \<and> index_ok (miss_at t) (mt_pending t) (unat (mt_pending_len t))"

definition same_shape :: "MissTable \<Rightarrow> MissTable \<Rightarrow> bool" where
  "same_shape t t' \<longleftrightarrow> length (fl_heads (mt_slots t')) = length (fl_heads (mt_slots t))
     \<and> length (mt_pending t') = length (mt_pending t)"

lemma strip_simps [simp]:
  "me_page (strip e) = me_page e" "me_frame (strip e) = me_frame e" "me_token (strip e) = me_token e"
  "me_generation (strip e) = me_generation e" "me_outcome (strip e) = me_outcome e" "me_filled (strip e) = me_filled e"
  "strip (e\<lparr>me_pending_position := p\<rparr>) = strip e"
  by (simp_all add: strip_def)

lemma miss_view_Some: "miss_view t i = Some e \<longleftrightarrow> (\<exists>e'. miss_at t i = Some e' \<and> e = strip e')"
  by (auto simp: miss_view_def)

lemma miss_view_None: "miss_view t i = None \<longleftrightarrow> miss_at t i = None"
  by (simp add: miss_view_def)

lemma pending_position_ok:
  assumes "table_ok t n" "miss_at t (unat k) = Some e" "unat (me_pending_position e) < length (mt_pending t)"
    "mt_pending t ! unat (me_pending_position e) = Some p" "pm_slot p = k"
  shows "pending_position t k = Some (unat (me_pending_position e))"
  using miss_entry_at [OF assms(1, 2)] assms(3-) by (simp add: pending_position_def)

lemma resolve_ok:
  assumes inv: "miss_inv t n" and e: "miss_at t i = Some e" "me_outcome e = MissPending" "out \<noteq> MissPending"
    and k: "unat k = i"
  obtains t' where "do { t \<leftarrow> miss_put t i (e\<lparr>me_outcome := out\<rparr>); pending_remove t k } = Some t'" "miss_inv t' n"
    "miss_view t' = (miss_view t)(i \<mapsto> strip (e\<lparr>me_outcome := out\<rparr>))" "mt_success_frames t' = mt_success_frames t"
    "same_shape t t'"
proof -
  let ?e = "e\<lparr>me_outcome := out\<rparr>" and ?j = "unat (me_pending_position e)" and ?len = "unat (mt_pending_len t)"
  have tab: "table_ok t n" and idx: "index_ok (miss_at t) (mt_pending t) ?len"
    using inv by (simp_all add: miss_inv_def)
  note d = index_ok_dests [OF idx]
  obtain S where S: "miss_put t i ?e = Some (t\<lparr>mt_slots := S\<rparr>)" "table_ok (t\<lparr>mt_slots := S\<rparr>) n"
      "slots_abs S = (miss_at t)(i \<mapsto> ?e)" "length (fl_heads S) = length (fl_heads (mt_slots t))"
    using miss_put_at [OF tab e(1), of ?e] by auto
  obtain p where p: "?j < ?len" "mt_pending t ! ?j = Some p" "unat (pm_slot p) = i"
    using index_okD [OF idx e(1, 2)] by blast
  have pk: "pm_slot p = k"
    using p(3) k by (simp add: word_unat_eq_iff)
  have pos: "pending_position (t\<lparr>mt_slots := S\<rparr>) k = Some ?j"
    using pending_position_ok [OF S(2), of k ?e p] S(3) k p pk d(1) by simp
  have len: "0 < ?len" "?len \<le> length (mt_pending t)"
    using p(1) d(1) by simp_all
  have pred: "unat (mt_pending_len t - 1) = ?len - 1"
    using unat_sub_le [of 1 "mt_pending_len t"] len(1) by (simp add: word_le_nat_alt)
  have out: "me_outcome ?e \<noteq> MissPending"
    using e(3) by simp
  note rem = index_remove [OF idx e(1, 2) out refl]
  show thesis
  proof (cases "?j < ?len - 1")
    case False
    let ?t = "t\<lparr>mt_slots := S, mt_pending := (mt_pending t)[?len - 1 := None], mt_pending_len := mt_pending_len t - 1\<rparr>"
    have "pending_remove (t\<lparr>mt_slots := S\<rparr>) k = Some ?t"
      using pos len False by (simp add: pending_remove_def Let_def word_less_nat_alt)
    moreover have "miss_inv ?t n"
      using S(2, 3) rem(1) False pred by (simp add: miss_inv_def table_ok_def)
    ultimately show thesis
      using that [of ?t] S by (simp add: miss_view_def same_shape_def fun_eq_iff)
  next
    case True
    obtain q where q: "mt_pending t ! (?len - 1) = Some q" "pending_of (miss_at t) (?len - 1) q"
      using d(2) [of "?len - 1"] len by auto
    then obtain f where f: "miss_at t (unat (pm_slot q)) = Some f" "unat (me_pending_position f) = ?len - 1"
      by (auto simp: pending_of_def)
    have ne: "unat (pm_slot q) \<noteq> i"
      using f e(1) True by auto
    have bound: "?j < 2 ^ 32"
      using unsigned_less [of "me_pending_position e", where 'a = nat] by simp
    let ?u = "t\<lparr>mt_slots := S, mt_pending := (mt_pending t)[?len - 1 := None, ?j := Some q]\<rparr>"
    have "table_ok ?u n"
      using S(2) by (simp add: table_ok_def)
    then obtain S' where S': "miss_put ?u (unat (pm_slot q)) (f\<lparr>me_pending_position := of_nat ?j\<rparr>) = Some (?u\<lparr>mt_slots := S'\<rparr>)"
        "table_ok (?u\<lparr>mt_slots := S'\<rparr>) n"
        "slots_abs S' = (miss_at ?u)(unat (pm_slot q) \<mapsto> f\<lparr>me_pending_position := of_nat ?j\<rparr>)"
        "length (fl_heads S') = length (fl_heads S)"
      using miss_put_at [of ?u n "unat (pm_slot q)" f "f\<lparr>me_pending_position := of_nat ?j\<rparr>"] S(3) f ne by auto
    have entry: "miss_entry ?u (unat (pm_slot q)) = Some f"
      using miss_entry_at [OF \<open>table_ok ?u n\<close>] S(3) f ne by simp
    let ?t = "?u\<lparr>mt_slots := S', mt_pending_len := mt_pending_len t - 1\<rparr>"
    have "pending_remove (t\<lparr>mt_slots := S\<rparr>) k = Some ?t"
      using pos len True q(1) S'(1) entry bound by (simp add: pending_remove_def Let_def word_less_nat_alt)
    moreover have "miss_inv ?t n"
      using S' S(3) rem(2) [OF True q(1) f(1), of "of_nat ?j"] pred bound by (simp add: miss_inv_def table_ok_def)
    ultimately show thesis
      using that [of ?t] S S' f ne by (simp add: miss_view_def same_shape_def fun_eq_iff)
  qed
qed

lemma miss_fail_ok:
  assumes "miss_inv t n" "miss_at t i = Some e" "me_outcome e = MissPending" "errno \<noteq> 0"
  obtains t' where "miss_fail t i errno = Some t'" "miss_inv t' n"
    "miss_view t' = (miss_view t)(i \<mapsto> strip (e\<lparr>me_outcome := MissFailed errno\<rparr>))"
    "mt_success_frames t' = mt_success_frames t" "same_shape t t'"
proof -
  have tab: "table_ok t n"
    using assms(1) by (simp add: miss_inv_def)
  have k: "MissSlot_new i = Some (of_nat i)" "unat (of_nat i :: u32) = i"
    using MissSlot_new_below [OF miss_at_less [OF tab assms(2)]] tab by (auto simp: table_ok_def)
  show thesis
    using resolve_ok [OF assms(1-3), of "MissFailed errno" "of_nat i"] that k assms(3, 4) miss_entry_at [OF tab assms(2)]
    by (auto simp: miss_fail_def)
qed

lemma miss_succeed_ok:
  assumes "miss_inv t n" "miss_at t i = Some e" "me_outcome e = MissPending"
    "unat (me_frame e) < n" "mt_success_frames t ! unat (me_frame e) = None"
  obtains t' where "miss_succeed t i = Some t'" "miss_inv t' n"
    "miss_view t' = (miss_view t)(i \<mapsto> strip (e\<lparr>me_outcome := MissSucceeded\<rparr>))"
    "mt_success_frames t' = (mt_success_frames t)[unat (me_frame e) := Some (of_nat i, me_generation e)]" "same_shape t t'"
proof -
  have tab: "table_ok t n"
    using assms(1) by (simp add: miss_inv_def)
  have k: "MissSlot_new i = Some (of_nat i)" "unat (of_nat i :: u32) = i"
    using MissSlot_new_below [OF miss_at_less [OF tab assms(2)]] tab by (auto simp: table_ok_def)
  obtain u where u: "do { t \<leftarrow> miss_put t i (e\<lparr>me_outcome := MissSucceeded\<rparr>); pending_remove t (of_nat i) } = Some u"
      "miss_inv u n" "miss_view u = (miss_view t)(i \<mapsto> strip (e\<lparr>me_outcome := MissSucceeded\<rparr>))"
      "mt_success_frames u = mt_success_frames t" "same_shape t u"
    using resolve_ok [OF assms(1-3), of MissSucceeded "of_nat i"] k(2) by auto
  let ?t = "u\<lparr>mt_success_frames := (mt_success_frames t)[unat (me_frame e) := Some (of_nat i, me_generation e)]\<rparr>"
  have "length (mt_success_frames t) = n"
    using tab by (simp add: table_ok_def)
  then have "miss_succeed t i = Some ?t"
    using u(1, 4) k assms(3-5) miss_entry_at [OF tab assms(2)] by (auto simp: miss_succeed_def Let_def bind_Some_iff)
  moreover have "miss_inv ?t n"
    using u(2, 4) tab by (simp add: miss_inv_def table_ok_def)
  ultimately show thesis
    using that [of ?t] u(3, 5) by (simp add: miss_view_def same_shape_def)
qed

lemma index_drop:
  assumes "index_ok m P len" "m i = Some e" "me_outcome e \<noteq> MissPending"
  shows "index_ok (m(i := None)) P len"
proof -
  note d = index_ok_dests [OF assms(1)]
  have "pending_of (m(i := None)) j p" if "pending_of m j p" for j p
    using that assms(2, 3) by (auto simp: pending_of_def)
  then have "\<exists>p. P ! j = Some p \<and> pending_of (m(i := None)) j p" if "j < len" for j
    using d(2) [OF that] by blast
  then show ?thesis
    using d(1, 3, 4, 5) unfolding index_ok_def by simp
qed

text \<open>Whether a record is terminal with no waiter.\<close>

definition spent :: "MissTable \<Rightarrow> MissInterests \<Rightarrow> nat \<Rightarrow> u64 \<Rightarrow> bool" where
  "spent t I i g \<longleftrightarrow> (\<exists>e. miss_at t i = Some e \<and> me_generation e = g \<and> me_outcome e \<noteq> MissPending
     \<and> mi_generation (I ! i) = g \<and> mi_waiters (I ! i) = 0)"

definition unprotect :: "MissEntry \<Rightarrow> (MissSlot \<times> u64) option list \<Rightarrow> (MissSlot \<times> u64) option list" where
  "unprotect e S = (if me_outcome e = MissSucceeded then S[unat (me_frame e) := None] else S)"

lemma clean_ok:
  assumes "miss_inv t n" "length I = n" "unat k < n"
    "\<And>e. miss_at t (unat k) = Some e \<Longrightarrow> me_outcome e = MissSucceeded \<Longrightarrow>
      unat (me_frame e) < n \<and> mt_success_frames t ! unat (me_frame e) = Some (k, me_generation e)"
  shows "\<not> spent t I (unat k) g \<Longrightarrow> clean_terminal_zero t k g I = Some t"
    "miss_at t (unat k) = Some e \<Longrightarrow> spent t I (unat k) g \<Longrightarrow> \<exists>t'. clean_terminal_zero t k g I = Some t' \<and> miss_inv t' n
      \<and> miss_view t' = (miss_view t)(unat k := None) \<and> mt_success_frames t' = unprotect e (mt_success_frames t)
      \<and> mt_pending_len t' = mt_pending_len t \<and> same_shape t t' \<and> miss_at t' (unat k) = None"
proof -
  have tab: "table_ok t n" and idx: "index_ok (miss_at t) (mt_pending t) (unat (mt_pending_len t))"
    using assms(1) by (simp_all add: miss_inv_def)
  have get: "miss_get t (unat k) = Some (miss_at t (unat k))"
    using miss_get_at [OF tab assms(3)] .
  show "\<not> spent t I (unat k) g \<Longrightarrow> clean_terminal_zero t k g I = Some t"
    using get assms(2, 3) by (auto simp: clean_terminal_zero_def interest_waiters_def spent_def split: option.splits)
  assume e: "miss_at t (unat k) = Some e" and sp: "spent t I (unat k) g"
  let ?t = "t\<lparr>mt_success_frames := unprotect e (mt_success_frames t)\<rparr>"
  obtain S where S: "FileSlots_remove miss_file_slot (mt_slots t) (unat k) = Some S" "file_slots_inv miss_file_slot S"
      "slots_abs S = (miss_at t)(unat k := None)" "length (fl_slots S) = length (fl_slots (mt_slots t))"
      "length (fl_heads S) = length (fl_heads (mt_slots t))"
    using file_slots.rem_abs [of miss_file_slot "mt_slots t" "unat k"] tab e by (auto simp: table_ok_def)
  have "clean_terminal_zero t k g I = Some (?t\<lparr>mt_slots := S\<rparr>)"
    using get e sp S(1) assms(2-4) tab
    by (auto simp: clean_terminal_zero_def interest_waiters_def spent_def unprotect_def table_ok_def)
  moreover have "miss_inv (?t\<lparr>mt_slots := S\<rparr>) n"
    using tab S index_drop [OF idx e] sp e by (auto simp: miss_inv_def table_ok_def unprotect_def spent_def)
  ultimately show "\<exists>t'. clean_terminal_zero t k g I = Some t' \<and> miss_inv t' n
      \<and> miss_view t' = (miss_view t)(unat k := None) \<and> mt_success_frames t' = unprotect e (mt_success_frames t)
      \<and> mt_pending_len t' = mt_pending_len t \<and> same_shape t t' \<and> miss_at t' (unat k) = None"
    using S by (auto simp: miss_view_def same_shape_def fun_eq_iff)
qed

lemma pending_live_ok:
  assumes "miss_inv t n"
  obtains live where "pending_live t = Some live"
    "\<And>p. p \<in> set live \<longleftrightarrow> (\<exists>j < unat (mt_pending_len t). mt_pending t ! j = Some p)"
proof -
  have idx: "index_ok (miss_at t) (mt_pending t) (unat (mt_pending_len t))"
    using assms by (simp add: miss_inv_def)
  note d = index_ok_dests(1) [OF idx]
  have "p \<in> set (List.map_filter id (take (unat (mt_pending_len t)) (mt_pending t)))
      \<longleftrightarrow> (\<exists>j < unat (mt_pending_len t). mt_pending t ! j = Some p)" for p
    using d by (auto simp: map_filter_def in_set_conv_nth image_iff)
  then show thesis
    using that d by (simp add: pending_live_def)
qed

text \<open>The index finds exactly the pending records.\<close>

lemma live_member:
  assumes "miss_inv t n" "mt_pending t ! j = Some p" "j < unat (mt_pending_len t)"
  shows "\<exists>e. miss_at t (unat (pm_slot p)) = Some e \<and> me_outcome e = MissPending \<and> pm_page p = me_page e \<and> pm_token p = me_token e"
  using assms index_ok_dests(2) [of "miss_at t" "mt_pending t" "unat (mt_pending_len t)" j]
  by (auto simp: miss_inv_def pending_of_def)

lemma find_index:
  assumes "miss_inv t n" "\<And>p e. pm_page p = me_page e \<Longrightarrow> pm_token p = me_token e \<Longrightarrow> P p = Q e"
    "r = do { live \<leftarrow> pending_live t; Some (map_option (\<lambda>p. unat (pm_slot p)) (find P live)) }"
  obtains "r = Some None" "\<And>i e. miss_at t i = Some e \<Longrightarrow> me_outcome e = MissPending \<Longrightarrow> \<not> Q e"
  | i e where "r = Some (Some i)" "miss_at t i = Some e" "me_outcome e = MissPending" "Q e"
proof -
  obtain live where live: "pending_live t = Some live"
    "\<And>p. p \<in> set live \<longleftrightarrow> (\<exists>j < unat (mt_pending_len t). mt_pending t ! j = Some p)"
    by (rule pending_live_ok [OF assms(1)]) blast
  show thesis
  proof (cases "find P live")
    case None
    have "\<not> Q e" if e: "miss_at t i = Some e" "me_outcome e = MissPending" for i e
    proof -
      obtain p where p: "unat (me_pending_position e) < unat (mt_pending_len t)"
        "mt_pending t ! unat (me_pending_position e) = Some p" "pm_page p = me_page e" "pm_token p = me_token e"
        using index_okD [of "miss_at t" "mt_pending t" "unat (mt_pending_len t)" i e] e assms(1) by (auto simp: miss_inv_def)
      then have "p \<in> set live"
        using live(2) by blast
      then show ?thesis
        using None assms(2) [OF p(3, 4)] by (auto simp: find_None_iff)
    qed
    then show thesis
      using that(1) None live(1) assms(3) by simp
  next
    case (Some p)
    then have "p \<in> set live" "P p"
      by (auto simp: find_Some_iff)
    then obtain e where "miss_at t (unat (pm_slot p)) = Some e" "me_outcome e = MissPending" "pm_page p = me_page e" "pm_token p = me_token e"
      using live(2) live_member [OF assms(1)] by blast
    then show thesis
      using that(2) Some live(1) assms(2, 3) \<open>P p\<close> by simp
  qed
qed

lemma find_pending_cases:
  assumes "miss_inv t n"
  obtains "find_pending t page = Some None" "\<And>i e. miss_at t i = Some e \<Longrightarrow> me_outcome e = MissPending \<Longrightarrow> me_page e \<noteq> page"
  | i e where "find_pending t page = Some (Some i)" "miss_at t i = Some e" "me_outcome e = MissPending" "me_page e = page"
  by (rule find_index [OF assms, where P = "\<lambda>p. pm_page p = page" and Q = "\<lambda>e. me_page e = page"])
    (auto simp: find_pending_def)

lemma find_by_token_cases:
  assumes "miss_inv t n"
  obtains "find_by_token t token = Some None" "\<And>i e. miss_at t i = Some e \<Longrightarrow> me_outcome e = MissPending \<Longrightarrow> me_token e \<noteq> token"
  | i e where "find_by_token t token = Some (Some i)" "miss_at t i = Some e" "me_outcome e = MissPending" "me_token e = token"
  by (rule find_index [OF assms, where P = "\<lambda>p. pm_token p = token" and Q = "\<lambda>e. me_token e = token"])
    (auto simp: find_by_token_def)

lemma advance_remainder_ok:
  assumes "miss_inv t n" "miss_at t i = Some e" "me_outcome e = MissPending"
  obtains t' where "advance_remainder t i filled token = Some t'" "miss_inv t' n"
    "miss_view t' = (miss_view t)(i \<mapsto> strip (e\<lparr>me_filled := filled, me_token := token\<rparr>))"
    "mt_success_frames t' = mt_success_frames t" "same_shape t t'"
proof -
  let ?e = "e\<lparr>me_filled := filled, me_token := token\<rparr>" and ?j = "unat (me_pending_position e)"
  have tab: "table_ok t n" and idx: "index_ok (miss_at t) (mt_pending t) (unat (mt_pending_len t))"
    using assms(1) by (simp_all add: miss_inv_def)
  note d = index_ok_dests [OF idx]
  have k: "MissSlot_new i = Some (of_nat i)" "unat (of_nat i :: u32) = i"
    using MissSlot_new_below [OF miss_at_less [OF tab assms(2)]] tab by (auto simp: table_ok_def)
  obtain S where S: "miss_put t i ?e = Some (t\<lparr>mt_slots := S\<rparr>)" "table_ok (t\<lparr>mt_slots := S\<rparr>) n"
      "slots_abs S = (miss_at t)(i \<mapsto> ?e)" "length (fl_heads S) = length (fl_heads (mt_slots t))"
    using miss_put_at [OF tab assms(2), of ?e] by auto
  obtain p where p: "?j < unat (mt_pending_len t)" "mt_pending t ! ?j = Some p" "unat (pm_slot p) = i"
      "pm_page p = me_page e" "pm_token p = me_token e"
    using index_okD [OF idx assms(2, 3)] by blast
  have pk: "pm_slot p = of_nat i"
    using p(3) k(2) by (simp add: word_unat_eq_iff)
  let ?t = "t\<lparr>mt_slots := S, mt_pending := (mt_pending t)[?j := Some (p\<lparr>pm_token := token\<rparr>)]\<rparr>"
  have "pending_position (t\<lparr>mt_slots := S\<rparr>) (of_nat i) = Some ?j"
    using pending_position_ok [OF S(2), of "of_nat i" ?e p] S(3) k p pk d(1) by simp
  then have "advance_remainder t i filled token = Some ?t"
    using S(1) k assms(3) miss_entry_at [OF tab assms(2)] p(1, 2) d(1) by (simp add: advance_remainder_def)
  moreover have "index_ok ((miss_at t)(i \<mapsto> ?e)) (mt_pending ?t) (unat (mt_pending_len t))"
    unfolding index_ok_def
  proof (intro conjI allI impI)
    show "\<exists>q. mt_pending ?t ! j = Some q \<and> pending_of ((miss_at t)(i \<mapsto> ?e)) j q" if j: "j < unat (mt_pending_len t)" for j
    proof (cases "j = ?j")
      case True
      then show ?thesis
        using p assms(3) d(1) j by (simp add: pending_of_def)
    next
      case False
      then obtain q where "mt_pending t ! j = Some q" "pending_of (miss_at t) j q"
        using d(2) [OF j] by blast
      then show ?thesis
        using False assms(2) by (auto simp: pending_of_def)
    qed
    show "unat (me_pending_position h) < unat (mt_pending_len t)"
      "\<exists>q. mt_pending ?t ! unat (me_pending_position h) = Some q \<and> unat (pm_slot q) = x"
      if h: "((miss_at t)(i \<mapsto> ?e)) x = Some h" "me_outcome h = MissPending" for x h
    proof -
      have "unat (me_pending_position h) < unat (mt_pending_len t)
        \<and> (\<exists>q. mt_pending ?t ! unat (me_pending_position h) = Some q \<and> unat (pm_slot q) = x)"
        using d(1) d(4, 5) [of x h] h p by (cases "x = i") (auto simp: nth_list_update split: if_splits)
      then show "unat (me_pending_position h) < unat (mt_pending_len t)"
        "\<exists>q. mt_pending ?t ! unat (me_pending_position h) = Some q \<and> unat (pm_slot q) = x"
        by blast+
    qed
  qed (use d(1, 3) p(1) in auto)
  then have "miss_inv ?t n"
    using S(2, 3) by (simp add: miss_inv_def table_ok_def)
  ultimately show thesis
    using that [of ?t] S by (simp add: miss_view_def same_shape_def fun_eq_iff)
qed

text \<open>Admission empties the slot if it still holds a spent record, then starts a new generation.\<close>

definition freed_slot :: "MissTable \<Rightarrow> nat \<Rightarrow> (MissSlot \<times> u64) option list" where
  "freed_slot t i = (case miss_at t i of None \<Rightarrow> mt_success_frames t | Some e \<Rightarrow> unprotect e (mt_success_frames t))"

definition admitted :: "PageId \<Rightarrow> ReadFrameIdx \<Rightarrow> OpToken \<Rightarrow> u64 \<Rightarrow> MissEntry" where
  "admitted page frame token g = \<lparr>me_page = page, me_frame = frame, me_token = token, me_generation = g, me_filled = 0,
     me_pending_position = 0, me_outcome = MissPending\<rparr>"

lemma admit_ok:
  assumes inv: "miss_inv t n" and I: "length I = n" "mi_waiters (I ! unat k) = 0" "mi_generation (I ! unat k) \<noteq> - 1"
    and k: "unat k < n"
    and free: "\<And>e. miss_at t (unat k) = Some e \<Longrightarrow> spent t I (unat k) (me_generation e)"
    and protect: "\<And>e. miss_at t (unat k) = Some e \<Longrightarrow> me_outcome e = MissSucceeded \<Longrightarrow>
      unat (me_frame e) < n \<and> mt_success_frames t ! unat (me_frame e) = Some (k, me_generation e)"
    and owner: "unat (slot (page_file page)) < length (fl_heads (mt_slots t))"
    and room: "unat (mt_pending_len t) < length (mt_pending t)"
  obtains t' where "admit_initial t k page frame token I initial = Some (mi_generation (I ! unat k) + 1, t',
      I[unat k := \<lparr>mi_generation = mi_generation (I ! unat k) + 1, mi_waiters = initial_waiters initial\<rparr>])"
    "miss_inv t' n" "miss_view t' = (miss_view t)(unat k \<mapsto> admitted page frame token (mi_generation (I ! unat k) + 1))"
    "mt_success_frames t' = freed_slot t (unat k)" "same_shape t t'"
proof -
  let ?g = "mi_generation (I ! unat k) + 1"
  have tab: "table_ok t n"
    using inv by (simp add: miss_inv_def)
  have suc: "unat ?g = Suc (unat (mi_generation (I ! unat k)))"
    using I(3) below_max_Suc [of "mi_generation (I ! unat k)"] by (simp add: order_less_le)
  then have "?g \<noteq> 0"
    by (metis nat.distinct(1) unat_0)
  moreover have "checked_add (mi_generation (I ! unat k)) 1 = Some ?g"
    using suc unsigned_less [of ?g, where 'a = nat] by (simp add: checked_add_def)
  ultimately have start: "begin_initial I k initial = Some (?g, I[unat k := \<lparr>mi_generation = ?g, mi_waiters = initial_waiters initial\<rparr>])"
    using I(1, 2) k by (simp add: begin_initial_def)
  obtain u where u: "(case miss_at t (unat k) of None \<Rightarrow> Some t | Some e \<Rightarrow> clean_terminal_zero t k (me_generation e) I) = Some u"
      "miss_inv u n" "miss_view u = (miss_view t)(unat k := None)" "miss_at u (unat k) = None"
      "mt_success_frames u = freed_slot t (unat k)" "mt_pending_len u = mt_pending_len t" "same_shape t u"
  proof (cases "miss_at t (unat k)")
    case None
    then show thesis
      using that [of t] inv by (auto simp: freed_slot_def same_shape_def miss_view_def fun_eq_iff)
  next
    case (Some e)
    then show thesis
      using that clean_ok(2) [OF inv I(1) k protect Some free [OF Some]] by (auto simp: freed_slot_def)
  qed
  have utab: "table_ok u n" and uidx: "index_ok (miss_at u) (mt_pending u) (unat (mt_pending_len t))"
    using u(2, 6) by (simp_all add: miss_inv_def)
  let ?e = "(admitted page frame token ?g)\<lparr>me_pending_position := mt_pending_len t\<rparr>"
  obtain S where S: "FileSlots_insert miss_file_slot (mt_slots u) (unat k) ?e = Some S" "file_slots_inv miss_file_slot S"
      "slots_abs S = (miss_at u)(unat k \<mapsto> ?e)" "length (fl_slots S) = length (fl_slots (mt_slots u))"
      "length (fl_heads S) = length (fl_heads (mt_slots u))"
    using file_slots.ins_abs [of miss_file_slot "mt_slots u" "unat k" ?e] utab k u(4, 7) owner
    by (auto simp: table_ok_def miss_file_slot_def admitted_def same_shape_def)
  let ?p = "\<lparr>pm_page = page, pm_token = token, pm_slot = k\<rparr>"
  let ?t = "u\<lparr>mt_slots := S, mt_pending := (mt_pending u)[unat (mt_pending_len t) := Some ?p], mt_pending_len := mt_pending_len t + 1\<rparr>"
  have room': "unat (mt_pending_len t) < length (mt_pending u)"
    using room u(7) by (simp add: same_shape_def)
  have "pending_push (u\<lparr>mt_slots := S\<rparr>) ?p = Some ?t"
    using room' index_ok_dests(3) [OF uidx, of "unat (mt_pending_len t)"] u(6) by (simp add: pending_push_def Let_def)
  moreover have "FileSlot_is_none (fl_slots (mt_slots u) ! unat k)" "unat k < length (fl_slots (mt_slots u))"
    using file_slots_get(2) [of miss_file_slot "mt_slots u" "unat k"] utab k u(4) by (auto simp: table_ok_def)
  ultimately have "admit_initial t k page frame token I initial = Some (?g, ?t,
      I[unat k := \<lparr>mi_generation = ?g, mi_waiters = initial_waiters initial\<rparr>])"
    using miss_get_at [OF tab k] u(1, 6) start S(1)
    by (auto simp: admit_initial_def admitted_def Let_def split: option.splits)
  moreover have "unat (mt_pending_len t + 1) = Suc (unat (mt_pending_len t))"
    using room' utab unat_add_small [of "mt_pending_len t" 1] by (simp add: table_ok_def)
  then have "miss_inv ?t n"
    using utab S index_push [OF uidx room' u(4), of ?p ?e] by (simp add: miss_inv_def table_ok_def admitted_def)
  ultimately show thesis
    using that [of ?t] u(3, 5, 7) S(3, 5)
    by (auto simp: miss_view_def same_shape_def fun_eq_iff admitted_def strip_def)
qed

end
