(* ===== verification/Miss_Props.thy ===== *)
theory Miss_Props
  imports Miss
begin

text \<open>
  What the miss table guarantees in every history of requests, completions, evictions and dropped
  tokens: one read per page, and records that outlive every token that names them.
\<close>

section \<open>Invariant\<close>

definition waits :: "nat \<Rightarrow> PendingToken multiset \<Rightarrow> nat" where
  "waits i C = size (filter_mset (\<lambda>c. unat (pt_slot c) = i) C)"

definition records_ok :: "(nat \<rightharpoonup> MissEntry) \<Rightarrow> (MissSlot \<times> u64) option list \<Rightarrow> MissInterests \<Rightarrow> bool" where
  "records_ok V S I \<longleftrightarrow> length S = length I
     \<and> (\<forall>i e. V i = Some e \<longrightarrow> i < length I \<and> me_generation e = mi_generation (I ! i) \<and> unat (me_frame e) < length I)
     \<and> (\<forall>f < length I. \<forall>k g. S ! f = Some (k, g) \<longleftrightarrow>
          (\<exists>e. V (unat k) = Some e \<and> me_outcome e = MissSucceeded \<and> me_generation e = g \<and> unat (me_frame e) = f))"

text \<open>Pending records have pages, driver tokens and frames of their own.\<close>

definition singles :: "(nat \<rightharpoonup> MissEntry) \<Rightarrow> (MissSlot \<times> u64) option list \<Rightarrow> bool" where
  "singles V S \<longleftrightarrow> (\<forall>i e. V i = Some e \<longrightarrow> me_outcome e = MissPending \<longrightarrow> S ! unat (me_frame e) = None
     \<and> (\<forall>j e'. V j = Some e' \<longrightarrow> me_outcome e' = MissPending \<longrightarrow>
          me_page e = me_page e' \<or> me_token e = me_token e' \<or> me_frame e = me_frame e' \<longrightarrow> i = j))"

definition tokens_ok :: "(nat \<rightharpoonup> MissEntry) \<Rightarrow> MissInterests \<Rightarrow> PendingToken multiset \<Rightarrow> bool" where
  "tokens_ok V I C \<longleftrightarrow> (\<forall>i < length I. unat (mi_waiters (I ! i)) = waits i C)
     \<and> (\<forall>c. c \<in># C \<longrightarrow> (\<exists>e. V (unat (pt_slot c)) = Some e \<and> me_generation e = pt_generation c \<and> me_page e = pt_page c))"

definition miss_safe :: "miss_sys \<Rightarrow> bool" where
  "miss_safe s \<longleftrightarrow> miss_inv (ms_table s) (length (ms_interests s))
     \<and> records_ok (miss_view (ms_table s)) (mt_success_frames (ms_table s)) (ms_interests s)
     \<and> singles (miss_view (ms_table s)) (mt_success_frames (ms_table s))
     \<and> tokens_ok (miss_view (ms_table s)) (ms_interests s) (ms_tokens s)"

lemma waits_simps [simp]:
  "waits i {#} = 0" "waits i (add_mset c C) = (if unat (pt_slot c) = i then Suc (waits i C) else waits i C)"
  by (simp_all add: waits_def)

lemma waits_remove: "c \<in># C \<Longrightarrow> waits i C = (if unat (pt_slot c) = i then Suc (waits i (C - {#c#})) else waits i (C - {#c#}))"
  using waits_simps(2) [of i c "C - {#c#}"] by simp

lemma waits_pos: "c \<in># C \<Longrightarrow> unat (pt_slot c) = i \<Longrightarrow> 0 < waits i C"
  using waits_remove [of c C i] by simp

lemma records_okD:
  assumes "records_ok V S I"
  shows "length S = length I" "V i = Some e \<Longrightarrow> i < length I" "V i = Some e \<Longrightarrow> me_generation e = mi_generation (I ! i)"
    "V i = Some e \<Longrightarrow> unat (me_frame e) < length I"
    "f < length I \<Longrightarrow> S ! f = Some (k, g) \<Longrightarrow>
      \<exists>e. V (unat k) = Some e \<and> me_outcome e = MissSucceeded \<and> me_generation e = g \<and> unat (me_frame e) = f"
    "V (unat k) = Some e \<Longrightarrow> me_outcome e = MissSucceeded \<Longrightarrow> S ! unat (me_frame e) = Some (k, me_generation e)"
  using assms by (auto simp: records_ok_def)

lemma records_okI:
  assumes "length S = length I"
    "\<And>i e. V i = Some e \<Longrightarrow> i < length I \<and> me_generation e = mi_generation (I ! i) \<and> unat (me_frame e) < length I"
    "\<And>f k g. f < length I \<Longrightarrow> S ! f = Some (k, g) \<longleftrightarrow>
      (\<exists>e. V (unat k) = Some e \<and> me_outcome e = MissSucceeded \<and> me_generation e = g \<and> unat (me_frame e) = f)"
  shows "records_ok V S I"
  unfolding records_ok_def using assms by (intro conjI allI impI) blast+

lemma records_protected:
  "records_ok V S I \<Longrightarrow> f < length I \<Longrightarrow> S ! f = Some (k, g) \<longleftrightarrow>
    (\<exists>e. V (unat k) = Some e \<and> me_outcome e = MissSucceeded \<and> me_generation e = g \<and> unat (me_frame e) = f)"
  by (simp add: records_ok_def)

section \<open>Changes to the records\<close>

lemma records_keep:
  assumes "records_ok V S I" "V i = Some e" "me_outcome e = MissPending" "me_outcome e' \<noteq> MissSucceeded"
    "me_generation e' = me_generation e" "me_frame e' = me_frame e"
  shows "records_ok (V(i \<mapsto> e')) S I"
  using assms unfolding records_ok_def by auto

lemma singles_resolve:
  assumes "singles V S" "V i = Some e" "me_outcome e' \<noteq> MissPending"
  shows "singles (V(i \<mapsto> e')) S"
  using assms unfolding singles_def by auto

lemma tokens_same:
  assumes "tokens_ok V I C" "V i = Some e" "me_generation e' = me_generation e" "me_page e' = me_page e"
  shows "tokens_ok (V(i \<mapsto> e')) I C"
  using assms unfolding tokens_ok_def by fastforce

lemma succeeded_frame_free:
  assumes "records_ok V S I" "singles V S" "V i = Some e" "me_outcome e = MissPending"
  shows "S ! unat (me_frame e) = None"
  using assms(2-4) by (auto simp: singles_def)

lemma records_success:
  fixes k :: MissSlot
  assumes rec: "records_ok V S I" and e: "V i = Some e" "me_outcome e = MissPending" "S ! unat (me_frame e) = None"
    and e': "me_outcome e' = MissSucceeded" "me_generation e' = me_generation e" "me_frame e' = me_frame e"
    and k: "unat k = i"
  shows "records_ok (V(i \<mapsto> e')) (S[unat (me_frame e) := Some (k, me_generation e)]) I"
proof -
  note d = records_okD [OF rec]
  let ?S = "S[unat (me_frame e) := Some (k, me_generation e)]" and ?V = "V(i \<mapsto> e')"
  have "?S ! f = Some (l, g) \<longleftrightarrow>
      (\<exists>h. ?V (unat l) = Some h \<and> me_outcome h = MissSucceeded \<and> me_generation h = g \<and> unat (me_frame h) = f)"
    if f: "f < length I" for f l g
  proof (cases "f = unat (me_frame e)")
    case True
    have "unat l = i" if "V (unat l) = Some h" "me_outcome h = MissSucceeded" "unat (me_frame h) = f" for h
      using d(6) [OF that(1, 2)] that(3) True e(3) by simp
    then show ?thesis
      using True f d(1) e' k by (auto simp: word_unat_eq_iff)
  next
    case False
    then have "?S ! f = S ! f"
      by simp
    moreover have "(\<exists>h. ?V (unat l) = Some h \<and> me_outcome h = MissSucceeded \<and> me_generation h = g \<and> unat (me_frame h) = f)
        \<longleftrightarrow> (\<exists>h. V (unat l) = Some h \<and> me_outcome h = MissSucceeded \<and> me_generation h = g \<and> unat (me_frame h) = f)"
      using False e e' by auto
    ultimately show ?thesis
      using records_protected [OF rec f] by simp
  qed
  moreover have "j < length I \<and> me_generation h = mi_generation (I ! j) \<and> unat (me_frame h) < length I"
    if "?V j = Some h" for j h
    using that d(2-4) e(1) e' by (auto split: if_splits)
  ultimately show ?thesis
    using d(1) by (intro records_okI) simp_all
qed

lemma singles_success:
  assumes "singles V S" "V i = Some e" "me_outcome e = MissPending" "me_outcome e' \<noteq> MissPending"
  shows "singles (V(i \<mapsto> e')) (S[unat (me_frame e) := x])"
proof -
  have "me_frame h \<noteq> me_frame e" if "V j = Some h" "me_outcome h = MissPending" "j \<noteq> i" for j h
    using assms(1-3) that unfolding singles_def by metis
  then have "S[unat (me_frame e) := x] ! unat (me_frame h) = S ! unat (me_frame h)"
    if "V j = Some h" "me_outcome h = MissPending" "j \<noteq> i" for j h
    using that by (metis nth_list_update_neq word_unat_eq_iff)
  then show ?thesis
    using assms unfolding singles_def by (auto split: if_splits)
qed

lemma records_clean:
  fixes k :: MissSlot
  assumes rec: "records_ok V S I" and e: "V (unat k) = Some e"
  shows "records_ok (V(unat k := None)) (unprotect e S) I"
proof -
  note d = records_okD [OF rec]
  have "unprotect e S ! f = Some (l, g) \<longleftrightarrow> (\<exists>h. (V(unat k := None)) (unat l) = Some h \<and> me_outcome h = MissSucceeded
      \<and> me_generation h = g \<and> unat (me_frame h) = f)" if f: "f < length I" for f l g
  proof (cases "me_outcome e = MissSucceeded \<and> unat (me_frame e) = f")
    case True
    then have "S ! f = Some (k, me_generation e)"
      using d(6) [OF e] by simp
    then have "unat l = unat k" if "V (unat l) = Some h" "me_outcome h = MissSucceeded" "unat (me_frame h) = f" for h
      using d(6) [OF that(1, 2)] that(3) by simp
    then show ?thesis
      using True f d(1) by (auto simp: unprotect_def)
  next
    case False
    then have "unprotect e S ! f = S ! f"
      by (auto simp: unprotect_def)
    moreover have "(\<exists>h. (V(unat k := None)) (unat l) = Some h \<and> me_outcome h = MissSucceeded \<and> me_generation h = g \<and> unat (me_frame h) = f)
        \<longleftrightarrow> (\<exists>h. V (unat l) = Some h \<and> me_outcome h = MissSucceeded \<and> me_generation h = g \<and> unat (me_frame h) = f)"
      using False e by auto
    ultimately show ?thesis
      using records_protected [OF rec f] by simp
  qed
  moreover have "j < length I \<and> me_generation h = mi_generation (I ! j) \<and> unat (me_frame h) < length I"
    if "(V(unat k := None)) j = Some h" for j h
    using that d(2-4) by (auto split: if_splits)
  ultimately show ?thesis
    using d(1) by (intro records_okI) (simp_all add: unprotect_def)
qed

lemma singles_clean: "singles V S \<Longrightarrow> singles (V(i := None)) (unprotect e S)"
  unfolding singles_def unprotect_def
  by (cases "unat (me_frame e) < length S") (auto simp: nth_list_update list_update_beyond split: if_splits)

lemma tokens_clean:
  assumes "tokens_ok V I C" "i < length I" "mi_waiters (I ! i) = 0"
  shows "tokens_ok (V(i := None)) I C"
proof -
  have "waits i C = 0"
    using assms by (simp add: tokens_ok_def flip: unat_eq_zero)
  then have "unat (pt_slot c) \<noteq> i" if "c \<in># C" for c
    using waits_pos [OF that] by (metis less_irrefl)
  then show ?thesis
    using assms(1) unfolding tokens_ok_def by simp
qed

lemma records_admit:
  assumes "records_ok V S I" "V i = None" "i < length I" "unat (me_frame e) < length I" "me_outcome e = MissPending"
    "me_generation e = mi_generation x"
  shows "records_ok (V(i \<mapsto> e)) S (I[i := x])"
proof -
  note d = records_okD [OF assms(1)]
  have "S ! f = Some (l, g) \<longleftrightarrow>
      (\<exists>h. (V(i \<mapsto> e)) (unat l) = Some h \<and> me_outcome h = MissSucceeded \<and> me_generation h = g \<and> unat (me_frame h) = f)"
    if "f < length I" for f l g
    using records_protected [OF assms(1) that, of l g] assms(2, 5) by auto
  moreover have "j < length I \<and> me_generation h = mi_generation (I[i := x] ! j) \<and> unat (me_frame h) < length I"
    if "(V(i \<mapsto> e)) j = Some h" for j h
    using that d(2-4) [of j h] assms(2-) by (cases "j = i") auto
  ultimately show ?thesis
    using d(1) by (intro records_okI) simp_all
qed

lemma singles_admit:
  assumes "singles V S" "V i = None" "S ! unat (me_frame e) = None"
    "\<And>j h. V j = Some h \<Longrightarrow> me_outcome h = MissPending \<Longrightarrow> me_page h \<noteq> me_page e \<and> me_token h \<noteq> me_token e \<and> me_frame h \<noteq> me_frame e"
  shows "singles (V(i \<mapsto> e)) S"
  using assms unfolding singles_def by (auto split: if_splits) metis+

lemma singles_token:
  assumes "singles V S" "V i = Some e" "me_outcome e = MissPending"
    "\<And>j h. V j = Some h \<Longrightarrow> me_outcome h = MissPending \<Longrightarrow> me_token h \<noteq> token"
    "me_page e' = me_page e" "me_frame e' = me_frame e" "me_token e' = token"
  shows "singles (V(i \<mapsto> e')) S"
proof -
  have "singles (V(i := None)) S"
    using assms(1) unfolding singles_def by simp
  moreover have "me_page h \<noteq> me_page e' \<and> me_token h \<noteq> me_token e' \<and> me_frame h \<noteq> me_frame e'"
    if "(V(i := None)) j = Some h" "me_outcome h = MissPending" for j h
  proof -
    have h: "V j = Some h" "j \<noteq> i"
      using that(1) by (auto split: if_splits)
    then have "me_page e \<noteq> me_page h \<and> me_frame e \<noteq> me_frame h"
      using assms(1-3) that(2) unfolding singles_def by metis
    then show ?thesis
      using assms(4) [OF h(1) that(2)] assms(5-7) by auto
  qed
  moreover have "S ! unat (me_frame e') = None"
    using assms(1-3, 6) by (auto simp: singles_def)
  ultimately show ?thesis
    using singles_admit [of "V(i := None)" S i e'] by simp
qed

lemma unprotect_None: "S ! f = None \<Longrightarrow> unprotect e S ! f = None"
  by (cases "unat (me_frame e) < length S"; cases "unat (me_frame e) = f")
    (auto simp: unprotect_def list_update_beyond)

lemma tokens_admit:
  assumes "tokens_ok V I C" "V i = None" "i < length I" "mi_waiters (I ! i) = 0" "unat k = i"
    "me_generation e = g" "me_page e = page"
  shows "tokens_ok (V(i \<mapsto> e)) (I[i := \<lparr>mi_generation = g, mi_waiters = initial_waiters initial\<rparr>])
    (if initial = InitialDemand then add_mset \<lparr>pt_page = page, pt_slot = k, pt_generation = g\<rparr> C else C)"
proof -
  have zero: "waits i C = 0"
    using assms(1, 3, 4) by (simp add: tokens_ok_def flip: unat_eq_zero)
  have count: "unat (mi_waiters (I[i := \<lparr>mi_generation = g, mi_waiters = initial_waiters initial\<rparr>] ! j))
      = waits j (if initial = InitialDemand then add_mset \<lparr>pt_page = page, pt_slot = k, pt_generation = g\<rparr> C else C)"
    if "j < length I" for j
    using that assms(1, 3, 5) zero by (cases initial; cases "j = i") (auto simp: tokens_ok_def)
  show ?thesis
    unfolding tokens_ok_def using assms count by (auto simp: tokens_ok_def)
qed

section \<open>Steps keep the invariant\<close>

lemma miss_safeD:
  assumes "miss_safe s"
  shows "miss_inv (ms_table s) (length (ms_interests s))"
    "records_ok (miss_view (ms_table s)) (mt_success_frames (ms_table s)) (ms_interests s)"
    "singles (miss_view (ms_table s)) (mt_success_frames (ms_table s))"
    "tokens_ok (miss_view (ms_table s)) (ms_interests s) (ms_tokens s)"
  using assms by (simp_all add: miss_safe_def)

text \<open>What holds of the table and the interests while the tokens may be in motion.\<close>

abbreviation miss_core :: "MissTable \<Rightarrow> MissInterests \<Rightarrow> bool" where
  "miss_core t I \<equiv> miss_inv t (length I) \<and> records_ok (miss_view t) (mt_success_frames t) I
     \<and> singles (miss_view t) (mt_success_frames t)"

lemma miss_protected:
  assumes "records_ok (miss_view t) S I" "miss_at t (unat k) = Some e" "me_outcome e = MissSucceeded"
  shows "unat (me_frame e) < length I \<and> S ! unat (me_frame e) = Some (k, me_generation e)"
  using records_okD(4) [OF assms(1), of "unat k" "strip e"] records_okD(6) [OF assms(1), of k "strip e"] assms(2, 3)
  by (simp add: miss_view_def)

lemma clean_safe:
  assumes core: "miss_core t I" and tok: "tokens_ok (miss_view t) I C" and k: "unat k < length I"
  shows "\<exists>t'. clean_terminal_zero t k g I = Some t' \<and> miss_core t' I \<and> tokens_ok (miss_view t') I C"
proof -
  have rec: "records_ok (miss_view t) (mt_success_frames t) I" and inv: "miss_inv t (length I)"
    using core by simp_all
  show ?thesis
  proof (cases "spent t I (unat k) g")
    case False
    then show ?thesis
      using clean_ok(1) [OF inv refl k miss_protected [OF rec], of g] core tok by simp
  next
    case True
    then obtain e where e: "miss_at t (unat k) = Some e" "mi_waiters (I ! unat k) = 0"
      by (auto simp: spent_def)
    then obtain t' where t': "clean_terminal_zero t k g I = Some t'" "miss_inv t' (length I)"
        "miss_view t' = (miss_view t)(unat k := None)" "mt_success_frames t' = unprotect e (mt_success_frames t)"
      using clean_ok(2) [OF inv refl k miss_protected [OF rec] e(1) True] by auto
    have "unprotect e S = unprotect (strip e) S" for S
      by (simp add: unprotect_def)
    then show ?thesis
      using t' records_clean [OF rec, of k "strip e"] singles_clean [of "miss_view t" "mt_success_frames t" "unat k" "strip e"]
        tokens_clean [OF tok k e(2)] e(1) core by (simp add: miss_view_def)
  qed
qed

lemma found_pending:
  assumes "miss_inv t n" "find_pending t page = Some (Some i)"
  obtains e where "miss_at t i = Some e" "me_outcome e = MissPending" "me_page e = page"
  using find_pending_cases [OF assms(1), of page] assms(2) by (metis option.distinct(1) option.inject)

lemma found_token:
  assumes "miss_inv t n" "find_by_token t token = Some (Some i)"
  obtains e where "miss_at t i = Some e" "me_outcome e = MissPending" "me_token e = token"
  using find_by_token_cases [OF assms(1), of token] assms(2) by (metis option.distinct(1) option.inject)

lemma no_pending: "miss_inv t n \<Longrightarrow> find_pending t page = Some None \<Longrightarrow> miss_at t i = Some e \<Longrightarrow>
    me_outcome e = MissPending \<Longrightarrow> me_page e \<noteq> page"
  using find_pending_cases [of t n page] by (metis option.distinct(1) option.inject)

lemma no_token: "miss_inv t n \<Longrightarrow> find_by_token t token = Some None \<Longrightarrow> miss_at t i = Some e \<Longrightarrow>
    me_outcome e = MissPending \<Longrightarrow> me_token e \<noteq> token"
  using find_by_token_cases [of t n token] by (metis option.distinct(1) option.inject)

lemma slot_of_index:
  assumes "miss_inv t n" "miss_at t i = Some e"
  shows "MissSlot_new i = Some (of_nat i)" "unat (of_nat i :: MissSlot) = i" "i < n"
  using MissSlot_new_below [OF miss_at_less [of t n i e]] miss_at_less [of t n i e] assms
  by (auto simp: miss_inv_def table_ok_def)

lemma success_safe:
  assumes core: "miss_core t I" and tok: "tokens_ok (miss_view t) I C" and e: "miss_at t i = Some e" "me_outcome e = MissPending"
  shows "\<exists>t'. finish_success t I i g = Some t' \<and> miss_core t' I \<and> tokens_ok (miss_view t') I C"
proof -
  have inv: "miss_inv t (length I)" and rec: "records_ok (miss_view t) (mt_success_frames t) I"
    and one: "singles (miss_view t) (mt_success_frames t)"
    using core by simp_all
  have V: "miss_view t i = Some (strip e)"
    using e(1) by (simp add: miss_view_def)
  have frame: "unat (me_frame e) < length I" "mt_success_frames t ! unat (me_frame e) = None"
    using records_okD(4) [OF rec V] succeeded_frame_free [OF rec one V] e(2) by simp_all
  note k = slot_of_index [OF inv e(1)]
  obtain u where u: "miss_succeed t i = Some u" "miss_inv u (length I)"
      "miss_view u = (miss_view t)(i \<mapsto> strip (e\<lparr>me_outcome := MissSucceeded\<rparr>))"
      "mt_success_frames u = (mt_success_frames t)[unat (me_frame e) := Some (of_nat i, me_generation e)]"
    using miss_succeed_ok [OF inv e frame] by metis
  have "miss_core u I" "tokens_ok (miss_view u) I C"
    using u(2) records_success [OF rec V, of "strip (e\<lparr>me_outcome := MissSucceeded\<rparr>)" "of_nat i"]
      singles_success [OF one V, of "strip (e\<lparr>me_outcome := MissSucceeded\<rparr>)"]
      tokens_same [OF tok V, of "strip (e\<lparr>me_outcome := MissSucceeded\<rparr>)"] frame e(2) k
    by (simp_all add: u(3, 4))
  then show ?thesis
    using clean_safe [of u I C "of_nat i" g] u(1) k by (simp add: finish_success_def)
qed

lemma failure_safe:
  assumes core: "miss_core t I" and tok: "tokens_ok (miss_view t) I C" and e: "miss_at t i = Some e" "me_outcome e = MissPending"
    and errno: "errno \<noteq> 0"
  shows "\<exists>t'. finish_failure t I i g errno = Some t' \<and> miss_core t' I \<and> tokens_ok (miss_view t') I C"
proof -
  have inv: "miss_inv t (length I)" and rec: "records_ok (miss_view t) (mt_success_frames t) I"
    and one: "singles (miss_view t) (mt_success_frames t)"
    using core by simp_all
  have V: "miss_view t i = Some (strip e)"
    using e(1) by (simp add: miss_view_def)
  note k = slot_of_index [OF inv e(1)]
  obtain u where u: "miss_fail t i errno = Some u" "miss_inv u (length I)"
      "miss_view u = (miss_view t)(i \<mapsto> strip (e\<lparr>me_outcome := MissFailed errno\<rparr>))"
      "mt_success_frames u = mt_success_frames t"
    using miss_fail_ok [OF inv e errno] by metis
  have "miss_core u I" "tokens_ok (miss_view u) I C"
    using u(2) records_keep [OF rec V, of "strip (e\<lparr>me_outcome := MissFailed errno\<rparr>)"]
      singles_resolve [OF one V, of "strip (e\<lparr>me_outcome := MissFailed errno\<rparr>)"]
      tokens_same [OF tok V, of "strip (e\<lparr>me_outcome := MissFailed errno\<rparr>)"] e(2)
    by (simp_all add: u(3, 4))
  then show ?thesis
    using clean_safe [of u I C "of_nat i" g] u(1) k by (simp add: finish_failure_def)
qed

lemma remainder_safe:
  assumes core: "miss_core t I" and tok: "tokens_ok (miss_view t) I C" and e: "miss_at t i = Some e" "me_outcome e = MissPending"
    and fresh: "find_by_token t token = Some None"
  shows "\<exists>t'. advance_remainder t i filled token = Some t' \<and> miss_core t' I \<and> tokens_ok (miss_view t') I C"
proof -
  have inv: "miss_inv t (length I)" and rec: "records_ok (miss_view t) (mt_success_frames t) I"
    and one: "singles (miss_view t) (mt_success_frames t)"
    using core by simp_all
  have V: "miss_view t i = Some (strip e)"
    using e(1) by (simp add: miss_view_def)
  let ?e = "strip (e\<lparr>me_filled := filled, me_token := token\<rparr>)"
  obtain u where u: "advance_remainder t i filled token = Some u" "miss_inv u (length I)"
      "miss_view u = (miss_view t)(i \<mapsto> ?e)" "mt_success_frames u = mt_success_frames t"
    using advance_remainder_ok [OF inv e] by metis
  have "records_ok ((miss_view t)(i \<mapsto> ?e)) (mt_success_frames t) I"
    using records_keep [OF rec V, of ?e] e(2) by simp
  moreover have "me_token h \<noteq> token" if "miss_view t j = Some h" "me_outcome h = MissPending" for j h
    using no_token [OF inv fresh, of j] that by (auto simp: miss_view_def)
  then have "singles ((miss_view t)(i \<mapsto> ?e)) (mt_success_frames t)"
    using singles_token [OF one V, of token ?e] e(2) by simp
  ultimately show ?thesis
    using u tokens_same [OF tok V, of ?e] by simp
qed

lemma admission_loop_Some:
  "admission_loop t I xs = Some (Some k) \<Longrightarrow> \<exists>i \<in> set xs. miss_reusable t I i = Some True \<and> MissSlot_new i = Some k"
  by (induction xs) (auto simp: bind_Some_iff split: if_splits)

lemma reusable_total:
  assumes "miss_core t I" "i < length I"
  shows "\<exists>b. miss_reusable t I i = Some b \<and> (b \<longleftrightarrow> (\<forall>e. miss_at t i = Some e \<longrightarrow> spent t I i (me_generation e)))"
proof -
  have tab: "table_ok t (length I)" and rec: "records_ok (miss_view t) (mt_success_frames t) I"
    using assms(1) by (simp_all add: miss_inv_def)
  have k: "MissSlot_new i = Some (of_nat i)" "unat (of_nat i :: u32) = i"
    using MissSlot_new_below [OF assms(2)] tab by (auto simp: table_ok_def)
  show ?thesis
  proof (cases "miss_at t i")
    case None
    then show ?thesis
      using miss_get_at [OF tab assms(2)] by (intro exI [of _ True]) (simp add: miss_reusable_def)
  next
    case (Some e)
    have "me_generation e = mi_generation (I ! i)"
      using records_okD(3) [OF rec, of i "strip e"] Some by (simp add: miss_view_def)
    then show ?thesis
      using miss_get_at [OF tab assms(2)] Some k assms(2)
      by (auto simp: miss_reusable_def interest_waiters_def spent_def)
  qed
qed

lemma admission_slot_total:
  assumes "miss_core t I"
  shows "admission_slot t I \<noteq> None"
proof -
  have n: "length (fl_slots (mt_slots t)) = length I" "length I < 2 ^ 32"
    using assms by (auto simp: miss_inv_def table_ok_def)
  have "admission_loop t I xs \<noteq> None" if "\<forall>i \<in> set xs. i < length I" for xs
    using that
  proof (induction xs)
    case (Cons i xs)
    then obtain b where "miss_reusable t I i = Some b"
      using reusable_total [OF assms, of i] by auto
    then show ?case
      using Cons MissSlot_new_below [of i "length I"] n(2) by simp
  qed simp
  then show ?thesis
    by (simp add: admission_slot_def n(1))
qed

lemma admission_slot_Some:
  assumes "miss_core t I" "admission_slot t I = Some (Some k)"
  shows "unat k < length I" "miss_at t (unat k) = Some e \<Longrightarrow> spent t I (unat k) (me_generation e)"
proof -
  have n: "length (fl_slots (mt_slots t)) = length I" "length I < 2 ^ 32"
    using assms(1) by (auto simp: miss_inv_def table_ok_def)
  obtain i where i: "i < length I" "miss_reusable t I i = Some True" "MissSlot_new i = Some k"
    using admission_loop_Some [of t I "[0..<length I]" k] assms(2) by (auto simp: admission_slot_def n(1))
  moreover have "unat k = i"
    using MissSlot_new_below [OF i(1) n(2)] i(3) by auto
  ultimately show "unat k < length I" "miss_at t (unat k) = Some e \<Longrightarrow> spent t I (unat k) (me_generation e)"
    using reusable_total [OF assms(1) i(1)] by auto
qed

lemma unwaited_slot:
  assumes "miss_core t I" "tokens_ok (miss_view t) I C" "i < length I"
    "\<And>e. miss_at t i = Some e \<Longrightarrow> spent t I i (me_generation e)"
  shows "mi_waiters (I ! i) = 0"
proof (cases "miss_at t i")
  case None
  have "\<not> c \<in># C" if "unat (pt_slot c) = i" for c
    using assms(2) that None by (auto simp: tokens_ok_def miss_view_def)
  then have "waits i C = 0"
    by (auto simp: waits_def filter_mset_eq_conv)
  then have "unat (mi_waiters (I ! i)) = 0"
    using assms(2, 3) by (simp add: tokens_ok_def)
  then show ?thesis
    by (simp add: unat_eq_zero)
next
  case (Some e)
  then show ?thesis
    using assms(4) by (auto simp: spent_def)
qed

lemma admit_safe:
  assumes core: "miss_core t I" and tok: "tokens_ok (miss_view t) I C"
    and page: "find_pending t page = Some None" and room: "unat (mt_pending_len t) < length (mt_pending t)"
    and k: "admission_slot t I = Some (Some k)" and frame: "frame_unused t frame"
    and fresh: "find_by_token t token = Some None" and owner: "unat (slot (page_file page)) < length (fl_heads (mt_slots t))"
    and gen: "mi_generation (I ! unat k) \<noteq> - 1"
  shows "\<exists>g t' I'. admit_initial t k page frame token I initial = Some (g, t', I') \<and> length I' = length I \<and> miss_core t' I'
    \<and> tokens_ok (miss_view t') I' (if initial = InitialDemand
        then add_mset \<lparr>pt_page = page, pt_slot = k, pt_generation = g\<rparr> C else C)"
proof -
  have inv: "miss_inv t (length I)" and rec: "records_ok (miss_view t) (mt_success_frames t) I"
    and one: "singles (miss_view t) (mt_success_frames t)"
    using core by simp_all
  note slot = admission_slot_Some [OF core k]
  have zero: "mi_waiters (I ! unat k) = 0"
    using unwaited_slot [OF core tok slot(1)] slot(2) by blast
  let ?g = "mi_generation (I ! unat k) + 1"
  let ?e = "admitted page frame token ?g" and ?V = "(miss_view t)(unat k := None)" and ?S = "freed_slot t (unat k)"
  let ?x = "\<lparr>mi_generation = ?g, mi_waiters = initial_waiters initial\<rparr>"
  obtain t' where t': "admit_initial t k page frame token I initial = Some (?g, t', I[unat k := ?x])"
      "miss_inv t' (length I)" "miss_view t' = (miss_view t)(unat k \<mapsto> ?e)" "mt_success_frames t' = ?S"
    using admit_ok [OF inv refl zero gen slot(1) slot(2) miss_protected [OF rec] owner room, where frame = frame and token = token
        and initial = initial] by metis
  have clear: "records_ok ?V ?S I" "singles ?V ?S" "tokens_ok ?V I C" "?S ! unat frame = None"
  proof -
    have none: "mt_success_frames t ! unat frame = None"
      using frame by (simp add: frame_unused_def)
    have "records_ok ?V ?S I \<and> singles ?V ?S \<and> ?S ! unat frame = None"
    proof (cases "miss_at t (unat k)")
      case None
      then have "?V = miss_view t"
        by (auto simp: miss_view_def fun_eq_iff)
      then show ?thesis
        using None rec one none by (simp add: freed_slot_def)
    next
      case (Some e)
      then have "?S = unprotect (strip e) (mt_success_frames t)"
        by (simp add: freed_slot_def unprotect_def)
      then show ?thesis
        using records_clean [OF rec, of k "strip e"] singles_clean [OF one, of "unat k" "strip e"] Some none
        by (simp add: miss_view_def unprotect_None)
    qed
    then show "records_ok ?V ?S I" "singles ?V ?S" "tokens_ok ?V I C" "?S ! unat frame = None"
      using tokens_clean [OF tok slot(1) zero] by simp_all
  qed
  have "me_page h \<noteq> page \<and> me_token h \<noteq> token \<and> me_frame h \<noteq> frame" if h: "?V j = Some h" "me_outcome h = MissPending" for j h
  proof -
    obtain h' where "miss_at t j = Some h'" "h = strip h'"
      using h(1) by (auto simp: miss_view_def split: if_splits)
    then show ?thesis
      using h(2) no_pending [OF inv page, of j h'] no_token [OF inv fresh, of j h'] frame by (auto simp: frame_unused_def)
  qed
  then have "singles (?V(unat k \<mapsto> ?e)) ?S"
    using singles_admit [OF clear(2), of "unat k" ?e] clear(4) by (simp add: admitted_def)
  moreover have "records_ok (?V(unat k \<mapsto> ?e)) ?S (I[unat k := ?x])"
    using records_admit [OF clear(1), of "unat k" ?e ?x] slot(1) frame records_okD(1) [OF rec] by (simp add: admitted_def frame_unused_def)
  moreover have "tokens_ok (?V(unat k \<mapsto> ?e)) (I[unat k := ?x])
      (if initial = InitialDemand then add_mset \<lparr>pt_page = page, pt_slot = k, pt_generation = ?g\<rparr> C else C)"
    using tokens_admit [OF clear(3) _ slot(1) zero refl, of ?e ?g page initial] by (simp add: admitted_def)
  ultimately show ?thesis
    using t' by simp
qed

lemma records_waiters:
  "records_ok V S I \<Longrightarrow> mi_generation x = mi_generation (I ! i) \<Longrightarrow> records_ok V S (I[i := x])"
  unfolding records_ok_def by (cases "i < length I") (auto simp: nth_list_update list_update_beyond)

lemma join_safe:
  assumes core: "miss_core t I" and tok: "tokens_ok (miss_view t) I C" and e: "miss_at t i = Some e" "me_outcome e = MissPending"
    and room: "waits i C < 2 ^ 32 - 1"
  shows "\<exists>k I'. miss_join t i I = Some ((k, me_generation e), I') \<and> unat k = i \<and> length I' = length I \<and> miss_core t I'
    \<and> tokens_ok (miss_view t) I' (add_mset \<lparr>pt_page = me_page e, pt_slot = k, pt_generation = me_generation e\<rparr> C)"
proof -
  have inv: "miss_inv t (length I)" and rec: "records_ok (miss_view t) (mt_success_frames t) I"
    and tab: "table_ok t (length I)"
    using core by (simp_all add: miss_inv_def)
  note k = slot_of_index [OF inv e(1)]
  have V: "miss_view t i = Some (strip e)"
    using e(1) by (simp add: miss_view_def)
  let ?x = "(I ! i)\<lparr>mi_waiters := mi_waiters (I ! i) + 1\<rparr>"
  have w: "unat (mi_waiters (I ! i)) = waits i C"
    using tok k(3) by (simp add: tokens_ok_def)
  then have add: "checked_add (mi_waiters (I ! i)) 1 = Some (mi_waiters (I ! i) + 1)"
      "unat (mi_waiters (I ! i) + 1) = Suc (waits i C)"
    using room unat_add_small [of "mi_waiters (I ! i)" 1] by (simp_all add: checked_add_def)
  have gen: "me_generation e = mi_generation (I ! i)"
    using records_okD(3) [OF rec V] by simp
  have "miss_join t i I = Some ((of_nat i, me_generation e), I[i := ?x])"
    using miss_entry_at [OF tab e(1)] e(2) k add(1) gen by (simp add: miss_join_def interest_join_def)
  moreover have "tokens_ok (miss_view t) (I[i := ?x]) (add_mset \<lparr>pt_page = me_page e, pt_slot = of_nat i, pt_generation = me_generation e\<rparr> C)"
    using tok V k add(2) unfolding tokens_ok_def by (auto simp: nth_list_update)
  moreover have "records_ok (miss_view t) (mt_success_frames t) (I[i := ?x])"
    using records_waiters [OF rec, of ?x i] by simp
  ultimately show ?thesis
    using core k(2) by auto
qed

lemma release_safe:
  assumes core: "miss_core t I" and tok: "tokens_ok (miss_view t) I C" and c: "c \<in># C"
  shows "\<exists>w I'. interest_release I (pt_slot c) (pt_generation c) = Some (w, I') \<and> length I' = length I \<and> miss_core t I'
    \<and> tokens_ok (miss_view t) I' (C - {#c#})"
proof -
  let ?i = "unat (pt_slot c)"
  have rec: "records_ok (miss_view t) (mt_success_frames t) I"
    using core by simp
  obtain e where e: "miss_view t ?i = Some e" "me_generation e = pt_generation c"
    using tok c by (auto simp: tokens_ok_def)
  have i: "?i < length I" "mi_generation (I ! ?i) = pt_generation c"
    using records_okD(2, 3) [OF rec e(1)] e(2) by simp_all
  let ?x = "(I ! ?i)\<lparr>mi_waiters := mi_waiters (I ! ?i) - 1\<rparr>"
  have w: "unat (mi_waiters (I ! ?i)) = waits ?i C" "0 < waits ?i C"
    using tok i(1) waits_pos [OF c refl] by (simp_all add: tokens_ok_def)
  then have one: "1 \<le> mi_waiters (I ! ?i)"
    by (simp add: word_le_nat_alt)
  then have sub: "checked_sub (mi_waiters (I ! ?i)) 1 = Some (mi_waiters (I ! ?i) - 1)"
      "Suc (unat (mi_waiters (I ! ?i) - 1)) = waits ?i C"
    using w unat_sub_le [OF one] by (simp_all add: checked_sub_def)
  have "interest_release I (pt_slot c) (pt_generation c) = Some (mi_waiters (I ! ?i) - 1, I[?i := ?x])"
    using i sub(1) by (simp add: interest_release_def)
  moreover have "unat (mi_waiters (I[?i := ?x] ! j)) = waits j (C - {#c#})" if "j < length I" for j
    using that tok sub(2) waits_remove [OF c, of j] by (cases "j = ?i") (auto simp: tokens_ok_def)
  then have "tokens_ok (miss_view t) (I[?i := ?x]) (C - {#c#})"
    using tok by (auto simp: tokens_ok_def dest: in_diffD)
  moreover have "records_ok (miss_view t) (mt_success_frames t) (I[?i := ?x])"
    using records_waiters [OF rec, of ?x ?i] by simp
  ultimately show ?thesis
    using core by auto
qed

lemma ready_safe:
  assumes "miss_core t I" "tokens_ok (miss_view t) I C" "c \<in># C"
  shows "\<exists>t' I'. ready_terminal t I c = Some (t', I') \<and> length I' = length I \<and> miss_core t' I'
    \<and> tokens_ok (miss_view t') I' (C - {#c#})"
proof -
  obtain w I' where I': "interest_release I (pt_slot c) (pt_generation c) = Some (w, I')" "length I' = length I"
      "miss_core t I'" "tokens_ok (miss_view t) I' (C - {#c#})"
    using release_safe [OF assms] by auto
  obtain e where "miss_view t (unat (pt_slot c)) = Some e"
    using assms(2, 3) by (auto simp: tokens_ok_def)
  then have "unat (pt_slot c) < length I'"
    using records_okD(2) [of "miss_view t" "mt_success_frames t" I] assms(1) I'(2) by simp
  then obtain t' where "clean_terminal_zero t (pt_slot c) (pt_generation c) I' = Some t'" "miss_core t' I'"
      "tokens_ok (miss_view t') I' (C - {#c#})"
    using clean_safe [OF I'(3, 4)] by blast
  then show ?thesis
    using I'(1, 2) by (auto simp: ready_terminal_def)
qed

text \<open>Eviction is refused exactly while a successful record on the frame has waiters.\<close>

lemma evict_safe:
  assumes core: "miss_core t I" and tok: "tokens_ok (miss_view t) I C" and f: "unat f < length I"
  shows "\<exists>b t'. prepare_eviction t f I = Some (b, t') \<and> miss_core t' I \<and> tokens_ok (miss_view t') I C
    \<and> (b \<longrightarrow> mt_success_frames t' ! unat f = None) \<and> (\<not> b \<longrightarrow> t' = t)
    \<and> (b \<longleftrightarrow> \<not> (\<exists>i e. miss_view t i = Some e \<and> me_outcome e = MissSucceeded \<and> me_frame e = f \<and> mi_waiters (I ! i) \<noteq> 0))"
proof -
  have rec: "records_ok (miss_view t) (mt_success_frames t) I" and inv: "miss_inv t (length I)"
    using core by simp_all
  note d = records_okD [OF rec]
  have len: "unat f < length (mt_success_frames t)"
    using f d(1) by simp
  have index: "\<exists>k. unat (k :: MissSlot) = i" if "miss_view t i = Some e" for i e
    using slot_of_index(2) [OF inv, of i] that by (auto simp: miss_view_def)
  show ?thesis
  proof (cases "mt_success_frames t ! unat f")
    case None
    have False if v: "miss_view t i = Some e" "me_outcome e = MissSucceeded" "me_frame e = f" for i e
    proof -
      obtain k :: MissSlot where "unat k = i"
        using index v(1) by blast
      then show False
        using d(6) [of k e] v None by simp
    qed
    then show ?thesis
      using None core tok len by (auto simp: prepare_eviction_def)
  next
    case (Some kg)
    then obtain k g where kg: "mt_success_frames t ! unat f = Some (k, g)"
      by (cases kg) auto
    obtain e where e: "miss_view t (unat k) = Some e" "me_outcome e = MissSucceeded" "me_generation e = g" "unat (me_frame e) = unat f"
      using d(5) [OF f kg] by blast
    have k: "unat k < length I" "mi_generation (I ! unat k) = g"
      using d(2, 3) [OF e(1)] e(3) by simp_all
    have waiters: "interest_waiters I k g = Some (Some (mi_waiters (I ! unat k)))"
      using k by (simp add: interest_waiters_def)
    have unique: "i = unat k" if v: "miss_view t i = Some h" "me_outcome h = MissSucceeded" "me_frame h = f" for i h
    proof -
      obtain l :: MissSlot where "unat l = i"
        using index v(1) by blast
      then show ?thesis
        using d(6) [of l h] v kg by simp
    qed
    show ?thesis
    proof (cases "mi_waiters (I ! unat k) = 0")
      case False
      then have "prepare_eviction t f I = Some (False, t)"
        using kg len waiters by (simp add: prepare_eviction_def)
      moreover have "me_frame e = f"
        using e(4) by (simp add: word_unat_eq_iff)
      ultimately show ?thesis
        using core tok False e by auto
    next
      case True
      obtain e' where e': "miss_at t (unat k) = Some e'" "e = strip e'"
        using e(1) by (auto simp: miss_view_def)
      have sp: "spent t I (unat k) g"
        using e e' True k(2) by (auto simp: spent_def)
      obtain t' where t': "clean_terminal_zero t k g I = Some t'" "miss_core t' I" "tokens_ok (miss_view t') I C"
        using clean_safe [OF core tok k(1)] by blast
      moreover have "mt_success_frames t' = (mt_success_frames t)[unat f := None]"
        using clean_ok(2) [OF inv refl k(1) miss_protected [OF rec] e'(1) sp] t'(1) e e'(2) by (simp add: unprotect_def)
      ultimately show ?thesis
        using kg len waiters True unique by (auto simp: prepare_eviction_def)
    qed
  qed
qed

section \<open>Runs\<close>

lemma admit_generation:
  assumes "admit_initial t k page frame token I initial = Some (g, t', I')"
  shows "mi_generation (I ! unat k) \<noteq> - 1"
proof
  assume "mi_generation (I ! unat k) = - 1"
  then have "begin_initial I k initial = None" for initial
    by (auto simp: begin_initial_def nth_opt_def checked_add_def unsigned_minus_1_eq_mask mask_eq_exp_minus_1)
  then show False
    using assms by (auto simp: admit_initial_def bind_Some_iff)
qed

lemma join_room:
  assumes "miss_join t i I = Some r" "tokens_ok V I C" "miss_inv t (length I)" "miss_at t i = Some e"
  shows "waits i C < 2 ^ 32 - 1"
proof -
  note k = slot_of_index [OF assms(3, 4)]
  have "checked_add (mi_waiters (I ! i)) 1 \<noteq> None"
    using assms(1) k by (auto simp: miss_join_def interest_join_def bind_Some_iff)
  then show ?thesis
    using assms(2) k(3) by (auto simp: checked_add_def tokens_ok_def split: if_splits)
qed

lemma miss_safeI: "miss_core t I \<Longrightarrow> tokens_ok (miss_view t) I C \<Longrightarrow> miss_safe \<lparr>ms_table = t, ms_interests = I, ms_tokens = C\<rparr>"
  by (simp add: miss_safe_def)

lemma miss_step_safe:
  assumes step: "miss_step s s'" and safe: "miss_safe s"
  shows "miss_safe s'"
proof -
  let ?t = "ms_table s" and ?I = "ms_interests s" and ?C = "ms_tokens s"
  note d = miss_safeD [OF safe]
  have core: "miss_core ?t ?I"
    using d(1-3) by simp
  from step show ?thesis
  proof cases
    case (k_admit page k frame token initial g t I)
    then show ?thesis
      using admit_safe [OF core d(4) k_admit(2, 3, 4, 5, 6, 7) admit_generation [OF k_admit(8)], of initial] by (auto intro: miss_safeI)
  next
    case (k_join page index k g I)
    obtain e where e: "miss_at ?t index = Some e" "me_outcome e = MissPending" "me_page e = page"
      using found_pending [OF d(1) k_join(2)] by blast
    then show ?thesis
      using join_safe [OF core d(4) e(1, 2) join_room [OF k_join(3) d(4, 1) e(1)]] k_join by (auto simp: miss_safe_def)
  next
    case (k_remainder token index token' filled t)
    obtain h where h: "miss_at ?t index = Some h" "me_outcome h = MissPending"
      using found_token [OF d(1) k_remainder(2)] by blast
    show ?thesis
      using remainder_safe [OF core d(4) h k_remainder(3), of filled] k_remainder(1, 4) by (auto simp: miss_safe_def)
  next
    case (k_success token index e t)
    obtain h where h: "miss_at ?t index = Some h" "me_outcome h = MissPending"
      using found_token [OF d(1) k_success(2)] by blast
    show ?thesis
      using success_safe [OF core d(4) h, of "me_generation e"] k_success(1, 4) by (auto simp: miss_safe_def)
  next
    case (k_failure token index e errno t)
    obtain h where h: "miss_at ?t index = Some h" "me_outcome h = MissPending"
      using found_token [OF d(1) k_failure(2)] by blast
    show ?thesis
      using failure_safe [OF core d(4) h k_failure(4), of "me_generation e"] k_failure(1, 5) by (auto simp: miss_safe_def)
  next
    case (k_ready c e t I)
    then show ?thesis
      using ready_safe [OF core d(4) k_ready(2)] by (auto intro: miss_safeI)
  next
    case (k_drop c remaining I)
    then show ?thesis
      using release_safe [OF core d(4) k_drop(2)] by (auto simp: miss_safe_def)
  next
    case (k_evict frame b t)
    then have "unat frame < length (mt_success_frames ?t)"
      by (auto simp: prepare_eviction_def bind_Some_iff)
    then show ?thesis
      using evict_safe [OF core d(4), of frame] k_evict records_okD(1) [OF d(2)] by (auto simp: miss_safe_def)
  qed
qed

lemma miss_start_safe:
  assumes "miss_start s"
  shows "miss_safe s"
proof -
  obtain capacity pending_capacity file_capacity slots where
      t: "FileSlots_try_new True capacity file_capacity = Some (Some slots)"
      "ms_table s = \<lparr>mt_slots = slots, mt_success_frames = replicate (unat capacity) None,
           mt_pending = replicate (unat pending_capacity) None, mt_pending_len = 0\<rparr>"
      "pending_capacity \<le> capacity"
    and I: "ms_interests s = replicate (unat capacity) \<lparr>mi_generation = 0, mi_waiters = 0\<rparr>" "ms_tokens s = {#}"
    using assms by (auto simp: miss_start_def MissTable_try_with_capacity_def MissInterests_try_with_capacity_def bind_Some_iff
        eq_commute [of _ "ms_table s"] eq_commute [of _ "ms_interests s"] split: option.splits)
  note new = try_new_file_slots_inv [OF t(1)]
  have "unat capacity < 2 ^ 32"
    using unsigned_less [of capacity, where 'a = nat] by simp
  then have "miss_inv (ms_table s) (length (ms_interests s))"
    using new t(2, 3) I(1) by (simp add: miss_inv_def table_ok_def index_ok_def word_le_nat_alt)
  then show ?thesis
    using new(2) t(2) I by (simp add: miss_safe_def records_ok_def singles_def tokens_ok_def miss_view_def)
qed

interpretation miss_runs: guarded_system miss_start miss_step miss_safe
  by unfold_locales (rule miss_start_safe miss_step_safe; assumption)+

section \<open>Live misses of a file\<close>

lemma any_live_ok:
  assumes "\<And>i e. (i, e) \<in> set xs \<Longrightarrow> i < length I \<and> mi_generation (I ! i) = me_generation e" "length I < 2 ^ 32"
  shows "any_live I f xs = Some (\<exists>(i, e) \<in> set xs. page_file (me_page e) = f \<and> (me_outcome e = MissPending \<or> mi_waiters (I ! i) \<noteq> 0))"
  using assms(1)
proof (induction xs)
  case (Cons x xs)
  obtain i e where x: "x = (i, e)"
    by (cases x)
  have "i < length I" "mi_generation (I ! i) = me_generation e"
    using Cons.prems x by auto
  then show ?case
    using Cons MissSlot_new_below [OF _ assms(2), of i] x by (auto simp: interest_waiters_def)
qed simp

lemma has_live_ok:
  assumes core: "miss_core t I" and owner: "unat (slot f) < length (fl_heads (mt_slots t))"
  shows "has_live_for_file t f I = Some (\<exists>i e. miss_view t i = Some e \<and> page_file (me_page e) = f
    \<and> (me_outcome e = MissPending \<or> mi_waiters (I ! i) \<noteq> 0))"
proof -
  have fs: "file_slots_inv miss_file_slot (mt_slots t)" and rec: "records_ok (miss_view t) (mt_success_frames t) I"
    and n: "length I < 2 ^ 32"
    using core by (auto simp: miss_inv_def table_ok_def)
  have "file_members miss_file_slot (mt_slots t) (unat (slot f)) = for_file miss_file_slot (mt_slots t) f"
    by (simp add: file_members_def for_file_def FileId_new_def)
  then obtain xs where xs: "for_file miss_file_slot (mt_slots t) f = Some xs"
      "set xs = {(k, v). miss_at t k = Some v \<and> unat (miss_file_slot v) = unat (slot f)}"
    using file_slots.members_abs [OF fs owner] by auto
  have "i < length I \<and> mi_generation (I ! i) = me_generation e" if "(i, e) \<in> set xs" for i e
    using that xs(2) records_okD(2, 3) [OF rec, of i "strip e"] by (auto simp: miss_view_def)
  then have "has_live_for_file t f I = Some (\<exists>(i, e) \<in> set xs. page_file (me_page e) = f \<and> (me_outcome e = MissPending \<or> mi_waiters (I ! i) \<noteq> 0))"
    using xs(1) any_live_ok [of xs I f, OF _ n] by (simp add: has_live_for_file_def)
  also have "(\<exists>(i, e) \<in> set xs. page_file (me_page e) = f \<and> (me_outcome e = MissPending \<or> mi_waiters (I ! i) \<noteq> 0))
      = (\<exists>i e. miss_view t i = Some e \<and> page_file (me_page e) = f \<and> (me_outcome e = MissPending \<or> mi_waiters (I ! i) \<noteq> 0))"
    (is "?l = ?r")
  proof
    show "?l \<Longrightarrow> ?r"
      unfolding xs(2) by (force simp: miss_view_Some)
    assume ?r
    then obtain i e where "miss_at t i = Some e" "page_file (me_page e) = f" "me_outcome e = MissPending \<or> mi_waiters (I ! i) \<noteq> 0"
      by (auto simp: miss_view_Some)
    then show ?l
      unfolding xs(2) by (intro bexI [of _ "(i, e)"]) (auto simp: miss_file_slot_def)
  qed
  finally show ?thesis .
qed

lemma record_owner:
  assumes "miss_inv t n" "miss_at t i = Some e"
  shows "unat (miss_file_slot e) < length (fl_heads (mt_slots t))"
proof -
  have "file_slots_inv miss_file_slot (mt_slots t)"
    using assms(1) by (simp add: miss_inv_def table_ok_def)
  then obtain L where rep: "represents miss_file_slot (mt_slots t) L"
    by (auto simp: file_slots_inv_def slots_inv_def)
  have "i < length (fl_slots (mt_slots t))" "nexts (mt_slots t) i \<noteq> 0" "vals (mt_slots t) i = Some e"
    using assms(2) by (auto simp: slots_abs_def split: if_splits)
  then obtain k where "k < length (fl_heads (mt_slots t))" "i \<in> set (L k)"
    using rep unfolding represents_def by blast
  then show ?thesis
    using represents_owner(3) [OF rep] assms(2) by fastforce
qed

section \<open>Properties\<close>



section \<open>A concrete run\<close>

text \<open>Two slots, one read at a time: a page is requested, a second reader joins, the read succeeds.\<close>

definition run_entry :: "MissOutcome \<Rightarrow> MissEntry" where
  "run_entry out = \<lparr>me_page = PageId_new (FileId_new 7 1 3) 4, me_frame = 1, me_token = OpToken 9, me_generation = 1, me_filled = 0,
     me_pending_position = 0, me_outcome = out\<rparr>"

definition run_token :: PendingToken where
  "run_token = \<lparr>pt_page = PageId_new (FileId_new 7 1 3) 4, pt_slot = 0, pt_generation = 1\<rparr>"

definition run_table :: "MissOutcome option \<Rightarrow> (MissSlot \<times> u64) option \<Rightarrow> PendingMiss option \<Rightarrow> u32 \<Rightarrow> MissTable" where
  "run_table out S p len = \<lparr>mt_slots = \<lparr>fl_slots = [case out of None \<Rightarrow> FileSlot_vacant
       | Some out \<Rightarrow> \<lparr>fs_previous = 1, fs_next = 1, fs_value = Some (run_entry out)\<rparr>, FileSlot_vacant],
     fl_heads = [0, if out = None then 0 else 1]\<rparr>, mt_success_frames = [None, S], mt_pending = [p], mt_pending_len = len\<rparr>"

definition run_sys :: "MissTable \<Rightarrow> u64 \<Rightarrow> u32 \<Rightarrow> PendingToken multiset \<Rightarrow> miss_sys" where
  "run_sys t g w C = \<lparr>ms_table = t, ms_interests = [\<lparr>mi_generation = g, mi_waiters = w\<rparr>, \<lparr>mi_generation = 0, mi_waiters = 0\<rparr>],
     ms_tokens = C\<rparr>"

definition pending_sys :: miss_sys where
  "pending_sys = run_sys (run_table (Some MissPending) None
     (Some \<lparr>pm_page = PageId_new (FileId_new 7 1 3) 4, pm_token = OpToken 9, pm_slot = 0\<rparr>) 1) 1 2 {#run_token, run_token#}"

definition succeeded_sys :: miss_sys where
  "succeeded_sys = run_sys (run_table (Some MissSucceeded) (Some (0, 1)) None 0) 1 2 {#run_token, run_token#}"

lemmas run_defs = run_sys_def run_table_def run_entry_def run_token_def FileSlot_vacant_def FileSlot_get_def FileSlot_is_none_def
  SlotLink_index_def SlotLink_from_index_def checked_sub_def checked_add_def MissSlot_new_def Let_def

lemma run_admits:
  fixes page :: PageId
  defines "page \<equiv> PageId_new (FileId_new 7 1 3) 4" and "t \<equiv> run_table None None None 0"
    and "I \<equiv> [\<lparr>mi_generation = 0, mi_waiters = 0\<rparr>, \<lparr>mi_generation = 0, mi_waiters = 0\<rparr>]"
  shows "find_pending t page = Some None" "find_by_token t (OpToken 9) = Some None" "admission_slot t I = Some (Some 0)"
    "frame_unused t 1" "admit_initial t 0 page 1 (OpToken 9) I InitialDemand = Some (1,
      run_table (Some MissPending) None (Some \<lparr>pm_page = page, pm_token = OpToken 9, pm_slot = 0\<rparr>) 1,
      [\<lparr>mi_generation = 1, mi_waiters = 1\<rparr>, \<lparr>mi_generation = 0, mi_waiters = 0\<rparr>])"
proof -
  show "find_pending t page = Some None" "find_by_token t (OpToken 9) = Some None"
    by (simp_all add: t_def run_table_def find_pending_def find_by_token_def pending_live_def map_filter_def)
  show "admission_slot t I = Some (Some 0)"
    by (simp add: t_def run_defs admission_slot_def upt_rec miss_reusable_def miss_get_def)
  show "frame_unused t 1"
    by (auto simp: t_def run_defs frame_unused_def slots_abs_def less_Suc_eq)
  show "admit_initial t 0 page 1 (OpToken 9) I InitialDemand = Some (1,
      run_table (Some MissPending) None (Some \<lparr>pm_page = page, pm_token = OpToken 9, pm_slot = 0\<rparr>) 1,
      [\<lparr>mi_generation = 1, mi_waiters = 1\<rparr>, \<lparr>mi_generation = 0, mi_waiters = 0\<rparr>])"
    by (simp add: t_def I_def page_def run_defs admit_initial_def miss_get_def begin_initial_def FileSlots_insert_def pending_push_def
        miss_file_slot_def PageId_new_def FileId_new_def)
qed

lemma pending_sys_reachable: "reachable miss_start miss_step pending_sys"
proof -
  let ?page = "PageId_new (FileId_new 7 1 3) 4"
  let ?t = "run_table (Some MissPending) None (Some \<lparr>pm_page = ?page, pm_token = OpToken 9, pm_slot = 0\<rparr>) 1"
  have "reachable miss_start miss_step (run_sys (run_table None None None 0) 0 0 {#})"
    unfolding miss_start_def by (rule reachable.start, intro conjI exI [of _ 2] exI [of _ 1])
      (simp_all add: run_defs MissTable_try_with_capacity_def FileSlots_try_new_def MissInterests_try_with_capacity_def replicate_two)
  from reachable.step [OF this, OF k_admit [of _ ?page 0 1 "OpToken 9" InitialDemand 1 ?t]]
  have r: "reachable miss_start miss_step (run_sys ?t 1 1 {#run_token#})"
    using run_admits by (simp add: run_sys_def run_token_def) (simp add: run_table_def PageId_new_def FileId_new_def)
  have "find_pending ?t ?page = Some (Some 0)"
    by (simp add: run_defs find_pending_def pending_live_def map_filter_def)
  moreover have "miss_join ?t 0 [\<lparr>mi_generation = 1, mi_waiters = 1\<rparr>, \<lparr>mi_generation = 0, mi_waiters = 0\<rparr>]
      = Some ((0, 1), [\<lparr>mi_generation = 1, mi_waiters = 2\<rparr>, \<lparr>mi_generation = 0, mi_waiters = 0\<rparr>])"
    by (simp add: run_defs miss_join_def miss_entry_def miss_get_def interest_join_def)
  ultimately show ?thesis
    using reachable.step [OF r, OF k_join [of _ ?page 0 0 1]]
    by (simp add: run_sys_def pending_sys_def run_token_def)
qed

lemma succeeded_sys_reachable: "reachable miss_start miss_step succeeded_sys"
proof -
  let ?t = "ms_table pending_sys" and ?I = "ms_interests pending_sys"
  have "find_by_token ?t (OpToken 9) = Some (Some 0)" "miss_entry ?t 0 = Some (run_entry MissPending)"
    by (simp_all add: pending_sys_def run_defs find_by_token_def pending_live_def map_filter_def miss_entry_def miss_get_def)
  moreover have "finish_success ?t ?I 0 1 = Some (ms_table succeeded_sys)"
    by (simp add: pending_sys_def succeeded_sys_def run_defs finish_success_def miss_succeed_def miss_entry_def miss_get_def
        miss_put_def pending_remove_def pending_position_def clean_terminal_zero_def interest_waiters_def)
  ultimately have "miss_step pending_sys (pending_sys\<lparr>ms_table := ms_table succeeded_sys\<rparr>)"
    using k_success [of pending_sys "OpToken 9" 0 "run_entry MissPending"] by (simp add: run_entry_def)
  then show ?thesis
    using reachable.step [OF pending_sys_reachable] by (simp add: pending_sys_def succeeded_sys_def run_sys_def)
qed



end
