(* ===== verification/Spec2Isabelle.thy ===== *)
theory Spec2Isabelle
  imports Seqlock Clock File_Slots Driver_Props Retention_Props Miss_Props
begin

text \<open>
  A verification development of \<open>dios\<close>, a completion-based direct-I/O driver with a userspace
  frame pool.

  \<^bold>\<open>The program.\<close>  Callers submit reads, writes and syncs to a driver (\<open>src/driver.rs\<close>), which keeps
  every accepted operation in a fixed slab, runs it on a backend (\<open>src/backend/eager.rs\<close> or an
  \<open>io_uring\<close> ring) under one retry policy, and hands each completion back once.  Above it the pool
  (\<open>src/pool/\<close>) owns an arena of page frames, finds resident pages through a lock-free page table,
  lends them through epoch guards, evicts with a CLOCK hand and reclaims evicted frames once no
  reader can still see them.

  \<^bold>\<open>Conventions.\<close>  \<open>Prelude\<close> fixes them: machine integers are words of their width and wrap as
  release-profile arithmetic does, slice indices are naturals, a panic (failed assertion, \<open>expect\<close>,
  index out of range) is \<open>None\<close>, a \<open>Result\<close> is a sum with \<open>Inr\<close> for \<open>Ok\<close>.  What the sources call
  but do not contain (system calls, the allocator, the kernel side of the ring, a backend behind its
  trait) is an argument, constrained where a theorem needs it by a named hypothesis.  Lock-free code
  is a step relation with one step per atomic access, quantified over all interleavings by
  \<open>reachable\<close>; memory is sequentially consistent.

  \<^bold>\<open>Interfaces\<close> (\<open>Contracts\<close>).  \<open>guarded_system\<close>: a step relation with an invariant; \<open>bounded_map\<close>: a
  fixed-capacity map; \<open>slot_pool\<close>: slots lent one at a time; \<open>owned_map\<close>: a map enumerated by owner;
  \<open>token_source\<close>: generational tokens.  Each is interpreted by the components that provide it.

  \<^bold>\<open>Components.\<close>
  \<^item> \<open>Ident\<close>: the identities and error values of \<open>driver.rs\<close>, \<open>error.rs\<close>, \<open>product.rs\<close>, \<open>pool/mod.rs\<close>.
  \<^item> \<open>Alignment\<close>, \<open>Probing\<close>: \<open>alignment.rs\<close> and \<open>open.rs\<close>; a probed direct file accepts every page
    offset, and the check is exact.
  \<^item> \<open>Table\<close>, \<open>Seqlock\<close>: \<open>pool/table.rs\<close>; the open-addressed table refines a finite map over every
    history, and a lock-free cell read returns an entry that was current while it ran.
  \<^item> \<open>Frames\<close>: \<open>pool/frames.rs\<close>; residency words, stamps, the free stack.
  \<^item> \<open>Epoch\<close>, \<open>Reclaim\<close>: \<open>pool/epoch.rs\<close> and the pin path of \<open>pool/mod.rs\<close>; no guarded frame is
    reused in any interleaving, the scan never panics, quiescence reclaims.
  \<^item> \<open>Notifications\<close>, \<open>Clock\<close>, \<open>File_Slots\<close>: \<open>pool/prefetch/notifications.rs\<close>, \<open>pool/clock.rs\<close>,
    \<open>pool/file_slots.rs\<close> with \<open>pool/frame_pages.rs\<close>.
  \<^item> \<open>Slab\<close>, \<open>File_Table\<close>, \<open>Read_Vector\<close>, \<open>Retry\<close>, \<open>Eager\<close>, \<open>Write_Arena\<close>: the parts of the driver
    (\<open>driver.rs\<close>, \<open>driver/read_vector.rs\<close>, \<open>backend/eager.rs\<close>, \<open>pool/write_arena.rs\<close>).
  \<^item> \<open>Driver\<close> composes them into \<open>DriverCore\<close>; \<open>Driver_System\<close> is the step relation of its clients,
    \<open>Driver_Inv\<close>, \<open>Driver_Safety\<close> and \<open>Driver_Props\<close> its invariant and what follows: each operation
    exactly once, no panic in the locked phases, files outlive their operations.
  \<^item> \<open>Pool_Config\<close>, \<open>Driver_Build\<close>: configuration checks and construction, with every error.

  \<^bold>\<open>Bounds and fuel.\<close>  No definition runs on fuel chosen by the model: the bounded loops of the code
  carry the bound of the code (probe limits, reap passes, sweep lengths, retry bounds), and the
  properties that a loop returns are proved under that bound.  Two counters are assumed not to
  reach their end, 2 ^ 64 - 1 epoch advances and 2 ^ 62 generations of one frame, where a theorem
  says so.

  \<^bold>\<open>Not modelled.\<close>  The mock backend, the loom models, the command-line tools, examples and the bench
  observation hooks are test equipment; \<open>backend/uring.rs\<close>, \<open>memlock.rs\<close>, \<open>allocation.rs\<close> and the
  platform wake descriptor are system-call plumbing whose answers are arguments here; the prefetch
  policy, the miss table, retention and the pool's request lifecycle are not modelled.
\<close>

end
